(* ===== verification/Prelude.thy ===== *)
theory Prelude
  imports Main "HOL-Library.Word"
begin

text \<open>
  Shared vocabulary of the development: the bytes the programs move, the values of
  \<open>errno\<close> they compare against, the ways a C function can end, and the generic lemmas on
  lists that the component theories use.

  A C \<open>char\<close> is an Isabelle \<open>char\<close> (256 values), so a buffer is a list of them and string
  literals can be written as such.  A function that may call \<open>exit\<close> or \<open>abort\<close> has a result
  of type \<open>outcome\<close>: it returned a value, or the process is gone with a status.
\<close>

section \<open>Bytes, error numbers, outcomes\<close>

type_synonym byte = char

abbreviation (input) NUL :: byte where "NUL \<equiv> CHR 0x00"
abbreviation (input) NL :: byte where "NL \<equiv> CHR 0x0A"

datatype errno =
    EINTR | EIO | EBADF | EAGAIN | EACCES | EEXIST | ENOENT | EINVAL | ERANGE
  | EADDRINUSE | EIDRM | EPIPE | E2BIG

datatype 'a outcome =
    Returned 'a        \<comment> \<open>the function returned to its caller\<close>
  | Exited int         \<comment> \<open>\<open>exit\<close>, or \<open>err_sys\<close> and \<open>err_quit\<close>, which call it\<close>
  | Aborted            \<comment> \<open>\<open>abort\<close>, called by \<open>err_dump\<close>\<close>
  | Running            \<comment> \<open>still running: the fuel of the model, or its script of events, is used up\<close>

abbreviation (input) EXIT_SUCCESS :: int where "EXIT_SUCCESS \<equiv> 0"
abbreviation (input) EXIT_FAILURE :: int where "EXIT_FAILURE \<equiv> 1"

named_theorems kernel_simps \<open>results of the modelled system calls\<close>
named_theorems buffer_simps \<open>reading back what was stored in a buffer\<close>

section \<open>Storing a run of bytes into a buffer\<close>

text \<open>
  \<open>poke buf p xs\<close> is the memory after the bytes \<open>xs\<close> were stored one by one from offset
  \<open>p\<close> on, the effect of \<open>*ptr++ = c\<close> in a loop.
\<close>

fun poke :: "'a list \<Rightarrow> nat \<Rightarrow> 'a list \<Rightarrow> 'a list" where
  "poke buf p [] = buf"
| "poke buf p (x # xs) = poke (buf[p := x]) (Suc p) xs"

lemma length_poke [simp]: "length (poke buf p xs) = length buf"
  by (induction xs arbitrary: buf p) auto

lemma poke_append: "poke buf p (xs @ ys) = poke (poke buf p xs) (p + length xs) ys"
  by (induction xs arbitrary: buf p) auto

lemma poke_eq:
  "p + length xs \<le> length buf \<Longrightarrow> poke buf p xs = take p buf @ xs @ drop (p + length xs) buf"
proof (induction xs arbitrary: buf p)
  case Nil
  then show ?case by simp
next
  case (Cons x xs)
  have "poke buf p (x # xs) = take (Suc p) (buf[p := x]) @ xs @ drop (Suc p + length xs) (buf[p := x])"
    using Cons.IH [of "Suc p" "buf[p := x]"] Cons.prems by simp
  also have "take (Suc p) (buf[p := x]) = take p buf @ [x]"
    using Cons.prems by (simp add: take_Suc_conv_app_nth)
  also have "drop (Suc p + length xs) (buf[p := x]) = drop (p + length (x # xs)) buf"
    using Cons.prems by simp
  finally show ?case by simp
qed

lemma take_poke [buffer_simps]:
  "length xs \<le> length buf \<Longrightarrow> take (length xs) (poke buf 0 xs) = xs"
  by (simp add: poke_eq)

lemma poke_0_append [buffer_simps]:
  "length xs \<le> length buf \<Longrightarrow> poke buf 0 xs = xs @ drop (length xs) buf"
  by (simp add: poke_eq)

section \<open>Lines\<close>

text \<open>
  \<open>take_line m xs\<close> is what a line reader takes from \<open>xs\<close> when it may take \<open>m\<close> bytes: up to
  and including the first newline, and at most \<open>m\<close> bytes.
\<close>

fun take_line :: "nat \<Rightarrow> byte list \<Rightarrow> byte list" where
  "take_line 0 xs = []"
| "take_line (Suc m) [] = []"
| "take_line (Suc m) (x # xs) = x # (if x = NL then [] else take_line m xs)"

definition terminated :: "byte list \<Rightarrow> bool" where
  "terminated l \<longleftrightarrow> l \<noteq> [] \<and> last l = NL"

lemma terminated_Nil [simp]: "\<not> terminated []"
  by (simp add: terminated_def)

lemma terminated_Cons [simp]: "terminated (x # xs) \<longleftrightarrow> (if xs = [] then x = NL else terminated xs)"
  by (simp add: terminated_def)

lemma length_take_line: "length (take_line m xs) \<le> m"
  by (induction m xs rule: take_line.induct) auto

lemma take_line_Nil [simp]: "take_line m [] = []"
  by (cases m) auto

lemma take_line_eq_Nil [simp]: "take_line m xs = [] \<longleftrightarrow> m = 0 \<or> xs = []"
  by (cases m; cases xs) auto

lemma length_take_line_le: "length (take_line m xs) \<le> length xs"
  by (induction m xs rule: take_line.induct) auto

lemma take_line_prefix: "take_line m xs = take (length (take_line m xs)) xs"
  by (induction m xs rule: take_line.induct) auto

lemma take_line_append_drop: "take_line m xs @ drop (length (take_line m xs)) xs = xs"
  by (induction m xs rule: take_line.induct) auto

lemma take_line_numeral [simp]:
  "take_line (numeral k) (x # xs) = x # (if x = NL then [] else take_line (pred_numeral k) xs)"
  by (simp add: numeral_eq_Suc)

lemma drop_take_line_shrinks [simp]:
  "xs \<noteq> [] \<Longrightarrow> 0 < m \<Longrightarrow> length xs - length (take_line m xs) < length xs"
  by (rule diff_less) auto

lemma take_line_short:
  "\<not> terminated (take_line m xs) \<Longrightarrow> length (take_line m xs) < m \<Longrightarrow> take_line m xs = xs"
  by (induction m xs rule: take_line.induct) (auto split: if_splits)

lemma NL_take_line: "NL \<in> set (take_line m xs) \<Longrightarrow> terminated (take_line m xs)"
proof (induction m xs rule: take_line.induct)
  case (3 m x xs)
  then show ?case
    by (cases "take_line m xs") (auto simp del: take_line_eq_Nil split: if_splits)
qed auto

lemma take_line_exact:
  "length l < m \<Longrightarrow> NL \<notin> set l \<Longrightarrow> take_line m (l @ NL # rest) = l @ [NL]"
proof (induction l arbitrary: m)
  case Nil
  then show ?case by (cases m) auto
next
  case (Cons x l)
  then show ?case by (cases m) auto
qed

section \<open>Descriptor tables\<close>

text \<open>The lowest free descriptor below \<open>nofile\<close>, which \<open>open\<close>, \<open>socket\<close> and their like return.\<close>

definition lowest_free :: "nat \<Rightarrow> (nat \<Rightarrow> 'a option) \<Rightarrow> nat option" where
  "lowest_free nofile f = List.find (\<lambda>i. f i = None) [0..<nofile]"

lemma lowest_free_Some:
  "lowest_free nofile f = Some a \<longleftrightarrow> a < nofile \<and> f a = None \<and> (\<forall>i < a. f i \<noteq> None)"
proof -
  have "lowest_free nofile f = Some a \<longleftrightarrow> (\<exists>i < nofile. f i = None \<and> a = i \<and> (\<forall>j < i. f j \<noteq> None))"
    by (auto simp: lowest_free_def find_Some_iff)
  then show ?thesis by blast
qed

lemma lowest_free_None: "lowest_free nofile f = None \<longleftrightarrow> (\<forall>i < nofile. f i \<noteq> None)"
  by (auto simp: lowest_free_def find_None_iff)

end
