(* ===== verification/C_Library.thy ===== *)
theory C_Library
  imports Prelude
begin

text \<open>
  The part of the C library the modelled programs call: strings that end at the first NUL
  (\<open>strlen\<close>, \<open>strncmp\<close>), \<open>fgets\<close> on an input stream, the decimal conversions of
  \<open>sprintf\<close> and \<open>sscanf\<close> with the round trip between them, and integers in memory.
\<close>

section \<open>Strings\<close>

definition cstr :: "byte list \<Rightarrow> byte list" where
  "cstr buf = takeWhile (\<lambda>c. c \<noteq> NUL) buf"

definition strlen :: "byte list \<Rightarrow> nat" where
  "strlen buf = length (cstr buf)"

text \<open>The \<open>int\<close> value of a (signed) \<open>char\<close>.\<close>

definition char_val :: "byte \<Rightarrow> int" where
  "char_val c = (let n = of_char c :: int in if n < 128 then n else n - 256)"

text \<open>\<open>strncmp\<close> compares at most \<open>n\<close> bytes, as \<open>unsigned char\<close>, and stops at a NUL.\<close>

fun strncmp :: "byte list \<Rightarrow> byte list \<Rightarrow> nat \<Rightarrow> int" where
  "strncmp s t 0 = 0"
| "strncmp s t (Suc n) =
     (let a = (case s of [] \<Rightarrow> NUL | x # _ \<Rightarrow> x); b = (case t of [] \<Rightarrow> NUL | y # _ \<Rightarrow> y)
      in if a \<noteq> b then of_char a - of_char b
         else if a = NUL then 0 else strncmp (tl s) (tl t) n)"

lemma of_char_eq_0 [simp]: "(of_char c :: int) = 0 \<longleftrightarrow> c = NUL"
  using of_char_eq_iff [of c NUL, where ?'a = int] by simp

lemma cstr_append_NUL [simp]: "NUL \<notin> set xs \<Longrightarrow> cstr (xs @ NUL # ys) = xs"
proof -
  assume "NUL \<notin> set xs"
  then have "\<forall>x \<in> set xs. x \<noteq> NUL" by blast
  then show "cstr (xs @ NUL # ys) = xs" by (simp add: cstr_def takeWhile_append2)
qed

lemma strlen_append_NUL [simp]: "NUL \<notin> set xs \<Longrightarrow> strlen (xs @ NUL # ys) = length xs"
  by (simp add: strlen_def)

lemma cstr_no_NUL: "NUL \<notin> set xs \<Longrightarrow> cstr xs = xs"
  by (auto simp: cstr_def takeWhile_eq_all_conv)

lemma NUL_notin_cstr: "NUL \<notin> set (cstr xs)"
  by (auto simp: cstr_def dest: set_takeWhileD)

lemma strncmp_self: "strncmp s s n = 0"
  by (induction n arbitrary: s) (auto simp: Let_def split: list.splits)

lemma strncmp_0_iff:
  "strncmp s t n = 0 \<longleftrightarrow> take n (cstr s) = take n (cstr t)"
proof (induction s t n rule: strncmp.induct)
  case (1 s t)
  then show ?case by simp
next
  case (2 s t n)
  then show ?case
    by (cases s; cases t) (auto simp: Let_def cstr_def split: if_splits)
qed

section \<open>Standard input\<close>

text \<open>
  A \<open>FILE\<close> open for reading: the bytes still to come, and whether the stream ends in an
  error instead of an end-of-file.  \<open>fgets\<close> stores at most \<open>sz - 1\<close> bytes, up to and
  including a newline, and returns \<open>NULL\<close> when there is nothing left.
\<close>

record stream_in =
  rest :: "byte list"
  read_error :: bool

definition fgets :: "nat \<Rightarrow> stream_in \<Rightarrow> byte list option \<times> stream_in" where
  "fgets sz fp =
     (if rest fp = [] then (None, fp)
      else (let l = take_line (sz - 1) (rest fp)
            in (Some l, fp\<lparr>rest := drop (length l) (rest fp)\<rparr>)))"

lemma fgets_shrinks: "fgets sz fp = (Some l, fp') \<Longrightarrow> 1 < sz \<Longrightarrow> length (rest fp') < length (rest fp)"
  by (cases "rest fp"; cases sz; cases "sz - 1") (auto simp: fgets_def Let_def less_Suc_eq_le)

definition ferror :: "stream_in \<Rightarrow> bool" where
  "ferror fp \<longleftrightarrow> rest fp = [] \<and> read_error fp"

section \<open>Decimal conversion\<close>

definition digit_char :: "nat \<Rightarrow> byte" where
  "digit_char d = char_of (48 + d)"

definition is_digit :: "byte \<Rightarrow> bool" where
  "is_digit c \<longleftrightarrow> 48 \<le> (of_char c :: nat) \<and> (of_char c :: nat) \<le> 57"

definition digit_val :: "byte \<Rightarrow> nat" where
  "digit_val c = of_char c - 48"

fun show_nat :: "nat \<Rightarrow> byte list" where
  "show_nat n = (if n < 10 then [digit_char n] else show_nat (n div 10) @ [digit_char (n mod 10)])"

declare show_nat.simps [simp del]

definition show_int :: "int \<Rightarrow> byte list" where
  "show_int i = (if i < 0 then CHR ''-'' # show_nat (nat (- i)) else show_nat (nat i))"

text \<open>\<open>sprintf\<close> with \<open>%03d\<close>: at least three characters, padded with zeros after the sign.\<close>

definition show_03d :: "int \<Rightarrow> byte list" where
  "show_03d i =
     (let ds = show_nat (nat \<bar>i\<bar>); sgn = (if i < 0 then [CHR ''-''] else [])
      in sgn @ replicate (3 - length sgn - length ds) (CHR ''0'') @ ds)"

text \<open>\<open>sprintf\<close> with a minimal width and blanks on the left (\<open>%2d\<close>, \<open>%5d\<close>).\<close>

definition show_width :: "nat \<Rightarrow> int \<Rightarrow> byte list" where
  "show_width w i = (let s = show_int i in replicate (w - length s) (CHR '' '') @ s)"

definition is_space :: "byte \<Rightarrow> bool" where
  "is_space c \<longleftrightarrow> c \<in> set [CHR '' '', CHR 0x09, CHR 0x0A, CHR 0x0B, CHR 0x0C, CHR 0x0D]"

definition digits_val :: "byte list \<Rightarrow> nat" where
  "digits_val ds = foldl (\<lambda>a c. 10 * a + digit_val c) 0 ds"

text \<open>\<open>sscanf\<close> with \<open>%d\<close>: blanks, an optional sign, and at least one digit.\<close>

definition scan_d :: "byte list \<Rightarrow> int option" where
  "scan_d s =
     (let t = dropWhile is_space s;
          neg = (t \<noteq> [] \<and> hd t = CHR ''-'');
          u = (if t \<noteq> [] \<and> (hd t = CHR ''-'' \<or> hd t = CHR ''+'') then tl t else t);
          ds = takeWhile is_digit u
      in if ds = [] then None
         else Some (if neg then - int (digits_val ds) else int (digits_val ds)))"

lemma digit_char_table:
  "digit_char 0 = CHR ''0''" "digit_char 1 = CHR ''1''" "digit_char 2 = CHR ''2''"
  "digit_char 3 = CHR ''3''" "digit_char 4 = CHR ''4''" "digit_char 5 = CHR ''5''"
  "digit_char 6 = CHR ''6''" "digit_char 7 = CHR ''7''" "digit_char 8 = CHR ''8''"
  "digit_char 9 = CHR ''9''"
  by code_simp+

lemma digit_char_props [simp]:
  assumes "d < 10"
  shows "is_digit (digit_char d)" "digit_val (digit_char d) = d" "digit_char d \<noteq> CHR ''-''"
    "digit_char d \<noteq> CHR ''+''" "\<not> is_space (digit_char d)" "digit_char d \<noteq> NUL"
    "digit_char d \<noteq> NL"
proof -
  have "d \<in> {0, 1, 2, 3, 4, 5, 6, 7, 8, 9}" using assms by auto
  then show "is_digit (digit_char d)" "digit_val (digit_char d) = d"
    "digit_char d \<noteq> CHR ''-''" "digit_char d \<noteq> CHR ''+''" "\<not> is_space (digit_char d)"
    "digit_char d \<noteq> NUL" "digit_char d \<noteq> NL"
    by (auto simp: digit_char_table [simplified] is_digit_def digit_val_def is_space_def)
qed

lemma show_nat_not_Nil [simp]: "show_nat n \<noteq> []"
  by (subst show_nat.simps) simp

lemma set_show_nat: "c \<in> set (show_nat n) \<Longrightarrow> \<exists>d < 10. c = digit_char d"
proof (induction n rule: show_nat.induct)
  case (1 n)
  show ?case
  proof (cases "n < 10")
    case True
    with 1 show ?thesis by (auto simp: show_nat.simps [of n])
  next
    case False
    with "1.prems" have "c \<in> set (show_nat (n div 10)) \<or> c = digit_char (n mod 10)"
      by (auto simp: show_nat.simps [of n])
    then show ?thesis
    proof
      assume "c \<in> set (show_nat (n div 10))"
      then show ?thesis using "1.IH" False by blast
    next
      assume "c = digit_char (n mod 10)"
      then show ?thesis by (intro exI [of _ "n mod 10"]) simp
    qed
  qed
qed

lemma show_nat_digits: "c \<in> set (show_nat n) \<Longrightarrow> is_digit c"
  using set_show_nat by fastforce

lemma digits_val_append [simp]: "digits_val (xs @ [d]) = 10 * digits_val xs + digit_val d"
  by (simp add: digits_val_def)

lemma digits_val_show_nat [simp]: "digits_val (show_nat n) = n"
proof (induction n rule: show_nat.induct)
  case (1 n)
  show ?case
  proof (cases "n < 10")
    case True
    then show ?thesis by (simp add: show_nat.simps [of n] digits_val_def)
  next
    case False
    with "1.IH" show ?thesis by (simp add: show_nat.simps [of n])
  qed
qed

lemma digits_val_zeros: "digits_val (replicate k (CHR ''0'') @ ds) = digits_val ds"
proof (induction k)
  case (Suc k)
  have "digit_val (CHR ''0'') = 0" by (simp add: digit_val_def)
  with Suc show ?case by (simp add: digits_val_def)
qed simp

lemma is_digit_0 [simp]: "is_digit (CHR ''0'')" "\<not> is_space (CHR ''0'')"
  by (simp_all add: is_digit_def is_space_def)

lemma hd_show_03d:
  assumes "0 \<le> i"
  shows "show_03d i \<noteq> []" "\<forall>c \<in> set (show_03d i). is_digit c"
    "digits_val (show_03d i) = nat i"
  using assms by (auto simp: show_03d_def Let_def digits_val_zeros dest: show_nat_digits)

lemma digit_not_sign: "is_digit c \<Longrightarrow> c \<noteq> CHR ''-'' \<and> c \<noteq> CHR ''+'' \<and> \<not> is_space c"
  by (auto simp: is_digit_def is_space_def)

lemma scan_d_digits:
  assumes "ds \<noteq> []" "\<forall>c \<in> set ds. is_digit c" "tail = [] \<or> \<not> is_digit (hd tail)"
  shows "scan_d (ds @ tail) = Some (int (digits_val ds))"
proof -
  have hd: "is_digit (hd ds)" using assms by simp
  have sp: "dropWhile is_space (ds @ tail) = ds @ tail"
    using assms(1) digit_not_sign [OF hd] by (cases ds) auto
  have tk: "takeWhile is_digit (ds @ tail) = ds"
    using assms by (cases tail) (auto simp: takeWhile_append takeWhile_eq_all_conv)
  show ?thesis
    using assms(1) digit_not_sign [OF hd]
    by (simp add: scan_d_def Let_def sp tk hd_append)
qed

lemma not_is_digit_NL [simp]: "\<not> is_digit NL"
  by (simp add: is_digit_def)

lemma scan_show_03d:
  "0 \<le> i \<Longrightarrow> scan_d (show_03d i @ NL # tail) = Some i"
  using scan_d_digits [of "show_03d i" "NL # tail"] hd_show_03d [of i] by simp

lemma length_show_nat: "n < 10 ^ k \<Longrightarrow> 0 < k \<Longrightarrow> length (show_nat n) \<le> k"
proof (induction n arbitrary: k rule: show_nat.induct)
  case (1 n)
  show ?case
  proof (cases "n < 10")
    case False
    then obtain j where j: "k = Suc j" "0 < j" using 1 by (cases k; cases "k - 1") auto
    then have "n div 10 < 10 ^ j" using 1(2) by (simp add: less_mult_imp_div_less)
    then show ?thesis using 1(1) [of j] False j by (simp add: show_nat.simps [of n])
  qed (use 1 in \<open>simp add: show_nat.simps [of n]\<close>)
qed

section \<open>Integers in memory\<close>

text \<open>Little-endian numbers.\<close>

fun le_bytes :: "nat \<Rightarrow> nat \<Rightarrow> byte list" where
  "le_bytes 0 n = []"
| "le_bytes (Suc k) n = char_of n # le_bytes k (n div 256)"

fun le_val :: "byte list \<Rightarrow> nat" where
  "le_val [] = 0"
| "le_val (b # bs) = of_char b + 256 * le_val bs"

definition signed_of :: "nat \<Rightarrow> nat \<Rightarrow> int" where
  "signed_of w n = (if n < 2 ^ (w - 1) then int n else int n - 2 ^ w)"

lemma length_le_bytes [simp]: "length (le_bytes k n) = k"
  by (induction k n rule: le_bytes.induct) auto

lemma le_val_bytes: "n < 256 ^ k \<Longrightarrow> le_val (le_bytes k n) = n"
proof (induction k n rule: le_bytes.induct)
  case (2 k n)
  then have "n div 256 < 256 ^ k" by (simp add: less_mult_imp_div_less mult.commute)
  then show ?case using 2 by (simp add: le_bytes.simps)
qed simp

lemma le_signed:
  assumes "0 < k" "- (2 ^ (8 * k - 1)) \<le> t" "t < 2 ^ (8 * k - 1)"
  shows "signed_of (8 * k) (le_val (le_bytes k (nat (t mod 2 ^ (8 * k))))) = t"
proof -
  have "8 * k = Suc (8 * k - 1)" using assms(1) by simp
  then have p: "(2 :: int) ^ (8 * k) = 2 * 2 ^ (8 * k - 1)" by (metis power_Suc)
  have m: "nat (t mod 2 ^ (8 * k)) < 256 ^ k"
    using power_mult [of "2 :: int" 8 k] pos_mod_bound [of "2 ^ (8 * k)" t] by (simp add: nat_less_iff)
  show ?thesis
  proof (cases "0 \<le> t")
    case True
    then have "t mod 2 ^ (8 * k) = t" using assms p by simp
    then show ?thesis using True assms le_val_bytes [OF m] by (simp add: signed_of_def nat_less_iff)
  next
    case False
    have "(t + 2 ^ (8 * k)) mod 2 ^ (8 * k) = t mod 2 ^ (8 * k)" by simp
    moreover have "(t + 2 ^ (8 * k)) mod 2 ^ (8 * k) = t + 2 ^ (8 * k)"
      using False assms p by (intro mod_pos_pos_trivial) simp_all
    ultimately have e: "t mod 2 ^ (8 * k) = t + 2 ^ (8 * k)" by simp
    have nn: "0 \<le> t + 2 ^ (8 * k)" "2 ^ (8 * k - 1) \<le> t + 2 ^ (8 * k)" using assms(2) p zero_le_power [of "2 :: int" "8 * k - 1"] by linarith+
    then have n: "\<not> nat (t + 2 ^ (8 * k)) < 2 ^ (8 * k - 1)" by (simp add: nat_less_iff)
    have v: "le_val (le_bytes k (nat (t mod 2 ^ (8 * k)))) = nat (t + 2 ^ (8 * k))" using le_val_bytes [OF m] unfolding e .
    show ?thesis unfolding signed_of_def v if_not_P [OF n] using nn(1) by simp
  qed
qed

end
