(* ===== verification/Kernel_IO.thy ===== *)
theory Kernel_IO
  imports C_Library
begin

text \<open>
  What the programs rely on from \<open>read\<close> and \<open>write\<close>, as two interfaces: a byte reader
  delivers its pending bytes in pieces of the kernel's choosing and then an end-of-file or an
  error, a byte writer takes a prefix of what it is offered.  The scripted descriptors
  \<open>source\<close> and \<open>sink\<close> implement them: their scripts decide where the kernel splits the
  stream, so a statement about every script is a statement about every splitting.
\<close>

section \<open>Scripted descriptors\<close>

datatype arrival = Data "byte list" | Fault errno

type_synonym source = "arrival list"

text \<open>
  \<open>read(fd, buf, n)\<close>: an empty result is the end-of-file (or \<open>n = 0\<close>); a chunk longer than
  \<open>n\<close> is delivered in parts.
\<close>

fun sys_read :: "source \<Rightarrow> nat \<Rightarrow> (errno + byte list) \<times> source" where
  "sys_read [] n = (Inr [], [])"
| "sys_read (Fault e # s) n = (Inl e, s)"
| "sys_read (Data xs # s) n =
     (if xs = [] then sys_read s n
      else if length xs \<le> n then (Inr xs, s)
      else (Inr (take n xs), Data (drop n xs) # s))"

fun src_pending :: "source \<Rightarrow> byte list" where
  "src_pending [] = []"
| "src_pending (Fault e # s) = []"
| "src_pending (Data xs # s) = xs @ src_pending s"

fun src_broken :: "source \<Rightarrow> errno option" where
  "src_broken [] = None"
| "src_broken (Fault e # s) = Some e"
| "src_broken (Data xs # s) = src_broken s"

datatype grant = Accept nat | Refuse errno

record sink =
  written :: "byte list"
  grants :: "grant list"

text \<open>\<open>write(fd, xs, n)\<close> with \<open>n\<close> the length of \<open>xs\<close>: an empty script accepts everything.\<close>

definition sys_write :: "sink \<Rightarrow> byte list \<Rightarrow> (errno + nat) \<times> sink" where
  "sys_write k xs =
     (case grants k of
        [] \<Rightarrow> (Inr (length xs), k\<lparr>written := written k @ xs\<rparr>)
      | Accept m # gs \<Rightarrow>
          (Inr (min m (length xs)), k\<lparr>written := written k @ take m xs, grants := gs\<rparr>)
      | Refuse e # gs \<Rightarrow> (Inl e, k\<lparr>grants := gs\<rparr>))"

definition sink_willing :: "sink \<Rightarrow> bool" where
  "sink_willing k \<longleftrightarrow> (\<forall>g \<in> set (grants k). \<exists>m > 0. g = Accept m)"

section \<open>The interfaces\<close>

locale byte_reader =
  fixes rd :: "'c \<Rightarrow> nat \<Rightarrow> (errno + byte list) \<times> 'c"
    and pending :: "'c \<Rightarrow> byte list"
    and broken :: "'c \<Rightarrow> errno option"
  assumes rd_some: "pending s \<noteq> [] \<Longrightarrow> 0 < n \<Longrightarrow>
      \<exists>xs s'. rd s n = (Inr xs, s') \<and> xs \<noteq> [] \<and> length xs \<le> n \<and>
        pending s = xs @ pending s' \<and> broken s' = broken s"
    and rd_eof: "pending s = [] \<Longrightarrow> broken s = None \<Longrightarrow> 0 < n \<Longrightarrow>
      \<exists>s'. rd s n = (Inr [], s') \<and> pending s' = [] \<and> broken s' = None"
    and rd_fail: "pending s = [] \<Longrightarrow> broken s = Some e \<Longrightarrow> 0 < n \<Longrightarrow>
      \<exists>s'. rd s n = (Inl e, s')"

locale byte_writer =
  fixes wr :: "'c \<Rightarrow> byte list \<Rightarrow> (errno + nat) \<times> 'c"
    and out :: "'c \<Rightarrow> byte list"
    and willing :: "'c \<Rightarrow> bool"
  assumes wr_some: "wr k xs = (Inr a, k') \<Longrightarrow> a \<le> length xs \<and> out k' = out k @ take a xs"
    and wr_fail: "wr k xs = (Inl e, k') \<Longrightarrow> out k' = out k"
    and wr_willing: "willing k \<Longrightarrow> xs \<noteq> [] \<Longrightarrow>
      \<exists>a k'. wr k xs = (Inr a, k') \<and> 0 < a \<and> willing k'"

text \<open>A duplex connection: its two directions do not disturb each other.\<close>

locale duplex = byte_reader rd pending broken + byte_writer wr out willing
  for rd :: "'c \<Rightarrow> nat \<Rightarrow> (errno + byte list) \<times> 'c"
    and pending :: "'c \<Rightarrow> byte list"
    and broken :: "'c \<Rightarrow> errno option"
    and wr :: "'c \<Rightarrow> byte list \<Rightarrow> (errno + nat) \<times> 'c"
    and out :: "'c \<Rightarrow> byte list"
    and willing :: "'c \<Rightarrow> bool" +
  assumes rd_out: "rd c n = (r, c') \<Longrightarrow> out c' = out c \<and> (willing c' \<longleftrightarrow> willing c)"
    and wr_pending: "wr c xs = (w, c') \<Longrightarrow> pending c' = pending c \<and> broken c' = broken c"

section \<open>The scripted descriptors implement them\<close>

lemma sys_read_some:
  "src_pending s \<noteq> [] \<Longrightarrow> 0 < n \<Longrightarrow>
     \<exists>xs s'. sys_read s n = (Inr xs, s') \<and> xs \<noteq> [] \<and> length xs \<le> n \<and>
       src_pending s = xs @ src_pending s' \<and> src_broken s' = src_broken s"
  by (induction s n rule: sys_read.induct) auto

lemma sys_read_eof:
  "src_pending s = [] \<Longrightarrow> src_broken s = None \<Longrightarrow>
     \<exists>s'. sys_read s n = (Inr [], s') \<and> src_pending s' = [] \<and> src_broken s' = None"
  by (induction s n rule: sys_read.induct) auto

lemma sys_read_fail:
  "src_pending s = [] \<Longrightarrow> src_broken s = Some e \<Longrightarrow> \<exists>s'. sys_read s n = (Inl e, s')"
  by (induction s n rule: sys_read.induct) auto

lemma sys_write_some:
  "sys_write k xs = (Inr a, k') \<Longrightarrow> a \<le> length xs \<and> written k' = written k @ take a xs"
  by (auto simp: sys_write_def min_def split: list.splits grant.splits if_splits)

lemma sys_write_fail: "sys_write k xs = (Inl e, k') \<Longrightarrow> written k' = written k"
  by (auto simp: sys_write_def split: list.splits grant.splits)

lemma sys_write_willing:
  "sink_willing k \<Longrightarrow> xs \<noteq> [] \<Longrightarrow>
     \<exists>a k'. sys_write k xs = (Inr a, k') \<and> 0 < a \<and> sink_willing k'"
  by (auto simp: sys_write_def sink_willing_def split: list.splits grant.splits)

interpretation file_reader: byte_reader sys_read src_pending src_broken
  by unfold_locales (use sys_read_some sys_read_eof sys_read_fail in blast)+

interpretation file_writer: byte_writer sys_write written sink_willing
  by unfold_locales (use sys_write_some sys_write_fail sys_write_willing in blast)+

text \<open>A connected socket is a source and a sink behind one descriptor.\<close>

definition sock_read :: "source \<times> sink \<Rightarrow> nat \<Rightarrow> (errno + byte list) \<times> source \<times> sink" where
  "sock_read c n = (let (r, s) = sys_read (fst c) n in (r, s, snd c))"

definition sock_write :: "source \<times> sink \<Rightarrow> byte list \<Rightarrow> (errno + nat) \<times> source \<times> sink" where
  "sock_write c xs = (let (r, k) = sys_write (snd c) xs in (r, fst c, k))"

interpretation sock: duplex sock_read "\<lambda>c. src_pending (fst c)" "\<lambda>c. src_broken (fst c)"
  sock_write "\<lambda>c. written (snd c)" "\<lambda>c. sink_willing (snd c)"
proof unfold_locales
  fix s :: "source \<times> sink" and n :: nat and e
  show "src_pending (fst s) \<noteq> [] \<Longrightarrow> 0 < n \<Longrightarrow> \<exists>xs s'. sock_read s n = (Inr xs, s') \<and>
      xs \<noteq> [] \<and> length xs \<le> n \<and> src_pending (fst s) = xs @ src_pending (fst s') \<and>
      src_broken (fst s') = src_broken (fst s)"
    using sys_read_some [of "fst s" n] by (auto simp: sock_read_def)
  show "src_pending (fst s) = [] \<Longrightarrow> src_broken (fst s) = None \<Longrightarrow> 0 < n \<Longrightarrow>
      \<exists>s'. sock_read s n = (Inr [], s') \<and> src_pending (fst s') = [] \<and> src_broken (fst s') = None"
    using sys_read_eof [of "fst s" n] by (auto simp: sock_read_def)
  show "src_pending (fst s) = [] \<Longrightarrow> src_broken (fst s) = Some e \<Longrightarrow> 0 < n \<Longrightarrow>
      \<exists>s'. sock_read s n = (Inl e, s')"
    using sys_read_fail [of "fst s" e n] by (auto simp: sock_read_def)
next
  fix k k' :: "source \<times> sink" and xs a e
  show "sock_write k xs = (Inr a, k') \<Longrightarrow>
      a \<le> length xs \<and> written (snd k') = written (snd k) @ take a xs"
    using sys_write_some [of "snd k" xs a] by (auto simp: sock_write_def split: prod.splits)
  show "sock_write k xs = (Inl e, k') \<Longrightarrow> written (snd k') = written (snd k)"
    using sys_write_fail [of "snd k" xs e] by (auto simp: sock_write_def split: prod.splits)
  show "sink_willing (snd k) \<Longrightarrow> xs \<noteq> [] \<Longrightarrow>
      \<exists>a k'. sock_write k xs = (Inr a, k') \<and> 0 < a \<and> sink_willing (snd k')"
    using sys_write_willing [of "snd k" xs] by (auto simp: sock_write_def)
qed (auto simp: sock_read_def sock_write_def split: prod.splits)

end
