(* ===== verification/Stream_IO.thy ===== *)
theory Stream_IO
  imports Kernel_IO
begin

text \<open>
  The stream routines shared by every socket program: \<open>readn\<close>, \<open>writen\<close>, \<open>readline\<close>
  (\<open>Sockets/1.tcp/*.c\<close>, \<open>Sockets/utility_routines/utils/*.c\<close> and their copies).  The
  \<open>read\<close> and \<open>write\<close> they call are arguments; the lemmas are proved for every
  implementation of the interfaces of \<open>Kernel_IO\<close> and stated on the scripted socket by its
  interpretation.  A buffer is the whole array the caller passes, updated in place.
\<close>

section \<open>The routines\<close>

text \<open>\<open>readn\<close>: \<open>off\<close> is \<open>ptr\<close> as an offset into the caller's array.\<close>

function readn_loop ::
  "('c \<Rightarrow> nat \<Rightarrow> (errno + byte list) \<times> 'c) \<Rightarrow> 'c \<Rightarrow> byte list \<Rightarrow> nat \<Rightarrow> int \<Rightarrow> int \<Rightarrow> int \<times> byte list \<times> 'c"
where
  "readn_loop rd c buf off nbytes nleft =
     (if 0 < nleft then
        (case rd c (nat nleft) of
           (Inl e, c') \<Rightarrow> (- 1, buf, c')
         | (Inr xs, c') \<Rightarrow>
             if length xs = 0 then (nbytes - nleft, buf, c')
             else readn_loop rd c' (poke buf off xs) (off + length xs) nbytes
                    (nleft - int (length xs)))
      else (nbytes - nleft, buf, c))"
  by pat_completeness auto
termination by (relation "measure (\<lambda>(rd, c, buf, off, nbytes, nleft). nat nleft)") auto

definition readn ::
  "('c \<Rightarrow> nat \<Rightarrow> (errno + byte list) \<times> 'c) \<Rightarrow> 'c \<Rightarrow> byte list \<Rightarrow> int \<Rightarrow> int \<times> byte list \<times> 'c"
where
  "readn rd c buf nbytes = readn_loop rd c buf 0 nbytes nbytes"

function writen_loop ::
  "('c \<Rightarrow> byte list \<Rightarrow> (errno + nat) \<times> 'c) \<Rightarrow> 'c \<Rightarrow> byte list \<Rightarrow> int \<Rightarrow> int \<Rightarrow> int \<times> 'c"
where
  "writen_loop wr c ptr nbytes nleft =
     (if 0 < nleft then
        (case wr c (take (nat nleft) ptr) of
           (Inl e, c') \<Rightarrow> (- 1, c')
         | (Inr nwritten, c') \<Rightarrow>
             if nwritten = 0 then (0, c')
             else writen_loop wr c' (drop nwritten ptr) nbytes (nleft - int nwritten))
      else (nbytes - nleft, c))"
  by pat_completeness auto
termination by (relation "measure (\<lambda>(wr, c, ptr, nbytes, nleft). nat nleft)") auto

definition writen ::
  "('c \<Rightarrow> byte list \<Rightarrow> (errno + nat) \<times> 'c) \<Rightarrow> 'c \<Rightarrow> byte list \<Rightarrow> int \<Rightarrow> int \<times> 'c"
where
  "writen wr c ptr nbytes = writen_loop wr c ptr nbytes nbytes"

text \<open>\<open>readline\<close>: in the loop \<open>ptr\<close> is the caller's pointer plus \<open>n - 1\<close>.\<close>

function readline_loop ::
  "('c \<Rightarrow> nat \<Rightarrow> (errno + byte list) \<times> 'c) \<Rightarrow> 'c \<Rightarrow> byte list \<Rightarrow> int \<Rightarrow> int \<Rightarrow> int \<times> byte list \<times> 'c"
where
  "readline_loop rd c buf n maxlen =
     (if n < maxlen then
        (case rd c 1 of
           (Inl e, c') \<Rightarrow> (- 1, buf, c')
         | (Inr [], c') \<Rightarrow> if n = 1 then (0, buf, c') else (n, buf[nat (n - 1) := NUL], c')
         | (Inr (ch # _), c') \<Rightarrow>
             let buf' = buf[nat (n - 1) := ch]
             in if ch = NL then (n, buf'[nat n := NUL], c')
                else readline_loop rd c' buf' (n + 1) maxlen)
      else (n, buf[nat (n - 1) := NUL], c))"
  by pat_completeness auto
termination by (relation "measure (\<lambda>(rd, c, buf, n, maxlen). nat (maxlen - n))") auto

definition readline ::
  "('c \<Rightarrow> nat \<Rightarrow> (errno + byte list) \<times> 'c) \<Rightarrow> 'c \<Rightarrow> byte list \<Rightarrow> int \<Rightarrow> int \<times> byte list \<times> 'c"
where
  "readline rd c buf maxlen = readline_loop rd c buf 1 maxlen"

text \<open>
  The annotated copy under \<open>utility_routines/utils\<close> reads into \<open>*ptr\<close> and then stores the
  local \<open>c\<close>, which nothing assigns: its value is the argument \<open>junk\<close>.
\<close>

function readline_utils_loop ::
  "byte \<Rightarrow> ('c \<Rightarrow> nat \<Rightarrow> (errno + byte list) \<times> 'c) \<Rightarrow> 'c \<Rightarrow> byte list \<Rightarrow> int \<Rightarrow> int \<Rightarrow> int \<times> byte list \<times> 'c"
where
  "readline_utils_loop junk rd c buf n maxlen =
     (if n < maxlen then
        (case rd c 1 of
           (Inl e, c') \<Rightarrow> (- 1, buf, c')
         | (Inr [], c') \<Rightarrow> if n = 1 then (0, buf, c') else (n, buf[nat (n - 1) := NUL], c')
         | (Inr (ch # _), c') \<Rightarrow>
             let buf' = (buf[nat (n - 1) := ch])[nat (n - 1) := junk]
             in if junk = NL then (n, buf'[nat n := NUL], c')
                else readline_utils_loop junk rd c' buf' (n + 1) maxlen)
      else (n, buf[nat (n - 1) := NUL], c))"
  by pat_completeness auto
termination by (relation "measure (\<lambda>(junk, rd, c, buf, n, maxlen). nat (maxlen - n))") auto

definition readline_utils ::
  "byte \<Rightarrow> ('c \<Rightarrow> nat \<Rightarrow> (errno + byte list) \<times> 'c) \<Rightarrow> 'c \<Rightarrow> byte list \<Rightarrow> int \<Rightarrow> int \<times> byte list \<times> 'c"
where
  "readline_utils junk rd c buf maxlen = readline_utils_loop junk rd c buf 1 maxlen"

declare readn_loop.simps [simp del] writen_loop.simps [simp del] readline_loop.simps [simp del]
  readline_utils_loop.simps [simp del]

section \<open>What they are for\<close>

text \<open>The value \<open>readline\<close> returns when its array has \<open>m\<close> bytes and \<open>l\<close> is what it took.\<close>

definition readline_ret :: "nat \<Rightarrow> byte list \<Rightarrow> errno option \<Rightarrow> int" where
  "readline_ret m l br =
     (if terminated l then int (length l)
      else if length l + 1 = m then int m
      else if br \<noteq> None then - 1
      else if l = [] then 0
      else int (length l) + 1)"

context byte_reader
begin

lemma readn_loop_spec:
  assumes "0 \<le> nleft" "off + nat nleft \<le> length buf"
  shows "\<exists>c'. readn_loop rd c buf off nbytes nleft =
           (if nat nleft \<le> length (pending c) \<or> broken c = None
            then nbytes - nleft + int (length (take (nat nleft) (pending c))) else - 1,
            poke buf off (take (nat nleft) (pending c)), c') \<and>
         (nat nleft \<le> length (pending c) \<or> broken c = None \<longrightarrow>
            pending c' = drop (nat nleft) (pending c) \<and> broken c' = broken c)"
  using assms
proof (induction "nat nleft" arbitrary: nleft off buf c rule: less_induct)
  case less
  show ?case
  proof (cases "0 < nleft")
    case False
    with less.prems show ?thesis by (auto simp: readn_loop.simps [of rd c])
  next
    case pos: True
    show ?thesis
    proof (cases "pending c = []")
      case True
      then show ?thesis
        using pos rd_eof [of c "nat nleft"] rd_fail [of c _ "nat nleft"]
        by (cases "broken c") (fastforce simp: readn_loop.simps [of rd c])+
    next
      case False
      obtain xs c1 where rd: "rd c (nat nleft) = (Inr xs, c1)" "xs \<noteq> []" "length xs \<le> nat nleft"
        and p: "pending c = xs @ pending c1" "broken c1 = broken c"
        using rd_some [OF False, of "nat nleft"] pos by auto
      let ?nl = "nleft - int (length xs)"
      have nl: "nat ?nl = nat nleft - length xs" "0 \<le> ?nl" using rd(3) pos by linarith+
      have "nat ?nl < nat nleft" using rd(2) pos by (cases xs) auto
      moreover have "off + length xs + nat ?nl \<le> length (poke buf off xs)"
        using less.prems rd(3) nl by simp
      moreover have "readn_loop rd c buf off nbytes nleft =
          readn_loop rd c1 (poke buf off xs) (off + length xs) nbytes ?nl"
        using pos rd(2) by (simp add: readn_loop.simps [of rd c] rd(1))
      ultimately show ?thesis
        using less.hyps [of ?nl "off + length xs" "poke buf off xs" c1] nl rd(3) p
        by (auto simp: poke_append)
    qed
  qed
qed

lemma readn_correct:
  assumes "0 \<le> nbytes" "nat nbytes \<le> length buf"
    and "nat nbytes \<le> length (pending c) \<or> broken c = None"
  shows "\<exists>c'. readn rd c buf nbytes =
           (int (length (take (nat nbytes) (pending c))),
            take (nat nbytes) (pending c) @ drop (length (take (nat nbytes) (pending c))) buf, c') \<and>
         pending c' = drop (nat nbytes) (pending c) \<and> broken c' = broken c"
  using readn_loop_spec [of nbytes 0 buf c nbytes] assms
  by (auto simp: readn_def poke_0_append)

lemma readline_loop_spec:
  assumes "k < m" "m \<le> length buf" and l: "l = take_line (m - Suc k) (pending c)"
  defines "r \<equiv> (if terminated l then int (k + length l)
                else if k + length l + 1 = m then int m
                else if broken c \<noteq> None then - 1
                else if k = 0 \<and> l = [] then 0
                else int (k + length l) + 1)"
  shows "\<exists>c'. readline_loop rd c buf (int k + 1) (int m) =
           (r, poke buf k (if r \<le> 0 then l else l @ [NUL]), c') \<and>
         (0 \<le> r \<longrightarrow> pending c' = drop (length l) (pending c) \<and> broken c' = broken c)"
  using assms(1,2) l unfolding r_def
proof (induction "m - k" arbitrary: k c buf l rule: less_induct)
  case less
  note unf = readline_loop.simps [of rd c buf "int k + 1" "int m"]
  show ?case
  proof (cases "int k + 1 < int m")
    case False
    then have "m = Suc k" using less.prems by simp
    with less.prems show ?thesis
      by (simp add: readline_loop.simps [of rd c buf "int k + 1" "1 + int k"])
  next
    case lt: True
    then obtain j where j: "m - Suc k = Suc j" by (metis Suc_diff_Suc add.commute of_nat_less_iff of_nat_Suc)
    show ?thesis
    proof (cases "pending c = []")
      case True
      then have "l = []" using less.prems by simp
      with True show ?thesis
        using lt j rd_eof [of c 1] rd_fail [of c _ 1] unf
        by (cases "broken c") (fastforce simp: nat_add_distrib)+
    next
      case False
      obtain xs c1 where rd: "rd c 1 = (Inr xs, c1)" "xs \<noteq> []" "length xs \<le> 1"
        and p: "pending c = xs @ pending c1" "broken c1 = broken c"
        using rd_some [OF False, of 1] by auto
      obtain ch where xs: "xs = [ch]" using rd(2,3) by (cases xs) auto
      show ?thesis
      proof (cases "ch = NL")
        case True
        then have "l = [NL]" using less.prems j xs p by simp
        then show ?thesis using lt True xs rd p unf by (simp add: nat_add_distrib)
      next
        case False
        define l1 where "l1 = take_line (m - Suc (Suc k)) (pending c1)"
        have mj: "m - Suc (Suc k) = j" using j by simp
        have l: "l = ch # l1"
          using less.prems j xs p False mj by (simp add: l1_def)
        have "readline_loop rd c buf (int k + 1) (int m) =
            readline_loop rd c1 (buf[k := ch]) (int (Suc k) + 1) (int m)"
          using lt False xs rd unf by (simp add: ac_simps)
        moreover have "m - Suc k < m - k" "Suc k < m" "m \<le> length (buf[k := ch])"
          using lt less.prems by auto
        ultimately show ?thesis
          using less.hyps [of "Suc k" "buf[k := ch]" l1 c1] p xs False
          by (auto simp: l1_def [symmetric] l)
      qed
    qed
  qed
qed

lemma readline_correct:
  assumes "0 < m" "m \<le> length buf" and l: "l = take_line (m - 1) (pending c)"
    and r: "r = readline_ret m l (broken c)"
  shows "\<exists>c'. readline rd c buf (int m) =
           (r, (if r \<le> 0 then l else l @ [NUL]) @ drop (if r \<le> 0 then length l else Suc (length l)) buf, c') \<and>
         (0 \<le> r \<longrightarrow> pending c' = drop (length l) (pending c) \<and> broken c' = broken c)"
proof -
  have "length l < m" using length_take_line [of "m - 1" "pending c"] l assms(1) by simp
  then show ?thesis
    using readline_loop_spec [of 0 m buf l c] assms
    by (auto simp: readline_def readline_ret_def poke_0_append split: if_splits)
qed

end

context byte_writer
begin

lemma writen_loop_spec:
  assumes "0 \<le> nleft" "nat nleft \<le> length ptr"
    and "writen_loop wr c ptr nbytes nleft = (r, c')"
  shows "\<exists>j \<le> nat nleft. out c' = out c @ take j ptr \<and>
           (j = nat nleft \<and> r = nbytes \<or> j < nat nleft \<and> r \<in> {0, - 1})"
  using assms
proof (induction "nat nleft" arbitrary: nleft ptr c rule: less_induct)
  case less
  show ?case
  proof (cases "0 < nleft")
    case False
    with less.prems show ?thesis by (auto simp: writen_loop.simps [of wr c])
  next
    case pos: True
    obtain w c1 where w: "wr c (take (nat nleft) ptr) = (w, c1)" by fastforce
    show ?thesis
    proof (cases w)
      case (Inl e)
      then show ?thesis
        using less.prems pos w wr_fail by (intro exI [of _ 0]) (auto simp: writen_loop.simps [of wr c])
    next
      case (Inr a)
      have a: "a \<le> nat nleft"
        using wr_some [of c "take (nat nleft) ptr" a c1] w Inr by simp
      then have out1: "out c1 = out c @ take a ptr"
        using wr_some [of c "take (nat nleft) ptr" a c1] w Inr by (simp add: min_def)
      show ?thesis
      proof (cases "a = 0")
        case True
        then show ?thesis
          using less.prems pos w Inr out1 by (intro exI [of _ 0]) (auto simp: writen_loop.simps [of wr c])
      next
        case False
        let ?nl = "nleft - int a"
        have nl: "nat ?nl = nat nleft - a" "0 \<le> ?nl" using a pos by linarith+
        have "writen_loop wr c1 (drop a ptr) nbytes ?nl = (r, c')"
          using less.prems(3) pos w Inr False by (simp add: writen_loop.simps [of wr c])
        then obtain j where "j \<le> nat ?nl" "out c' = out c1 @ take j (drop a ptr)"
            "j = nat ?nl \<and> r = nbytes \<or> j < nat ?nl \<and> r \<in> {0, - 1}"
          using less.hyps [of ?nl "drop a ptr" c1] nl False pos less.prems(2)
          by (simp add: diff_le_mono) blast
        then show ?thesis
          using a nl out1 by (intro exI [of _ "a + j"]) (auto simp: take_add)
      qed
    qed
  qed
qed

lemma writen_loop_willing:
  assumes "willing c" "nat nleft \<le> length ptr" "0 \<le> nleft"
  shows "\<exists>c'. writen_loop wr c ptr nbytes nleft = (nbytes, c') \<and> willing c'"
  using assms
proof (induction "nat nleft" arbitrary: nleft ptr c rule: less_induct)
  case less
  show ?case
  proof (cases "0 < nleft")
    case False
    with less.prems show ?thesis by (auto simp: writen_loop.simps [of wr c])
  next
    case pos: True
    then have "take (nat nleft) ptr \<noteq> []" using less.prems by (cases ptr) auto
    then obtain a c1 where w: "wr c (take (nat nleft) ptr) = (Inr a, c1)" "0 < a" "willing c1"
      using wr_willing less.prems by blast
    have a: "a \<le> nat nleft"
      using wr_some [OF w(1)] by simp
    let ?nl = "nleft - int a"
    have nl: "nat ?nl = nat nleft - a" "0 \<le> ?nl" using a pos by linarith+
    then show ?thesis
      using less.hyps [of ?nl c1 "drop a ptr"] w less.prems(2) pos
      by (simp add: writen_loop.simps [of wr c])
  qed
qed

lemma writen_correct:
  assumes "n \<le> length ptr" "writen wr c ptr (int n) = (r, c')"
  shows "\<exists>j \<le> n. out c' = out c @ take j ptr \<and> (j = n \<and> r = int n \<or> j < n \<and> r \<in> {0, - 1})"
  using writen_loop_spec [of "int n" ptr c "int n" r c'] assms by (simp add: writen_def)

lemma writen_willing:
  assumes "willing c" "n \<le> length ptr"
  shows "\<exists>c'. writen wr c ptr (int n) = (int n, c') \<and> willing c' \<and> out c' = out c @ take n ptr"
proof -
  obtain c' where c': "writen wr c ptr (int n) = (int n, c')" "willing c'"
    using writen_loop_willing [of c "int n" ptr "int n"] assms by (auto simp: writen_def)
  then show ?thesis using writen_correct [OF assms(2) c'(1)] by auto
qed

end

context duplex
begin

lemma writen_loop_pending:
  "writen_loop wr c ptr nbytes nleft = (r, c') \<Longrightarrow> pending c' = pending c \<and> broken c' = broken c"
proof (induction "nat nleft" arbitrary: nleft ptr c rule: less_induct)
  case less
  show ?case
  proof (cases "0 < nleft")
    case False
    with less.prems show ?thesis by (auto simp: writen_loop.simps [of wr c])
  next
    case pos: True
    obtain w c1 where w: "wr c (take (nat nleft) ptr) = (w, c1)" by fastforce
    with wr_pending have p: "pending c1 = pending c" "broken c1 = broken c" by blast+
    show ?thesis
    proof (cases "\<exists>a. w = Inr a \<and> a \<noteq> 0")
      case True
      then obtain a where a: "w = Inr a" "a \<noteq> 0" by blast
      then have "writen_loop wr c1 (drop a ptr) nbytes (nleft - int a) = (r, c')"
        using less.prems pos w by (simp add: writen_loop.simps [of wr c])
      then show ?thesis using less.hyps [of "nleft - int a" c1 "drop a ptr"] a pos p by simp
    next
      case False
      then show ?thesis
        using less.prems pos w p by (cases w) (auto simp: writen_loop.simps [of wr c])
    qed
  qed
qed

lemma writen_pending:
  "writen wr c ptr nbytes = (r, c') \<Longrightarrow> pending c' = pending c \<and> broken c' = broken c"
  by (simp add: writen_def writen_loop_pending)

lemma readline_loop_out:
  assumes "readline_loop rd c buf n m = (r, buf', c')" "1 \<le> n"
  shows "out c' = out c \<and> (willing c' \<longleftrightarrow> willing c) \<and> length buf' = length buf \<and> r \<le> max n m"
  using assms
proof (induction "nat (m - n)" arbitrary: n c buf rule: less_induct)
  case less
  show ?case
  proof (cases "n < m")
    case False
    with less.prems show ?thesis by (auto simp: readline_loop.simps [of rd c])
  next
    case lt: True
    obtain w c1 where w: "rd c 1 = (w, c1)" by fastforce
    with rd_out have p: "out c1 = out c" "willing c1 \<longleftrightarrow> willing c" by blast+
    show ?thesis
    proof (cases "\<exists>x xs. w = Inr (x # xs) \<and> x \<noteq> NL")
      case True
      then obtain x xs where x: "w = Inr (x # xs)" "x \<noteq> NL" by blast
      then have "readline_loop rd c1 (buf[nat (n - 1) := x]) (n + 1) m = (r, buf', c')"
        using less.prems lt w by (simp add: readline_loop.simps [of rd c])
      then show ?thesis
        using less.hyps [of "n + 1" c1 "buf[nat (n - 1) := x]"] less.prems lt p by auto
    next
      case False
      then show ?thesis
        using less.prems lt w p
        by (auto simp: readline_loop.simps [of rd c] Let_def split: sum.splits list.splits if_splits)
    qed
  qed
qed

lemma readline_out:
  "readline rd c buf m = (r, buf', c') \<Longrightarrow>
     out c' = out c \<and> (willing c' \<longleftrightarrow> willing c) \<and> length buf' = length buf \<and> r \<le> max 1 m"
  unfolding readline_def by (rule readline_loop_out) auto

end

context byte_reader
begin

lemma readline_utils_loop_spec:
  assumes "junk \<noteq> NL" "k < m" "m \<le> length buf" "broken c = None" "k = 0 \<longrightarrow> pending c \<noteq> []"
    and j: "j = min (m - Suc k) (length (pending c))"
    and small: "1 < m"
  shows "\<exists>c'. readline_utils_loop junk rd c buf (int k + 1) (int m) =
           (int (k + j) + 1, poke buf k (replicate j junk @ [NUL]), c')"
  using assms
proof (induction "m - k" arbitrary: k c buf j rule: less_induct)
  case less
  note unf = readline_utils_loop.simps [of junk rd c buf]
  show ?case
  proof (cases "Suc k < m")
    case False
    then have "m = Suc k" using less.prems by simp
    with less.prems show ?thesis by (simp add: unf)
  next
    case lt: True
    show ?thesis
    proof (cases "pending c = []")
      case True
      then show ?thesis
        using less.prems lt rd_eof [of c 1] unf by (auto simp: nat_add_distrib)
    next
      case False
      obtain xs c1 where rd: "rd c 1 = (Inr xs, c1)" "xs \<noteq> []" "length xs \<le> 1"
        and p: "pending c = xs @ pending c1" "broken c1 = broken c"
        using rd_some [OF False, of 1] by auto
      obtain ch where xs: "xs = [ch]" using rd(2,3) by (cases xs) auto
      define j1 where "j1 = min (m - Suc (Suc k)) (length (pending c1))"
      have j: "j = Suc j1"
        using less.prems(6) p xs lt by (simp add: j1_def Suc_diff_Suc [symmetric] del: diff_Suc_Suc)
      have "readline_utils_loop junk rd c buf (int k + 1) (int m) =
          readline_utils_loop junk rd c1 (buf[k := junk]) (int (Suc k) + 1) (int m)"
        using lt xs rd less.prems(1) unf [of "int k + 1" "int m"] by (simp add: ac_simps)
      moreover have "m - Suc k < m - k" "m \<le> length (buf[k := junk])"
        using lt less.prems by auto
      ultimately show ?thesis
        using less.hyps [of "Suc k" "buf[k := junk]" c1 j1] less.prems(1-5,7) lt p
        by (auto simp: j1_def [symmetric] j)
    qed
  qed
qed

lemma readline_utils_correct:
  assumes "junk \<noteq> NL" "1 < m" "m \<le> length buf" "broken c = None" "pending c \<noteq> []"
    and j: "j = min (m - 1) (length (pending c))"
  shows "\<exists>c'. readline_utils junk rd c buf (int m) =
           (int j + 1, replicate j junk @ NUL # drop (Suc j) buf, c')"
  using readline_utils_loop_spec [of junk 0 m buf c j] assms
  by (auto simp: readline_utils_def poke_0_append min_def split: if_splits)

end

section \<open>Properties\<close>

text \<open>\<open>readn\<close> on a stream that does not fail before \<open>nbytes\<close> bytes or its end: however
  the kernel splits the stream, the array receives exactly the next \<open>nbytes\<close> bytes, or all
  that is left at end-of-file, the return value is their number, the rest of the array is
  untouched and the stream resumes right after them.\<close>
theorem readn_reads_n_bytes:
  assumes "n \<le> length buf"
    and "n \<le> length (src_pending (fst c)) \<or> src_broken (fst c) = None"
  shows "\<exists>c'. readn sock_read c buf (int n) =
           (int (min n (length (src_pending (fst c)))),
            take n (src_pending (fst c)) @ drop (min n (length (src_pending (fst c)))) buf, c') \<and>
         src_pending (fst c') = drop n (src_pending (fst c)) \<and>
         src_broken (fst c') = src_broken (fst c)"
  using sock.readn_correct [of "int n" buf c] assms by (simp add: min.commute)

theorem readn_reads_n_bytes_witness:
  "\<exists>c'. readn sock_read ([Data ''ab'', Data ''cde''], \<lparr>written = [], grants = []\<rparr>) ''......'' 4 =
     (4, ''abcd..'', c') \<and> src_pending (fst c') = ''e'' \<and> src_broken (fst c') = None"
  using readn_reads_n_bytes [of 4 "''......''" "([Data ''ab'', Data ''cde''], \<lparr>written = [], grants = []\<rparr>)"]
  by simp

text \<open>\<open>writen\<close>, for any splitting of the write by the kernel: it returns \<open>nbytes\<close> exactly
  when all the bytes went out, in order; otherwise a proper prefix went out and the value is the
  0 or -1 of the failed \<open>write\<close>.  A kernel that always takes something lets it succeed.\<close>
theorem writen_writes_all_or_reports:
  assumes "n \<le> length ptr"
  shows "(\<exists>j \<le> n. written (snd (snd (writen sock_write c ptr (int n)))) = written (snd c) @ take j ptr \<and>
            (fst (writen sock_write c ptr (int n)) = int n \<longleftrightarrow> j = n) \<and>
            (j < n \<longrightarrow> fst (writen sock_write c ptr (int n)) \<in> {0, - 1})) \<and>
         (sink_willing (snd c) \<longrightarrow> fst (writen sock_write c ptr (int n)) = int n)"
proof -
  obtain r c' where rc: "writen sock_write c ptr (int n) = (r, c')" by (rule prod.exhaust)
  then show ?thesis
    using sock.writen_correct [OF assms rc] sock.writen_willing [OF _ assms, of c] by auto
qed

theorem writen_writes_all_or_reports_witness:
  "fst (writen sock_write ([], \<lparr>written = ''x'', grants = [Accept 2, Accept 1]\<rparr>) ''abc'' 3) = 3"
  using writen_writes_all_or_reports [of 3 "''abc''" "([], \<lparr>written = ''x'', grants = [Accept 2, Accept 1]\<rparr>)"]
  by (simp add: sink_willing_def)

text \<open>C26: \<open>readline\<close> into an array of \<open>m\<close> bytes takes the next line of at most \<open>m - 1\<close> bytes,
  whatever the arrival of the bytes, stores it followed by a NUL, and leaves the rest of the
  stream unread.  Its value is the length of the line only when the line ends in a newline: a
  line cut short by end-of-file or by the array counts one more, although the comment over the
  function promises \<open>strlen\<close>.\<close>
theorem readline_takes_a_line:
  assumes "0 < m" "m \<le> length buf" and l: "l = take_line (m - 1) (src_pending (fst c))"
    and ok: "terminated l \<or> length l + 1 = m \<or> src_broken (fst c) = None" and ne: "l \<noteq> []"
  shows "\<exists>c'. readline sock_read c buf (int m) =
           (int (length l) + (if terminated l then 0 else 1), l @ NUL # drop (Suc (length l)) buf, c') \<and>
         src_pending (fst c') = drop (length l) (src_pending (fst c)) \<and>
         src_broken (fst c') = src_broken (fst c)"
  using sock.readline_correct [OF assms(1,2) l refl] ok ne
  by (auto simp: readline_ret_def split: if_splits)

theorem readline_takes_a_line_witness:
  "\<exists>c'. readline sock_read ([Data ''h'', Data ''i''], \<lparr>written = [], grants = []\<rparr>) ''.....'' 5 =
     (3, ''hi'' @ NUL # ''..'', c') \<and> src_pending (fst c') = '''' \<and> src_broken (fst c') = None"
  using readline_takes_a_line [of 5 "''.....''" "''hi''"
      "([Data ''h'', Data ''i''], \<lparr>written = [], grants = []\<rparr>)"]
  by (simp add: numeral_eq_Suc)

text \<open>The copy of \<open>readline\<close> under \<open>utility_routines/utils\<close> ignores what it receives: with
  any value but a newline in its unassigned local \<open>c\<close> the caller gets copies of that value,
  whatever was sent, and no newline ends the line.\<close>
theorem readline_utils_loses_the_data:
  assumes "junk \<noteq> NL" "1 < m" "m \<le> length buf" "src_broken (fst c) = None"
    and "src_pending (fst c) \<noteq> []" and "j = min (m - 1) (length (src_pending (fst c)))"
  shows "\<exists>c'. readline_utils junk sock_read c buf (int m) =
           (int j + 1, replicate j junk @ NUL # drop (Suc j) buf, c')"
  using assms by (rule sock.readline_utils_correct)

theorem readline_utils_loses_the_data_witness:
  "\<exists>c'. readline_utils (CHR ''?'') sock_read ([Data (''a'' @ NL # ''b'')], \<lparr>written = [], grants = []\<rparr>)
     ''......'' 6 = (4, ''???'' @ NUL # ''..'', c')"
  using readline_utils_loses_the_data [of "CHR ''?''" 6 "''......''"
      "([Data (''a'' @ NL # ''b'')], \<lparr>written = [], grants = []\<rparr>)" 3]
  by (simp add: numeral_eq_Suc)

end
