(* ===== verification/Echo.thy ===== *)
theory Echo
  imports Stream_IO
begin

text \<open>
  The echo service over streams: the server side \<open>str_echo\<close> in its three versions
  (\<open>Sockets/1.tcp\<close> and copies, the daemon of \<open>11.tcp_daemon\<close> with its log, the program
  executed by \<open>12.inetd\<close>), the discard program \<open>str_dis\<close>, and the client \<open>str_cli\<close>.  A loop
  that runs until its peer closes takes fuel, one unit per line; the lemmas show that one more
  unit than there are bytes to come is always enough.
\<close>

section \<open>The programs\<close>

abbreviation (input) MAXLINE :: int where "MAXLINE \<equiv> 512"

fun str_echo ::
  "nat \<Rightarrow> ('c \<Rightarrow> nat \<Rightarrow> (errno + byte list) \<times> 'c) \<Rightarrow> ('c \<Rightarrow> byte list \<Rightarrow> (errno + nat) \<times> 'c) \<Rightarrow>
    'c \<Rightarrow> byte list \<Rightarrow> unit outcome \<times> 'c"
where
  "str_echo 0 rd wr c line = (Running, c)"
| "str_echo (Suc fuel) rd wr c line =
     (case readline rd c line MAXLINE of (n, line, c) \<Rightarrow>
        if n = 0 then (Returned (), c)
        else if n < 0 then (Exited EXIT_FAILURE, c)
        else (case writen wr c line n of (w, c) \<Rightarrow>
                if w \<noteq> n then (Exited EXIT_FAILURE, c)
                else str_echo fuel rd wr c line))"

text \<open>\<open>strlcat\<close> and \<open>write_log\<close>; the log is a descriptor of its own.\<close>

definition strlcat :: "byte list \<Rightarrow> byte list \<Rightarrow> nat \<Rightarrow> byte list" where
  "strlcat dst src sz =
     (if length dst < sz then dst @ take (sz - length dst - 1) src else dst)"

definition LOG_MSG_LEN :: nat where "LOG_MSG_LEN = 128"

definition write_log ::
  "('g \<Rightarrow> byte list \<Rightarrow> (errno + nat) \<times> 'g) \<Rightarrow> int \<Rightarrow> int \<Rightarrow> int \<Rightarrow> byte list \<Rightarrow> 'g \<Rightarrow> int \<times> 'g"
where
  "write_log wr logfd ppid pid logmsg g =
     (let message = ''fd: '' @ show_width 2 logfd @ '' parent pid: '' @ show_width 5 ppid @
                    '' child pid: '' @ show_width 5 pid @ '' message: '';
          message = strlcat message logmsg LOG_MSG_LEN;
          final_msg_len = length message
      in case wr g message of
           (Inl e, g) \<Rightarrow> (- 1, g)
         | (Inr w, g) \<Rightarrow> if w \<noteq> final_msg_len then (- 1, g) else (int final_msg_len, g))"

definition QUIT_CMD_daemon :: "byte list" where "QUIT_CMD_daemon = ''tcp quit''"

text \<open>\<open>log msg\<close> stands for \<open>write_log(logfd, msg)\<close>, whose value the caller ignores.\<close>

fun str_echo_daemon ::
  "nat \<Rightarrow> ('c \<Rightarrow> nat \<Rightarrow> (errno + byte list) \<times> 'c) \<Rightarrow> ('c \<Rightarrow> byte list \<Rightarrow> (errno + nat) \<times> 'c) \<Rightarrow>
    (byte list \<Rightarrow> 'g \<Rightarrow> 'g) \<Rightarrow> 'c \<Rightarrow> byte list \<Rightarrow> 'g \<Rightarrow> unit outcome \<times> 'c \<times> 'g"
where
  "str_echo_daemon 0 rd wr log c line g = (Running, c, g)"
| "str_echo_daemon (Suc fuel) rd wr log c line g =
     (case readline rd c line MAXLINE of (n, line, c) \<Rightarrow>
        if n = 0 then (Returned (), c, log (''Client did not send any data.'' @ [NL]) g)
        else if n < 0 then (Returned (), c, log (''read error.'' @ [NL]) g)
        else if strncmp line QUIT_CMD_daemon (strlen QUIT_CMD_daemon) = 0
             then (Returned (), c, log (''Client sent the \"QUIT COMMAND\".'' @ [NL]) g)
        else (case writen wr c line n of (w, c) \<Rightarrow>
                if w \<noteq> n
                then (Returned (), c, log (''Server couldn'' @ [CHR 0x27] @
                        ''t write all the data to the client.'' @ [NL]) g)
                else str_echo_daemon fuel rd wr log c line g))"

definition QUIT_CMD :: "byte list" where "QUIT_CMD = ''tcpquit''"

text \<open>The executed program reads descriptor 0 and writes descriptor 1, both the connection; its
  result is the status the process exits with.\<close>

fun inetd_str_echo ::
  "nat \<Rightarrow> ('c \<Rightarrow> nat \<Rightarrow> (errno + byte list) \<times> 'c) \<Rightarrow> ('c \<Rightarrow> byte list \<Rightarrow> (errno + nat) \<times> 'c) \<Rightarrow>
    'c \<Rightarrow> byte list \<Rightarrow> int outcome \<times> 'c"
where
  "inetd_str_echo 0 rd wr c line = (Running, c)"
| "inetd_str_echo (Suc fuel) rd wr c line =
     (case readline rd c line MAXLINE of (n, line, c) \<Rightarrow>
        if n = 0 then (Returned 0, c)
        else if n < 0 then (Exited EXIT_FAILURE, c)
        else if strncmp line QUIT_CMD 8 = 0 then (Exited EXIT_SUCCESS, c)
        else (case writen wr c line n of (w, c) \<Rightarrow>
                if w \<noteq> n then (Exited EXIT_FAILURE, c)
                else inetd_str_echo fuel rd wr c line))"

definition DIS_CMD :: "byte list" where "DIS_CMD = ''tcpdiscard''"

fun inetd_str_dis ::
  "nat \<Rightarrow> ('c \<Rightarrow> nat \<Rightarrow> (errno + byte list) \<times> 'c) \<Rightarrow> 'c \<Rightarrow> byte list \<Rightarrow> int outcome \<times> 'c"
where
  "inetd_str_dis 0 rd c line = (Running, c)"
| "inetd_str_dis (Suc fuel) rd c line =
     (case readline rd c line MAXLINE of (n, line, c) \<Rightarrow>
        if n = 0 then (Returned 0, c)
        else if n < 0 then (Exited EXIT_FAILURE, c)
        else if strncmp line DIS_CMD 10 = 0 then (Exited EXIT_SUCCESS, c)
        else inetd_str_dis fuel rd c line)"

text \<open>\<open>str_cli\<close>: the bytes given to \<open>fputs\<close> are the second component of the result.\<close>

function str_cli ::
  "('c \<Rightarrow> nat \<Rightarrow> (errno + byte list) \<times> 'c) \<Rightarrow> ('c \<Rightarrow> byte list \<Rightarrow> (errno + nat) \<times> 'c) \<Rightarrow>
    stream_in \<Rightarrow> 'c \<Rightarrow> byte list \<Rightarrow> byte list \<Rightarrow> unit outcome \<times> byte list \<times> 'c"
where
  "str_cli rd wr fp c recvline out =
     (case fgets 512 fp of
        (None, fp) \<Rightarrow> if ferror fp then (Exited EXIT_FAILURE, out, c) else (Returned (), out, c)
      | (Some sendline, fp) \<Rightarrow>
          let n = int (strlen sendline)
          in case writen wr c sendline n of (w, c) \<Rightarrow>
               if w \<noteq> n then (Exited EXIT_FAILURE, out, c)
               else (case readline rd c recvline MAXLINE of (n, recvline, c) \<Rightarrow>
                       if n < 0 then (Exited EXIT_FAILURE, out, c)
                       else let recvline = recvline[nat n := NUL]
                            in str_cli rd wr fp c recvline (out @ cstr recvline)))"
  by pat_completeness auto
termination
  by (relation "measure (\<lambda>(rd, wr, fp, c, recvline, out). length (rest fp))")
     (auto dest: fgets_shrinks [OF sym])

declare str_cli.simps [simp del]

section \<open>What the server sends back\<close>

text \<open>
  \<open>echo_out\<close> cuts the stream as \<open>readline\<close> does, into lines of at most 511 bytes; a piece
  without its newline comes back with a NUL after it.
\<close>

definition segment_out :: "byte list \<Rightarrow> byte list" where
  "segment_out l = (if terminated l then l else l @ [NUL])"

function echo_out :: "byte list \<Rightarrow> byte list" where
  "echo_out xs =
     (if xs = [] then []
      else segment_out (take_line 511 xs) @ echo_out (drop (length (take_line 511 xs)) xs))"
  by pat_completeness auto
termination by (relation "measure length") auto

declare echo_out.simps [simp del]

lemma echo_out_Nil [simp]: "echo_out [] = []"
  by (simp add: echo_out.simps)

lemma echo_out_lines:
  "\<forall>l \<in> set ls. NL \<notin> set l \<and> length l < 511 \<Longrightarrow>
     echo_out (concat (map (\<lambda>l. l @ [NL]) ls)) = concat (map (\<lambda>l. l @ [NL]) ls)"
proof (induction ls)
  case (Cons l ls)
  have "take_line 511 (l @ NL # concat (map (\<lambda>l. l @ [NL]) ls)) = l @ [NL]"
    using Cons.prems by (intro take_line_exact) auto
  with Cons show ?case
    by (simp add: echo_out.simps [of "l @ _"] segment_out_def terminated_def)
qed simp

lemma strncmp_take_line:
  "NUL \<notin> set l \<Longrightarrow> strncmp (l @ NUL # ys) t n = 0 \<longleftrightarrow> take n l = take n (cstr t)"
  by (simp add: strncmp_0_iff)

context duplex
begin

lemma readline_step:
  assumes "512 \<le> length line" "pending c \<noteq> []" and l: "l = take_line 511 (pending c)"
    and ok: "terminated l \<or> length l = 511 \<or> broken c = None"
  shows "\<exists>c1 line1. readline rd c line 512 = (int (length (segment_out l)), line1, c1) \<and>
           line1 = l @ NUL # drop (Suc (length l)) line \<and>
           take (length (segment_out l)) line1 = segment_out l \<and>
           length (segment_out l) \<le> length line1 \<and> length line1 = length line \<and>
           pending c1 = drop (length l) (pending c) \<and> broken c1 = broken c \<and>
           out c1 = out c \<and> (willing c1 \<longleftrightarrow> willing c)"
proof -
  have ne: "l \<noteq> []" and le: "length l \<le> 511"
    using assms length_take_line [of 511 "pending c"] by auto
  obtain c1 where c1: "readline rd c line 512 = (int (length (segment_out l)), l @ NUL # drop (Suc (length l)) line, c1)"
    and p: "pending c1 = drop (length l) (pending c)" "broken c1 = broken c"
    using readline_correct [of 512 line l c "readline_ret 512 l (broken c)"] assms ne
    by (auto simp: readline_ret_def segment_out_def split: if_splits)
  with readline_out [OF c1] ne le assms(1) show ?thesis by (simp add: segment_out_def)
qed

lemma str_echo_step:
  assumes "512 \<le> length line" "pending c \<noteq> []" and l: "l = take_line 511 (pending c)"
    and ok: "terminated l \<or> length l = 511 \<or> broken c = None" and "willing c"
  shows "\<exists>c' line'. str_echo (Suc f) rd wr c line = str_echo f rd wr c' line' \<and>
           512 \<le> length line' \<and> pending c' = drop (length l) (pending c) \<and>
           broken c' = broken c \<and> out c' = out c @ segment_out l \<and> willing c'"
proof -
  obtain c1 line1 where c1: "readline rd c line 512 = (int (length (segment_out l)), line1, c1)"
      "take (length (segment_out l)) line1 = segment_out l"
      "length (segment_out l) \<le> length line1" "length line1 = length line"
      "pending c1 = drop (length l) (pending c)" "broken c1 = broken c" "out c1 = out c" "willing c1"
    using readline_step [OF assms(1-4)] assms(5) by blast
  obtain c2 where c2: "writen wr c1 line1 (int (length (segment_out l))) = (int (length (segment_out l)), c2)"
      "willing c2" "out c2 = out c1 @ segment_out l"
    using writen_willing [OF c1(8,3)] c1(2) by auto
  have "segment_out l \<noteq> []" using assms by (auto simp: segment_out_def)
  then show ?thesis
    using c1 c2 writen_pending [OF c2(1)] assms(1)
    by (intro exI [of _ c2] exI [of _ line1]) auto
qed

lemma readline_eof:
  assumes "512 \<le> length line" "pending c = []" "broken c = None"
  shows "\<exists>c' line'. readline rd c line 512 = (0, line', c') \<and> out c' = out c"
proof -
  obtain c' where c': "readline rd c line 512 = (0, line, c')"
    using readline_correct [of 512 line "[]" c 0] assms by (auto simp: readline_ret_def)
  with readline_out [OF c'] show ?thesis by blast
qed

lemma str_echo_eof:
  assumes "512 \<le> length line" "pending c = []" "broken c = None"
  shows "\<exists>c'. str_echo (Suc f) rd wr c line = (Returned (), c') \<and> out c' = out c"
  using readline_eof [OF assms] by auto

lemma str_echo_correct:
  assumes "512 \<le> length line" "broken c = None" "willing c" "length (pending c) < fuel"
  shows "\<exists>c'. str_echo fuel rd wr c line = (Returned (), c') \<and> out c' = out c @ echo_out (pending c)"
  using assms
proof (induction fuel arbitrary: c line)
  case (Suc f)
  show ?case
  proof (cases "pending c = []")
    case True
    with Suc.prems str_echo_eof show ?thesis by auto
  next
    case False
    let ?l = "take_line 511 (pending c)"
    obtain c' line' where "str_echo (Suc f) rd wr c line = str_echo f rd wr c' line'"
      and c': "512 \<le> length line'" "pending c' = drop (length ?l) (pending c)"
        "broken c' = None" "out c' = out c @ segment_out ?l" "willing c'"
      using str_echo_step [OF Suc.prems(1) False refl _ Suc.prems(3)] Suc.prems(2) by metis
    moreover have "length (pending c') < f"
      unfolding c'(2) length_drop
      using Suc.prems(4) False drop_take_line_shrinks [of "pending c" 511] by linarith
    ultimately show ?thesis
      using Suc.IH [OF c'(1,3,5)] False by (auto simp: echo_out.simps [of "pending c"])
  qed
qed simp

end

section \<open>Line by line\<close>

declare strncmp.simps [simp del]

lemma quit_cmd_daemon [simp]:
  "strlen QUIT_CMD_daemon = 8" "length QUIT_CMD_daemon = 8" "NL \<notin> set QUIT_CMD_daemon"
  "NUL \<notin> set QUIT_CMD_daemon"
  by (simp_all add: QUIT_CMD_daemon_def strlen_def cstr_def)

lemma quit_cmd [simp]: "length QUIT_CMD = 7" "NL \<notin> set QUIT_CMD" "NUL \<notin> set QUIT_CMD"
  by (simp_all add: QUIT_CMD_def)

abbreviation (input) lines :: "byte list list \<Rightarrow> byte list" where
  "lines ls \<equiv> concat (map (\<lambda>l. l @ [NL]) ls)"

definition line_ok :: "byte list \<Rightarrow> bool" where
  "line_ok l \<longleftrightarrow> NL \<notin> set l \<and> NUL \<notin> set l \<and> length l < 511"

lemma take_line_ok: "line_ok l \<Longrightarrow> take_line 511 (l @ NL # ys) = l @ [NL]"
  by (simp add: line_ok_def take_line_exact)

lemma segment_out_line [simp]: "segment_out (l @ [NL]) = l @ [NL]"
  by (simp add: segment_out_def terminated_def)

lemma take_cmd:
  assumes "NL \<notin> set w"
  shows "take (length w) (l @ [NL]) = w \<longleftrightarrow> take (length w) l = w"
proof (cases "length w \<le> length l")
  case False
  then have "NL \<in> set (take (length w) (l @ [NL]))" by simp
  moreover have "length (take (length w) l) < length w" using False by simp
  ultimately show ?thesis using assms by (metis less_irrefl)
qed simp

lemma strncmp_line:
  assumes "line_ok l" "NL \<notin> set w" "NUL \<notin> set w" "n = length w"
  shows "strncmp ((l @ [NL]) @ NUL # ys) w n = 0 \<longleftrightarrow> take n l = w"
  using strncmp_take_line [of "l @ [NL]" ys w n] assms take_cmd [of w l]
  by (simp add: line_ok_def cstr_no_NUL)

lemma strncmp_line_NUL:
  assumes "line_ok l" "NL \<notin> set w" "NUL \<notin> set w" "n = Suc (length w)"
  shows "strncmp ((l @ [NL]) @ NUL # ys) w n \<noteq> 0"
proof
  assume "strncmp ((l @ [NL]) @ NUL # ys) w n = 0"
  then have eq: "take n (l @ [NL]) = w"
    using strncmp_take_line [of "l @ [NL]" ys w n] assms by (simp add: line_ok_def cstr_no_NUL)
  then have "length (take n (l @ [NL])) < n" using assms(4) by simp
  then have "take n (l @ [NL]) = l @ [NL]" by simp
  with eq assms(2) show False by auto
qed

context duplex
begin

lemma readline_ok_line:
  assumes "512 \<le> length line" "pending c = l @ NL # ys" "line_ok l" "broken c = None" "willing c"
  shows "\<exists>c1 line1. readline rd c line 512 = (int (length l) + 1, line1, c1) \<and>
           line1 = (l @ [NL]) @ NUL # drop (Suc (Suc (length l))) line \<and> length line1 = length line \<and>
           pending c1 = ys \<and> broken c1 = None \<and> out c1 = out c \<and> willing c1"
  using readline_step [of line c "l @ [NL]"] assms take_line_ok [of l ys]
  by (simp add: terminated_def) (auto simp: ac_simps)

lemma readline_then_writen:
  assumes "512 \<le> length line" "pending c = l @ NL # ys" "line_ok l" "broken c = None" "willing c"
  shows "\<exists>c1 line1 c2. readline rd c line 512 = (int (length l) + 1, line1, c1) \<and>
           line1 = (l @ [NL]) @ NUL # drop (Suc (Suc (length l))) line \<and> length line1 = length line \<and>
           out c1 = out c \<and> pending c1 = ys \<and>
           writen wr c1 line1 (int (length l) + 1) = (int (length l) + 1, c2) \<and>
           pending c2 = ys \<and> broken c2 = None \<and> out c2 = out c @ l @ [NL] \<and> willing c2"
proof -
  obtain c1 line1 where c1: "readline rd c line 512 = (int (length l) + 1, line1, c1)"
      "line1 = (l @ [NL]) @ NUL # drop (Suc (Suc (length l))) line" "length line1 = length line"
      "pending c1 = ys" "broken c1 = None" "out c1 = out c" "willing c1"
    using readline_ok_line [OF assms] by blast
  have "Suc (length l) \<le> length line1" "take (Suc (length l)) line1 = l @ [NL]"
    using c1(2) by simp_all
  then obtain c2 where c2: "writen wr c1 line1 (int (length l) + 1) = (int (length l) + 1, c2)"
      "willing c2" "out c2 = out c1 @ l @ [NL]"
    using writen_willing [OF c1(7), of "Suc (length l)" line1] by (auto simp: ac_simps)
  then show ?thesis using c1 writen_pending [OF c2(1)] by auto
qed

lemma inetd_str_echo_lines:
  assumes "512 \<le> length line" "pending c = lines ls" "\<forall>l \<in> set ls. line_ok l" "broken c = None"
    and "willing c" "length ls < fuel"
  shows "\<exists>c'. inetd_str_echo fuel rd wr c line = (Returned 0, c') \<and> out c' = out c @ lines ls"
  using assms
proof (induction ls arbitrary: fuel c line)
  case Nil
  then obtain f where "fuel = Suc f" by (cases fuel) auto
  with Nil readline_eof [of line c] show ?case by auto
next
  case (Cons l ls)
  then obtain f where f: "fuel = Suc f" by (cases fuel) auto
  obtain c1 line1 c2 where s: "readline rd c line 512 = (int (length l) + 1, line1, c1)"
      "line1 = (l @ [NL]) @ NUL # drop (Suc (Suc (length l))) line" "length line1 = length line"
      "writen wr c1 line1 (int (length l) + 1) = (int (length l) + 1, c2)"
      "pending c2 = lines ls" "broken c2 = None" "out c2 = out c @ l @ [NL]" "willing c2"
    using readline_then_writen [of line c l "lines ls"] Cons.prems by auto
  have "strncmp line1 QUIT_CMD 8 \<noteq> 0"
    using strncmp_line_NUL [of l QUIT_CMD 8] s(2) Cons.prems(3) by simp
  moreover obtain c' where "inetd_str_echo f rd wr c2 line1 = (Returned 0, c')"
      "out c' = out c2 @ lines ls"
    using Cons.IH [of line1 c2 f] Cons.prems s(3-8) f by auto
  ultimately show ?case using s f by simp
qed

lemma str_echo_daemon_quits:
  assumes "512 \<le> length line" "pending c = lines ls @ q @ NL # ys"
    and "\<forall>l \<in> set ls. line_ok l \<and> take 8 l \<noteq> QUIT_CMD_daemon"
    and "line_ok q" "take 8 q = QUIT_CMD_daemon"
    and "broken c = None" "willing c" "length ls < fuel"
  shows "\<exists>c'. str_echo_daemon fuel rd wr log c line g =
           (Returned (), c', log (''Client sent the \"QUIT COMMAND\".'' @ [NL]) g) \<and>
         out c' = out c @ lines ls \<and> pending c' = ys"
  using assms
proof (induction ls arbitrary: fuel c line)
  case Nil
  then obtain f where f: "fuel = Suc f" by (cases fuel) auto
  obtain c1 line1 where s: "readline rd c line 512 = (int (length q) + 1, line1, c1)"
      "line1 = (q @ [NL]) @ NUL # drop (Suc (Suc (length q))) line" "pending c1 = ys" "out c1 = out c"
    using readline_ok_line [of line c q ys] Nil.prems by auto
  have "strncmp line1 QUIT_CMD_daemon (strlen QUIT_CMD_daemon) = 0"
    using strncmp_line [of q QUIT_CMD_daemon 8] s(2) Nil.prems(4,5) by simp
  then show ?case using s f by simp
next
  case (Cons l ls)
  then obtain f where f: "fuel = Suc f" by (cases fuel) auto
  obtain c1 line1 c2 where s: "readline rd c line 512 = (int (length l) + 1, line1, c1)"
      "line1 = (l @ [NL]) @ NUL # drop (Suc (Suc (length l))) line" "length line1 = length line"
      "writen wr c1 line1 (int (length l) + 1) = (int (length l) + 1, c2)"
      "pending c2 = lines ls @ q @ NL # ys" "broken c2 = None" "out c2 = out c @ l @ [NL]" "willing c2"
    using readline_then_writen [of line c l "lines ls @ q @ NL # ys"] Cons.prems by auto
  have "strncmp line1 QUIT_CMD_daemon (strlen QUIT_CMD_daemon) \<noteq> 0"
    using strncmp_line [of l QUIT_CMD_daemon 8] s(2) Cons.prems(3) by simp
  moreover obtain c' where "str_echo_daemon f rd wr log c2 line1 g =
        (Returned (), c', log (''Client sent the \"QUIT COMMAND\".'' @ [NL]) g)"
      "out c' = out c2 @ lines ls" "pending c' = ys"
    using Cons.IH [of line1 c2 f] Cons.prems s(3-8) f by auto
  ultimately show ?case using s f by simp
qed

end

section \<open>The client against the server\<close>

text \<open>
  The connection of a client whose peer is the server: what the client writes waits in the
  server's inbox; when the client reads and nothing has come back yet, the server, blocked in
  \<open>readline\<close> until a whole segment is there, runs one turn of \<open>str_echo\<close>.  A read that would
  block for ever fails with \<open>EAGAIN\<close>, which no theorem below lets happen.
\<close>

record echo_conn =
  inbox :: "byte list"
  outbox :: "byte list"

definition srv_read :: "echo_conn \<Rightarrow> nat \<Rightarrow> (errno + byte list) \<times> echo_conn" where
  "srv_read c n = (Inr (take n (inbox c)), c\<lparr>inbox := drop n (inbox c)\<rparr>)"

definition srv_write :: "echo_conn \<Rightarrow> byte list \<Rightarrow> (errno + nat) \<times> echo_conn" where
  "srv_write c xs = (Inr (length xs), c\<lparr>outbox := outbox c @ xs\<rparr>)"

interpretation srv: duplex srv_read inbox "\<lambda>_. None" srv_write outbox "\<lambda>_. True"
  by unfold_locales (auto simp: srv_read_def srv_write_def)

definition segment_ready :: "byte list \<Rightarrow> bool" where
  "segment_ready xs \<longleftrightarrow> terminated (take_line 511 xs) \<or> 511 \<le> length xs"

definition srv_turn :: "echo_conn \<Rightarrow> echo_conn" where
  "srv_turn c =
     (if outbox c = [] \<and> segment_ready (inbox c)
      then snd (str_echo 1 srv_read srv_write c (replicate 512 NUL)) else c)"

definition cli_read :: "echo_conn \<Rightarrow> nat \<Rightarrow> (errno + byte list) \<times> echo_conn" where
  "cli_read c n =
     (let c = srv_turn c
      in if outbox c = [] then (Inl EAGAIN, c)
         else (Inr (take n (outbox c)), c\<lparr>outbox := drop n (outbox c)\<rparr>))"

definition cli_write :: "echo_conn \<Rightarrow> byte list \<Rightarrow> (errno + nat) \<times> echo_conn" where
  "cli_write c xs = (Inr (length xs), c\<lparr>inbox := inbox c @ xs\<rparr>)"

function ready_out :: "byte list \<Rightarrow> byte list" where
  "ready_out xs =
     (if segment_ready xs
      then segment_out (take_line 511 xs) @ ready_out (drop (length (take_line 511 xs)) xs) else [])"
  by pat_completeness auto
termination
  by (relation "measure length") (auto simp: segment_ready_def intro!: drop_take_line_shrinks)

declare ready_out.simps [simp del]

lemma srv_turn_ready:
  assumes "outbox c = []" "segment_ready (inbox c)" and l: "l = take_line 511 (inbox c)"
  shows "inbox (srv_turn c) = drop (length l) (inbox c)" "outbox (srv_turn c) = segment_out l"
proof -
  have "inbox c \<noteq> []" using assms(2) by (auto simp: segment_ready_def)
  moreover have "terminated l \<or> length l = 511"
    using assms(2) length_take_line [of 511 "inbox c"] take_line_short [of 511 "inbox c"]
    by (fastforce simp: segment_ready_def l)
  ultimately have "\<exists>c' line'. str_echo (Suc 0) srv_read srv_write c (replicate 512 NUL) =
      str_echo 0 srv_read srv_write c' line' \<and> inbox c' = drop (length l) (inbox c) \<and>
      outbox c' = segment_out l"
    using srv.str_echo_step [of "replicate 512 NUL" c l 0] assms by auto
  then show "inbox (srv_turn c) = drop (length l) (inbox c)" "outbox (srv_turn c) = segment_out l"
    using assms by (auto simp: srv_turn_def)
qed

definition cli_pending :: "echo_conn \<Rightarrow> byte list" where
  "cli_pending c = outbox c @ ready_out (inbox c)"

lemma srv_turn_pending [simp]: "cli_pending (srv_turn c) = cli_pending c"
proof (cases "outbox c = [] \<and> segment_ready (inbox c)")
  case True
  then show ?thesis
    using srv_turn_ready [of c "take_line 511 (inbox c)"]
    by (simp add: cli_pending_def ready_out.simps [of "inbox c"])
next
  case False
  then have "srv_turn c = c" unfolding srv_turn_def by (simp only: if_False)
  then show ?thesis by simp
qed

lemma srv_turn_stuck: "outbox (srv_turn c) = [] \<longleftrightarrow> cli_pending c = []"
proof (cases "outbox c = [] \<and> segment_ready (inbox c)")
  case True
  then have "take_line 511 (inbox c) \<noteq> []"
    by (auto simp: segment_ready_def simp del: take_line_eq_Nil) (auto simp: terminated_def)
  then have "segment_out (take_line 511 (inbox c)) \<noteq> []" by (auto simp: segment_out_def)
  then show ?thesis
    using True srv_turn_ready(2) [of c "take_line 511 (inbox c)"]
    by (simp add: cli_pending_def ready_out.simps [of "inbox c"])
next
  case False
  then show ?thesis
    by (auto simp: srv_turn_def cli_pending_def ready_out.simps [of "inbox c"])
qed

interpretation cli: byte_reader cli_read cli_pending "\<lambda>_. Some EAGAIN"
proof unfold_locales
  fix c :: echo_conn and n :: nat and e
  show "\<exists>xs c'. cli_read c n = (Inr xs, c') \<and> xs \<noteq> [] \<and> length xs \<le> n \<and>
      cli_pending c = xs @ cli_pending c' \<and> Some EAGAIN = Some EAGAIN"
    if "cli_pending c \<noteq> []" "0 < n"
  proof -
    have "outbox (srv_turn c) \<noteq> []" using that srv_turn_stuck by simp
    then show ?thesis
      using that srv_turn_pending [of c, symmetric]
      by (simp add: cli_read_def cli_pending_def Let_def)
  qed
  show "\<exists>c'. cli_read c n = (Inl e, c')" if "cli_pending c = []" "Some EAGAIN = Some e"
    using that srv_turn_stuck [of c] by (simp add: cli_read_def)
qed simp

interpretation cliw: byte_writer cli_write inbox "\<lambda>_. True"
  by unfold_locales (auto simp: cli_write_def)

lemma readline_loop_inv:
  assumes "\<And>c n r c'. rd c n = (r, c') \<Longrightarrow> P c \<Longrightarrow> P c'" "P c"
  shows "P (snd (snd (readline_loop rd c buf n m)))"
  using assms(2)
proof (induction "nat (m - n)" arbitrary: n c buf rule: less_induct)
  case less
  obtain w c1 where w: "rd c 1 = (w, c1)" by fastforce
  with assms(1) less.prems have p: "P c1" by blast
  have "P (snd (snd (readline_loop rd c1 (buf[nat (n - 1) := x]) (n + 1) m)))" if "n < m" for x
    using less.hyps [of "n + 1" c1] that p by simp
  then show ?case
    using w p less.prems
    by (auto simp: readline_loop.simps [of rd c] Let_def split: sum.splits list.splits)
qed

lemma cli_read_settles:
  "cli_read c n = (r, c') \<Longrightarrow> inbox c = [] \<or> (outbox c = [] \<and> inbox c = l @ [NL] \<and> line_ok l) \<Longrightarrow>
     inbox c' = [] \<or> (outbox c' = [] \<and> inbox c' = l @ [NL] \<and> line_ok l)"
  using srv_turn_ready [of c "l @ [NL]"] take_line_ok [of l "[]"]
  by (auto simp: cli_read_def srv_turn_def segment_ready_def terminated_def Let_def split: if_splits)

lemma ready_out_line: "line_ok l \<Longrightarrow> ready_out (l @ [NL]) = l @ [NL]"
  using take_line_ok [of l "[]"]
  by (simp add: ready_out.simps [of "l @ _"] segment_ready_def terminated_def)
     (simp add: ready_out.simps segment_ready_def)

text \<open>One line of the client: it is sent and comes back.\<close>

lemma cli_exchange:
  assumes "line_ok l" "inbox c = []" "outbox c = []" "513 \<le> length recvline"
  shows "\<exists>c1 c2 recvline'. writen cli_write c (l @ [NL]) (int (strlen (l @ [NL]))) = (int (strlen (l @ [NL])), c1) \<and>
     readline cli_read c1 recvline 512 = (int (Suc (length l)), recvline', c2) \<and>
     recvline'[Suc (length l) := NUL] = recvline' \<and> cstr recvline' = l @ [NL] \<and> length recvline' = length recvline \<and>
     inbox c2 = [] \<and> outbox c2 = []"
proof -
  let ?n = "int (Suc (length l))" and ?c1 = "c\<lparr>inbox := l @ [NL]\<rparr>"
  have n: "int (strlen (l @ [NL])) = ?n"
    using assms(1) by (simp add: strlen_def cstr_no_NUL line_ok_def)
  have w: "writen cli_write c (l @ [NL]) ?n = (?n, ?c1)"
    using assms(2) by (simp add: writen_def writen_loop.simps cli_write_def nat_add_distrib)
  have p: "cli_pending ?c1 = l @ [NL]"
    using assms(1,3) by (simp add: cli_pending_def ready_out_line)
  let ?rl = "(l @ [NL]) @ NUL # drop (Suc (Suc (length l))) recvline"
  have len: "length l < 511" using assms(1) by (simp add: line_ok_def)
  obtain c2 where r: "readline cli_read ?c1 recvline 512 = (?n, ?rl, c2)" and p2: "cli_pending c2 = []"
    using cli.readline_correct [of 512 recvline "l @ [NL]" ?c1 ?n] assms p
      take_line_ok [of l "[]"] by (auto simp: readline_ret_def terminated_def)
  let ?P = "\<lambda>c. inbox c = [] \<or> (outbox c = [] \<and> inbox c = l @ [NL] \<and> line_ok l)"
  have "?P (snd (snd (readline_loop cli_read ?c1 recvline 1 512)))"
    by (rule readline_loop_inv [where P = ?P]) (erule (1) cli_read_settles, use assms in simp)
  then have c2: "inbox c2 = []" "outbox c2 = []"
    using r p2 by (auto simp: readline_def cli_pending_def ready_out_line)
  have rl: "?rl[Suc (length l) := NUL] = ?rl" by (simp add: list_update_append)
  have c: "cstr ?rl = l @ [NL]" using assms(1) by (subst cstr_append_NUL) (auto simp: line_ok_def)
  show ?thesis using w r rl c c2 len assms(4) unfolding n by (intro exI conjI) (assumption | simp)+
qed

lemma fgets_line: "line_ok l \<Longrightarrow> rest fp = l @ NL # ys \<Longrightarrow> fgets 512 fp = (Some (l @ [NL]), fp\<lparr>rest := ys\<rparr>)"
  using take_line_ok [of l ys] by (simp add: fgets_def Let_def)

lemma str_cli_line:
  assumes "line_ok l" "inbox c = []" "outbox c = []" "513 \<le> length recvline"
    and fp: "rest fp = l @ NL # ys"
  shows "\<exists>c' recvline'. str_cli cli_read cli_write fp c recvline out =
           str_cli cli_read cli_write (fp\<lparr>rest := ys\<rparr>) c' recvline' (out @ l @ [NL]) \<and>
         inbox c' = [] \<and> outbox c' = [] \<and> length recvline' = length recvline"
proof -
  obtain c1 c2 recvline' where x: "writen cli_write c (l @ [NL]) (int (strlen (l @ [NL]))) = (int (strlen (l @ [NL])), c1)"
     "readline cli_read c1 recvline 512 = (int (Suc (length l)), recvline', c2)"
     "recvline'[Suc (length l) := NUL] = recvline'" "cstr recvline' = l @ [NL]" "length recvline' = length recvline"
     "inbox c2 = []" "outbox c2 = []"
    using cli_exchange [OF assms(1-4)] by blast
  have "str_cli cli_read cli_write fp c recvline out =
      str_cli cli_read cli_write (fp\<lparr>rest := ys\<rparr>) c2 recvline' (out @ l @ [NL])"
    unfolding str_cli.simps [of cli_read cli_write fp] fgets_line [OF assms(1) fp]
    by (simp only: x(1,2) prod.case option.case Let_def nat_int x(3,4)) simp
  then show ?thesis using x(5-7) by (intro exI conjI)
qed

lemma str_cli_lines:
  assumes "\<forall>l \<in> set ls. line_ok l" "inbox c = []" "outbox c = []" "513 \<le> length recvline"
    and "rest fp = lines ls" "\<not> read_error fp"
  shows "\<exists>c'. str_cli cli_read cli_write fp c recvline out = (Returned (), out @ lines ls, c')"
  using assms
proof (induction ls arbitrary: c fp recvline out)
  case Nil
  then show ?case by (simp add: str_cli.simps fgets_def ferror_def)
next
  case (Cons l ls)
  obtain c' recvline' where s: "str_cli cli_read cli_write fp c recvline out =
      str_cli cli_read cli_write (fp\<lparr>rest := lines ls\<rparr>) c' recvline' (out @ l @ [NL])"
      "inbox c' = []" "outbox c' = []" "length recvline' = length recvline"
    using str_cli_line [of l c recvline fp "lines ls" out] Cons.prems by auto
  show ?case
    using Cons.IH [of c' recvline' "fp\<lparr>rest := lines ls\<rparr>" "out @ l @ [NL]"] Cons.prems s
    by (auto simp: s(1))
qed

section \<open>Properties\<close>

text \<open>C17: the server of a stream connection whose peer closes in the end: whatever the arrival
  of the bytes and the splitting of its writes, \<open>str_echo\<close> terminates (one turn more than
  there are bytes is enough), returns, and has sent \<open>echo_out\<close> of everything it received;
  that is the input itself when every line is terminated and shorter than the array.\<close>
theorem str_echo_echoes:
  assumes "512 \<le> length line" "src_broken (fst c) = None" "sink_willing (snd c)"
    and "length (src_pending (fst c)) < fuel"
  shows "\<exists>c'. str_echo fuel sock_read sock_write c line = (Returned (), c') \<and>
           written (snd c') = written (snd c) @ echo_out (src_pending (fst c)) \<and>
           (\<forall>ls. src_pending (fst c) = concat (map (\<lambda>l. l @ [NL]) ls) \<and>
                  (\<forall>l \<in> set ls. NL \<notin> set l \<and> length l < 511) \<longrightarrow>
              written (snd c') = written (snd c) @ src_pending (fst c))"
  using sock.str_echo_correct [OF assms] echo_out_lines by force

theorem str_echo_echoes_witness:
  "\<exists>c'. str_echo 6 sock_read sock_write ([Data ''a'', Data (NL # ''bc'')], \<lparr>written = [], grants = [Accept 1]\<rparr>)
      (replicate 512 NUL) = (Returned (), c') \<and> written (snd c') = ''a'' @ NL # ''bc'' @ [NUL]"
  using str_echo_echoes [of "replicate 512 NUL"
      "([Data ''a'', Data (NL # ''bc'')], \<lparr>written = [], grants = [Accept 1]\<rparr>)" 6]
  by (auto simp: sink_willing_def echo_out.simps segment_out_def)

text \<open>C16: a client run against the server: for a standard input made of terminated lines shorter
  than the arrays, \<open>str_cli\<close> and \<open>str_echo\<close> never block, the client prints exactly its input
  and returns to \<open>main\<close>.\<close>
theorem str_cli_prints_its_input:
  assumes "\<forall>l \<in> set ls. line_ok l" "513 \<le> length recvline"
  shows "\<exists>c'. str_cli cli_read cli_write \<lparr>rest = concat (map (\<lambda>l. l @ [NL]) ls), read_error = False\<rparr>
            \<lparr>inbox = [], outbox = []\<rparr> recvline [] =
          (Returned (), concat (map (\<lambda>l. l @ [NL]) ls), c')"
  using str_cli_lines [OF assms(1) _ _ assms(2),
      of "\<lparr>inbox = [], outbox = []\<rparr>" "\<lparr>rest = lines ls, read_error = False\<rparr>" "[]"] by simp

theorem str_cli_prints_its_input_witness:
  "\<exists>c'. str_cli cli_read cli_write \<lparr>rest = ''hi'' @ [NL], read_error = False\<rparr>
            \<lparr>inbox = [], outbox = []\<rparr> (replicate 513 NUL) [] = (Returned (), ''hi'' @ [NL], c')"
  using str_cli_prints_its_input [of "[''hi'']" "replicate 513 NUL"] by (simp add: line_ok_def)

text \<open>The echo program of the internet superserver cannot be ended by its quit command: the
  comparison includes the NUL after \<open>tcpquit\<close>, so any sequence of terminated lines, the line
  \<open>tcpquit\<close> included, is echoed back in full and the program ends only at end-of-file.\<close>
theorem inetd_str_echo_ignores_tcpquit:
  assumes "512 \<le> length line" "src_pending (fst c) = concat (map (\<lambda>l. l @ [NL]) ls)"
    and "\<forall>l \<in> set ls. line_ok l" "src_broken (fst c) = None" "sink_willing (snd c)" "length ls < fuel"
  shows "\<exists>c'. inetd_str_echo fuel sock_read sock_write c line = (Returned 0, c') \<and>
           written (snd c') = written (snd c) @ concat (map (\<lambda>l. l @ [NL]) ls)"
  using assms by (rule sock.inetd_str_echo_lines)

theorem inetd_str_echo_ignores_tcpquit_witness:
  "\<exists>c'. inetd_str_echo 3 sock_read sock_write
           ([Data (''tcpquit'' @ [NL]), Data (''x'' @ [NL])], \<lparr>written = [], grants = []\<rparr>)
           (replicate 512 NUL) = (Returned 0, c') \<and>
         written (snd c') = ''tcpquit'' @ NL # ''x'' @ [NL]"
  using inetd_str_echo_ignores_tcpquit [of "replicate 512 NUL"
      "([Data (''tcpquit'' @ [NL]), Data (''x'' @ [NL])], \<lparr>written = [], grants = []\<rparr>)"
      "[''tcpquit'', ''x'']" 3]
  by (simp add: line_ok_def sink_willing_def)

text \<open>The daemon's \<open>str_echo\<close> stops at the first line that starts with \<open>tcp quit\<close>: the lines
  before it are echoed, nothing after it is read, and the log gets that one message.\<close>
theorem str_echo_daemon_quits_at_command:
  assumes "512 \<le> length line" "src_pending (fst c) = concat (map (\<lambda>l. l @ [NL]) ls) @ q @ NL # ys"
    and "\<forall>l \<in> set ls. line_ok l \<and> take 8 l \<noteq> QUIT_CMD_daemon"
    and "line_ok q" "take 8 q = QUIT_CMD_daemon"
    and "src_broken (fst c) = None" "sink_willing (snd c)" "length ls < fuel"
  shows "\<exists>c'. str_echo_daemon fuel sock_read sock_write log c line g =
           (Returned (), c', log (''Client sent the \"QUIT COMMAND\".'' @ [NL]) g) \<and>
         written (snd c') = written (snd c) @ concat (map (\<lambda>l. l @ [NL]) ls) \<and>
         src_pending (fst c') = ys"
  using assms by (rule sock.str_echo_daemon_quits)

theorem str_echo_daemon_quits_at_command_witness:
  "\<exists>c'. str_echo_daemon 2 sock_read sock_write (\<lambda>m g. g @ m)
           ([Data (''a'' @ NL # ''tcp quit'' @ [NL]), Data (''x'' @ [NL])], \<lparr>written = [], grants = []\<rparr>)
           (replicate 512 NUL) [] =
           (Returned (), c', ''Client sent the \"QUIT COMMAND\".'' @ [NL]) \<and>
         written (snd c') = ''a'' @ [NL] \<and> src_pending (fst c') = ''x'' @ [NL]"
  using str_echo_daemon_quits_at_command [of "replicate 512 NUL"
      "([Data (''a'' @ NL # ''tcp quit'' @ [NL]), Data (''x'' @ [NL])], \<lparr>written = [], grants = []\<rparr>)"
      "[''a'']" "''tcp quit''" "''x'' @ [NL]" 2 "\<lambda>m g. g @ m" "[]"]
  by (simp add: line_ok_def sink_willing_def QUIT_CMD_daemon_def)

end
