(* ===== verification/Datagram.thy ===== *)
theory Datagram
  imports Echo
begin

text \<open>
  The echo and discard services over datagrams: \<open>dg_echo\<close> and \<open>dg_cli\<close> of
  \<open>Sockets/2.udp\<close> (with the copies under \<open>4.idp\<close>, \<open>5.unix\<close> and \<open>utility_routines\<close>), and the two
  programs that \<open>12.inetd\<close> executes, which serve one client and keep its address.  A server
  reads a script of arrivals; an empty script is a server blocked in \<open>recvfrom\<close>.
\<close>

section \<open>Datagram sockets\<close>

datatype 'a arrival_dg = Dgram 'a "byte list" | RecvFault errno

locale datagram_sender =
  fixes sendto :: "'k \<Rightarrow> byte list \<Rightarrow> 'a \<Rightarrow> (errno + nat) \<times> 'k"
    and sent :: "'k \<Rightarrow> ('a \<times> byte list) list"
    and lossless :: "'k \<Rightarrow> bool"
  assumes sendto_ok: "sendto k d a = (Inr n, k') \<Longrightarrow> n = length d \<and> sent k' = sent k @ [(a, d)]"
    and sendto_fail: "sendto k d a = (Inl e, k') \<Longrightarrow> sent k' = sent k"
    and sendto_lossless: "lossless k \<Longrightarrow> \<exists>n k'. sendto k d a = (Inr n, k') \<and> lossless k'"

text \<open>The scripted network: each \<open>sendto\<close> consumes one verdict, and succeeds without one.\<close>

record 'a net =
  delivered :: "('a \<times> byte list) list"
  verdicts :: "errno option list"

definition net_sendto :: "'a net \<Rightarrow> byte list \<Rightarrow> 'a \<Rightarrow> (errno + nat) \<times> 'a net" where
  "net_sendto k d a =
     (case verdicts k of
        Some e # vs \<Rightarrow> (Inl e, k\<lparr>verdicts := vs\<rparr>)
      | None # vs \<Rightarrow> (Inr (length d), k\<lparr>delivered := delivered k @ [(a, d)], verdicts := vs\<rparr>)
      | [] \<Rightarrow> (Inr (length d), k\<lparr>delivered := delivered k @ [(a, d)]\<rparr>))"

interpretation net: datagram_sender net_sendto delivered "\<lambda>k. set (verdicts k) \<subseteq> {None}"
  by unfold_locales (auto simp: net_sendto_def split: list.splits option.splits)

section \<open>The programs\<close>

abbreviation (input) MAXMESG :: nat where "MAXMESG \<equiv> 2048"

fun dg_echo ::
  "('k \<Rightarrow> byte list \<Rightarrow> 'a \<Rightarrow> (errno + nat) \<times> 'k) \<Rightarrow> 'a arrival_dg list \<Rightarrow> byte list \<Rightarrow> 'k \<Rightarrow>
    unit outcome \<times> 'k"
where
  "dg_echo sendto [] mesg k = (Running, k)"
| "dg_echo sendto (RecvFault e # evs) mesg k = (Exited EXIT_FAILURE, k)"
| "dg_echo sendto (Dgram pcli_addr d # evs) mesg k =
     (let n = min MAXMESG (length d); mesg = poke mesg 0 (take MAXMESG d)
      in case sendto k (take n mesg) pcli_addr of
           (Inl e, k) \<Rightarrow> (Exited EXIT_FAILURE, k)
         | (Inr w, k) \<Rightarrow> if w \<noteq> n then (Exited EXIT_FAILURE, k) else dg_echo sendto evs mesg k)"

text \<open>The client: \<open>recvfrom\<close> gives \<open>None\<close> when no datagram comes, and the client waits for ever.\<close>

function dg_cli ::
  "('k \<Rightarrow> byte list \<Rightarrow> 'a \<Rightarrow> (errno + nat) \<times> 'k) \<Rightarrow> ('k \<Rightarrow> nat \<Rightarrow> (errno + byte list) option \<times> 'k) \<Rightarrow>
    stream_in \<Rightarrow> 'a \<Rightarrow> 'k \<Rightarrow> byte list \<Rightarrow> byte list \<Rightarrow> unit outcome \<times> byte list \<times> 'k"
where
  "dg_cli sendto recvfrom fp serv_addr k recvline out =
     (case fgets 512 fp of
        (None, fp) \<Rightarrow> if ferror fp then (Exited EXIT_FAILURE, out, k) else (Returned (), out, k)
      | (Some sendline, fp) \<Rightarrow>
          let n = strlen sendline
          in case sendto k (take n sendline) serv_addr of
               (Inl e, k) \<Rightarrow> (Exited EXIT_FAILURE, out, k)
             | (Inr w, k) \<Rightarrow>
                 if w \<noteq> n then (Exited EXIT_FAILURE, out, k)
                 else (case recvfrom k 512 of
                         (None, k) \<Rightarrow> (Running, out, k)
                       | (Some (Inl e), k) \<Rightarrow> (Exited EXIT_FAILURE, out, k)
                       | (Some (Inr d), k) \<Rightarrow>
                           let recvline = (poke recvline 0 d)[length d := NUL]
                           in dg_cli sendto recvfrom fp serv_addr k recvline (out @ cstr recvline)))"
  by pat_completeness auto
termination
  by (relation "measure (\<lambda>(s, r, fp, a, k, recvline, out). length (rest fp))")
     (auto dest: fgets_shrinks [OF sym])

declare dg_cli.simps [simp del]

text \<open>The two programs of the superserver: the address as an internet socket address.\<close>

record sockaddr_in =
  sin_addr :: nat
  sin_port :: nat

definition zero_addr :: sockaddr_in where "zero_addr = \<lparr>sin_addr = 0, sin_port = 0\<rparr>"

record dg_state =
  dg_mesg :: "byte list"
  pcli_addr :: sockaddr_in
  first_client :: sockaddr_in
  msgcnt :: int

text \<open>\<open>recvfrom\<close>: the bytes overwrite the start of the array, the rest of it stays; a failed call
  leaves the array and the address alone.\<close>

definition dg_recv :: "sockaddr_in arrival_dg \<Rightarrow> dg_state \<Rightarrow> int \<times> dg_state" where
  "dg_recv ev st =
     (case ev of
        RecvFault e \<Rightarrow> (- 1, st)
      | Dgram a d \<Rightarrow> (int (min MAXMESG (length d)),
                       st\<lparr>dg_mesg := poke (dg_mesg st) 0 (take MAXMESG d), pcli_addr := a\<rparr>))"

definition UDP_CMD :: "byte list" where "UDP_CMD = ''udpquit'' @ [NL]"

fun inetd_dg_echo ::
  "('k \<Rightarrow> byte list \<Rightarrow> sockaddr_in \<Rightarrow> (errno + nat) \<times> 'k) \<Rightarrow> sockaddr_in arrival_dg list \<Rightarrow>
    dg_state \<Rightarrow> 'k \<Rightarrow> int outcome \<times> 'k"
where
  "inetd_dg_echo sendto [] st k = (Running, k)"
| "inetd_dg_echo sendto (ev # evs) st k =
     (case dg_recv ev st of (n, st) \<Rightarrow>
        let st = (if msgcnt st = 0 then st\<lparr>first_client := pcli_addr st\<rparr> else st)
        in if msgcnt st \<noteq> 0 \<and> sin_port (first_client st) \<noteq> sin_port (pcli_addr st)
           then inetd_dg_echo sendto evs st k
           else if n < 0 then (Exited EXIT_FAILURE, k)
           else if strncmp (dg_mesg st) UDP_CMD 8 = 0 then (Exited EXIT_SUCCESS, k)
           else (case sendto k (take (nat n) (dg_mesg st)) (pcli_addr st) of
                   (Inl e, k) \<Rightarrow> (Exited EXIT_FAILURE, k)
                 | (Inr w, k) \<Rightarrow>
                     if int w \<noteq> n then (Exited EXIT_FAILURE, k)
                     else inetd_dg_echo sendto evs (st\<lparr>msgcnt := msgcnt st + 1\<rparr>) k))"

definition UDP_DIS :: "byte list" where "UDP_DIS = ''udpdiscard'' @ [NL]"
definition closing :: "byte list" where "closing = ''closing'' @ [NL, NUL]"

fun inetd_dg_dis ::
  "('k \<Rightarrow> byte list \<Rightarrow> sockaddr_in \<Rightarrow> (errno + nat) \<times> 'k) \<Rightarrow> sockaddr_in arrival_dg list \<Rightarrow>
    dg_state \<Rightarrow> 'k \<Rightarrow> int outcome \<times> 'k"
where
  "inetd_dg_dis sendto [] st k = (Running, k)"
| "inetd_dg_dis sendto (ev # evs) st k =
     (case dg_recv ev st of (n, st) \<Rightarrow>
        let st = (if msgcnt st = 0 then st\<lparr>first_client := pcli_addr st\<rparr> else st)
        in if msgcnt st \<noteq> 0 \<and> sin_port (first_client st) \<noteq> sin_port (pcli_addr st)
           then inetd_dg_dis sendto evs st k
           else if n < 0 then (Exited EXIT_FAILURE, k)
           else
             let k = (if n = 0 then snd (sendto k closing (pcli_addr st)) else k)
             in if strncmp (dg_mesg st) UDP_DIS 11 = 0
                then (case sendto k closing (pcli_addr st) of
                        (Inl e, k) \<Rightarrow> (Exited EXIT_FAILURE, k)
                      | (Inr w, k) \<Rightarrow> if w \<noteq> 9 then (Exited EXIT_FAILURE, k) else (Exited EXIT_SUCCESS, k))
                else (case sendto k [] (pcli_addr st) of
                        (Inl e, k) \<Rightarrow> (Exited EXIT_FAILURE, k)
                      | (Inr w, k) \<Rightarrow>
                          if w \<noteq> 0 then (Exited EXIT_FAILURE, k)
                          else inetd_dg_dis sendto evs (st\<lparr>msgcnt := msgcnt st + 1\<rparr>) k))"

section \<open>Lemmas\<close>

definition dg_reply :: "'a arrival_dg \<Rightarrow> ('a \<times> byte list) list" where
  "dg_reply ev = (case ev of Dgram a d \<Rightarrow> [(a, take MAXMESG d)] | RecvFault e \<Rightarrow> [])"

fun until_fault :: "'a arrival_dg list \<Rightarrow> 'a arrival_dg list" where
  "until_fault [] = []"
| "until_fault (Dgram a d # evs) = Dgram a d # until_fault evs"
| "until_fault (RecvFault e # evs) = []"

lemma take_poke_dg:
  "length mesg = MAXMESG \<Longrightarrow> take (min MAXMESG (length d)) (poke mesg 0 (take MAXMESG d)) = take MAXMESG d"
  using take_poke [of "take MAXMESG d" mesg] by (simp add: min.commute)

lemma inetd_port_kept:
  "msgcnt st \<noteq> 0 \<Longrightarrow> dg_recv ev st = (n, st') \<Longrightarrow> msgcnt st' = msgcnt st \<and> first_client st' = first_client st"
  by (auto simp: dg_recv_def split: arrival_dg.splits)

context datagram_sender
begin

lemma dg_echo_lossless:
  assumes "lossless k" "length mesg = MAXMESG"
  shows "fst (dg_echo sendto evs mesg k) =
           (if until_fault evs = evs then Running else Exited EXIT_FAILURE) \<and>
         sent (snd (dg_echo sendto evs mesg k)) = sent k @ concat (map dg_reply (until_fault evs))"
  using assms
proof (induction evs arbitrary: k mesg)
  case (Cons ev evs)
  show ?case
  proof (cases ev)
    case (Dgram a d)
    let ?mesg = "poke mesg 0 (take MAXMESG d)"
    obtain n k1 where s: "sendto k (take (min MAXMESG (length d)) ?mesg) a = (Inr n, k1)" "lossless k1"
      using sendto_lossless [OF Cons.prems(1)] by blast
    have "n = min MAXMESG (length d)"
      using sendto_ok [OF s(1)] Cons.prems(2) by simp
    moreover have "sent k1 = sent k @ [(a, take MAXMESG d)]"
      using sendto_ok [OF s(1)] take_poke_dg [OF Cons.prems(2), of d] by simp
    ultimately show ?thesis
      using Cons.IH [OF s(2), of ?mesg] Cons.prems(2) Dgram s(1) by (simp add: Let_def dg_reply_def)
  qed simp
qed simp

end

text \<open>\<open>adds P xs ys\<close>: \<open>ys\<close> extends \<open>xs\<close>, and everything new satisfies \<open>P\<close>.\<close>

definition adds :: "('b \<Rightarrow> bool) \<Rightarrow> 'b list \<Rightarrow> 'b list \<Rightarrow> bool" where
  "adds P xs ys \<longleftrightarrow> (\<exists>zs. ys = xs @ zs \<and> (\<forall>z \<in> set zs. P z))"

lemma adds_refl [simp]: "adds P xs xs"
  by (simp add: adds_def)

lemma adds_trans: "adds P xs ys \<Longrightarrow> adds P ys zs \<Longrightarrow> adds P xs zs"
  by (auto simp: adds_def)

lemma adds_sendto: "net_sendto k d a = (r, k') \<Longrightarrow> P (a, d) \<Longrightarrow> adds P (delivered k) (delivered k')"
  by (auto simp: net_sendto_def adds_def split: list.splits option.splits)

text \<open>The two programs of the superserver answer only the port of their first client.\<close>

lemma inetd_dg_echo_port:
  "0 < msgcnt st \<Longrightarrow> P = (\<lambda>x. sin_port (fst x) = sin_port (first_client st)) \<Longrightarrow>
     adds P (delivered k) (delivered (snd (inetd_dg_echo net_sendto evs st k)))"
proof (induction evs arbitrary: st k)
  case (Cons ev evs)
  obtain n st1 where r: "dg_recv ev st = (n, st1)" by fastforce
  with Cons.prems have st1: "msgcnt st1 = msgcnt st" "first_client st1 = first_client st"
    using inetd_port_kept [OF _ r] by auto
  with Cons.prems have nz: "0 < msgcnt st1" by simp
  obtain w k1 where w: "net_sendto k (take (nat n) (dg_mesg st1)) (pcli_addr st1) = (w, k1)"
    by fastforce
  consider (foreign) "sin_port (first_client st1) \<noteq> sin_port (pcli_addr st1)"
    | (own) "P (pcli_addr st1, take (nat n) (dg_mesg st1))"
    using Cons.prems st1 by fastforce
  then show ?case
  proof cases
    case foreign
    then show ?thesis using Cons.IH [of st1] Cons.prems(2) r st1 nz by simp
  next
    case own
    note s = adds_sendto [of k _ _ w k1 P, OF w own]
    have "adds P (delivered k1) (delivered (snd (inetd_dg_echo net_sendto evs
        (st1\<lparr>msgcnt := msgcnt st1 + 1\<rparr>) k1)))"
      using Cons.IH [of "st1\<lparr>msgcnt := msgcnt st1 + 1\<rparr>" k1] Cons.prems st1 by simp
    then have "adds P (delivered k) (delivered (snd (inetd_dg_echo net_sendto evs
        (st1\<lparr>msgcnt := msgcnt st1 + 1\<rparr>) k1)))"
      using s by (rule adds_trans [rotated])
    then show ?thesis
      using s r nz w Cons.prems(2) st1 own by (cases w) (simp_all add: Let_def)
  qed
qed simp

lemma inetd_dg_dis_port:
  "0 < msgcnt st \<Longrightarrow> P = (\<lambda>x. sin_port (fst x) = sin_port (first_client st) \<and> snd x \<in> {closing, []}) \<Longrightarrow>
     adds P (delivered k) (delivered (snd (inetd_dg_dis net_sendto evs st k)))"
proof (induction evs arbitrary: st k)
  case (Cons ev evs)
  obtain n st1 where r: "dg_recv ev st = (n, st1)" by fastforce
  with Cons.prems have st1: "msgcnt st1 = msgcnt st" "first_client st1 = first_client st"
    using inetd_port_kept [OF _ r] by auto
  with Cons.prems have nz: "0 < msgcnt st1" by simp
  define k0 where "k0 = (if n = 0 then snd (net_sendto k closing (pcli_addr st1)) else k)"
  have k0: "n = 0 \<Longrightarrow> snd (net_sendto k closing (pcli_addr st1)) = k0" "n \<noteq> 0 \<Longrightarrow> k0 = k"
    by (simp_all add: k0_def)
  obtain w k1 where w: "net_sendto k0 [] (pcli_addr st1) = (w, k1)" by fastforce
  obtain v k2 where v: "net_sendto k0 closing (pcli_addr st1) = (v, k2)" by fastforce
  consider (foreign) "sin_port (first_client st1) \<noteq> sin_port (pcli_addr st1)"
    | (own) "P (pcli_addr st1, closing)" "P (pcli_addr st1, [])"
    using Cons.prems st1 by fastforce
  then show ?case
  proof cases
    case foreign
    then show ?thesis using Cons.IH [of st1] Cons.prems(2) r st1 nz by simp
  next
    case own
    have s0: "adds P (delivered k) (delivered k0)"
      using adds_sendto [of k closing "pcli_addr st1" _ _ P] own(1)
      by (auto simp: k0_def intro: prod.collapse [symmetric])
    have s1: "adds P (delivered k) (delivered k1)" "adds P (delivered k) (delivered k2)"
      using adds_trans [OF s0] adds_sendto w v own by metis+
    have "adds P (delivered k1) (delivered (snd (inetd_dg_dis net_sendto evs
        (st1\<lparr>msgcnt := msgcnt st1 + 1\<rparr>) k1)))"
      using Cons.IH [of "st1\<lparr>msgcnt := msgcnt st1 + 1\<rparr>" k1] Cons.prems st1 by simp
    with s0 s1 have "adds P (delivered k) (delivered (snd (inetd_dg_dis net_sendto evs
        (st1\<lparr>msgcnt := msgcnt st1 + 1\<rparr>) k1)))"
      by (blast intro: adds_trans)
    then show ?thesis
      using Cons.prems(2) r st1 nz w v s0 s1 own
      by (cases "n = 0"; cases w; cases v) (simp_all add: Let_def k0)
  qed
qed simp

text \<open>
  Client and server together, over a network that may lose datagrams in either direction: \<open>fates\<close> says for each
  exchange what becomes of it, an exchange beyond the list goes through.  A reply is what \<open>dg_echo\<close> sends for the datagram.
\<close>

datatype fate = Through | Request_lost | Reply_lost

record dg_peer =
  srv_mesg :: "byte list"
  fates :: "fate list"
  replies :: "byte list list"

definition fate_of :: "fate list \<Rightarrow> fate" where
  "fate_of fs = (case fs of [] \<Rightarrow> Through | f # _ \<Rightarrow> f)"

definition peer_sendto :: "dg_peer \<Rightarrow> byte list \<Rightarrow> nat \<Rightarrow> (errno + nat) \<times> dg_peer" where
  "peer_sendto k d a =
     (let back = delivered (snd (dg_echo net_sendto [Dgram a d] (srv_mesg k) \<lparr>delivered = [], verdicts = []\<rparr>))
      in (Inr (length d),
          k\<lparr>fates := tl (fates k), replies := replies k @ (if fate_of (fates k) = Through then map snd back else [])\<rparr>))"

definition peer_recvfrom :: "dg_peer \<Rightarrow> nat \<Rightarrow> (errno + byte list) option \<times> dg_peer" where
  "peer_recvfrom k n =
     (case replies k of [] \<Rightarrow> (None, k) | d # ds \<Rightarrow> (Some (Inr (take n d)), k\<lparr>replies := ds\<rparr>))"

text \<open>The pieces in which \<open>fgets\<close> reads the input, one exchange for each.\<close>

function pieces :: "byte list \<Rightarrow> byte list list" where
  "pieces xs = (if xs = [] then [] else take_line 511 xs # pieces (drop (length (take_line 511 xs)) xs))"
  by pat_completeness auto
termination by (relation "measure length") auto

declare pieces.simps [simp del]

lemma concat_pieces: "concat (pieces xs) = xs"
proof (induction xs rule: pieces.induct)
  case (1 xs)
  then show ?case using take_line_append_drop [of 511 xs] by (subst pieces.simps) auto
qed

lemma dg_cli_line:
  assumes "NUL \<notin> set l" "length l \<le> 511" "l = take_line 511 (rest fp)" "rest fp \<noteq> []"
    and "length (srv_mesg k) = 2048" "513 \<le> length recvline" "replies k = []"
  shows "if fate_of (fates k) = Through
     then \<exists>recvline'. dg_cli peer_sendto peer_recvfrom fp a k recvline out =
           dg_cli peer_sendto peer_recvfrom (fp\<lparr>rest := drop (length l) (rest fp)\<rparr>) a (k\<lparr>fates := tl (fates k)\<rparr>)
             recvline' (out @ l) \<and> length recvline' = length recvline
     else \<exists>k'. dg_cli peer_sendto peer_recvfrom fp a k recvline out = (Running, out, k')"
proof -
  have f: "fgets 512 fp = (Some l, fp\<lparr>rest := drop (length l) (rest fp)\<rparr>)"
    using assms by (simp add: fgets_def Let_def)
  have n: "strlen l = length l" using assms(1) by (simp add: strlen_def cstr_no_NUL)
  let ?r = "(poke recvline 0 l)[length l := NUL]"
  have "length l < length recvline" using assms(2,6) by simp
  then have r: "?r = l @ NUL # drop (Suc (length l)) recvline"
    by (simp add: poke_0_append list_update_append upd_conv_take_nth_drop)
  have c: "cstr ?r = l" using assms(1) r by simp
  have s: "peer_sendto k l a = (Inr (length l), k\<lparr>fates := tl (fates k), replies := if fate_of (fates k) = Through then [l] else []\<rparr>)"
    using assms(2,7) take_poke_dg [OF assms(5), of l] by (simp add: peer_sendto_def net_sendto_def Let_def)
  have k: "k\<lparr>fates := x, replies := []\<rparr> = k\<lparr>fates := x\<rparr>" for x using assms(7) by simp
  show ?thesis
  proof (cases "fate_of (fates k) = Through")
    case True
    have "dg_cli peer_sendto peer_recvfrom fp a k recvline out =
        dg_cli peer_sendto peer_recvfrom (fp\<lparr>rest := drop (length l) (rest fp)\<rparr>) a (k\<lparr>fates := tl (fates k)\<rparr>)
          ?r (out @ l)"
      unfolding dg_cli.simps [of peer_sendto peer_recvfrom fp] f
      using assms(2) c True by (simp add: n s peer_recvfrom_def Let_def k)
    then have "\<exists>recvline'. dg_cli peer_sendto peer_recvfrom fp a k recvline out =
           dg_cli peer_sendto peer_recvfrom (fp\<lparr>rest := drop (length l) (rest fp)\<rparr>) a (k\<lparr>fates := tl (fates k)\<rparr>)
             recvline' (out @ l) \<and> length recvline' = length recvline"
      by (intro exI [of _ ?r]) simp
    then show ?thesis using True by simp
  next
    case False
    then show ?thesis
      unfolding dg_cli.simps [of peer_sendto peer_recvfrom fp] f by (simp add: n s peer_recvfrom_def Let_def)
  qed
qed

text \<open>How many exchanges go through before the first that is lost.\<close>

definition exchanges :: "fate list \<Rightarrow> nat" where
  "exchanges fs = length (takeWhile (\<lambda>f. f = Through) fs)"

lemma dg_cli_prints:
  assumes "NUL \<notin> set (rest fp)" "length (srv_mesg k) = 2048" "513 \<le> length recvline" "\<not> read_error fp" "replies k = []"
  shows "\<exists>k'. dg_cli peer_sendto peer_recvfrom fp a k recvline out =
     (if length (pieces (rest fp)) \<le> exchanges (fates k) \<or> exchanges (fates k) = length (fates k)
      then (Returned (), out @ rest fp, k')
      else (Running, out @ concat (take (exchanges (fates k)) (pieces (rest fp))), k'))"
  using assms
proof (induction "length (rest fp)" arbitrary: fp recvline out k rule: less_induct)
  case less
  show ?case
  proof (cases "rest fp = []")
    case True
    then show ?thesis using less.prems by (simp add: dg_cli.simps fgets_def ferror_def pieces.simps)
  next
    case False
    define l where "l = take_line 511 (rest fp)"
    let ?fp = "fp\<lparr>rest := drop (length l) (rest fp)\<rparr>"
    have split: "l @ rest ?fp = rest fp" using take_line_append_drop [of 511 "rest fp"] by (simp add: l_def)
    then have nul: "NUL \<notin> set l" "NUL \<notin> set (rest ?fp)" using less.prems(1) by (metis UnI1 UnI2 set_append)+
    have p: "pieces (rest fp) = l # pieces (rest ?fp)" using False by (simp add: pieces.simps [of "rest fp"] l_def)
    have len: "length l \<le> 511" using length_take_line [of 511 "rest fp"] by (simp add: l_def)
    note line = dg_cli_line [OF nul(1) len l_def False less.prems(2,3,5), of a out]
    show ?thesis
    proof (cases "fate_of (fates k) = Through")
      case True
      then obtain recvline' where s: "dg_cli peer_sendto peer_recvfrom fp a k recvline out =
          dg_cli peer_sendto peer_recvfrom ?fp a (k\<lparr>fates := tl (fates k)\<rparr>) recvline' (out @ l)"
          "length recvline' = length recvline"
        using line by auto
      have e: "exchanges (fates k) = (if fates k = [] then 0 else Suc (exchanges (tl (fates k))))"
        using True by (cases "fates k") (simp_all add: exchanges_def fate_of_def)
      have z: "exchanges [] = 0" by (simp add: exchanges_def)
      have "length (rest ?fp) < length (rest fp)" using False by (simp add: l_def)
      then obtain k' where "dg_cli peer_sendto peer_recvfrom ?fp a (k\<lparr>fates := tl (fates k)\<rparr>) recvline' (out @ l) =
          (if length (pieces (rest ?fp)) \<le> exchanges (tl (fates k)) \<or> exchanges (tl (fates k)) = length (tl (fates k))
           then (Returned (), out @ l @ rest ?fp, k')
           else (Running, out @ l @ concat (take (exchanges (tl (fates k))) (pieces (rest ?fp))), k'))"
        using less.hyps [of ?fp "k\<lparr>fates := tl (fates k)\<rparr>" recvline' "out @ l"] nul(2) less.prems s(2)
        by (auto cong: if_cong)
      then show ?thesis unfolding s(1) p split using e z by (intro exI [of _ k']) (cases "fates k"; simp)
    next
      case False
      then have "exchanges (fates k) = 0" "fates k \<noteq> []" by (cases "fates k"; simp add: exchanges_def fate_of_def)+
      then show ?thesis using line False by (simp add: p)
    qed
  qed
qed

lemma inetd_dg_echo_leftover:
  assumes "length (dg_mesg st) = 2048" "msgcnt st = 0" "verdicts k = []"
  shows "inetd_dg_echo net_sendto [Dgram a (''xxxquit'' @ [NL]), Dgram a ''udp''] st k =
           (Exited EXIT_SUCCESS, k\<lparr>delivered := delivered k @ [(a, ''xxxquit'' @ [NL])]\<rparr>)"
proof -
  let ?m1 = "''xxxquit'' @ [NL] @ drop 8 (dg_mesg st)" and ?m2 = "''udpquit'' @ [NL] @ drop 8 (dg_mesg st)"
  have m1: "poke (dg_mesg st) 0 (''xxxquit'' @ [NL]) = ?m1"
    using assms(1) poke_0_append [of "''xxxquit'' @ [NL]" "dg_mesg st"]
    by (simp add: numeral_eq_Suc)
  have m2: "poke ?m1 0 ''udp'' = ?m2" by simp
  have q: "strncmp ?m1 UDP_CMD 8 \<noteq> 0" "strncmp ?m2 UDP_CMD 8 = 0"
    by (simp_all add: strncmp_0_iff UDP_CMD_def cstr_def)
  show ?thesis
    using assms m1 m2 q by (simp add: dg_recv_def Let_def net_sendto_def)
qed

section \<open>Properties\<close>

text \<open>C19: on a network that loses no reply, the datagram echo server sends back every datagram,
  cut to the 2048 bytes of its array, to the address it came from and in the order of arrival,
  with no byte of an earlier datagram in it; it stops only at a failed \<open>recvfrom\<close>.\<close>
theorem dg_echo_returns_every_datagram:
  assumes "set (verdicts k) \<subseteq> {None}" "length mesg = 2048"
  shows "fst (dg_echo net_sendto evs mesg k) =
           (if until_fault evs = evs then Running else Exited EXIT_FAILURE) \<and>
         delivered (snd (dg_echo net_sendto evs mesg k)) =
           delivered k @ concat (map dg_reply (until_fault evs))"
  using assms by (rule net.dg_echo_lossless)

theorem dg_echo_returns_every_datagram_witness:
  "delivered (snd (dg_echo net_sendto [Dgram (7::nat) ''abc'', Dgram 8 ''x'', RecvFault EIO, Dgram 7 ''y'']
      (replicate 2048 NUL) \<lparr>delivered = [], verdicts = []\<rparr>)) = [(7, ''abc''), (8, ''x'')]"
  using dg_echo_returns_every_datagram [of "\<lparr>delivered = [], verdicts = []\<rparr>" "replicate 2048 NUL"
      "[Dgram (7::nat) ''abc'', Dgram 8 ''x'', RecvFault EIO, Dgram 7 ''y'']"]
  by (simp add: dg_reply_def)

text \<open>C18: the datagram client against the datagram server, over a network that may lose the request or the reply of any
  exchange but delivers the others once and in order.  The client reads its input in pieces (lines, cut at 511 bytes), one
  exchange for each.  If no exchange of the run is lost it prints its standard input and returns, for any input without
  NUL bytes: unlike the stream pair, also when the last line has no newline or lines are longer than the array.  At the
  first exchange that is lost it waits for ever, having printed exactly the pieces before it: neither program sends anything again.\<close>
theorem dg_cli_prints_its_input:
  assumes "NUL \<notin> set xs" "length mesg = 2048" "513 \<le> length recvline"
  shows "\<exists>k'. dg_cli peer_sendto peer_recvfrom \<lparr>rest = xs, read_error = False\<rparr> a
       \<lparr>srv_mesg = mesg, fates = fs, replies = []\<rparr> recvline [] =
     (if length (pieces xs) \<le> exchanges fs \<or> exchanges fs = length fs then (Returned (), xs, k')
      else (Running, concat (take (exchanges fs) (pieces xs)), k'))"
  using dg_cli_prints [of "\<lparr>rest = xs, read_error = False\<rparr>" "\<lparr>srv_mesg = mesg, fates = fs, replies = []\<rparr>" recvline a "[]"] assms
  by (simp cong: if_cong)

theorem dg_cli_prints_its_input_witness:
  "(\<exists>k'. dg_cli peer_sendto peer_recvfrom \<lparr>rest = ''a'' @ NL # ''bc'', read_error = False\<rparr> 1
     \<lparr>srv_mesg = replicate 2048 NUL, fates = [], replies = []\<rparr> (replicate 513 NUL) [] = (Returned (), ''a'' @ NL # ''bc'', k')) \<and>
   (\<exists>k'. dg_cli peer_sendto peer_recvfrom \<lparr>rest = ''a'' @ NL # ''bc'', read_error = False\<rparr> 1
     \<lparr>srv_mesg = replicate 2048 NUL, fates = [Through, Reply_lost], replies = []\<rparr> (replicate 513 NUL) [] = (Running, ''a'' @ [NL], k'))"
proof -
  have p: "pieces (''a'' @ NL # ''bc'') = [''a'' @ [NL], ''bc'']" by (simp add: pieces.simps take_line.simps)
  note c = dg_cli_prints_its_input [of "''a'' @ NL # ''bc''" "replicate 2048 NUL" "replicate 513 NUL" 1]
  show ?thesis using c [of "[]"] c [of "[Through, Reply_lost]"] p by (simp add: exchanges_def)
qed

text \<open>Once the superserver's datagram programs have served a client, they send to no other
  port, whatever arrives and whatever fails, and the discard program never sends a byte of what
  it received: only the closing message and empty datagrams.\<close>
theorem inetd_dg_answers_first_port_only:
  assumes "0 < msgcnt st"
  shows "(\<exists>xs. delivered (snd (inetd_dg_echo net_sendto evs st k)) = delivered k @ xs \<and>
            (\<forall>x \<in> set xs. sin_port (fst x) = sin_port (first_client st))) \<and>
         (\<exists>xs. delivered (snd (inetd_dg_dis net_sendto evs st k)) = delivered k @ xs \<and>
            (\<forall>x \<in> set xs. sin_port (fst x) = sin_port (first_client st) \<and> snd x \<in> {closing, []}))"
  using inetd_dg_echo_port [OF assms refl, of k evs] inetd_dg_dis_port [OF assms refl, of k evs]
  unfolding adds_def by blast

theorem inetd_dg_answers_first_port_only_witness:
  "\<exists>xs. delivered (snd (inetd_dg_echo net_sendto [Dgram \<lparr>sin_addr = 1, sin_port = 6\<rparr> ''a'']
       \<lparr>dg_mesg = replicate 2048 NUL, pcli_addr = zero_addr, first_client = \<lparr>sin_addr = 1, sin_port = 5\<rparr>,
        msgcnt = 1\<rparr> \<lparr>delivered = [], verdicts = []\<rparr>)) = xs \<and> (\<forall>x \<in> set xs. sin_port (fst x) = 5)"
  using inetd_dg_answers_first_port_only [of "\<lparr>dg_mesg = replicate 2048 NUL, pcli_addr = zero_addr,
      first_client = \<lparr>sin_addr = 1, sin_port = 5\<rparr>, msgcnt = 1\<rparr>"
      "[Dgram \<lparr>sin_addr = 1, sin_port = 6\<rparr> ''a'']" "\<lparr>delivered = [], verdicts = []\<rparr>"]
  by simp

text \<open>The quit test of the superserver's datagram echo program reads the array, not the
  datagram: nothing clears it between two calls, so two datagrams neither of which is the quit
  command end the program, the second one unanswered.\<close>
theorem inetd_dg_echo_quits_on_leftovers:
  assumes "length (dg_mesg st) = 2048" "msgcnt st = 0" "verdicts k = []"
  shows "inetd_dg_echo net_sendto [Dgram a (''xxxquit'' @ [NL]), Dgram a ''udp''] st k =
           (Exited EXIT_SUCCESS, k\<lparr>delivered := delivered k @ [(a, ''xxxquit'' @ [NL])]\<rparr>)"
  using assms by (rule inetd_dg_echo_leftover)

theorem inetd_dg_echo_quits_on_leftovers_witness:
  "inetd_dg_echo net_sendto [Dgram zero_addr (''xxxquit'' @ [NL]), Dgram zero_addr ''udp'']
     \<lparr>dg_mesg = replicate 2048 NUL, pcli_addr = zero_addr, first_client = zero_addr, msgcnt = 0\<rparr>
     \<lparr>delivered = [], verdicts = []\<rparr> =
   (Exited EXIT_SUCCESS, \<lparr>delivered = [(zero_addr, ''xxxquit'' @ [NL])], verdicts = []\<rparr>)"
  using inetd_dg_echo_quits_on_leftovers [of "\<lparr>dg_mesg = replicate 2048 NUL, pcli_addr = zero_addr,
      first_client = zero_addr, msgcnt = 0\<rparr>" "\<lparr>delivered = [], verdicts = []\<rparr>" zero_addr] by simp

end
