(* ===== verification/Strtol.thy ===== *)
theory Strtol
  imports C_Library
begin

text \<open>
  The emulated library functions \<open>my_strtol\<close>, \<open>my_strcmp\<close> and \<open>my_strlcpy\<close>
  (\<open>my_ emulation/library_functions\<close>).  A C string is the list of its characters without the
  NUL; \<open>long\<close> is a 64-bit word compared as a signed number, and the signed overflow that the
  code means to detect afterwards is the wrap-around its comments describe.
\<close>

section \<open>strtol\<close>

definition at :: "byte list \<Rightarrow> nat \<Rightarrow> byte" where
  "at s i = (if i < length s then s ! i else NUL)"

definition isalpha :: "byte \<Rightarrow> bool" where
  "isalpha c \<longleftrightarrow> (let n = of_char c :: nat in 65 \<le> n \<and> n \<le> 90 \<or> 97 \<le> n \<and> n \<le> 122)"

definition tolower :: "byte \<Rightarrow> int" where
  "tolower c = (let n = of_char c :: nat in if 65 \<le> n \<and> n \<le> 90 then int n + 32 else char_val c)"

fun power :: "int \<Rightarrow> nat \<Rightarrow> 64 word" where
  "power number 0 = 1"
| "power number (Suc e) = power number e * of_int number"

text \<open>What the call did to \<open>endptr\<close>: nothing; \<open>*endptr\<close> set to an offset into \<open>str\<close>; a NUL
  stored where \<open>*endptr\<close> pointed.\<close>

datatype end_effect = Untouched | Points_to nat | Nul_stored

record strtol_result =
  long_val :: "64 word"
  errno_set :: "errno option"
  end_eff :: end_effect

text \<open>
  The code up to the label \<open>checkstr\<close>, after blanks and sign: the base and the rest of the
  string to convert, or the \<open>EINVAL\<close> return, with what the return stores through \<open>endptr\<close>.
\<close>

definition strtol_prefix :: "byte list \<Rightarrow> int \<Rightarrow> byte list option + (byte list \<times> int)" where
  "strtol_prefix str base =
     (let str = (if base = 8 \<and> at str 0 = CHR ''0'' then tl str else str);
          str = (if base = 16 \<and> at str 0 = CHR ''0'' \<and> at str 1 \<in> {CHR ''x'', CHR ''X''}
                 then drop 2 str else str)
      in if base = 0 then
           (if at str 0 = CHR ''0'' then
              (let str = tl str
               in if at str 0 \<in> {CHR ''x'', CHR ''X''} then Inr (tl str, 16) else Inr (str, 8))
            else if is_digit (at str 0) then Inr (str, 10)
            else Inl (Some str))
         else if base = 2 then
           (if at str 0 \<in> {CHR ''1'', CHR ''0''} then Inr (str, 2) else Inl (Some str))
         else if base \<le> 1 \<or> 36 < base then Inl None
         else Inr (str, base))"

text \<open>The \<open>for\<close> loop of \<open>checkstr\<close>: does it stop at this character?\<close>

definition strtol_stops :: "int \<Rightarrow> byte \<Rightarrow> bool" where
  "strtol_stops base c =
     (if 10 < base then isalpha c \<and> tolower c - 97 \<ge> base - 10
      else base \<noteq> 0 \<and> (isalpha c \<or> char_val c - 48 > base - 1))"

definition digit_above_10 :: "byte \<Rightarrow> int" where
  "digit_above_10 c = (if isalpha c then tolower c - 97 + 10 else char_val c - 48)"

definition digit_upto_10 :: "byte \<Rightarrow> int" where
  "digit_upto_10 c = char_val c - 48"

text \<open>The conversion loop, from the last character to the first: \<open>rds\<close> are the characters
  still to convert, in that order.\<close>

fun strtol_sum ::
  "(byte \<Rightarrow> int) \<Rightarrow> int \<Rightarrow> bool \<Rightarrow> byte list \<Rightarrow> nat \<Rightarrow> 64 word \<Rightarrow> 64 word \<Rightarrow> 64 word option"
where
  "strtol_sum dig base sign [] exponent result prev_res = Some result"
| "strtol_sum dig base sign (c # rds) exponent result prev_res =
     (let base_n_power = power base exponent
      in if sign
         then (let result = result - base_n_power * of_int (dig c)
               in if prev_res <s result then None
                  else strtol_sum dig base sign rds (exponent + 1) result result)
         else (let result = result + base_n_power * of_int (dig c)
               in if result <s prev_res then None
                  else strtol_sum dig base sign rds (exponent + 1) result result))"

text \<open>\<open>endptr\<close> says whether the caller passed one: without it the second log line of the
  function reads through the null pointer.\<close>

definition my_strtol :: "byte list \<Rightarrow> bool \<Rightarrow> int \<Rightarrow> strtol_result outcome" where
  "my_strtol str0 endptr base =
     (let str = dropWhile (\<lambda>c. c = CHR '' '') str0;
          sign = (at str 0 = CHR ''-'');
          str = (if at str 0 \<in> {CHR ''+'', CHR ''-''} then tl str else str);
          off = (\<lambda>s. length str0 - length s)
      in case strtol_prefix str base of
           Inl None \<Rightarrow> Returned \<lparr>long_val = 0, errno_set = Some EINVAL, end_eff = Untouched\<rparr>
         | Inl (Some s) \<Rightarrow>
             Returned \<lparr>long_val = 0, errno_set = Some EINVAL,
                       end_eff = (if endptr then Points_to (off s) else Untouched)\<rparr>
         | Inr (str, base) \<Rightarrow>
             (let ds = takeWhile (\<lambda>c. \<not> strtol_stops base c) str; i = length ds
              in if i = 0
                 then Returned \<lparr>long_val = 0, errno_set = Some EINVAL,
                                end_eff = (if endptr then Points_to (off str) else Untouched)\<rparr>
                 else if \<not> endptr then Aborted
                 else (let eff = (if at str i = NUL then Nul_stored else Points_to (off str + i))
                       in case strtol_sum (if 10 < base then digit_above_10 else digit_upto_10)
                                 base sign (rev ds) 0 0 0 of
                            None \<Rightarrow> Returned \<lparr>long_val = 0, errno_set = Some ERANGE, end_eff = eff\<rparr>
                          | Some r \<Rightarrow> Returned \<lparr>long_val = r, errno_set = None, end_eff = eff\<rparr>)))"

section \<open>Reference value of a numeral\<close>

definition valid_digit :: "int \<Rightarrow> byte \<Rightarrow> bool" where
  "valid_digit base c \<longleftrightarrow> (is_digit c \<or> isalpha c) \<and> digit_above_10 c < base"

definition num_value :: "int \<Rightarrow> byte list \<Rightarrow> int" where
  "num_value base ds = foldl (\<lambda>a c. base * a + digit_above_10 c) 0 ds"

lemma char_val_small: "(of_char c :: int) < 128 \<Longrightarrow> char_val c = of_char c"
  by (simp add: char_val_def Let_def)

lemma of_char_int: "(of_char c :: int) = int (of_char c)"
  by (rule of_nat_of_char [symmetric])

lemma valid_digit_cases:
  assumes "valid_digit base c" "2 \<le> base" "base \<le> 36"
  shows "0 \<le> digit_above_10 c" "digit_above_10 c < base" "\<not> strtol_stops base c"
    "base \<le> 10 \<Longrightarrow> digit_upto_10 c = digit_above_10 c"
    "base \<le> 10 \<Longrightarrow> is_digit c" "c \<noteq> CHR '' ''" "c \<noteq> CHR ''+''" "c \<noteq> CHR ''-''" "c \<noteq> NUL"
proof -
  let ?n = "of_char c :: nat"
  have c: "(48 \<le> ?n \<and> ?n \<le> 57) \<or> (65 \<le> ?n \<and> ?n \<le> 90) \<or> (97 \<le> ?n \<and> ?n \<le> 122)"
    using assms(1) by (auto simp del: of_nat_of_char simp: valid_digit_def is_digit_def isalpha_def Let_def)
  then have "?n < 128" by auto
  then have cv: "char_val c = int ?n" by (simp del: of_nat_of_char add: char_val_def Let_def of_char_int)
  show "0 \<le> digit_above_10 c" "digit_above_10 c < base"
    using c assms cv
    by (auto simp del: of_nat_of_char simp: valid_digit_def digit_above_10_def isalpha_def tolower_def Let_def)
  then show "\<not> strtol_stops base c"
    using c assms cv
    by (auto simp del: of_nat_of_char simp: strtol_stops_def digit_above_10_def isalpha_def tolower_def Let_def split: if_splits)
  show "base \<le> 10 \<Longrightarrow> digit_upto_10 c = digit_above_10 c" "base \<le> 10 \<Longrightarrow> is_digit c"
    using c assms cv
    by (auto simp del: of_nat_of_char simp: valid_digit_def digit_above_10_def digit_upto_10_def isalpha_def is_digit_def
        tolower_def Let_def split: if_splits)
  show "c \<noteq> CHR '' ''" "c \<noteq> CHR ''+''" "c \<noteq> CHR ''-''" "c \<noteq> NUL" using c by auto
qed

lemma is_digit_valid: "is_digit c \<Longrightarrow> valid_digit 10 c"
  by (auto simp del: of_nat_of_char simp: valid_digit_def digit_above_10_def isalpha_def is_digit_def
      char_val_def Let_def of_char_int)

lemma power_eq: "power b e = of_int (b ^ e)"
  by (induction e) (simp_all add: mult.commute)

lemma sint_of_int_64: "- (2 ^ 63) \<le> x \<Longrightarrow> x < 2 ^ 63 \<Longrightarrow> sint (of_int x :: 64 word) = x"
  by (simp add: sint_sbintrunc' signed_take_bit_int_eq_self)

fun value_lsb :: "(byte \<Rightarrow> int) \<Rightarrow> int \<Rightarrow> byte list \<Rightarrow> int" where
  "value_lsb dig base [] = 0"
| "value_lsb dig base (c # rds) = dig c + base * value_lsb dig base rds"

lemma value_lsb_snoc: "value_lsb dig base (rds @ [c]) = value_lsb dig base rds + base ^ length rds * dig c"
  by (induction rds) (simp_all add: algebra_simps)

lemma value_lsb_nonneg: "\<forall>c \<in> set rds. 0 \<le> dig c \<Longrightarrow> 0 \<le> base \<Longrightarrow> 0 \<le> value_lsb dig base rds"
  by (induction rds) auto

lemma foldl_value: "foldl (\<lambda>a c. base * a + dig c) a ds = base ^ length ds * a + value_lsb dig base (rev ds)"
  by (induction ds arbitrary: a) (simp_all add: value_lsb_snoc algebra_simps)

lemma num_value_lsb: "num_value base ds = value_lsb digit_above_10 base (rev ds)"
  by (simp add: num_value_def foldl_value)

lemma strtol_step_fits:
  assumes "0 \<le> v" "0 \<le> d" "v + d \<le> (if sign then 2 ^ 63 else 2 ^ 63 - 1)"
    and "r = of_int (if sign then - v else v)" "w = of_int (if sign then - (v + d) else v + d)"
  shows "(if sign then sint (w :: 64 word) \<le> sint (r :: 64 word) else sint r \<le> sint w)"
proof -
  have "sint r = (if sign then - v else v)" "sint w = (if sign then - (v + d) else v + d)"
    unfolding assms(4,5) by (intro sint_of_int_64; use assms(1-3) in \<open>simp split: if_splits\<close>)+
  then show ?thesis using assms(2) by simp
qed

lemma strtol_sum_correct:
  assumes "\<forall>c \<in> set rds. 0 \<le> dig c" "0 \<le> base" "0 \<le> v"
    and "v + base ^ e * value_lsb dig base rds \<le> (if sign then 2 ^ 63 else 2 ^ 63 - 1)"
    and "r = of_int (if sign then - v else v)"
  shows "strtol_sum dig base sign rds e r r =
           Some (of_int (if sign then - (v + base ^ e * value_lsb dig base rds)
                         else v + base ^ e * value_lsb dig base rds))"
  using assms
proof (induction rds arbitrary: e v r)
  case (Cons c rds)
  let ?v = "v + base ^ e * dig c"
  have nn: "0 \<le> base ^ Suc e * value_lsb dig base rds"
    using value_lsb_nonneg [of rds dig base] Cons.prems by simp
  have eq: "v + base ^ e * value_lsb dig base (c # rds) = ?v + base ^ Suc e * value_lsb dig base rds"
    by (simp add: algebra_simps)
  have v: "v \<le> ?v" "?v \<le> (if sign then 2 ^ 63 else 2 ^ 63 - 1)"
    using Cons.prems nn eq by (auto split: if_splits)
  have step: "r + power base e * of_int (dig c) = of_int ?v" if "\<not> sign"
    using that Cons.prems(5) by (simp add: power_eq)
  have stepn: "r - power base e * of_int (dig c) = of_int (- ?v)" if sign
    using that Cons.prems(5) by (simp add: power_eq)
  have IH: "strtol_sum dig base sign rds (Suc e) (of_int (if sign then - ?v else ?v)) (of_int (if sign then - ?v else ?v)) =
      Some (of_int (if sign then - (?v + base ^ Suc e * value_lsb dig base rds)
                    else ?v + base ^ Suc e * value_lsb dig base rds))"
    using Cons.prems v nn eq by (intro Cons.IH) auto
  define w where "w = (of_int (if sign then - ?v else ?v) :: 64 word)"
  have "if sign then sint w \<le> sint r else sint r \<le> sint w"
    using Cons.prems(3,5) v by (intro strtol_step_fits [of v "base ^ e * dig c"]) (simp_all add: w_def)
  moreover have "(if sign then r - power base e * of_int (dig c) else r + power base e * of_int (dig c)) = w"
    using step stepn by (simp add: w_def)
  moreover note IH [folded w_def]
  ultimately show ?case
    unfolding eq by (cases sign) (simp_all add: Let_def word_sless_alt not_less del: of_int_minus of_int_add)
qed simp

lemma takeWhile_digits:
  assumes "\<forall>c \<in> set ds. \<not> P c" "tail = [] \<or> P (hd tail)"
  shows "takeWhile (\<lambda>c. \<not> P c) (ds @ tail) = ds"
  using assms by (cases tail) (auto simp: takeWhile_append)


lemma dropWhile_blanks: "s = [] \<or> hd s \<noteq> CHR '' '' \<Longrightarrow> dropWhile (\<lambda>c. c = CHR '' '') (replicate k (CHR '' '') @ s) = s"
  by (induction k) (cases s; auto)+

lemma my_strtol_converts:
  assumes ds: "ds \<noteq> []" "\<forall>c \<in> set ds. valid_digit base c" "2 \<le> base" "base \<le> 36"
    and pre: "strtol_prefix (ds @ tail) base0 = Inr (ds @ tail, base)"
    and tail: "tail = [] \<or> strtol_stops base (hd tail)" "NUL \<notin> set tail"
    and sg: "sg = [] \<or> sg = ''+'' \<or> sg = ''-''"
    and fit: "num_value base ds \<le> (if sg = ''-'' then 2 ^ 63 else 2 ^ 63 - 1)"
    and s: "s = replicate k (CHR '' '') @ sg @ ds"
    and v: "v = (if sg = ''-'' then - num_value base ds else num_value base ds)"
  shows "my_strtol (s @ tail) True base0 =
           Returned \<lparr>long_val = of_int v, errno_set = None,
             end_eff = (if tail = [] then Nul_stored else Points_to (length s))\<rparr> \<and>
         sint (of_int v :: 64 word) = v"
proof -
  note vd = valid_digit_cases [OF _ ds(3,4)]
  have hd: "valid_digit base (hd ds)" using ds by simp
  have blanks: "dropWhile (\<lambda>c. c = CHR '' '') (s @ tail) = sg @ ds @ tail"
    using dropWhile_blanks [of "sg @ ds @ tail" k] sg ds(1) vd(6) [OF hd] s by (auto simp: hd_append)
  have at0: "at (ds @ tail) 0 = hd ds" using ds(1) by (cases ds) (auto simp: at_def)
  have sgn: "at (sg @ ds @ tail) 0 = CHR ''-'' \<longleftrightarrow> sg = ''-''"
    "(if at (sg @ ds @ tail) 0 \<in> {CHR ''+'', CHR ''-''} then tl (sg @ ds @ tail) else sg @ ds @ tail) = ds @ tail"
    using sg at0 vd(7,8) [OF hd] by (auto simp: at_def)
  have tw: "takeWhile (\<lambda>c. \<not> strtol_stops base c) (ds @ tail) = ds"
    by (rule takeWhile_digits) (use ds(2) vd(3) tail in auto)
  have ati: "at (ds @ tail) (length ds) = NUL \<longleftrightarrow> tail = []"
    using tail(2) by (cases tail) (auto simp: at_def nth_append)
  let ?dig = "if 10 < base then digit_above_10 else digit_upto_10"
  have dig: "?dig c = digit_above_10 c" if "c \<in> set ds" for c
    using that ds(2) vd(4) by auto
  have val: "value_lsb ?dig base (rev ds) = num_value base ds"
  proof -
    have "\<forall>c \<in> set rds. ?dig c = digit_above_10 c \<Longrightarrow>
        value_lsb ?dig base rds = value_lsb digit_above_10 base rds" for rds
      by (induction rds) auto
    then show ?thesis using dig by (simp add: num_value_lsb)
  qed
  have sum: "strtol_sum ?dig base (sg = ''-'') (rev ds) 0 0 0 = Some (of_int v)"
    using strtol_sum_correct [of "rev ds" ?dig base 0 0 "sg = ''-''" 0] dig vd(1) ds(2,3) fit val
    by (simp add: v)
  have "0 \<le> num_value base ds"
    unfolding num_value_lsb by (rule value_lsb_nonneg) (use vd(1) ds in auto)
  then have "sint (of_int v :: 64 word) = v"
    using fit by (intro sint_of_int_64) (auto simp: v split: if_splits)
  moreover have "my_strtol (s @ tail) True base0 =
      Returned \<lparr>long_val = of_int v, errno_set = None,
        end_eff = (if tail = [] then Nul_stored else Points_to (length s))\<rparr>"
    unfolding my_strtol_def Let_def blanks sgn pre sum.case prod.case tw
    using ds(1) sum ati s by simp
  ultimately show ?thesis by blast
qed

section \<open>strcmp and strlcpy\<close>

function my_strcmp :: "byte list \<Rightarrow> byte list \<Rightarrow> int" where
  "my_strcmp s t =
     (let a = at s 0; b = at t 0
      in if a = b then (if a = NUL then 0 else my_strcmp (tl s) (tl t)) else char_val a - char_val b)"
  by pat_completeness auto
termination by (relation "measure (\<lambda>(s, t). length s)") (auto simp: at_def split: if_splits)

declare my_strcmp.simps [simp del]

text \<open>\<open>my_strlcpy\<close>: \<open>mem\<close> is the memory from the destination on.\<close>

fun my_strlcpy_loop :: "byte list \<Rightarrow> byte list \<Rightarrow> int \<Rightarrow> int \<Rightarrow> int \<times> byte list" where
  "my_strlcpy_loop mem [] d_len d_i = (d_i, mem[nat d_i := NUL])"
| "my_strlcpy_loop mem (c # s) d_len d_i =
     (if d_i < d_len then my_strlcpy_loop (mem[nat d_i := c]) s d_len (d_i + 1)
      else my_strlcpy_loop mem s d_len d_i)"

definition my_strlcpy :: "byte list \<Rightarrow> byte list \<Rightarrow> int \<Rightarrow> int \<times> byte list" where
  "my_strlcpy mem s d_len = my_strlcpy_loop mem s d_len 0"

lemma my_strcmp_strncmp_zero: "my_strcmp s t = 0 \<longleftrightarrow> cstr s = cstr t"
proof (induction s t rule: my_strcmp.induct)
  case (1 s t)
  have "char_val a = char_val b \<Longrightarrow> a = b" for a b
  proof -
    assume "char_val a = char_val b"
    moreover have "(of_char a :: nat) < 256" "(of_char b :: nat) < 256"
      by (rule nat_of_char_less_256)+
    moreover have "char_val c = (if (of_char c :: nat) < 128 then int (of_char c) else int (of_char c) - 256)"
      for c
      by (simp del: of_nat_of_char add: char_val_def Let_def of_char_int)
    ultimately have "(of_char a :: nat) = of_char b"
      by (simp only: split: if_splits)
    then show "a = b" by simp
  qed
  then have inj: "char_val a - char_val b = 0 \<longleftrightarrow> a = b" for a b by auto
  have IH: "my_strcmp (tl s) (tl t) = 0 \<longleftrightarrow> cstr (tl s) = cstr (tl t)"
    if "at s 0 = at t 0" "at s 0 \<noteq> NUL"
    using 1 that by blast
  have "cstr s = (if at s 0 = NUL then [] else at s 0 # cstr (tl s))" for s
    by (cases s) (simp_all add: cstr_def at_def)
  note cs = this [of s] this [of t]
  show ?case
    unfolding my_strcmp.simps [of s t] Let_def cs using IH inj by auto
qed

lemma my_strcmp_strncmp:
  "\<forall>c \<in> set s \<union> set t. (of_char c :: nat) < 128 \<Longrightarrow> length s < n \<Longrightarrow> my_strcmp s t = strncmp s t n"
proof (induction s t arbitrary: n rule: my_strcmp.induct)
  case (1 s t)
  obtain m where n: "n = Suc m" using 1(3) by (cases n) auto
  have small: "(of_char (at s 0) :: int) < 128" "(of_char (at t 0) :: int) < 128"
    using 1(2) by (auto simp: at_def of_char_int simp del: of_nat_of_char)
  have eq: "at s 0 = (case s of [] \<Rightarrow> NUL | x # _ \<Rightarrow> x)" "at t 0 = (case t of [] \<Rightarrow> NUL | y # _ \<Rightarrow> y)"
    by (auto simp: at_def split: list.splits)
  have IH: "my_strcmp (tl s) (tl t) = strncmp (tl s) (tl t) m" if "at s 0 = at t 0" "at s 0 \<noteq> NUL"
  proof -
    have "s \<noteq> []" using that by (auto simp: at_def)
    then have "length (tl s) < m" using 1(3) n by (cases s) auto
    moreover have "\<forall>c \<in> set (tl s) \<union> set (tl t). (of_char c :: nat) < 128"
      using 1(2) by (cases s; cases t) auto
    ultimately show ?thesis using 1(1) that by blast
  qed
  show ?case
    using IH char_val_small [OF small(1)] char_val_small [OF small(2)]
    by (simp add: my_strcmp.simps [of s] n eq [symmetric] Let_def)
qed

lemma my_strcmp_antisym: "my_strcmp t s = - my_strcmp s t"
proof (induction s t rule: my_strcmp.induct)
  case (1 s t)
  then show ?case by (simp add: my_strcmp.simps [of s] my_strcmp.simps [of t] Let_def)
qed

lemma my_strlcpy_loop_eq:
  "my_strlcpy_loop mem s (int n) (int i) =
     (int (i + min (length s) (n - i)), poke mem i (take (n - i) s @ [NUL]))"
proof (induction s arbitrary: mem i)
  case (Cons c s)
  show ?case
  proof (cases "i < n")
    case True
    then have "n - i = Suc (n - Suc i)" by simp
    with True Cons [of "mem[i := c]" "Suc i"] show ?thesis by (simp add: ac_simps)
  next
    case False
    then show ?thesis using Cons [of mem i] by simp
  qed
qed simp

section \<open>The test program of strtol\<close>

datatype strtol_report =
    Usage | Cannot_convert | Out_of_range | No_base | Converted int "byte list"

text \<open>
  \<open>main\<close>: the argument, and the number \<open>scanf\<close> reads for the base, if any.  The report holds
  the number printed and the characters printed as unread.
\<close>

definition strtol_main :: "int \<Rightarrow> byte list \<Rightarrow> int option \<Rightarrow> strtol_report \<times> int outcome" where
  "strtol_main argc argv1 base =
     (if argc \<noteq> 2 then (Usage, Exited EXIT_FAILURE)
      else (case base of
              None \<Rightarrow> (No_base, Exited EXIT_SUCCESS)
            | Some _ \<Rightarrow>
                (case my_strtol argv1 True 0 of
                   Returned r \<Rightarrow>
                     (if errno_set r = Some EINVAL then (Cannot_convert, Exited EXIT_SUCCESS)
                      else if errno_set r = Some ERANGE then (Out_of_range, Exited EXIT_SUCCESS)
                      else (Converted (sint (long_val r))
                              (case end_eff r of Points_to k \<Rightarrow> drop k argv1 | _ \<Rightarrow> []),
                            Exited EXIT_SUCCESS))
                 | _ \<Rightarrow> (Cannot_convert, Aborted))))"

section \<open>Properties\<close>



text \<open>The range check of \<open>my_strtol\<close> looks only at the sign of each step, so a power of the
  base that wraps to 0 goes unnoticed: \<open>2 ^ 64\<close> written in base 16 gives 0 with no error.  The
  scan also takes every character that is not a letter for a digit of a base above 10, and a call
  without \<open>endptr\<close> reads through the null pointer as soon as one digit was found.\<close>
theorem my_strtol_undetected:
  "my_strtol (CHR ''1'' # replicate 16 (CHR ''0'')) True 16 =
     Returned \<lparr>long_val = 0, errno_set = None, end_eff = Nul_stored\<rparr> \<and>
   my_strtol ''1:'' True 16 = Returned \<lparr>long_val = 26, errno_set = None, end_eff = Nul_stored\<rparr> \<and>
   my_strtol ''7'' False 10 = Aborted"
  by code_simp

text \<open>The test program converts in base 10 a decimal argument without leading zero,
  whatever base the user enters.\<close>
theorem strtol_main_ignores_the_base:
  assumes "ds \<noteq> []" "\<forall>c \<in> set ds. is_digit c" "hd ds \<noteq> CHR ''0''" "num_value 10 ds < 2 ^ 63"
  shows "strtol_main 2 ds (Some b) = (Converted (num_value 10 ds) [], Exited EXIT_SUCCESS)"
proof -
  have at0: "at ds 0 = hd ds" and d: "is_digit (hd ds)" using assms by (cases ds; simp add: at_def)+
  then have "strtol_prefix (ds @ []) 0 = Inr (ds @ [], 10)"
    using assms(3) by (simp add: strtol_prefix_def Let_def)
  moreover have "valid_digit 10 c" if "c \<in> set ds" for c
    using that assms(2) is_digit_valid by blast
  ultimately show ?thesis
    using my_strtol_converts [of ds 10 "[]" 0 "[]" ds 0 "num_value 10 ds"] assms(1,4)
    by (simp add: strtol_main_def)
qed

theorem strtol_main_ignores_the_base_witness:
  "strtol_main 2 ''101'' (Some 2) = (Converted 101 [], Exited EXIT_SUCCESS)"
proof -
  have "num_value 10 ''101'' = 101" by code_simp
  then show ?thesis using strtol_main_ignores_the_base [of "''101''" 2] by (simp add: is_digit_def)
qed

text \<open>\<open>my_strcmp\<close> is 0 exactly on equal strings and changes sign when its arguments are
  swapped; on ASCII strings it is the library's comparison.\<close>
theorem my_strcmp_compares:
  "(my_strcmp s t = 0 \<longleftrightarrow> cstr s = cstr t) \<and> my_strcmp t s = - my_strcmp s t \<and>
   ((\<forall>c \<in> set s \<union> set t. (of_char c :: nat) < 128) \<longrightarrow> my_strcmp s t = strncmp s t (Suc (length s)))"
  using my_strcmp_strncmp_zero my_strcmp_antisym my_strcmp_strncmp by blast

theorem my_strcmp_compares_witness:
  "my_strcmp ''abd'' ''abc'' = - my_strcmp ''abc'' ''abd'' \<and>
   my_strcmp ''abd'' ''abc'' = strncmp ''abd'' ''abc'' 4"
proof -
  have "\<forall>c \<in> set ''abd'' \<union> set ''abc''. (of_char c :: nat) < 128" by (simp add: of_char_def)
  then have "my_strcmp ''abd'' ''abc'' = strncmp ''abd'' ''abc'' (Suc (length ''abd''))"
    using my_strcmp_compares [of "''abd''" "''abc''"] by blast
  moreover have "Suc (length ''abd'') = 4" by simp
  ultimately show ?thesis using my_strcmp_compares [of "''abc''" "''abd''"] by (simp only:)
qed

text \<open>\<open>my_strlcpy\<close> copies the first \<open>d_len\<close> characters and returns their number; the NUL
  goes right after them, which for a source of \<open>d_len\<close> characters or more is one byte past the
  destination.\<close>
theorem my_strlcpy_copies:
  assumes "min (length s) n < length mem"
  shows "my_strlcpy mem s (int n) =
           (int (min (length s) n), take n s @ NUL # drop (Suc (min (length s) n)) mem) \<and>
         (n \<le> length s \<longrightarrow> snd (my_strlcpy mem s (int n)) ! n = NUL)"
proof -
  have "my_strlcpy mem s (int n) = (int (min (length s) n), poke mem 0 (take n s @ [NUL]))"
    using my_strlcpy_loop_eq [of mem s n 0] by (simp add: my_strlcpy_def)
  moreover have "poke mem 0 (take n s @ [NUL]) = take n s @ NUL # drop (Suc (min (length s) n)) mem"
    using assms by (subst poke_0_append) auto
  ultimately show ?thesis by (simp add: nth_append)
qed

theorem my_strlcpy_copies_witness:
  "my_strlcpy ''.......'' ''abcdef'' 3 = (3, ''abc'' @ NUL # ''...'')"
  using my_strlcpy_copies [of "''abcdef''" 3 "''.......''"] by (simp add: numeral_eq_Suc)

end
