(* ===== verification/Ip_To_Hex.thy ===== *)
theory Ip_To_Hex
  imports C_Library
begin

text \<open>
  The address converter \<open>Exercises/tools/iptohex.c\<close>: a dotted address is printed in
  hexadecimal and in bits.  \<open>unsigned int\<close> is a 32-bit word, so the decimal number whose
  digits are the bits of \<open>k\<close> wraps around where the C code's does.
\<close>

unbundle bit_operations_syntax

section \<open>The program\<close>

function int_to_int :: "32 word \<Rightarrow> 32 word" where
  "int_to_int k = (if k = 0 \<or> k = 1 then k else (k mod 2) + 10 * int_to_int (k div 2))"
  by pat_completeness auto
termination
proof (relation "measure unat")
  fix k :: "32 word"
  assume "\<not> (k = 0 \<or> k = 1)"
  then have "unat k \<noteq> 0" by (simp add: unat_eq_zero)
  then show "(k div 2, k) \<in> measure unat" by (simp add: unat_div)
qed simp

definition htobe32 :: "32 word \<Rightarrow> 32 word" where
  "htobe32 host_32_bits =
     ((drop_bit 24 host_32_bits AND 0xff) OR
      (push_bit 8 host_32_bits AND 0xff0000) OR
      (drop_bit 8 host_32_bits AND 0xff00) OR
      (push_bit 24 host_32_bits AND 0xff000000))"

text \<open>\<open>sscanf\<close> with \<open>%u\<close>, and with the whole format \<open>%u.%u.%u.%u\<close>: the numbers read before
  the first mismatch.\<close>

definition scan_u :: "byte list \<Rightarrow> (32 word \<times> byte list) option" where
  "scan_u s =
     (let t = dropWhile is_space s;
          neg = (t \<noteq> [] \<and> hd t = CHR ''-'');
          u = (if t \<noteq> [] \<and> (hd t = CHR ''-'' \<or> hd t = CHR ''+'') then tl t else t);
          ds = takeWhile is_digit u; n = digits_val ds
      in if ds = [] then None
         else Some (if 2 ^ 64 \<le> n then - 1 else if neg then - of_nat n else of_nat n,
                    dropWhile is_digit u))"

fun scan_dotted :: "nat \<Rightarrow> byte list \<Rightarrow> 32 word list" where
  "scan_dotted 0 s = []"
| "scan_dotted (Suc k) s =
     (case scan_u s of
        None \<Rightarrow> []
      | Some (w, s) \<Rightarrow>
          w # (if s \<noteq> [] \<and> hd s = CHR ''.'' then scan_dotted k (tl s) else []))"

definition hex_digit :: "nat \<Rightarrow> byte" where
  "hex_digit d = (if d < 10 then char_of (48 + d) else char_of (87 + d))"

fun show_hex :: "nat \<Rightarrow> byte list" where
  "show_hex n = (if n < 16 then [hex_digit n] else show_hex (n div 16) @ [hex_digit (n mod 16)])"

declare show_hex.simps [simp del]

text \<open>The conversions \<open>%02x\<close> and \<open>%08d\<close>.\<close>

definition show_02x :: "32 word \<Rightarrow> byte list" where
  "show_02x w = (let s = show_hex (unat w) in replicate (2 - length s) (CHR ''0'') @ s)"

definition show_08d :: "32 word \<Rightarrow> byte list" where
  "show_08d w =
     (let i = sint w; ds = show_nat (nat \<bar>i\<bar>); sgn = (if i < 0 then [CHR ''-''] else [])
      in sgn @ replicate (8 - length sgn - length ds) (CHR ''0'') @ ds)"

definition dotted :: "byte list list \<Rightarrow> byte list" where
  "dotted xs = concat (map (\<lambda>x. x @ ''.'') (butlast xs)) @ last xs"

text \<open>\<open>main\<close> without the code under \<open>_TEST_FUNCTION\<close>: the lines printed and the exit status.\<close>

definition iptohex_main :: "int \<Rightarrow> byte list \<Rightarrow> byte list list \<times> int outcome" where
  "iptohex_main argc argv1 =
     (if argc \<noteq> 2 then ([], Exited EXIT_FAILURE)
      else (case scan_dotted 4 argv1 of
              [byte1, byte2, byte3, byte4] \<Rightarrow>
                (if byte1 > 255 \<or> byte2 > 255 \<or> byte3 > 255 \<or> byte4 > 255 then ([], Exited EXIT_FAILURE)
                 else
                   ([''argv[1] ('' @ argv1 @ '') in hex:  0x'' @
                       show_02x byte1 @ show_02x byte2 @ show_02x byte3 @ show_02x byte4,
                     ''argv[1] ('' @ argv1 @ '') in bits: '' @
                       dotted (map (\<lambda>b. show_08d (int_to_int b)) [byte1, byte2, byte3, byte4]),
                     ''[LOG] inet representation (big endian) for ('' @ argv1 @ '') is: 0x'' @
                       show_02x byte4 @ show_02x byte3 @ show_02x byte2 @ show_02x byte1],
                    Exited EXIT_SUCCESS))
            | _ \<Rightarrow> ([], Exited EXIT_SUCCESS)))"

declare int_to_int.simps [simp del]

section \<open>Bits as decimal digits\<close>

fun dec_bits :: "nat \<Rightarrow> nat" where
  "dec_bits k = (if k = 0 \<or> k = 1 then k else k mod 2 + 10 * dec_bits (k div 2))"

fun undec :: "nat \<Rightarrow> nat" where
  "undec n = (if n < 10 then n else n mod 10 + 2 * undec (n div 10))"

fun binary_digits :: "nat \<Rightarrow> bool" where
  "binary_digits n = (n mod 10 < 2 \<and> (if n < 10 then True else binary_digits (n div 10)))"

declare dec_bits.simps [simp del] undec.simps [simp del] binary_digits.simps [simp del]

lemma int_to_int_dec_bits: "unat (int_to_int k) = dec_bits (unat k) mod 2 ^ 32"
proof (induction k rule: int_to_int.induct)
  case (1 k)
  show ?case
  proof (cases "k = 0 \<or> k = 1")
    case True
    then show ?thesis
      by (elim disjE) (simp_all add: int_to_int.simps [of 0] int_to_int.simps [of 1]
          dec_bits.simps [of 0] dec_bits.simps [of 1] dec_bits.simps [of "Suc 0"])
  next
    case False
    then have "unat k \<noteq> unat (0 :: 32 word)" "unat k \<noteq> unat (1 :: 32 word)" by (metis unsigned_word_eqI)+
    then have "unat k \<noteq> 0" "unat k \<noteq> 1" by simp_all
    then have d: "dec_bits (unat k) = unat k mod 2 + 10 * dec_bits (unat k div 2)"
      by (subst dec_bits.simps) simp
    have "unat (int_to_int (k div 2)) = dec_bits (unat k div 2) mod 2 ^ 32"
      using 1 False by (simp add: unat_div)
    then show ?thesis
      using False
      by (subst int_to_int.simps) (simp add: d unat_word_ariths unat_mod mod_simps del: unat_1)
  qed
qed

lemma dec_bits_bound: "k < 2 ^ n \<Longrightarrow> 9 * dec_bits k < 10 ^ n"
proof (induction n arbitrary: k)
  case 0
  then show ?case by (simp add: dec_bits.simps)
next
  case (Suc n)
  have "9 * dec_bits (k div 2) < 10 ^ n" using Suc by (intro Suc.IH) auto
  moreover have "(1::nat) \<le> 10 ^ n" by simp
  ultimately show ?case by (subst dec_bits.simps) (auto simp: mod2_eq_if)
qed

lemma undec_dec_bits: "undec (dec_bits k) = k \<and> binary_digits (dec_bits k)"
proof (induction k rule: dec_bits.induct)
  case (1 k)
  show ?case
  proof (cases "k = 0 \<or> k = 1")
    case True
    then show ?thesis
      by (elim disjE) (simp_all add: dec_bits.simps [of 0] dec_bits.simps [of 1] dec_bits.simps [of "Suc 0"]
          undec.simps [of 0] undec.simps [of "Suc 0"] binary_digits.simps [of 0] binary_digits.simps [of "Suc 0"])
  next
    case False
    let ?d = "dec_bits (k div 2)"
    have IH: "undec ?d = k div 2" "binary_digits ?d" using 1 False by auto
    have "?d \<noteq> 0" using IH(1) False undec.simps [of 0] by (intro notI) auto
    moreover have d: "dec_bits k = k mod 2 + 10 * ?d" using False by (subst dec_bits.simps) simp
    ultimately have "\<not> dec_bits k < 10" "dec_bits k mod 10 = k mod 2" "dec_bits k div 10 = ?d"
      by auto
    then show ?thesis
      using IH by (simp add: undec.simps [of "dec_bits k"] binary_digits.simps [of "dec_bits k"])
  qed
qed

section \<open>Bytes and hexadecimal\<close>

lemma masks:
  "(0xff :: 32 word) = mask 8" "(0xff00 :: 32 word) = push_bit 8 (mask 8)"
  "(0xff0000 :: 32 word) = push_bit 16 (mask 8)" "(0xff000000 :: 32 word) = push_bit 24 (mask 8)"
  by (simp_all add: mask_eq_exp_minus_1 push_bit_eq_mult)

lemma bit_htobe32:
  assumes "n < 8"
  shows "bit (htobe32 w) n = bit w (24 + n)" "bit (htobe32 w) (8 + n) = bit w (16 + n)"
    "bit (htobe32 w) (16 + n) = bit w (8 + n)" "bit (htobe32 w) (24 + n) = bit w n"
  using assms unfolding htobe32_def masks by (simp_all add: bit_simps)

lemma byte_position:
  assumes "n < (32::nat)"
  obtains r where "r < 8" "n = r \<or> n = 8 + r \<or> n = 16 + r \<or> n = 24 + r"
proof -
  have "n = n mod 8 \<or> n = 8 + n mod 8 \<or> n = 16 + n mod 8 \<or> n = 24 + n mod 8"
    using assms by presburger
  then show thesis using that [of "n mod 8"] by simp
qed

definition hex_val :: "byte \<Rightarrow> nat" where
  "hex_val c = (if is_digit c then of_char c - 48 else of_char c - 87)"

definition unhex :: "byte list \<Rightarrow> nat" where
  "unhex s = foldl (\<lambda>a c. 16 * a + hex_val c) 0 s"

lemma hex_val_digit: "d < 16 \<Longrightarrow> hex_val (hex_digit d) = d"
  by (auto simp: hex_val_def hex_digit_def is_digit_def take_bit_nat_eq_self split: if_splits)

lemma show_02x_byte:
  assumes "a < 256"
  shows "show_02x (of_nat a) = [hex_digit (a div 16), hex_digit (a mod 16)]"
proof -
  have "unat (of_nat a :: 32 word) = a" using assms by (simp add: unat_of_nat)
  moreover have "hex_digit 0 = CHR ''0''" by code_simp
  moreover have "a div 16 < 16" using assms by (simp add: less_mult_imp_div_less)
  ultimately show ?thesis
    using assms by (simp add: show_02x_def Let_def show_hex.simps [of a] show_hex.simps [of "a div 16"])
qed

lemma scan_u_show_nat:
  assumes "n < 2 ^ 32" "tail = [] \<or> \<not> is_digit (hd tail)"
  shows "scan_u (show_nat n @ tail) = Some (of_nat n, tail)"
proof -
  have hd: "is_digit (hd (show_nat n))" using show_nat_digits [of "hd (show_nat n)" n] by simp
  have sp: "dropWhile is_space (show_nat n @ tail) = show_nat n @ tail"
    using digit_not_sign [OF hd] show_nat_not_Nil [of n] by (cases "show_nat n") auto
  have "takeWhile is_digit (show_nat n @ tail) = show_nat n" "dropWhile is_digit (show_nat n @ tail) = tail"
    using assms(2) show_nat_digits [of _ n]
    by (cases tail; auto simp: takeWhile_append dropWhile_append takeWhile_eq_all_conv)+
  then show ?thesis
    using assms(1) digit_not_sign [OF hd] by (simp add: scan_u_def Let_def sp hd_append)
qed

lemma not_digit_dot [simp]: "\<not> is_digit (CHR ''.'')"
  by (simp add: is_digit_def)

lemma scan_dotted_step:
  "n < 256 \<Longrightarrow> scan_dotted (Suc k) (show_nat n @ CHR ''.'' # s) = of_nat n # scan_dotted k s"
  "n < 256 \<Longrightarrow> scan_dotted (Suc 0) (show_nat n) = [of_nat n]"
  using scan_u_show_nat [of n "CHR ''.'' # s"] scan_u_show_nat [of n "[]"] by simp_all

lemma scan_dotted_show:
  assumes "a < 256" "b < 256" "c < 256" "d < 256"
  shows "scan_dotted 4 (dotted (map show_nat [a, b, c, d])) = [of_nat a, of_nat b, of_nat c, of_nat d]"
proof -
  have "dotted (map show_nat [a, b, c, d]) =
      show_nat a @ CHR ''.'' # show_nat b @ CHR ''.'' # show_nat c @ CHR ''.'' # show_nat d"
    by (simp add: dotted_def)
  moreover have "(4 :: nat) = Suc (Suc (Suc (Suc 0)))" by simp
  ultimately show ?thesis using assms by (simp only: scan_dotted_step)
qed

section \<open>Properties\<close>

text \<open>Up to 1023, the bound the comment gives, the decimal digits of \<open>int_to_int k\<close> are the
  binary digits of \<open>k\<close>; beyond, the number is the same one modulo 2 to the 32.\<close>
theorem int_to_int_spells_bits:
  "unat (int_to_int k) = dec_bits (unat k) mod 2 ^ 32 \<and>
   (k < 1024 \<longrightarrow> undec (unat (int_to_int k)) = unat k \<and> binary_digits (unat (int_to_int k)))"
proof -
  have "dec_bits (unat k) < 2 ^ 32" if "k < 1024"
  proof -
    have "unat k < 2 ^ 10" using that by (simp add: word_less_nat_alt)
    then show ?thesis using dec_bits_bound [of "unat k" 10] by simp
  qed
  then show ?thesis using int_to_int_dec_bits [of k] undec_dec_bits [of "unat k"] by simp
qed

theorem int_to_int_spells_bits_witness:
  "unat (int_to_int 5) = 101 \<and> undec (unat (int_to_int 5)) = 5"
proof -
  have "dec_bits 5 = 101" by code_simp
  then have "unat (int_to_int 5) = 101" using int_to_int_spells_bits [of 5] by simp
  moreover have "undec (unat (int_to_int 5)) = unat (5 :: 32 word)"
    using int_to_int_spells_bits [of 5] by (auto simp: word_less_nat_alt)
  ultimately show ?thesis by simp
qed

text \<open>\<open>htobe32\<close> reverses the four bytes of its argument, so it is its own inverse.\<close>
theorem htobe32_reverses_bytes:
  "(\<forall>i < 4. take_bit 8 (drop_bit (8 * i) (htobe32 w)) = take_bit 8 (drop_bit (8 * (3 - i)) w)) \<and>
   htobe32 (htobe32 w) = w"
proof -
  have "take_bit 8 (drop_bit (8 * i) (htobe32 w)) = take_bit 8 (drop_bit (8 * (3 - i)) w)" if "i < 4" for i
  proof (rule bit_eqI)
    fix n
    have "i = 0 \<or> i = 1 \<or> i = 2 \<or> i = 3" using that by auto
    then show "bit (take_bit 8 (drop_bit (8 * i) (htobe32 w))) n = bit (take_bit 8 (drop_bit (8 * (3 - i)) w)) n"
      using bit_htobe32 [of n w] by (auto simp: bit_simps)
  qed
  moreover have "htobe32 (htobe32 w) = w"
  proof (rule bit_word_eqI)
    fix n
    assume "n < LENGTH(32)"
    then obtain r where "r < 8" "n = r \<or> n = 8 + r \<or> n = 16 + r \<or> n = 24 + r"
      using byte_position [of n] by auto
    then show "bit (htobe32 (htobe32 w)) n = bit w n"
      using bit_htobe32 [of r w] bit_htobe32 [of r "htobe32 w"] by auto
  qed
  ultimately show ?thesis by blast
qed

theorem htobe32_reverses_bytes_witness:
  "take_bit 8 (htobe32 0x01020304) = (1 :: 32 word) \<and> htobe32 (htobe32 0x01020304) = 0x01020304"
proof -
  have *: "\<forall>i < 4. take_bit 8 (drop_bit (8 * i) (htobe32 0x01020304)) = take_bit 8 (drop_bit (8 * (3 - i)) (0x01020304 :: 32 word))"
    and inv: "htobe32 (htobe32 0x01020304) = 0x01020304"
    using htobe32_reverses_bytes [of "0x01020304"] by (rule conjunct1, rule conjunct2)
  have "take_bit 8 (htobe32 0x01020304) = take_bit 8 (drop_bit (8 * 3) (0x01020304 :: 32 word))"
    using spec [OF *, of 0] by simp
  moreover note inv
  moreover have "take_bit 8 (drop_bit (8 * 3) (0x01020304 :: 32 word)) = 1" by code_simp
  ultimately show ?thesis by simp
qed

definition hex_digits :: "byte list" where "hex_digits = ''0123456789abcdef''"

lemma hex_digit_char: "d < 16 \<Longrightarrow> hex_digit d \<in> set hex_digits"
proof -
  assume "d < 16"
  moreover have "hex_digit ` {0..<16} \<subseteq> set hex_digits" by code_simp
  ultimately show ?thesis by (meson atLeastLessThan_iff imageI le0 subsetD)
qed

text \<open>C31: for a well-formed dotted address the program prints, after the address itself, eight
  characters, each a hexadecimal digit in lower case and none of them a blank, that read back as the
  32-bit address with the first number in front; its last line has the same digits with the four bytes in the opposite
  order; and it succeeds.\<close>
theorem iptohex_prints_the_address:
  assumes "a < 256" "b < 256" "c < 256" "d < 256" "argv1 = dotted (map show_nat [a, b, c, d])"
  shows "\<exists>h lines. iptohex_main 2 argv1 =
             ((''argv[1] ('' @ argv1 @ '') in hex:  0x'' @ h) # lines, Exited EXIT_SUCCESS) \<and>
           length h = 8 \<and> set h \<subseteq> set hex_digits \<and> unhex h = 2 ^ 24 * a + 2 ^ 16 * b + 2 ^ 8 * c + d \<and>
           last lines = ''[LOG] inet representation (big endian) for ('' @ argv1 @ '') is: 0x'' @
             drop 6 h @ take 2 (drop 4 h) @ take 2 (drop 2 h) @ take 2 h"
proof -
  have small: "\<not> (255 :: 32 word) < of_nat n" if "n < 256" for n
    using that by (simp add: word_less_nat_alt unat_of_nat)
  have v: "16 * hex_val (hex_digit (n div 16)) + hex_val (hex_digit (n mod 16)) = n" if "n < 256" for n
    using that by (simp add: hex_val_digit less_mult_imp_div_less)
  let ?h = "concat (map (\<lambda>n. show_02x (of_nat n)) [a, b, c, d])"
  have "iptohex_main 2 argv1 = ((''argv[1] ('' @ argv1 @ '') in hex:  0x'' @ ?h) #
      tl (fst (iptohex_main 2 argv1)), Exited EXIT_SUCCESS)"
    and last: "last (tl (fst (iptohex_main 2 argv1))) = ''[LOG] inet representation (big endian) for ('' @ argv1 @ '') is: 0x'' @
      concat (map (\<lambda>n. show_02x (of_nat n)) [d, c, b, a])"
    using assms scan_dotted_show [OF assms(1-4)] small by (simp_all add: iptohex_main_def)
  moreover have "length ?h = 8" using assms by (simp add: show_02x_byte)
  moreover have "concat (map (\<lambda>n. show_02x (of_nat n)) [d, c, b, a]) = drop 6 ?h @ take 2 (drop 4 ?h) @ take 2 (drop 2 ?h) @ take 2 ?h"
    using assms by (simp add: show_02x_byte)
  moreover have "set ?h \<subseteq> set hex_digits"
    using assms by (simp add: show_02x_byte hex_digit_char less_mult_imp_div_less)
  moreover have "unhex ?h = 2 ^ 24 * a + 2 ^ 16 * b + 2 ^ 8 * c + d"
    using assms v [of a] v [of b] v [of c] v [of d] by (simp add: show_02x_byte unhex_def)
  ultimately show ?thesis using last
    by (intro exI [of _ ?h] exI [of _ "tl (fst (iptohex_main 2 argv1))"]) (simp only: simp_thms)
qed

theorem iptohex_prints_the_address_witness:
  "\<exists>h lines. iptohex_main 2 ''192.168.1.255'' =
     ((''argv[1] (192.168.1.255) in hex:  0x'' @ h) # lines, Exited EXIT_SUCCESS) \<and>
   length h = 8 \<and> set h \<subseteq> set hex_digits \<and> unhex h = 3232236031"
proof -
  have "dotted (map show_nat [192, 168, 1, 255]) = ''192.168.1.255''" by code_simp
  moreover obtain h lines where "iptohex_main 2 (dotted (map show_nat [192, 168, 1, 255])) =
      ((''argv[1] ('' @ dotted (map show_nat [192, 168, 1, 255]) @ '') in hex:  0x'' @ h) # lines, Exited EXIT_SUCCESS)"
    "length h = 8" "set h \<subseteq> set hex_digits" "unhex h = 2 ^ 24 * 192 + 2 ^ 16 * 168 + 2 ^ 8 * 1 + 255"
    using iptohex_prints_the_address [of 192 168 1 255] by auto
  ultimately show ?thesis by (intro exI [of _ h] exI [of _ lines]) simp
qed

end
