(* ===== verification/Iovec.thy ===== *)
theory Iovec
  imports Kernel_IO
begin

text \<open>
  Scatter and gather: \<open>my_readv\<close> and \<open>my_writev\<close> of \<open>syscalls/writev_readv\<close>.
  \<open>my_size_t\<close> is a 32-bit word.  \<open>heap\<close> is the block obtained from \<open>malloc\<close>: in \<open>my_readv\<close> it has
  \<open>sizeof(unsigned int)\<close>, that is 4, bytes, whatever the buffers hold.  A store or a load outside it
  is undefined; the makefile builds with \<open>-fsanitize=address\<close>, which aborts the process there.
\<close>

type_synonym my_size_t = "32 word"

record my_iovec =
  address :: "byte list"
  buff_length :: my_size_t

fun total_size :: "my_iovec list \<Rightarrow> my_size_t \<Rightarrow> my_size_t" where
  "total_size [] tot = tot"
| "total_size (v # vs) tot = total_size vs (tot + buff_length v)"

text \<open>The loop around \<open>read\<close>.  A result of -1 becomes the largest unsigned number, which the
  test \<open>read_ret < 0\<close> never catches.\<close>

fun readv_loop ::
  "nat \<Rightarrow> ('c \<Rightarrow> nat \<Rightarrow> (errno + byte list) \<times> 'c) \<Rightarrow> 'c \<Rightarrow> byte list \<Rightarrow> my_size_t \<Rightarrow> my_size_t \<Rightarrow>
    my_size_t outcome \<times> byte list \<times> 'c"
where
  "readv_loop 0 rd c heap read_seek read_left = (Running, heap, c)"
| "readv_loop (Suc fuel) rd c heap read_seek read_left =
     (case rd c (unat read_left) of (r, c) \<Rightarrow>
        let xs = (case r of Inl e \<Rightarrow> [] | Inr xs \<Rightarrow> xs);
            read_ret = (case r of Inl e \<Rightarrow> - 1 | Inr xs \<Rightarrow> of_nat (length xs))
        in if xs \<noteq> [] \<and> length heap < unat read_seek + length xs then (Aborted, heap, c)
           else let heap = poke heap (unat read_seek) xs
                in if read_ret = 0 \<and> read_left > 0 then (Exited EXIT_FAILURE, heap, c)
                   else let read_seek = read_seek + read_ret; read_left = read_left - read_ret
                        in if read_left = 0 then (Returned read_seek, heap, c)
                           else readv_loop fuel rd c heap read_seek read_left)"

text \<open>The copies to the buffers; \<open>None\<close> when one of them reads past the block.\<close>

fun scatter :: "my_iovec list \<Rightarrow> byte list \<Rightarrow> nat \<Rightarrow> my_iovec list option" where
  "scatter [] heap seek = Some []"
| "scatter (v # vs) heap seek =
     (let n = unat (buff_length v)
      in if 0 < n \<and> length heap < seek + n then None
         else case scatter vs heap (seek + n) of
                None \<Rightarrow> None
              | Some vs \<Rightarrow> Some (v\<lparr>address := take n (drop seek heap) @ drop n (address v)\<rparr> # vs))"

definition sizeof_my_size_t :: nat where "sizeof_my_size_t = 4"

text \<open>\<open>garbage\<close> is what the bytes of the new block hold, \<open>None\<close> when \<open>malloc\<close> fails.  \<open>flush\<close> is the
  \<open>getchar\<close> loop on standard input, \<open>None\<close> when no newline comes.\<close>

definition my_readv ::
  "nat \<Rightarrow> ('c \<Rightarrow> nat \<Rightarrow> (errno + byte list) \<times> 'c) \<Rightarrow> ('c \<Rightarrow> 'c option) \<Rightarrow> int \<Rightarrow> 'c \<Rightarrow> (nat \<Rightarrow> byte) option \<Rightarrow>
    my_iovec list \<Rightarrow> my_size_t outcome \<times> my_iovec list \<times> byte list \<times> 'c"
where
  "my_readv fuel rd flush fd c garbage iov =
     (let total_buffer_size = total_size iov 0
      in case garbage of
           None \<Rightarrow> (Exited EXIT_FAILURE, iov, [], c)
         | Some g \<Rightarrow>
             (case readv_loop fuel rd c (map g [0..<sizeof_my_size_t]) 0 total_buffer_size of
                (Returned read_seek, heap, c) \<Rightarrow>
                  (case if fd = 0 then flush c else Some c of
                     None \<Rightarrow> (Running, iov, heap, c)
                   | Some c \<Rightarrow>
                       (case scatter iov heap 0 of
                          None \<Rightarrow> (Aborted, iov, heap, c)
                        | Some iov \<Rightarrow> (Returned read_seek, iov, heap, c)))
              | (Exited s, heap, c) \<Rightarrow> (Exited s, iov, heap, c)
              | (Aborted, heap, c) \<Rightarrow> (Aborted, iov, heap, c)
              | (Running, heap, c) \<Rightarrow> (Running, iov, heap, c)))"

definition my_writev ::
  "('c \<Rightarrow> byte list \<Rightarrow> (errno + nat) \<times> 'c) \<Rightarrow> 'c \<Rightarrow> my_iovec list \<Rightarrow> my_size_t outcome \<times> 'c"
where
  "my_writev wr c iov =
     (let total_buffer_size = total_size iov 0;
          contiguous_buff = concat (map (\<lambda>v. take (unat (buff_length v)) (address v)) iov)
      in case wr c (take (unat total_buffer_size) contiguous_buff) of
           (Inl e, c) \<Rightarrow> (if - 1 \<noteq> total_buffer_size then Exited EXIT_FAILURE else Returned (- 1), c)
         | (Inr n, c) \<Rightarrow>
             (if of_nat n \<noteq> total_buffer_size then Exited EXIT_FAILURE else Returned (of_nat n), c))"

text \<open>The test programs: ten bytes for each name, and the two zero-filled arrays.\<close>

definition readv_main ::
  "nat \<Rightarrow> ('c \<Rightarrow> nat \<Rightarrow> (errno + byte list) \<times> 'c) \<Rightarrow> ('c \<Rightarrow> 'c option) \<Rightarrow> 'c \<Rightarrow> (nat \<Rightarrow> byte) option \<Rightarrow>
    byte list \<Rightarrow> byte list \<Rightarrow> byte list list \<times> int outcome"
where
  "readv_main fuel rd flush c garbage first_name last_name =
     (case my_readv fuel rd flush 0 c garbage
             [\<lparr>address = first_name, buff_length = 10\<rparr>, \<lparr>address = last_name, buff_length = 10\<rparr>] of
        (Returned ret, iov, _) \<Rightarrow> (map (\<lambda>v. take 10 (address v)) iov, Exited EXIT_SUCCESS)
      | (Exited s, _) \<Rightarrow> ([], Exited s)
      | (Aborted, _) \<Rightarrow> ([], Aborted)
      | (Running, _) \<Rightarrow> ([], Running))"

definition writev_main ::
  "('c \<Rightarrow> byte list \<Rightarrow> (errno + nat) \<times> 'c) \<Rightarrow> 'c \<Rightarrow> int outcome \<times> 'c"
where
  "writev_main wr c =
     (let test1 = ''Hello, '' @ replicate 93 NUL; test2 = ''myiov!'' @ replicate 194 NUL
      in case my_writev wr c [\<lparr>address = test1, buff_length = 100\<rparr>, \<lparr>address = test2, buff_length = 200\<rparr>] of
           (Returned _, c) \<Rightarrow> (Returned 0, c)
         | (Exited s, c) \<Rightarrow> (Exited s, c)
         | (Aborted, c) \<Rightarrow> (Aborted, c)
         | (Running, c) \<Rightarrow> (Running, c))"

section \<open>Lemmas\<close>

definition iov_ok :: "my_iovec list \<Rightarrow> bool" where
  "iov_ok iov \<longleftrightarrow> (\<forall>v \<in> set iov. length (address v) = unat (buff_length v)) \<and>
     (\<Sum>v\<leftarrow>iov. unat (buff_length v)) < 2 ^ 32"

lemma total_size_sum: "unat (total_size iov t) = (unat t + (\<Sum>v\<leftarrow>iov. unat (buff_length v))) mod 2 ^ 32"
proof (induction iov t rule: total_size.induct)
  case (1 t)
  then show ?case using unsigned_less [where 'a = nat and w = t] by simp
next
  case (2 v vs t)
  then show ?case by (simp add: unat_word_ariths mod_simps add.assoc)
qed

lemma total_size_ok: "iov_ok iov \<Longrightarrow> unat (total_size iov 0) = (\<Sum>v\<leftarrow>iov. unat (buff_length v))"
  by (simp add: total_size_sum iov_ok_def)

lemma concat_addresses:
  "(\<forall>v \<in> set iov. length (address v) = unat (buff_length v)) \<Longrightarrow>
     concat (map (\<lambda>v. take (unat (buff_length v)) (address v)) iov) = concat (map address iov) \<and>
     length (concat (map address iov)) = (\<Sum>v\<leftarrow>iov. unat (buff_length v))"
  by (induction iov) auto

lemma scatter_concat:
  "(\<forall>v \<in> set iov. length (address v) = unat (buff_length v)) \<Longrightarrow>
     seek + (\<Sum>v\<leftarrow>iov. unat (buff_length v)) \<le> length heap \<Longrightarrow>
     \<exists>iov'. scatter iov heap seek = Some iov' \<and>
       concat (map address iov') = take (\<Sum>v\<leftarrow>iov. unat (buff_length v)) (drop seek heap) \<and>
       map buff_length iov' = map buff_length iov \<and>
       (\<forall>v \<in> set iov'. length (address v) = unat (buff_length v))"
proof (induction iov arbitrary: seek)
  case (Cons v iov)
  let ?n = "unat (buff_length v)"
  obtain vs where vs: "scatter iov heap (seek + ?n) = Some vs"
    "concat (map address vs) = take (\<Sum>v\<leftarrow>iov. unat (buff_length v)) (drop (seek + ?n) heap)"
    "map buff_length vs = map buff_length iov" "\<forall>v \<in> set vs. length (address v) = unat (buff_length v)"
    using Cons.IH [of "seek + ?n"] Cons.prems by (auto simp: add.assoc)
  have "\<not> length heap < seek + ?n" "length (address v) = ?n" "length (take ?n (drop seek heap)) = ?n"
    using Cons.prems by simp_all
  moreover from this(1) have "scatter (v # iov) heap seek = Some (v\<lparr>address := take ?n (drop seek heap) @ drop ?n (address v)\<rparr> # vs)"
    using vs(1) by (simp add: Let_def)
  moreover have "take (?n + m) (drop seek heap) = take ?n (drop seek heap) @ take m (drop (seek + ?n) heap)" for m
    by (simp only: take_add drop_drop add.commute [of ?n seek])
  ultimately show ?case using vs(2-4) Cons.prems by simp
qed simp

context byte_reader
begin

lemma readv_loop_correct:
  assumes "unat lft \<le> length (pending c)" "0 < lft" "unat seek + unat lft \<le> length heap"
    and "length heap < 2 ^ 32" "unat lft \<le> fuel"
  shows "\<exists>c'. readv_loop fuel rd c heap seek lft =
           (Returned (seek + lft), poke heap (unat seek) (take (unat lft) (pending c)), c') \<and>
         pending c' = drop (unat lft) (pending c)"
  using assms
proof (induction fuel arbitrary: c heap seek lft)
  case 0
  then show ?case by (simp add: word_less_nat_alt)
next
  case (Suc fuel)
  have pos: "0 < unat lft" using Suc.prems(2) by (simp add: word_less_nat_alt)
  then have "pending c \<noteq> []" using Suc.prems(1) by auto
  then obtain xs c1 where rd: "rd c (unat lft) = (Inr xs, c1)" "xs \<noteq> []" "length xs \<le> unat lft"
    and p: "pending c = xs @ pending c1"
    using rd_some [of c "unat lft"] pos by auto
  let ?r = "of_nat (length xs) :: 32 word"
  have small: "length xs < 2 ^ 32" using rd(3) unsigned_less [where 'a = nat and w = lft] by simp
  then have r: "unat ?r = length xs" by (simp add: unat_of_nat)
  then have r0: "?r \<noteq> 0" using rd(2) by (metis length_0_conv unat_0)
  have "?r \<le> lft" using rd(3) r by (simp add: word_le_nat_alt)
  then have l: "unat (lft - ?r) = unat lft - length xs" using r by (simp add: unat_sub)
  have s: "unat (seek + ?r) = unat seek + length xs"
    using Suc.prems(3,4) rd(3) r by (simp add: unat_add_lem [THEN iffD1])
  show ?case
  proof (cases "lft - ?r = 0")
    case True
    then have "lft = ?r" "unat lft = length xs" using r by auto
    then show ?thesis using rd p r0 s Suc.prems(3) r by (simp add: Let_def)
  next
    case False
    have "length xs \<noteq> 0" using rd(2) by simp
    then have "unat lft - length xs \<le> fuel" using Suc.prems(5) by linarith
    then have "\<exists>c'. readv_loop fuel rd c1 (poke heap (unat seek) xs) (seek + ?r) (lft - ?r) =
        (Returned (seek + ?r + (lft - ?r)),
         poke (poke heap (unat seek) xs) (unat (seek + ?r)) (take (unat (lft - ?r)) (pending c1)), c') \<and>
        pending c' = drop (unat (lft - ?r)) (pending c1)"
      using Suc.prems p l s rd(3) False by (intro Suc.IH) (auto simp: word_gt_0)
    moreover have "take (unat lft) (pending c) = xs @ take (unat (lft - ?r)) (pending c1)"
      "drop (unat lft) (pending c) = drop (unat (lft - ?r)) (pending c1)"
      using p l rd(3) by auto
    ultimately show ?thesis
      using rd r0 s False Suc.prems(3) r by (simp add: Let_def poke_append not_less)
  qed
qed

lemma readv_loop_aborts:
  assumes "unat lft \<le> length (pending c)" "unat seek \<le> length heap" "length heap < unat seek + unat lft"
    and "unat seek + unat lft < 2 ^ 32" "unat lft \<le> fuel"
  shows "\<exists>heap' c'. readv_loop fuel rd c heap seek lft = (Aborted, heap', c')"
  using assms
proof (induction fuel arbitrary: c heap seek lft)
  case (Suc fuel)
  have pos: "0 < unat lft" using Suc.prems(2,3) by linarith
  then have "pending c \<noteq> []" using Suc.prems(1) by auto
  then obtain xs c1 where rd: "rd c (unat lft) = (Inr xs, c1)" "xs \<noteq> []" "length xs \<le> unat lft"
    and p: "pending c = xs @ pending c1"
    using rd_some [of c "unat lft"] pos by auto
  show ?case
  proof (cases "length heap < unat seek + length xs")
    case True
    then show ?thesis using rd by (simp add: Let_def)
  next
    case False
    let ?r = "of_nat (length xs) :: 32 word"
    have small: "length xs < 2 ^ 32" using rd(3) unsigned_less [where 'a = nat and w = lft] by simp
    then have r: "unat ?r = length xs" by (simp add: unat_of_nat)
    then have r0: "?r \<noteq> 0" using rd(2) by (metis length_0_conv unat_0)
    have "?r \<le> lft" using rd(3) r by (simp add: word_le_nat_alt)
    then have l: "unat (lft - ?r) = unat lft - length xs" using r by (simp add: unat_sub)
    have s: "unat (seek + ?r) = unat seek + length xs"
      using Suc.prems(4) rd(3) r by (simp add: unat_add_lem [THEN iffD1])
    have "length xs < unat lft" using False Suc.prems(3) by linarith
    then have "lft - ?r \<noteq> 0" using l by (metis zero_less_diff less_irrefl unat_0)
    moreover have "\<exists>heap' c'. readv_loop fuel rd c1 (poke heap (unat seek) xs) (seek + ?r) (lft - ?r) = (Aborted, heap', c')"
    proof (rule Suc.IH)
      have "length xs \<noteq> 0" using rd(2) by simp
      then show "unat (lft - ?r) \<le> fuel" using Suc.prems(5) l by linarith
    qed (use Suc.prems p l s rd(3) False in auto)
    ultimately show ?thesis using rd r0 False by (simp add: Let_def)
  qed
qed simp

end

section \<open>Properties\<close>

text \<open>\<open>my_writev\<close> gathers the buffers, in order, into one \<open>write\<close>: when the kernel takes it
  whole the call returns the number of bytes, and otherwise the program exits; either way what
  went out is a prefix of the concatenation.\<close>
theorem my_writev_is_one_write:
  assumes "iov_ok iov"
  shows "(\<exists>j. written (snd (snd (my_writev sock_write c iov))) =
            written (snd c) @ take j (concat (map address iov))) \<and>
         (grants (snd c) = [] \<longrightarrow>
            my_writev sock_write c iov =
              (Returned (of_nat (length (concat (map address iov)))),
               fst c, (snd c)\<lparr>written := written (snd c) @ concat (map address iov)\<rparr>))"
proof -
  let ?all = "concat (map address iov)"
  have all: "concat (map (\<lambda>v. take (unat (buff_length v)) (address v)) iov) = ?all"
    and len: "length ?all = unat (total_size iov 0)"
    using concat_addresses [of iov] total_size_ok [OF assms] assms by (auto simp: iov_ok_def)
  obtain r c' where w: "sock_write c (take (unat (total_size iov 0)) ?all) = (r, c')"
    by (rule prod.exhaust)
  then have "\<exists>j. written (snd c') = written (snd c) @ take j ?all"
  proof (cases r)
    case (Inl e)
    then have "written (snd c') = written (snd c) @ take 0 ?all"
      using sock.wr_fail [of c _ e c'] w by simp
    then show ?thesis by blast
  next
    case (Inr a)
    then have "written (snd c') = written (snd c) @ take a ?all"
      using sock.wr_some [of c _ a c'] w len by (simp add: min_def split: if_splits)
    then show ?thesis by blast
  qed
  moreover have "snd (my_writev sock_write c iov) = c'"
    by (cases r) (simp_all add: my_writev_def Let_def all w)
  moreover have "my_writev sock_write c iov = (Returned (of_nat (length ?all)),
      fst c, (snd c)\<lparr>written := written (snd c) @ ?all\<rparr>)" if "grants (snd c) = []"
    using that by (simp add: my_writev_def Let_def all len sock_write_def sys_write_def)
  ultimately show ?thesis by simp
qed

theorem my_writev_is_one_write_witness:
  "my_writev sock_write ([], \<lparr>written = [], grants = []\<rparr>)
     [\<lparr>address = ''ab'', buff_length = 2\<rparr>, \<lparr>address = ''c'', buff_length = 1\<rparr>] =
   (Returned 3, [], \<lparr>written = ''abc'', grants = []\<rparr>)"
  using my_writev_is_one_write [of "[\<lparr>address = ''ab'', buff_length = 2\<rparr>, \<lparr>address = ''c'', buff_length = 1\<rparr>]"
      "([], \<lparr>written = [], grants = []\<rparr>)"]
  by (simp add: iov_ok_def)

text \<open>C27: \<open>my_readv\<close> on a descriptor other than 0 that delivers at least as many bytes as the buffers hold,
  in any splitting: buffers of at most four bytes in all are filled one after the other, each completely,
  and the number of bytes is returned; but the block it gets from \<open>malloc\<close> has the size of the counter, four bytes, so
  with more room than that in the buffers the call never returns: it stores past the block and the program as the
  makefile builds it is aborted.\<close>
theorem my_readv_fills_the_buffers:
  assumes "iov_ok iov" "n = length (concat (map address iov))" "0 < n" "fd \<noteq> 0" "n \<le> fuel"
    and "n \<le> length (src_pending (fst c))"
  shows "(n \<le> 4 \<longrightarrow> (\<exists>iov' c'. my_readv fuel sock_read flush fd c (Some g) iov =
           (Returned (of_nat n), iov', take n (src_pending (fst c)) @ map g [n..<4], c') \<and>
         concat (map address iov') = take n (src_pending (fst c)) \<and>
         map (length \<circ> address) iov' = map (length \<circ> address) iov \<and>
         src_pending (fst c') = drop n (src_pending (fst c)))) \<and>
     (4 < n \<longrightarrow> (\<exists>heap c'. my_readv fuel sock_read flush fd c (Some g) iov = (Aborted, iov, heap, c')))"
proof (intro conjI impI)
  have ok: "\<forall>v \<in> set iov. length (address v) = unat (buff_length v)" using assms(1) by (simp add: iov_ok_def)
  have n: "unat (total_size iov 0) = n" "(\<Sum>v\<leftarrow>iov. unat (buff_length v)) = n"
    using concat_addresses [OF ok] total_size_ok [OF assms(1)] assms(2) by simp_all
  then have tot: "total_size iov 0 = of_nat n" by (metis of_nat_unat ucast_id)
  let ?heap = "map g [0..<sizeof_my_size_t]" and ?xs = "take n (src_pending (fst c))"
  have four: "length ?heap = 4" by (simp add: sizeof_my_size_t_def)
  {
    assume small: "n \<le> 4"
    let ?heap' = "?xs @ map g [n..<4]"
    obtain c' where "readv_loop fuel sock_read c ?heap 0 (total_size iov 0) =
        (Returned (total_size iov 0), poke ?heap 0 ?xs, c')"
      and p: "src_pending (fst c') = drop n (src_pending (fst c))"
      using sock.readv_loop_correct [of "total_size iov 0" c 0 ?heap fuel] assms(3,5,6) n(1) four small
      by (auto simp: word_less_nat_alt)
    moreover have "poke ?heap 0 ?xs = ?heap'"
      using assms(6) small four by (simp add: poke_0_append min_def drop_map sizeof_my_size_t_def)
    ultimately have r: "readv_loop fuel sock_read c ?heap 0 (total_size iov 0) = (Returned (of_nat n), ?heap', c')"
      by (simp only: tot)
    obtain iov' where sc: "scatter iov ?heap' 0 = Some iov'" "concat (map address iov') = ?xs"
      "map buff_length iov' = map buff_length iov" "\<forall>v \<in> set iov'. length (address v) = unat (buff_length v)"
      using scatter_concat [OF ok, of 0 ?heap'] n assms(6) small by auto
    have lens: "\<forall>v \<in> set vs. length (address v) = unat (buff_length v) \<Longrightarrow>
        map (length \<circ> address) vs = map unat (map buff_length vs)" for vs :: "my_iovec list"
      by (induction vs) auto
    have "map (length \<circ> address) iov' = map (length \<circ> address) iov"
      using lens [OF sc(4)] lens [OF ok] sc(3) by simp
    then show "\<exists>iov' c'. my_readv fuel sock_read flush fd c (Some g) iov = (Returned (of_nat n), iov', ?heap', c') \<and>
        concat (map address iov') = ?xs \<and> map (length \<circ> address) iov' = map (length \<circ> address) iov \<and>
        src_pending (fst c') = drop n (src_pending (fst c))"
      using r p sc(1,2) assms(4) by (simp add: my_readv_def Let_def)
  next
    assume "4 < n"
    moreover have "unat (total_size iov 0) < 2 ^ 32" using unsigned_less [where 'a = nat and w = "total_size iov 0"] by simp
    ultimately have "\<exists>heap c'. readv_loop fuel sock_read c ?heap 0 (total_size iov 0) = (Aborted, heap, c')"
      using sock.readv_loop_aborts [of "total_size iov 0" c 0 ?heap fuel] assms(5,6) n(1) four by simp
    then obtain heap c' where "readv_loop fuel sock_read c ?heap 0 (total_size iov 0) = (Aborted, heap, c')" by blast
    then show "\<exists>heap c'. my_readv fuel sock_read flush fd c (Some g) iov = (Aborted, iov, heap, c')"
      by (simp add: my_readv_def Let_def)
  }
qed

text \<open>Three bytes go to two buffers, in two reads; eight are too many.\<close>

theorem my_readv_fills_the_buffers_witness:
  "(\<exists>iov' c'. my_readv 9 sock_read (\<lambda>c. None) 3 ([Data ''De'', Data ''nnis''], \<lparr>written = [], grants = []\<rparr>) (Some (\<lambda>i. CHR ''.''))
      [\<lparr>address = ''..'', buff_length = 2\<rparr>, \<lparr>address = ''.'', buff_length = 1\<rparr>] =
     (Returned 3, iov', ''Den.'', c') \<and> concat (map address iov') = ''Den'') \<and>
   (\<exists>heap c'. my_readv 9 sock_read (\<lambda>c. None) 3 ([Data ''Den'', Data ''nisRitchie''], \<lparr>written = [], grants = []\<rparr>) (Some (\<lambda>i. CHR ''.''))
      [\<lparr>address = ''......'', buff_length = 6\<rparr>, \<lparr>address = ''..'', buff_length = 2\<rparr>] =
     (Aborted, [\<lparr>address = ''......'', buff_length = 6\<rparr>, \<lparr>address = ''..'', buff_length = 2\<rparr>], heap, c'))"
proof
  show "\<exists>iov' c'. my_readv 9 sock_read (\<lambda>c. None) 3 ([Data ''De'', Data ''nnis''], \<lparr>written = [], grants = []\<rparr>) (Some (\<lambda>i. CHR ''.''))
      [\<lparr>address = ''..'', buff_length = 2\<rparr>, \<lparr>address = ''.'', buff_length = 1\<rparr>] =
     (Returned 3, iov', ''Den.'', c') \<and> concat (map address iov') = ''Den''"
    using my_readv_fills_the_buffers [of "[\<lparr>address = ''..'', buff_length = 2\<rparr>, \<lparr>address = ''.'', buff_length = 1\<rparr>]"
        3 3 9 "([Data ''De'', Data ''nnis''], \<lparr>written = [], grants = []\<rparr>)" "\<lambda>c. None" "\<lambda>i. CHR ''.''"]
    by (fastforce simp: iov_ok_def unat_numeral)
  show "\<exists>heap c'. my_readv 9 sock_read (\<lambda>c. None) 3 ([Data ''Den'', Data ''nisRitchie''], \<lparr>written = [], grants = []\<rparr>) (Some (\<lambda>i. CHR ''.''))
      [\<lparr>address = ''......'', buff_length = 6\<rparr>, \<lparr>address = ''..'', buff_length = 2\<rparr>] =
     (Aborted, [\<lparr>address = ''......'', buff_length = 6\<rparr>, \<lparr>address = ''..'', buff_length = 2\<rparr>], heap, c')"
  proof -
    let ?iov = "[\<lparr>address = ''......'', buff_length = 6\<rparr>, \<lparr>address = ''..'', buff_length = 2\<rparr>]"
    have "iov_ok ?iov" "8 = length (concat (map address ?iov))" by (simp_all add: iov_ok_def)
    from my_readv_fills_the_buffers [OF this, of 3 9 "([Data ''Den'', Data ''nisRitchie''], \<lparr>written = [], grants = []\<rparr>)"]
    show ?thesis by simp
  qed
qed

end
