(* ===== verification/Rresvport.thy ===== *)
theory Rresvport
  imports C_Library
begin

text \<open>
  \<open>my_rresvport\<close> and \<open>my_rresvport_udp\<close> (\<open>library_functions/rresvport_tcp_udp\<close>): a socket
  bound to the highest free reserved port from the one asked for down to 512.  The kernel is a
  table of bound ports and open sockets; \<open>errno\<close> is threaded through, \<open>None\<close> for 0.
\<close>

section \<open>Kernel\<close>

datatype xport = Stream_sock | Dgram_sock

record port_kernel =
  bound_ports :: "(xport \<times> int) list"
  open_socks :: "xport list"        \<comment> \<open>the descriptor of a socket is its position, plus 3\<close>
  sock_fault :: "errno option"
  denied :: "int list"              \<comment> \<open>ports that \<open>bind\<close> refuses with \<open>EACCES\<close>\<close>

definition sys_socket :: "xport \<Rightarrow> port_kernel \<Rightarrow> (errno + int) \<times> port_kernel" where
  "sys_socket t k =
     (case sock_fault k of
        Some e \<Rightarrow> (Inl e, k)
      | None \<Rightarrow> (Inr (int (length (open_socks k)) + 3), k\<lparr>open_socks := open_socks k @ [t]\<rparr>))"

definition sys_bind :: "xport \<Rightarrow> int \<Rightarrow> port_kernel \<Rightarrow> errno option \<times> port_kernel" where
  "sys_bind t port k =
     (if port \<in> set (denied k) then (Some EACCES, k)
      else if (t, port) \<in> set (bound_ports k) then (Some EADDRINUSE, k)
      else (None, k\<lparr>bound_ports := (t, port) # bound_ports k\<rparr>))"

section \<open>The functions\<close>

record resv_result =
  resv_ret :: int
  crport :: int
  resv_errno :: "errno option"

function bind_loop :: "xport \<Rightarrow> int \<Rightarrow> int \<Rightarrow> errno option \<Rightarrow> port_kernel \<Rightarrow> resv_result \<times> port_kernel" where
  "bind_loop t sockfd port err k =
     (if 512 \<le> port then
        (case sys_bind t port k of
           (Some e, k) \<Rightarrow>
             if e = EADDRINUSE then bind_loop t sockfd (port - 1) (Some e) k
             else (\<lparr>resv_ret = - 1, crport = port, resv_errno = Some e\<rparr>, k)
         | (None, k) \<Rightarrow> (\<lparr>resv_ret = sockfd, crport = port, resv_errno = err\<rparr>, k))
      else (\<lparr>resv_ret = - 1, crport = port, resv_errno = Some EAGAIN\<rparr>, k))"
  by pat_completeness auto
termination by (relation "measure (\<lambda>(t, fd, port, err, k). nat (port - 511))") auto

declare bind_loop.simps [simp del]

definition my_rresvport :: "int \<Rightarrow> errno option \<Rightarrow> port_kernel \<Rightarrow> resv_result \<times> port_kernel" where
  "my_rresvport port err k =
     (if port > 1024 then (\<lparr>resv_ret = - 1, crport = port, resv_errno = err\<rparr>, k)
      else if port < 512 then (\<lparr>resv_ret = - 1, crport = port, resv_errno = err\<rparr>, k)
      else (case sys_socket Stream_sock k of
              (Inl e, k) \<Rightarrow> (\<lparr>resv_ret = - 1, crport = port, resv_errno = Some e\<rparr>, k)
            | (Inr sockfd, k) \<Rightarrow> bind_loop Stream_sock sockfd port err k))"

definition my_rresvport_udp :: "int \<Rightarrow> errno option \<Rightarrow> port_kernel \<Rightarrow> resv_result \<times> port_kernel" where
  "my_rresvport_udp port err k =
     (if port > 1024 then (\<lparr>resv_ret = - 1, crport = port, resv_errno = err\<rparr>, k)
      else if port < 512 then (\<lparr>resv_ret = - 1, crport = port, resv_errno = err\<rparr>, k)
      else (case sys_socket Dgram_sock k of
              (Inl e, k) \<Rightarrow> (\<lparr>resv_ret = - 1, crport = port, resv_errno = Some e\<rparr>, k)
            | (Inr sockfd, k) \<Rightarrow> bind_loop Dgram_sock sockfd port err k))"

text \<open>\<open>main\<close>: \<open>atoi\<close> gives 0 when there is no number; with a descriptor the process stays in its
  empty loop for ever.\<close>

definition rresvport_main ::
  "int \<Rightarrow> byte list \<Rightarrow> byte list \<Rightarrow> errno option \<Rightarrow> port_kernel \<Rightarrow> int outcome \<times> port_kernel"
where
  "rresvport_main argc argv1 argv2 err k =
     (if argc \<noteq> 3 then (Exited EXIT_FAILURE, k)
      else if \<not> (2 \<le> length argv2 \<and> hd argv2 = CHR ''-'') then (Exited EXIT_FAILURE, k)
      else
        let desired_port = (case scan_d argv1 of None \<Rightarrow> 0 | Some n \<Rightarrow> n); tloption = argv2 ! 1;
            finish = (\<lambda>(r, k).
              if resv_ret r < 0 \<and> resv_errno r = Some EAGAIN then (Exited EXIT_FAILURE, k)
              else if resv_ret r < 0 \<and> resv_errno r \<noteq> None then (Exited EXIT_FAILURE, k)
              else if 0 < resv_ret r then (Running, k) else (Exited EXIT_SUCCESS, k))
        in if tloption = CHR ''t'' then finish (my_rresvport desired_port err k)
           else if tloption = CHR ''u'' then finish (my_rresvport_udp desired_port err k)
           else (Exited EXIT_FAILURE, k))"

section \<open>Lemmas\<close>

lemma bind_loop_found:
  assumes "512 \<le> p" "p \<le> port" "(t, p) \<notin> set (bound_ports k)" "\<forall>q. p \<le> q \<and> q \<le> port \<longrightarrow> q \<notin> set (denied k)"
    and "\<forall>q. p < q \<and> q \<le> port \<longrightarrow> (t, q) \<in> set (bound_ports k)"
  shows "\<exists>e. bind_loop t fd port err k =
           (\<lparr>resv_ret = fd, crport = p, resv_errno = e\<rparr>, k\<lparr>bound_ports := (t, p) # bound_ports k\<rparr>)"
  using assms
proof (induction "nat (port - p)" arbitrary: port err)
  case 0
  then have "port = p" by simp
  with 0 show ?case by (simp add: bind_loop.simps sys_bind_def)
next
  case (Suc n)
  then have "p < port" by simp
  then have "bind_loop t fd port err k = bind_loop t fd (port - 1) (Some EADDRINUSE) k"
    using Suc.prems by (simp add: bind_loop.simps [of t fd port] sys_bind_def)
  moreover have "\<exists>e. bind_loop t fd (port - 1) (Some EADDRINUSE) k =
      (\<lparr>resv_ret = fd, crport = p, resv_errno = e\<rparr>, k\<lparr>bound_ports := (t, p) # bound_ports k\<rparr>)"
    using Suc.hyps(2) Suc.prems \<open>p < port\<close> by (intro Suc.hyps(1)) auto
  ultimately show ?case by simp
qed

lemma bind_loop_full:
  assumes "511 \<le> port" "\<forall>q. 512 \<le> q \<and> q \<le> port \<longrightarrow> (t, q) \<in> set (bound_ports k) \<and> q \<notin> set (denied k)"
  shows "bind_loop t fd port err k = (\<lparr>resv_ret = - 1, crport = 511, resv_errno = Some EAGAIN\<rparr>, k)"
  using assms
proof (induction "nat (port - 511)" arbitrary: port err)
  case 0
  then show ?case by (simp add: bind_loop.simps)
next
  case (Suc n)
  then have "bind_loop t fd port err k = bind_loop t fd (port - 1) (Some EADDRINUSE) k"
    by (simp add: bind_loop.simps [of t fd port] sys_bind_def)
  moreover have "bind_loop t fd (port - 1) (Some EADDRINUSE) k =
      (\<lparr>resv_ret = - 1, crport = 511, resv_errno = Some EAGAIN\<rparr>, k)"
    using Suc.hyps(2) Suc.prems by (intro Suc.hyps(1)) auto
  ultimately show ?case by simp
qed

section \<open>Properties\<close>

text \<open>C25: asked for a port from 512 to 1024, with no port refused for another reason:
  \<open>my_rresvport\<close> binds the highest free stream port from there down to 512, stores it and returns
  the new socket; when all are taken it returns -1 with \<open>EAGAIN\<close>, having bound nothing but
  leaving the new socket open.\<close>
theorem my_rresvport_takes_highest_free:
  assumes "512 \<le> port" "port \<le> 1024" "sock_fault k = None" "\<forall>q \<in> {512..port}. q \<notin> set (denied k)"
  shows "(\<forall>p \<in> {512..port}. (Stream_sock, p) \<notin> set (bound_ports k) \<and>
            (\<forall>q \<in> {p<..port}. (Stream_sock, q) \<in> set (bound_ports k)) \<longrightarrow>
            (\<exists>e. my_rresvport port err k =
               (\<lparr>resv_ret = int (length (open_socks k)) + 3, crport = p, resv_errno = e\<rparr>,
                k\<lparr>open_socks := open_socks k @ [Stream_sock],
                  bound_ports := (Stream_sock, p) # bound_ports k\<rparr>))) \<and>
         ((\<forall>q \<in> {512..port}. (Stream_sock, q) \<in> set (bound_ports k)) \<longrightarrow>
            my_rresvport port err k =
              (\<lparr>resv_ret = - 1, crport = 511, resv_errno = Some EAGAIN\<rparr>,
               k\<lparr>open_socks := open_socks k @ [Stream_sock]\<rparr>))"
proof -
  let ?k = "k\<lparr>open_socks := open_socks k @ [Stream_sock]\<rparr>"
  have m: "my_rresvport port err k =
      bind_loop Stream_sock (int (length (open_socks k)) + 3) port err ?k"
    using assms by (simp add: my_rresvport_def sys_socket_def)
  have "\<exists>e. my_rresvport port err k =
      (\<lparr>resv_ret = int (length (open_socks k)) + 3, crport = p, resv_errno = e\<rparr>,
       k\<lparr>open_socks := open_socks k @ [Stream_sock], bound_ports := (Stream_sock, p) # bound_ports k\<rparr>)"
    if "p \<in> {512..port}" "(Stream_sock, p) \<notin> set (bound_ports k)"
      "\<forall>q \<in> {p<..port}. (Stream_sock, q) \<in> set (bound_ports k)" for p
    using bind_loop_found [of p port Stream_sock ?k "int (length (open_socks k)) + 3" err] that assms m
    by simp
  moreover have "my_rresvport port err k =
      (\<lparr>resv_ret = - 1, crport = 511, resv_errno = Some EAGAIN\<rparr>, ?k)"
    if "\<forall>q \<in> {512..port}. (Stream_sock, q) \<in> set (bound_ports k)"
    using bind_loop_full [of port Stream_sock ?k] that assms m by simp
  ultimately show ?thesis by blast
qed

theorem my_rresvport_takes_highest_free_witness:
  "\<exists>e. my_rresvport 513 None \<lparr>bound_ports = [(Stream_sock, 513), (Dgram_sock, 512)], open_socks = [],
      sock_fault = None, denied = []\<rparr> =
     (\<lparr>resv_ret = 3, crport = 512, resv_errno = e\<rparr>,
      \<lparr>bound_ports = [(Stream_sock, 512), (Stream_sock, 513), (Dgram_sock, 512)], open_socks = [Stream_sock],
       sock_fault = None, denied = []\<rparr>)"
proof -
  let ?k = "\<lparr>bound_ports = [(Stream_sock, 513), (Dgram_sock, 512)], open_socks = [],
      sock_fault = None, denied = []\<rparr>"
  have "\<forall>q \<in> {512<..513::int}. (Stream_sock, q) \<in> set (bound_ports ?k)" by auto
  then show ?thesis using my_rresvport_takes_highest_free [of 513 ?k None] by simp
qed

text \<open>A port outside the range makes both functions return -1 without setting \<open>errno\<close>, and
  \<open>main\<close>, which looks only at \<open>errno\<close>, then exits successfully with no socket.\<close>
theorem rresvport_main_accepts_bad_port:
  assumes "scan_d argv1 = Some port" "port < 512 \<or> 1024 < port" "argv2 = ''-t'' \<or> argv2 = ''-u''"
  shows "rresvport_main 3 argv1 argv2 None k = (Exited EXIT_SUCCESS, k)"
  using assms by (auto simp: rresvport_main_def my_rresvport_def my_rresvport_udp_def)

theorem rresvport_main_accepts_bad_port_witness:
  "rresvport_main 3 ''80'' ''-u'' None \<lparr>bound_ports = [], open_socks = [], sock_fault = None, denied = []\<rparr> =
     (Exited EXIT_SUCCESS, \<lparr>bound_ports = [], open_socks = [], sock_fault = None, denied = []\<rparr>)"
proof -
  have "scan_d ''80'' = Some 80" by code_simp
  then show ?thesis using rresvport_main_accepts_bad_port [of "''80''" 80 "''-u''"] by simp
qed

end
