(* ===== verification/SysV_Sem.thy ===== *)
theory SysV_Sem
  imports Prelude
begin

text \<open>
  System V semaphores as the kernel keeps them: sets of values found by a key, the atomic
  \<open>semop\<close> on an array of operations, the adjustments of \<open>SEM_UNDO\<close> that the exit of a process
  applies, \<open>semctl\<close>.  Every identifier is used once, so a stale one is recognised.  The
  programs of chapter 3 call nothing else of this interface.
\<close>

type_synonym pid = nat
type_synonym key = int

record sem_set =
  vals :: "int list"
  adj :: "pid \<Rightarrow> nat \<Rightarrow> int"

record sembuf =
  sem_num :: nat
  sem_op_of :: int
  sem_undo :: bool
  ipc_nowait :: bool

record sem_kernel =
  sem_ids :: "key \<Rightarrow> nat option"
  sem_sets :: "nat \<Rightarrow> sem_set option"
  next_semid :: nat

datatype 'a sem_verdict = Done 'a | Sleep | Fail errno

definition SEMVMX :: int where "SEMVMX = 32767"

fun sem_apply :: "pid \<Rightarrow> sembuf list \<Rightarrow> sem_set \<Rightarrow> sem_set sem_verdict" where
  "sem_apply p [] s = Done s"
| "sem_apply p (b # bs) s =
     (let n = sem_num b; v = vals s ! n; d = sem_op_of b;
          s' = s\<lparr>vals := (vals s)[n := v + d],
                 adj := (if sem_undo b then (adj s)(p := (adj s p)(n := adj s p n - d)) else adj s)\<rparr>
      in if length (vals s) \<le> n then Fail E2BIG
         else if d = 0 \<and> v \<noteq> 0 \<or> v + d < 0 then (if ipc_nowait b then Fail EAGAIN else Sleep)
         else if SEMVMX < v + d then Fail ERANGE
         else sem_apply p bs s')"

definition semop :: "pid \<Rightarrow> nat \<Rightarrow> sembuf list \<Rightarrow> sem_kernel \<Rightarrow> sem_kernel sem_verdict" where
  "semop p i ops k =
     (case sem_sets k i of
        None \<Rightarrow> Fail EINVAL
      | Some s \<Rightarrow>
          (case sem_apply p ops s of
             Done s' \<Rightarrow> Done (k\<lparr>sem_sets := (sem_sets k)(i \<mapsto> s')\<rparr>)
           | Sleep \<Rightarrow> Sleep
           | Fail e \<Rightarrow> Fail e))"

text \<open>\<open>semget\<close> with \<open>IPC_CREAT\<close> and without.\<close>

definition semget :: "key \<Rightarrow> nat \<Rightarrow> bool \<Rightarrow> sem_kernel \<Rightarrow> (errno + nat) \<times> sem_kernel" where
  "semget ky nsems creat k =
     (case sem_ids k ky of
        Some i \<Rightarrow>
          (case sem_sets k i of
             Some s \<Rightarrow> (if length (vals s) < nsems then Inl EINVAL else Inr i, k)
           | None \<Rightarrow> (Inl ENOENT, k))
      | None \<Rightarrow>
          if creat
          then (Inr (next_semid k),
                k\<lparr>sem_ids := (sem_ids k)(ky \<mapsto> next_semid k),
                  sem_sets := (sem_sets k)(next_semid k \<mapsto> \<lparr>vals = replicate nsems 0, adj = (\<lambda>_ _. 0)\<rparr>),
                  next_semid := next_semid k + 1\<rparr>)
          else (Inl ENOENT, k))"

definition semctl_getval :: "nat \<Rightarrow> nat \<Rightarrow> sem_kernel \<Rightarrow> errno + int" where
  "semctl_getval i n k =
     (case sem_sets k i of None \<Rightarrow> Inl EINVAL | Some s \<Rightarrow> Inr (vals s ! n))"

text \<open>\<open>SETVAL\<close> also clears the adjustments of every process for that member.\<close>

definition semctl_setval :: "nat \<Rightarrow> nat \<Rightarrow> int \<Rightarrow> sem_kernel \<Rightarrow> errno + sem_kernel" where
  "semctl_setval i n v k =
     (case sem_sets k i of
        None \<Rightarrow> Inl EINVAL
      | Some s \<Rightarrow>
          if v < 0 \<or> SEMVMX < v then Inl ERANGE
          else Inr (k\<lparr>sem_sets := (sem_sets k)(i \<mapsto>
                 s\<lparr>vals := (vals s)[n := v], adj := (\<lambda>p. (adj s p)(n := 0))\<rparr>)\<rparr>))"

definition semctl_rmid :: "nat \<Rightarrow> sem_kernel \<Rightarrow> errno + sem_kernel" where
  "semctl_rmid i k =
     (case sem_sets k i of
        None \<Rightarrow> Inl EINVAL
      | Some s \<Rightarrow>
          Inr (k\<lparr>sem_sets := (sem_sets k)(i := None),
                 sem_ids := (\<lambda>ky. if sem_ids k ky = Some i then None else sem_ids k ky)\<rparr>))"

text \<open>The exit of a process applies its adjustments; a value never goes below 0.\<close>

definition set_exit :: "pid \<Rightarrow> sem_set \<Rightarrow> sem_set" where
  "set_exit p s = s\<lparr>vals := map (\<lambda>n. max 0 (vals s ! n + adj s p n)) [0..<length (vals s)],
                    adj := (adj s)(p := (\<lambda>_. 0))\<rparr>"

definition sem_exit :: "pid \<Rightarrow> sem_kernel \<Rightarrow> sem_kernel" where
  "sem_exit p k = k\<lparr>sem_sets := (\<lambda>i. map_option (set_exit p) (sem_sets k i))\<rparr>"

lemma sem_kernel_simps [kernel_simps]:
  "semop p i ops k = Done k' \<longleftrightarrow>
     (\<exists>s s'. sem_sets k i = Some s \<and> sem_apply p ops s = Done s' \<and>
        k' = k\<lparr>sem_sets := (sem_sets k)(i \<mapsto> s')\<rparr>)"
  by (auto simp: semop_def split: option.splits sem_verdict.splits)

end
