(* ===== verification/Semaphore.thy ===== *)
theory Semaphore
  imports SysV_Sem
begin

text \<open>
  The semaphore library of \<open>9_semaphores/semaphore.c\<close> (the copy in \<open>11_multi_buffer\<close> is the same
  code): three-member sets with a value [0], a process counter [1] and a lock [2].  Each function
  is a machine that makes one system call per step, so that every interleaving of several
  processes, and the crash of a process between any two calls, is a sequence of steps.
\<close>

section \<open>Operation arrays\<close>

definition BIGCOUNT :: int where "BIGCOUNT = 10000"

definition sop :: "nat \<Rightarrow> int \<Rightarrow> bool \<Rightarrow> sembuf" where
  "sop n d u = \<lparr>sem_num = n, sem_op_of = d, sem_undo = u, ipc_nowait = False\<rparr>"

definition op_lock :: "sembuf list" where "op_lock = [sop 2 0 False, sop 2 1 True]"
definition op_endcreate :: "sembuf list" where "op_endcreate = [sop 1 (- 1) True, sop 2 (- 1) True]"
definition op_open :: "sembuf list" where "op_open = [sop 1 (- 1) True]"
definition op_close :: "sembuf list" where "op_close = [sop 2 0 False, sop 2 1 True, sop 1 1 True]"
definition op_unlock :: "sembuf list" where "op_unlock = [sop 2 (- 1) True]"
definition op_op :: "int \<Rightarrow> sembuf list" where "op_op v = [sop 0 v True]"

section \<open>The functions as machines\<close>

text \<open>
  Where a process is in the library; the identifier is the local \<open>id\<close>.  \<open>Cr_lock i True\<close> is a
  process asleep in the \<open>semop\<close> of \<open>sem_create\<close>.  \<open>In_use i\<close> is a process outside the library
  that holds the identifier \<open>sem_create\<close> or \<open>sem_open\<close> returned.
\<close>

datatype sem_pc =
    Cr_get | Cr_lock nat bool | Cr_getval nat | Cr_set0 nat | Cr_set1 nat | Cr_end nat
  | Op_get | Op_dec nat
  | In_use nat
  | Cl_op nat | Cl_getval nat | Cl_rm nat | Cl_unlock nat
  | Closed | Failed_call | Err_sys | Err_dump

text \<open>\<open>err_sys\<close> ends the process with \<open>exit\<close> and \<open>err_dump\<close> with \<open>abort\<close>; either way the
  kernel applies its adjustments.\<close>

definition err_sys :: "pid \<Rightarrow> sem_kernel \<Rightarrow> sem_pc \<times> sem_kernel" where
  "err_sys p k = (Err_sys, sem_exit p k)"

definition err_dump :: "pid \<Rightarrow> sem_kernel \<Rightarrow> sem_pc \<times> sem_kernel" where
  "err_dump p k = (Err_dump, sem_exit p k)"

fun sem_create :: "key \<Rightarrow> int \<Rightarrow> pid \<Rightarrow> sem_pc \<Rightarrow> sem_kernel \<Rightarrow> sem_pc \<times> sem_kernel" where
  "sem_create ky initval p Cr_get k =
     (if ky = 0 \<or> ky = - 1 then (Failed_call, k)
      else (case semget ky 3 True k of
              (Inl e, k) \<Rightarrow> (Failed_call, k)
            | (Inr i, k) \<Rightarrow> (Cr_lock i False, k)))"
| "sem_create ky initval p (Cr_lock i asleep) k =
     (case semop p i op_lock k of
        Done k \<Rightarrow> (Cr_getval i, k)
      | Sleep \<Rightarrow> (Cr_lock i True, k)
      | Fail e \<Rightarrow> if e = EINVAL \<and> \<not> asleep then (Cr_get, k) else err_sys p k)"
| "sem_create ky initval p (Cr_getval i) k =
     (case semctl_getval i 1 k of
        Inl e \<Rightarrow> err_sys p k
      | Inr semval \<Rightarrow> if semval = 0 then (Cr_set0 i, k) else (Cr_end i, k))"
| "sem_create ky initval p (Cr_set0 i) k =
     (case semctl_setval i 0 initval k of Inl e \<Rightarrow> err_sys p k | Inr k \<Rightarrow> (Cr_set1 i, k))"
| "sem_create ky initval p (Cr_set1 i) k =
     (case semctl_setval i 1 BIGCOUNT k of Inl e \<Rightarrow> err_sys p k | Inr k \<Rightarrow> (Cr_end i, k))"
| "sem_create ky initval p (Cr_end i) k =
     (case semop p i op_endcreate k of
        Done k \<Rightarrow> (In_use i, k) | Sleep \<Rightarrow> (Cr_end i, k) | Fail e \<Rightarrow> err_sys p k)"
| "sem_create ky initval p pc k = (pc, k)"

fun sem_open :: "key \<Rightarrow> pid \<Rightarrow> sem_pc \<Rightarrow> sem_kernel \<Rightarrow> sem_pc \<times> sem_kernel" where
  "sem_open ky p Op_get k =
     (if ky = 0 \<or> ky = - 1 then (Failed_call, k)
      else (case semget ky 3 False k of
              (Inl e, k) \<Rightarrow> (Failed_call, k)
            | (Inr i, k) \<Rightarrow> (Op_dec i, k)))"
| "sem_open ky p (Op_dec i) k =
     (case semop p i op_open k of
        Done k \<Rightarrow> (In_use i, k) | Sleep \<Rightarrow> (Op_dec i, k) | Fail e \<Rightarrow> err_sys p k)"
| "sem_open ky p pc k = (pc, k)"

definition sem_rm :: "pid \<Rightarrow> nat \<Rightarrow> sem_kernel \<Rightarrow> sem_pc \<times> sem_kernel" where
  "sem_rm p i k = (case semctl_rmid i k of Inl e \<Rightarrow> err_sys p k | Inr k \<Rightarrow> (Closed, k))"

fun sem_close :: "pid \<Rightarrow> sem_pc \<Rightarrow> sem_kernel \<Rightarrow> sem_pc \<times> sem_kernel" where
  "sem_close p (Cl_op i) k =
     (case semop p i op_close k of
        Done k \<Rightarrow> (Cl_getval i, k) | Sleep \<Rightarrow> (Cl_op i, k) | Fail e \<Rightarrow> err_sys p k)"
| "sem_close p (Cl_getval i) k =
     (case semctl_getval i 1 k of
        Inl e \<Rightarrow> err_sys p k
      | Inr semval \<Rightarrow>
          if semval > BIGCOUNT then err_dump p k
          else if semval = BIGCOUNT then (Cl_rm i, k)
          else (Cl_unlock i, k))"
| "sem_close p (Cl_rm i) k = sem_rm p i k"
| "sem_close p (Cl_unlock i) k =
     (case semop p i op_unlock k of
        Done k \<Rightarrow> (Closed, k) | Sleep \<Rightarrow> (Cl_unlock i, k) | Fail e \<Rightarrow> err_sys p k)"
| "sem_close p pc k = (pc, k)"

text \<open>\<open>sem_op\<close> on the value, with \<open>sem_wait\<close> and \<open>sem_signal\<close>; asleep, the process stays
  where it is.\<close>

definition sem_op :: "pid \<Rightarrow> nat \<Rightarrow> int \<Rightarrow> sem_kernel \<Rightarrow> sem_kernel sem_verdict" where
  "sem_op p i v k = (if v = 0 then Fail EINVAL else semop p i (op_op v) k)"

definition sem_wait :: "pid \<Rightarrow> nat \<Rightarrow> sem_kernel \<Rightarrow> sem_kernel sem_verdict" where
  "sem_wait p i k = sem_op p i (- 1) k"

definition sem_signal :: "pid \<Rightarrow> nat \<Rightarrow> sem_kernel \<Rightarrow> sem_kernel sem_verdict" where
  "sem_signal p i k = sem_op p i 1 k"

section \<open>The system of processes\<close>

record sem_sys =
  pcs :: "pid \<Rightarrow> sem_pc"
  kernel :: sem_kernel

text \<open>
  One step of the process \<open>p\<close>: a step of the function it is in; between the two functions a
  \<open>sem_op\<close> or the call of \<open>sem_close\<close>; or its exit at any point, after which the same slot may
  start over.
\<close>

inductive sem_step :: "key \<Rightarrow> int \<Rightarrow> pid set \<Rightarrow> sem_sys \<Rightarrow> sem_sys \<Rightarrow> bool"
  for ky :: key and initval :: int and P :: "pid set"
where
  create: "p \<in> P \<Longrightarrow> sem_create ky initval p (pcs \<sigma> p) (kernel \<sigma>) = (pc, k) \<Longrightarrow>
     sem_step ky initval P \<sigma> \<lparr>pcs = (pcs \<sigma>)(p := pc), kernel = k\<rparr>"
| close: "p \<in> P \<Longrightarrow> sem_close p (pcs \<sigma> p) (kernel \<sigma>) = (pc, k) \<Longrightarrow>
     sem_step ky initval P \<sigma> \<lparr>pcs = (pcs \<sigma>)(p := pc), kernel = k\<rparr>"
| use: "p \<in> P \<Longrightarrow> pcs \<sigma> p = In_use i \<Longrightarrow> sem_op p i v (kernel \<sigma>) = Done k \<Longrightarrow>
     sem_step ky initval P \<sigma> (\<sigma>\<lparr>kernel := k\<rparr>)"
| leave: "p \<in> P \<Longrightarrow> pcs \<sigma> p = In_use i \<Longrightarrow>
     sem_step ky initval P \<sigma> (\<sigma>\<lparr>pcs := (pcs \<sigma>)(p := Cl_op i)\<rparr>)"
| exit: "p \<in> P \<Longrightarrow> sem_step ky initval P \<sigma> \<lparr>pcs = (pcs \<sigma>)(p := Cr_get), kernel = sem_exit p (kernel \<sigma>)\<rparr>"

inductive sem_reach :: "key \<Rightarrow> int \<Rightarrow> pid set \<Rightarrow> sem_sys \<Rightarrow> bool"
  for ky :: key and initval :: int and P :: "pid set"
where
  start: "sem_reach ky initval P
     \<lparr>pcs = (\<lambda>_. Cr_get), kernel = \<lparr>sem_ids = (\<lambda>_. None), sem_sets = (\<lambda>_. None), next_semid = 0\<rparr>\<rparr>"
| step: "sem_reach ky initval P \<sigma> \<Longrightarrow> sem_step ky initval P \<sigma> \<sigma>' \<Longrightarrow> sem_reach ky initval P \<sigma>'"

section \<open>The invariant\<close>

fun holds_lock :: "sem_pc \<Rightarrow> nat \<Rightarrow> bool" where
  "holds_lock (Cr_getval j) i = (j = i)"
| "holds_lock (Cr_set0 j) i = (j = i)"
| "holds_lock (Cr_set1 j) i = (j = i)"
| "holds_lock (Cr_end j) i = (j = i)"
| "holds_lock (Cl_getval j) i = (j = i)"
| "holds_lock (Cl_rm j) i = (j = i)"
| "holds_lock (Cl_unlock j) i = (j = i)"
| "holds_lock pc i = False"

fun counted :: "sem_pc \<Rightarrow> nat \<Rightarrow> bool" where
  "counted (In_use j) i = (j = i)"
| "counted (Cl_op j) i = (j = i)"
| "counted pc i = False"

text \<open>What the members of the set \<open>i\<close> mean, and what a process that holds the lock knows.\<close>

definition set_inv :: "(pid \<Rightarrow> sem_pc) \<Rightarrow> nat \<Rightarrow> sem_set \<Rightarrow> bool" where
  "set_inv pc i s \<longleftrightarrow>
     length (vals s) = 3 \<and>
     vals s ! 2 = (if \<exists>p. holds_lock (pc p) i then 1 else 0) \<and>
     (\<forall>p. adj s p 2 = (if holds_lock (pc p) i then - 1 else 0)) \<and>
     (\<forall>p. adj s p 1 = (if counted (pc p) i then 1 else 0)) \<and>
     (vals s ! 1 = 0 \<and> (\<forall>p. \<not> counted (pc p) i) \<or>
      vals s ! 1 = BIGCOUNT - int (card {p. counted (pc p) i})) \<and>
     (\<forall>p. (pc p = Cr_set0 i \<or> pc p = Cr_set1 i) \<longrightarrow> vals s ! 1 = 0) \<and>
     (\<forall>p. pc p = Cr_end i \<longrightarrow> vals s ! 1 \<noteq> 0) \<and>
     (\<forall>p. pc p = Cl_rm i \<longrightarrow> vals s ! 1 = BIGCOUNT)"

definition sem_inv :: "pid set \<Rightarrow> sem_sys \<Rightarrow> bool" where
  "sem_inv P \<sigma> \<longleftrightarrow>
     (\<forall>i s. sem_sets (kernel \<sigma>) i = Some s \<longrightarrow> set_inv (pcs \<sigma>) i s \<and> i < next_semid (kernel \<sigma>)) \<and>
     (\<forall>i p q. holds_lock (pcs \<sigma> p) i \<longrightarrow> holds_lock (pcs \<sigma> q) i \<longrightarrow> p = q) \<and>
     (\<forall>i p. holds_lock (pcs \<sigma> p) i \<or> counted (pcs \<sigma> p) i \<longrightarrow> sem_sets (kernel \<sigma>) i \<noteq> None) \<and>
     (\<forall>p. p \<notin> P \<longrightarrow> pcs \<sigma> p = Cr_get)"

lemma sem_sys_eta [simp]:
  "\<lparr>pcs = pcs \<sigma>, kernel = kernel \<sigma>\<rparr> = (\<sigma> :: sem_sys)" "\<lparr>pcs = pcs \<sigma>, kernel = k\<rparr> = (\<sigma> :: sem_sys)\<lparr>kernel := k\<rparr>"
  by simp_all

lemma finite_counted: "finite P \<Longrightarrow> \<forall>q. q \<notin> P \<longrightarrow> f q = Cr_get \<Longrightarrow> finite {q. counted (f q) i}"
  by (rule finite_subset [of _ P]) (auto intro: ccontr)

lemma card_counted:
  assumes "finite P" "\<forall>q. q \<notin> P \<longrightarrow> f q = Cr_get"
  shows "card {q. counted (f q) i} \<le> card P"
  by (rule card_mono) (use assms in \<open>auto intro: ccontr\<close>)

lemma counted_upd:
  "{q. counted ((f(p := pc)) q) i} =
     (if counted pc i then insert p ({q. counted (f q) i} - {p}) else {q. counted (f q) i} - {p})"
  by auto

text \<open>The set a process is concerned with.\<close>

fun sem_id :: "sem_pc \<Rightarrow> nat option" where
  "sem_id (Cr_getval i) = Some i" | "sem_id (Cr_set0 i) = Some i" | "sem_id (Cr_set1 i) = Some i"
| "sem_id (Cr_end i) = Some i" | "sem_id (In_use i) = Some i" | "sem_id (Cl_op i) = Some i"
| "sem_id (Cl_getval i) = Some i" | "sem_id (Cl_rm i) = Some i" | "sem_id (Cl_unlock i) = Some i"
| "sem_id pc = None"

lemma holds_lock_id: "holds_lock pc i \<Longrightarrow> sem_id pc = Some i"
  by (cases pc) auto

lemma counted_id: "counted pc i \<Longrightarrow> sem_id pc = Some i"
  by (cases pc) auto

lemma not_both: "holds_lock pc i \<Longrightarrow> \<not> counted pc j"
  by (cases pc) auto

lemma set_inv_cong:
  assumes "\<And>q. sem_id (f q) = Some j \<or> sem_id (g q) = Some j \<Longrightarrow> f q = g q"
  shows "set_inv f j s = set_inv g j s"
proof -
  have h: "holds_lock (f q) j = holds_lock (g q) j" for q
    using assms [of q] holds_lock_id by metis
  have c: "counted (f q) j = counted (g q) j" for q
    using assms [of q] counted_id by metis
  have x: "f q = pc \<longleftrightarrow> g q = pc" if "sem_id pc = Some j" for q pc
    using assms [of q] that by metis
  show ?thesis
    unfolding set_inv_def h c using x by simp
qed

lemma set_inv_other:
  assumes "sem_id (f p) \<noteq> Some j" "sem_id pc \<noteq> Some j"
  shows "set_inv (f(p := pc)) j s = set_inv f j s"
  by (rule set_inv_cong) (use assms in \<open>auto split: if_splits\<close>)

text \<open>The effect of the operation arrays on a three-member set.\<close>

lemma sem_apply_lock:
  "length (vals s) = 3 \<Longrightarrow> sem_apply p op_lock s =
     (if vals s ! 2 = 0
      then Done (s\<lparr>vals := (vals s)[2 := 1], adj := (adj s)(p := (adj s p)(2 := adj s p 2 - 1))\<rparr>) else Sleep)"
  by (auto simp: op_lock_def sop_def SEMVMX_def Let_def)

lemma sem_apply_endcreate:
  assumes "length (vals s) = 3" "1 \<le> vals s ! 1" "vals s ! 1 \<le> BIGCOUNT" "vals s ! 2 = 1"
  shows "sem_apply p op_endcreate s =
     Done (s\<lparr>vals := (vals s)[1 := vals s ! 1 - 1, 2 := 0],
            adj := (adj s)(p := (adj s p)(1 := adj s p 1 + 1, 2 := adj s p 2 + 1))\<rparr>)"
  using assms by (simp add: op_endcreate_def sop_def SEMVMX_def BIGCOUNT_def Let_def)

lemma sem_apply_close:
  assumes "length (vals s) = 3" "0 \<le> vals s ! 1" "vals s ! 1 \<le> BIGCOUNT"
  shows "sem_apply p op_close s =
     (if vals s ! 2 = 0
      then Done (s\<lparr>vals := (vals s)[2 := 1, 1 := vals s ! 1 + 1],
                   adj := (adj s)(p := (adj s p)(2 := adj s p 2 - 1, 1 := adj s p 1 - 1))\<rparr>) else Sleep)"
  using assms by (auto simp: op_close_def sop_def SEMVMX_def BIGCOUNT_def Let_def)

lemma sem_apply_unlock:
  assumes "length (vals s) = 3" "vals s ! 2 = 1"
  shows "sem_apply p op_unlock s =
     Done (s\<lparr>vals := (vals s)[2 := 0], adj := (adj s)(p := (adj s p)(2 := adj s p 2 + 1))\<rparr>)"
  using assms by (simp add: op_unlock_def sop_def SEMVMX_def Let_def)

lemma sem_apply_op:
  assumes "sem_apply p (op_op v) s = Done s'" "length (vals s) = 3"
  shows "length (vals s') = 3" "vals s' ! 1 = vals s ! 1" "vals s' ! 2 = vals s ! 2"
    "adj s' q 1 = adj s q 1" "adj s' q 2 = adj s q 2"
  using assms by (auto simp: op_op_def sop_def Let_def split: if_splits)

section \<open>Every step keeps the invariant\<close>

text \<open>One process moves and one set changes; everything else stays.\<close>

lemma sem_inv_update:
  assumes inv: "sem_inv P \<sigma>" and p: "p \<in> P"
    and ids: "sem_id (pcs \<sigma> p) \<in> {None, Some i}" "sem_id pc \<in> {None, Some i}"
    and k: "sem_sets k = (sem_sets (kernel \<sigma>))(i \<mapsto> s')" "next_semid (kernel \<sigma>) \<le> next_semid k" "i < next_semid k"
    and s': "set_inv ((pcs \<sigma>)(p := pc)) i s'"
    and lock: "holds_lock pc i \<Longrightarrow> \<forall>q. q \<noteq> p \<longrightarrow> \<not> holds_lock (pcs \<sigma> q) i"
  shows "sem_inv P \<lparr>pcs = (pcs \<sigma>)(p := pc), kernel = k\<rparr>"
proof -
  let ?f = "(pcs \<sigma>)(p := pc)"
  have sets: "set_inv ?f j s \<and> j < next_semid k" if "sem_sets k j = Some s" for j s
  proof (cases "j = i")
    case True
    then show ?thesis using that s' k by simp
  next
    case False
    then have "set_inv ?f j s = set_inv (pcs \<sigma>) j s" using ids by (intro set_inv_other) auto
    then show ?thesis
      using that False k inv less_le_trans [of j "next_semid (kernel \<sigma>)" "next_semid k"]
      by (auto simp: sem_inv_def)
  qed
  have uniq: "q = r" if "holds_lock (?f q) j" "holds_lock (?f r) j" for j q r
  proof (cases "j = i")
    case True
    then show ?thesis using that inv lock by (auto simp: sem_inv_def split: if_splits)
  next
    case False
    then have "\<not> holds_lock pc j" using ids holds_lock_id by fastforce
    then show ?thesis using that inv by (auto simp: sem_inv_def split: if_splits)
  qed
  have live: "sem_sets k j \<noteq> None" if "holds_lock (?f q) j \<or> counted (?f q) j" for j q
  proof (cases "j = i")
    case False
    then have "\<not> holds_lock pc j" "\<not> counted pc j" using ids holds_lock_id counted_id by fastforce+
    then show ?thesis using that inv k(1) by (auto simp: sem_inv_def split: if_splits)
  qed (simp add: k)
  have "\<forall>q. q \<notin> P \<longrightarrow> ?f q = Cr_get" using inv p by (auto simp: sem_inv_def)
  then show ?thesis using sets uniq live unfolding sem_inv_def sem_sys.simps by blast
qed

lemma set_inv_bounds:
  assumes "set_inv f i s" "finite P" "\<forall>q. q \<notin> P \<longrightarrow> f q = Cr_get" "int (card P) < BIGCOUNT"
  shows "length (vals s) = 3" "0 \<le> vals s ! 1" "vals s ! 1 \<le> BIGCOUNT"
    "vals s ! 1 = 0 \<Longrightarrow> \<not> counted (f q) i"
    "vals s ! 1 \<noteq> 0 \<Longrightarrow> vals s ! 1 = BIGCOUNT - int (card {p. counted (f p) i})"
    "vals s ! 2 = 0 \<longleftrightarrow> (\<forall>q. \<not> holds_lock (f q) i)"
proof -
  have c: "int (card {p. counted (f p) i}) < BIGCOUNT"
    using card_counted [OF assms(2,3), of i] assms(4) by linarith
  show "length (vals s) = 3" "vals s ! 2 = 0 \<longleftrightarrow> (\<forall>q. \<not> holds_lock (f q) i)"
    using assms(1) by (auto simp: set_inv_def)
  have "vals s ! 1 = 0 \<and> (\<forall>p. \<not> counted (f p) i) \<or>
      vals s ! 1 = BIGCOUNT - int (card {p. counted (f p) i})"
    using assms(1) unfolding set_inv_def by blast
  then consider (fresh) "vals s ! 1 = 0" "\<forall>p. \<not> counted (f p) i"
    | (used) "vals s ! 1 = BIGCOUNT - int (card {p. counted (f p) i})" by blast
  then have "0 \<le> vals s ! 1 \<and> vals s ! 1 \<le> BIGCOUNT \<and> (vals s ! 1 = 0 \<longrightarrow> \<not> counted (f q) i) \<and>
      (vals s ! 1 \<noteq> 0 \<longrightarrow> vals s ! 1 = BIGCOUNT - int (card {p. counted (f p) i}))"
  proof cases
    case fresh
    then show ?thesis by (simp add: BIGCOUNT_def)
  next
    case used
    then show ?thesis using c by linarith
  qed
  then show "0 \<le> vals s ! 1" "vals s ! 1 \<le> BIGCOUNT" "vals s ! 1 = 0 \<Longrightarrow> \<not> counted (f q) i"
    "vals s ! 1 \<noteq> 0 \<Longrightarrow> vals s ! 1 = BIGCOUNT - int (card {p. counted (f p) i})"
    by blast+
qed

lemma list3: "length xs = 3 \<Longrightarrow> \<exists>a b c. xs = [a, b, c]"
  by (cases xs; cases "tl xs"; cases "tl (tl xs)") auto

lemma exit_values:
  assumes "set_inv f i s" "finite P" "\<forall>q. q \<notin> P \<longrightarrow> f q = Cr_get" "int (card P) < BIGCOUNT"
  shows "length (vals (set_exit p s)) = 3"
    and "vals (set_exit p s) ! 1 = vals s ! 1 + (if counted (f p) i then 1 else 0)"
    and "vals (set_exit p s) ! 2 = max 0 (vals s ! 2 + (if holds_lock (f p) i then - 1 else 0))"
proof -
  note b = set_inv_bounds [OF assms]
  obtain a v l where vs: "vals s = [a, v, l]" using list3 [OF b(1)] by blast
  have "adj s p 1 = (if counted (f p) i then 1 else 0)" "adj s p 2 = (if holds_lock (f p) i then - 1 else 0)"
    using assms(1) by (simp_all add: set_inv_def)
  then show "length (vals (set_exit p s)) = 3"
    "vals (set_exit p s) ! 1 = vals s ! 1 + (if counted (f p) i then 1 else 0)"
    "vals (set_exit p s) ! 2 = max 0 (vals s ! 2 + (if holds_lock (f p) i then - 1 else 0))"
    using b(2) by (simp_all add: set_exit_def vs numeral_2_eq_2)
qed

lemma exit_lock_value:
  assumes "set_inv f i s" "finite P" "\<forall>q. q \<notin> P \<longrightarrow> f q = Cr_get" "int (card P) < BIGCOUNT"
    and pc: "sem_id pc = None"
    and uniq: "\<forall>q r. holds_lock (f q) i \<longrightarrow> holds_lock (f r) i \<longrightarrow> q = r"
  shows "vals (set_exit p s) ! 2 = (if \<exists>q. holds_lock ((f(p := pc)) q) i then 1 else 0)"
proof -
  have none: "\<not> holds_lock pc i" using pc holds_lock_id by fastforce
  show ?thesis
  proof (cases "holds_lock (f p) i")
    case True
    then have "\<forall>q. q \<noteq> p \<longrightarrow> \<not> holds_lock (f q) i" using uniq by blast
    moreover have "vals s ! 2 = 1" using assms(1) True by (auto simp: set_inv_def split: if_splits)
    ultimately show ?thesis using exit_values(3) [OF assms(1-4)] True none by simp
  next
    case False
    then have "(\<exists>q. holds_lock ((f(p := pc)) q) i) = (\<exists>q. holds_lock (f q) i)" using none by auto
    moreover have "vals s ! 2 = (if \<exists>q. holds_lock (f q) i then 1 else 0)" using assms(1) by (simp add: set_inv_def)
    ultimately show ?thesis using exit_values(3) [OF assms(1-4), of p] False by simp
  qed
qed

lemma exit_count:
  assumes "set_inv f i s" "finite P" "\<forall>q. q \<notin> P \<longrightarrow> f q = Cr_get" "int (card P) < BIGCOUNT"
    and pc: "sem_id pc = None"
  shows "vals (set_exit p s) ! 1 = 0 \<and> (\<forall>q. \<not> counted ((f(p := pc)) q) i) \<or>
      vals (set_exit p s) ! 1 = BIGCOUNT - int (card {q. counted ((f(p := pc)) q) i})"
proof -
  have none: "\<not> counted pc i" using pc counted_id by fastforce
  have card: "int (card ({q. counted (f q) i} - {p})) =
      int (card {q. counted (f q) i}) - (if counted (f p) i then 1 else 0)"
    using finite_counted [OF assms(2,3), of i] card_gt_0_iff [of "{q. counted (f q) i}"]
    by (auto simp: card_Diff_singleton of_nat_diff Suc_le_eq)
  show ?thesis
  proof (cases "vals s ! 1 = 0")
    case True
    then have "\<forall>q. \<not> counted (f q) i" using set_inv_bounds(4) [OF assms(1-4)] by simp
    then show ?thesis using exit_values(2) [OF assms(1-4), of p] none True by simp
  next
    case False
    then have "vals s ! 1 = BIGCOUNT - int (card {q. counted (f q) i})" using set_inv_bounds(5) [OF assms(1-4)] by simp
    then show ?thesis unfolding counted_upd using exit_values(2) [OF assms(1-4), of p] none card by simp
  qed
qed

lemma set_inv_exit:
  assumes "set_inv f i s" "finite P" "\<forall>q. q \<notin> P \<longrightarrow> f q = Cr_get" "int (card P) < BIGCOUNT"
    and uniq: "\<forall>q r. holds_lock (f q) i \<longrightarrow> holds_lock (f r) i \<longrightarrow> q = r"
    and pc: "sem_id pc = None"
  shows "set_inv (f(p := pc)) i (set_exit p s)"
proof -
  let ?s = "set_exit p s" and ?f = "f(p := pc)"
  note b = set_inv_bounds [OF assms(1-4)] and v1 = exit_values(2) [OF assms(1-4), of p]
  have none: "\<not> holds_lock pc i" "\<not> counted pc i" using pc holds_lock_id counted_id by fastforce+
  have pcx: "pc \<noteq> Cr_set0 i" "pc \<noteq> Cr_set1 i" "pc \<noteq> Cr_end i" "pc \<noteq> Cl_rm i" using pc by auto
  have "\<forall>q. adj ?s q 2 = (if holds_lock (?f q) i then - 1 else 0)"
    "\<forall>q. adj ?s q 1 = (if counted (?f q) i then 1 else 0)"
    using assms(1) none by (auto simp: set_inv_def set_exit_def)
  moreover have "vals ?s ! 1 = 0" if "?f q = Cr_set0 i \<or> ?f q = Cr_set1 i" for q
  proof -
    have "f q = Cr_set0 i \<or> f q = Cr_set1 i" using that pcx by (auto split: if_splits)
    then have "vals s ! 1 = 0" using assms(1) by (auto simp: set_inv_def)
    then show "vals ?s ! 1 = 0" using v1 b(4) by simp
  qed
  moreover have "\<forall>q. ?f q = Cr_end i \<longrightarrow> vals ?s ! 1 \<noteq> 0"
    using assms(1) v1 b(2) pcx by (auto simp: set_inv_def)
  moreover have "vals ?s ! 1 = BIGCOUNT" if "?f q = Cl_rm i" for q
  proof -
    have "f q = Cl_rm i" using that pcx by (auto split: if_splits)
    then have v: "vals s ! 1 = BIGCOUNT" using assms(1) by (auto simp: set_inv_def)
    then have "{q. counted (f q) i} = {}"
      using b(5) finite_counted [OF assms(2,3), of i] by (simp add: BIGCOUNT_def)
    then show "vals ?s ! 1 = BIGCOUNT" using v1 v by auto
  qed
  ultimately show ?thesis
    using exit_values(1) [OF assms(1-4)] exit_lock_value [OF assms(1-4) pc uniq] exit_count [OF assms(1-4) pc]
    unfolding set_inv_def by blast
qed

lemma card_counted_upd:
  assumes "finite P" "\<forall>q. q \<notin> P \<longrightarrow> f q = Cr_get"
  shows "int (card {q. counted ((f(p := pc)) q) i}) =
     int (card {q. counted (f q) i}) - of_bool (counted (f p) i) + of_bool (counted pc i)"
proof -
  have fin: "finite {q. counted (f q) i}" by (rule finite_counted [OF assms])
  have rm: "int (card ({q. counted (f q) i} - {p})) = int (card {q. counted (f q) i}) - of_bool (counted (f p) i)"
    using fin card_gt_0_iff [of "{q. counted (f q) i}"]
    by (auto simp: card_Diff_singleton of_nat_diff Suc_le_eq)
  define A where "A = {q. counted (f q) i}"
  have "int (card (insert p (A - {p}))) = int (card (A - {p})) + 1"
    using fin by (subst card_insert_disjoint) (auto simp: A_def)
  then show ?thesis using rm unfolding counted_upd A_def [symmetric] by simp
qed

lemma set_inv_move:
  assumes inv: "set_inv f i s" and P: "finite P" "\<forall>q. q \<notin> P \<longrightarrow> f q = Cr_get" "int (card P) < BIGCOUNT"
    and len: "length (vals s') = 3"
    and others: "\<And>q. q \<noteq> p \<Longrightarrow> adj s' q 1 = adj s q 1 \<and> adj s' q 2 = adj s q 2"
    and own: "adj s' p 1 = (if counted pc i then 1 else 0)" "adj s' p 2 = (if holds_lock pc i then - 1 else 0)"
    and lock: "vals s' ! 2 = (if holds_lock pc i then 1 else if holds_lock (f p) i then 0 else vals s ! 2)"
      "holds_lock pc i \<or> holds_lock (f p) i \<Longrightarrow> \<forall>q. q \<noteq> p \<longrightarrow> \<not> holds_lock (f q) i"
    and count: "vals s' ! 1 = vals s ! 1 + of_bool (counted (f p) i) - of_bool (counted pc i) \<or>
        vals s ! 1 = 0 \<and> vals s' ! 1 = BIGCOUNT \<and> \<not> counted pc i"
      "counted pc i \<Longrightarrow> vals s ! 1 \<noteq> 0"
      "vals s' ! 1 \<noteq> vals s ! 1 \<Longrightarrow> holds_lock pc i \<or> holds_lock (f p) i"
    and at: "pc = Cr_set0 i \<or> pc = Cr_set1 i \<Longrightarrow> vals s' ! 1 = 0" "pc = Cr_end i \<Longrightarrow> vals s' ! 1 \<noteq> 0"
      "pc = Cl_rm i \<Longrightarrow> vals s' ! 1 = BIGCOUNT"
  shows "set_inv (f(p := pc)) i s'"
proof -
  let ?f = "f(p := pc)"
  note b = set_inv_bounds [OF inv P]
  have card: "int (card {q. counted (?f q) i}) =
      int (card {q. counted (f q) i}) - of_bool (counted (f p) i) + of_bool (counted pc i)"
    by (rule card_counted_upd [OF P(1,2)])
  have "vals s' ! 1 = 0 \<and> (\<forall>q. \<not> counted (?f q) i) \<or>
      vals s' ! 1 = BIGCOUNT - int (card {q. counted (?f q) i})"
  proof (cases "vals s ! 1 = 0")
    case True
    then have none: "\<not> counted (f q) i" for q using set_inv_bounds(4) [OF inv P] by blast
    then have "\<forall>q. \<not> counted (?f q) i" using count(2) True by auto
    then show ?thesis using count(1,2) none True by auto
  next
    case False
    then show ?thesis using b(5) [OF False] card count(1) by auto
  qed
  moreover have "vals s' ! 2 = (if \<exists>q. holds_lock (?f q) i then 1 else 0)"
  proof (cases "holds_lock pc i \<or> holds_lock (f p) i")
    case True
    then have "\<forall>q. q \<noteq> p \<longrightarrow> \<not> holds_lock (f q) i" by (rule lock(2))
    then show ?thesis using lock(1) True by auto
  next
    case False
    then have "(\<exists>q. holds_lock (?f q) i) = (\<exists>q. holds_lock (f q) i)" by auto
    then show ?thesis using lock(1) False inv by (simp add: set_inv_def)
  qed
  moreover have "\<forall>q. adj s' q 2 = (if holds_lock (?f q) i then - 1 else 0)"
    "\<forall>q. adj s' q 1 = (if counted (?f q) i then 1 else 0)"
    using inv others own by (auto simp: set_inv_def)
  moreover have same: "vals s' ! 1 = vals s ! 1" if "holds_lock (f q) i" "q \<noteq> p" for q
    using that count(3) lock(2) by blast
  have "\<forall>q. ((?f q = Cr_set0 i \<or> ?f q = Cr_set1 i) \<longrightarrow> vals s' ! 1 = 0) \<and> (?f q = Cr_end i \<longrightarrow> vals s' ! 1 \<noteq> 0) \<and>
      (?f q = Cl_rm i \<longrightarrow> vals s' ! 1 = BIGCOUNT)"
  proof
    fix q
    show "((?f q = Cr_set0 i \<or> ?f q = Cr_set1 i) \<longrightarrow> vals s' ! 1 = 0) \<and> (?f q = Cr_end i \<longrightarrow> vals s' ! 1 \<noteq> 0) \<and>
        (?f q = Cl_rm i \<longrightarrow> vals s' ! 1 = BIGCOUNT)"
      using at same [of q] inv by (cases "q = p") (auto simp: set_inv_def)
  qed
  ultimately show ?thesis using len unfolding set_inv_def by blast
qed

lemma sem_invD:
  assumes "sem_inv P \<sigma>"
  shows "sem_sets (kernel \<sigma>) i = Some s \<Longrightarrow> set_inv (pcs \<sigma>) i s"
    "sem_sets (kernel \<sigma>) i = Some s \<Longrightarrow> i < next_semid (kernel \<sigma>)"
    "holds_lock (pcs \<sigma> p) i \<Longrightarrow> holds_lock (pcs \<sigma> q) i \<Longrightarrow> p = q"
    "holds_lock (pcs \<sigma> p) i \<or> counted (pcs \<sigma> p) i \<Longrightarrow> \<exists>s. sem_sets (kernel \<sigma>) i = Some s"
    "\<forall>q. q \<notin> P \<longrightarrow> pcs \<sigma> q = Cr_get"
  using assms by (auto simp: sem_inv_def)

lemma sem_inv_idle:
  assumes "sem_inv P \<sigma>" "p \<in> P" "sem_id (pcs \<sigma> p) = None" "sem_id pc = None" "kernel \<sigma> = k"
  shows "sem_inv P \<lparr>pcs = (pcs \<sigma>)(p := pc), kernel = k\<rparr>"
proof -
  have "\<not> holds_lock pc i" "\<not> counted pc i" for i using assms(4) holds_lock_id counted_id by fastforce+
  moreover have "set_inv ((pcs \<sigma>)(p := pc)) j s = set_inv (pcs \<sigma>) j s" for j s
    by (rule set_inv_other) (use assms in auto)
  ultimately show ?thesis using assms unfolding sem_inv_def by (auto split: if_splits)
qed

lemma sem_inv_exit:
  assumes inv: "sem_inv P \<sigma>" and p: "p \<in> P" and pc: "sem_id pc = None"
    and P: "finite P" "int (card P) < BIGCOUNT"
  shows "sem_inv P \<lparr>pcs = (pcs \<sigma>)(p := pc), kernel = sem_exit p (kernel \<sigma>)\<rparr>"
proof -
  have none: "\<not> holds_lock pc i" "\<not> counted pc i" for i using pc holds_lock_id counted_id by fastforce+
  have "set_inv ((pcs \<sigma>)(p := pc)) i (set_exit p s)" if "sem_sets (kernel \<sigma>) i = Some s" for i s
    using sem_invD(1) [OF inv that] P(1) sem_invD(5) [OF inv] P(2)
    by (rule set_inv_exit) (use sem_invD(3) [OF inv] pc in auto)
  then show ?thesis
    using inv none p unfolding sem_inv_def sem_exit_def by (auto split: if_splits)
qed

lemma sem_inv_rmid:
  assumes inv: "sem_inv P \<sigma>" and p: "p \<in> P" "pcs \<sigma> p = Cl_rm i"
    and P: "finite P" "int (card P) < BIGCOUNT" and k: "semctl_rmid i (kernel \<sigma>) = Inr k"
  shows "sem_inv P \<lparr>pcs = (pcs \<sigma>)(p := Closed), kernel = k\<rparr>"
proof -
  obtain s where s: "sem_sets (kernel \<sigma>) i = Some s" using k by (auto simp: semctl_rmid_def split: option.splits)
  note si = sem_invD(1) [OF inv s]
  have "vals s ! 1 = BIGCOUNT" using si p(2) by (auto simp: set_inv_def)
  then have none: "\<not> counted (pcs \<sigma> q) i" for q
    using set_inv_bounds(5) [OF si P(1) sem_invD(5) [OF inv] P(2)] finite_counted [OF P(1) sem_invD(5) [OF inv], of i]
    by (auto simp: BIGCOUNT_def)
  have "\<not> holds_lock (pcs \<sigma> q) i" if "q \<noteq> p" for q
    using that sem_invD(3) [OF inv, of p i q] p(2) by auto
  moreover have "set_inv ((pcs \<sigma>)(p := Closed)) j t = set_inv (pcs \<sigma>) j t" if "j \<noteq> i" for j t
    by (rule set_inv_other) (use p that in auto)
  ultimately show ?thesis
    using inv none p k s unfolding sem_inv_def semctl_rmid_def by (auto split: if_splits)
qed

lemma sem_inv_semop:
  assumes inv: "sem_inv P \<sigma>" and p: "p \<in> P" and P: "finite P" "int (card P) < BIGCOUNT"
    and s: "sem_sets (kernel \<sigma>) i = Some s"
    and ids: "sem_id (pcs \<sigma> p) \<in> {None, Some i}" "sem_id pc = Some i"
    and s': "set_inv ((pcs \<sigma>)(p := pc)) i s'"
    and lock: "holds_lock pc i \<Longrightarrow> \<forall>q. q \<noteq> p \<longrightarrow> \<not> holds_lock (pcs \<sigma> q) i"
    and k: "k = (kernel \<sigma>)\<lparr>sem_sets := (sem_sets (kernel \<sigma>))(i \<mapsto> s')\<rparr>"
  shows "sem_inv P \<lparr>pcs = (pcs \<sigma>)(p := pc), kernel = k\<rparr>"
  using sem_inv_update [OF inv p ids(1), of pc k s'] ids(2) s' lock k sem_invD(2) [OF inv s] by simp

lemma semget_creates:
  assumes "semget ky n True k = (r, k')"
  shows "k' = k \<or> r = Inr (next_semid k) \<and> next_semid k' = next_semid k + 1 \<and>
           sem_sets k' = (sem_sets k)(next_semid k \<mapsto> \<lparr>vals = replicate n 0, adj = (\<lambda>_ _. 0)\<rparr>)"
  using assms by (auto simp: semget_def split: option.splits)

lemma set_inv_holder:
  assumes "set_inv f i s" "holds_lock (f p) i"
  shows "vals s ! 2 = 1" "adj s p 2 = - 1" "adj s p 1 = 0"
  using assms not_both [OF assms(2)] by (auto simp: set_inv_def)

lemma sem_inv_step_create_Cr_get:
  assumes inv: "sem_inv P \<sigma>" and p: "p \<in> P" and P: "finite P" "int (card P) < BIGCOUNT"
    and st: "sem_create ky initval p (pcs \<sigma> p) (kernel \<sigma>) = (pc, k)"
    and Cr_get: "pcs \<sigma> p = Cr_get"
  shows "sem_inv P \<lparr>pcs = (pcs \<sigma>)(p := pc), kernel = k\<rparr>"
proof -
  note idle = sem_inv_idle [OF inv p _ _ refl]
  note exits = sem_inv_exit [OF inv p _ P]
  note D = sem_invD [OF inv]
  obtain r k1 where r: "semget ky 3 True (kernel \<sigma>) = (r, k1)" by (rule prod.exhaust)
  have "sem_id pc = None \<and> (k = kernel \<sigma> \<or> k = k1 \<and> (\<forall>i. r = Inr i \<longrightarrow> pc = Cr_lock i False) \<and> (\<forall>e. r = Inl e \<longrightarrow> pc = Failed_call))"
    using st Cr_get r by (cases r) (auto split: if_splits)
  with semget_creates [OF r] consider (same) "sem_id pc = None" "k = kernel \<sigma>"
    | (new) "pc = Cr_lock (next_semid (kernel \<sigma>)) False" "next_semid k = next_semid (kernel \<sigma>) + 1"
        "sem_sets k = (sem_sets (kernel \<sigma>))(next_semid (kernel \<sigma>) \<mapsto> \<lparr>vals = replicate 3 0, adj = (\<lambda>_ _. 0)\<rparr>)"
    by (elim disjE conjE; simp)
  then show ?thesis
  proof cases
    case same
    then show ?thesis using idle [of pc] Cr_get by simp
  next
    case new
    let ?i = "next_semid (kernel \<sigma>)"
    have "sem_sets (kernel \<sigma>) ?i = None" using D(2) [of ?i] by fastforce
    then have none: "\<not> holds_lock (pcs \<sigma> q) ?i" "\<not> counted (pcs \<sigma> q) ?i" for q using D(4) [of q ?i] by auto
    have "set_inv ((pcs \<sigma>)(p := pc)) ?i \<lparr>vals = replicate 3 0, adj = (\<lambda>_ _. 0)\<rparr>"
      using none new(1) by (auto simp: set_inv_def) (metis holds_lock.simps(4,6))+
    then show ?thesis
      using sem_inv_update [OF inv p, of ?i pc k] new Cr_get by simp
  qed
qed

lemma sem_inv_step_create_Cr_lock:
  assumes inv: "sem_inv P \<sigma>" and p: "p \<in> P" and P: "finite P" "int (card P) < BIGCOUNT"
    and st: "sem_create ky initval p (pcs \<sigma> p) (kernel \<sigma>) = (pc, k)"
    and Cr_lock: "pcs \<sigma> p = Cr_lock i asleep"
  shows "sem_inv P \<lparr>pcs = (pcs \<sigma>)(p := pc), kernel = k\<rparr>"
proof -
  note idle = sem_inv_idle [OF inv p _ _ refl]
  note exits = sem_inv_exit [OF inv p _ P]
  note D = sem_invD [OF inv]
  show ?thesis
  proof (cases "semop p i op_lock (kernel \<sigma>)")
    case (Done k')
    then obtain s s' where s: "sem_sets (kernel \<sigma>) i = Some s" "sem_apply p op_lock s = Done s'"
        "k' = (kernel \<sigma>)\<lparr>sem_sets := (sem_sets (kernel \<sigma>))(i \<mapsto> s')\<rparr>"
      by (auto simp: kernel_simps)
    note si = D(1) [OF s(1)] and b = set_inv_bounds [OF D(1) [OF s(1)] P(1) D(5) P(2)]
    have free: "vals s ! 2 = 0" and s': "s' = s\<lparr>vals := (vals s)[2 := 1],
        adj := (adj s)(p := (adj s p)(2 := adj s p 2 - 1))\<rparr>"
      using s(2) sem_apply_lock [OF b(1)] by (auto split: if_splits)
    then have nolock: "\<forall>q. \<not> holds_lock (pcs \<sigma> q) i" using b(6) by simp
    have "set_inv ((pcs \<sigma>)(p := Cr_getval i)) i s'"
      by (rule set_inv_move [OF si P(1) D(5) P(2)])
         (use b(1) s' nolock Cr_lock si in \<open>auto simp: set_inv_def nth_list_update\<close>)
    then show ?thesis
      using sem_inv_semop [OF inv p P s(1), of "Cr_getval i" s' k'] st Cr_lock Done s(3) nolock by simp
  next
    case Sleep
    then show ?thesis using st Cr_lock idle [of "Cr_lock i True"] by auto
  next
    case (Fail e)
    then show ?thesis using st Cr_lock idle [of Cr_get] exits [of Err_sys]
      by (auto simp: err_sys_def split: if_splits)
  qed
qed

lemma sem_inv_step_create_Cr_getval:
  assumes inv: "sem_inv P \<sigma>" and p: "p \<in> P" and P: "finite P" "int (card P) < BIGCOUNT"
    and st: "sem_create ky initval p (pcs \<sigma> p) (kernel \<sigma>) = (pc, k)"
    and Cr_getval: "pcs \<sigma> p = Cr_getval i"
  shows "sem_inv P \<lparr>pcs = (pcs \<sigma>)(p := pc), kernel = k\<rparr>"
proof -
  note idle = sem_inv_idle [OF inv p _ _ refl]
  note exits = sem_inv_exit [OF inv p _ P]
  note D = sem_invD [OF inv]
  note Cr_getval
  then obtain s where s: "sem_sets (kernel \<sigma>) i = Some s" using D(4) [of p i] by auto
  note si = D(1) [OF s(1)] and b = set_inv_bounds [OF D(1) [OF s(1)] P(1) D(5) P(2)]
  have alone: "\<forall>q. q \<noteq> p \<longrightarrow> \<not> holds_lock (pcs \<sigma> q) i" using D(3) [of p i] Cr_getval by auto
  have pc: "pc = (if vals s ! 1 = 0 then Cr_set0 i else Cr_end i)" "k = kernel \<sigma>"
    using st Cr_getval s by (auto simp: semctl_getval_def split: if_splits)
  have "set_inv ((pcs \<sigma>)(p := pc)) i s"
    by (rule set_inv_move [OF si P(1) D(5) P(2)])
       (use b(1) pc alone Cr_getval set_inv_holder [OF si, of p] in \<open>auto split: if_splits\<close>)
  then show ?thesis
    using sem_inv_semop [OF inv p P s, of pc s k] pc Cr_getval s alone by (auto simp: fun_upd_idem)
qed

lemma sem_inv_step_create_Cr_set0:
  assumes inv: "sem_inv P \<sigma>" and p: "p \<in> P" and P: "finite P" "int (card P) < BIGCOUNT"
    and st: "sem_create ky initval p (pcs \<sigma> p) (kernel \<sigma>) = (pc, k)"
    and Cr_set0: "pcs \<sigma> p = Cr_set0 i"
  shows "sem_inv P \<lparr>pcs = (pcs \<sigma>)(p := pc), kernel = k\<rparr>"
proof -
  note idle = sem_inv_idle [OF inv p _ _ refl]
  note exits = sem_inv_exit [OF inv p _ P]
  note D = sem_invD [OF inv]
  note Cr_set0
  then obtain s where s: "sem_sets (kernel \<sigma>) i = Some s" using D(4) [of p i] by auto
  note si = D(1) [OF s(1)] and b = set_inv_bounds [OF D(1) [OF s(1)] P(1) D(5) P(2)]
  have alone: "\<forall>q. q \<noteq> p \<longrightarrow> \<not> holds_lock (pcs \<sigma> q) i" using D(3) [of p i] Cr_set0 by auto
  have zero: "vals s ! 1 = 0" using si Cr_set0 by (auto simp: set_inv_def)
  show ?thesis
  proof (cases "semctl_setval i 0 initval (kernel \<sigma>)")
    case (Inl e)
    then show ?thesis using st Cr_set0 exits [of Err_sys] by (simp add: err_sys_def)
  next
    case (Inr k')
    let ?s = "s\<lparr>vals := (vals s)[0 := initval], adj := (\<lambda>p. (adj s p)(0 := 0))\<rparr>"
    have k': "k' = (kernel \<sigma>)\<lparr>sem_sets := (sem_sets (kernel \<sigma>))(i \<mapsto> ?s)\<rparr>"
      using Inr s by (auto simp: semctl_setval_def split: if_splits)
    have "set_inv ((pcs \<sigma>)(p := Cr_set1 i)) i ?s"
      by (rule set_inv_move [OF si P(1) D(5) P(2)])
         (use b(1) zero alone Cr_set0 set_inv_holder [OF si, of p] set_inv_bounds(4) [OF si P(1) D(5) P(2)] in
           \<open>auto simp: BIGCOUNT_def\<close>)
    then show ?thesis
      using sem_inv_semop [OF inv p P s, of "Cr_set1 i" ?s k'] st Cr_set0 Inr k' alone by simp
  qed
qed

lemma sem_inv_step_create_Cr_set1:
  assumes inv: "sem_inv P \<sigma>" and p: "p \<in> P" and P: "finite P" "int (card P) < BIGCOUNT"
    and st: "sem_create ky initval p (pcs \<sigma> p) (kernel \<sigma>) = (pc, k)"
    and Cr_set1: "pcs \<sigma> p = Cr_set1 i"
  shows "sem_inv P \<lparr>pcs = (pcs \<sigma>)(p := pc), kernel = k\<rparr>"
proof -
  note idle = sem_inv_idle [OF inv p _ _ refl]
  note exits = sem_inv_exit [OF inv p _ P]
  note D = sem_invD [OF inv]
  note Cr_set1
  then obtain s where s: "sem_sets (kernel \<sigma>) i = Some s" using D(4) [of p i] by auto
  note si = D(1) [OF s(1)] and b = set_inv_bounds [OF D(1) [OF s(1)] P(1) D(5) P(2)]
  have alone: "\<forall>q. q \<noteq> p \<longrightarrow> \<not> holds_lock (pcs \<sigma> q) i" using D(3) [of p i] Cr_set1 by auto
  have zero: "vals s ! 1 = 0" using si Cr_set1 by (auto simp: set_inv_def)
  then have "\<not> counted (pcs \<sigma> q) i" for q using set_inv_bounds(4) [OF si P(1) D(5) P(2)] by blast
  then have clean: "adj s q 1 = 0" for q using si by (simp add: set_inv_def)
  show ?thesis
  proof (cases "semctl_setval i 1 BIGCOUNT (kernel \<sigma>)")
    case (Inl e)
    then show ?thesis using st Cr_set1 exits [of Err_sys] by (simp add: err_sys_def)
  next
    case (Inr k')
    let ?s = "s\<lparr>vals := (vals s)[1 := BIGCOUNT], adj := (\<lambda>p. (adj s p)(1 := 0))\<rparr>"
    have k': "k' = (kernel \<sigma>)\<lparr>sem_sets := (sem_sets (kernel \<sigma>))(i \<mapsto> ?s)\<rparr>"
      using Inr s by (auto simp: semctl_setval_def split: if_splits)
    have "set_inv ((pcs \<sigma>)(p := Cr_end i)) i ?s"
      by (rule set_inv_move [OF si P(1) D(5) P(2)])
         (use b(1) zero clean alone Cr_set1 set_inv_holder [OF si, of p] set_inv_bounds(4) [OF si P(1) D(5) P(2)] in
           \<open>auto simp: BIGCOUNT_def\<close>)
    then show ?thesis
      using sem_inv_semop [OF inv p P s, of "Cr_end i" ?s k'] st Cr_set1 Inr k' alone by simp
  qed
qed

lemma sem_inv_step_create_Cr_end:
  assumes inv: "sem_inv P \<sigma>" and p: "p \<in> P" and P: "finite P" "int (card P) < BIGCOUNT"
    and st: "sem_create ky initval p (pcs \<sigma> p) (kernel \<sigma>) = (pc, k)"
    and Cr_end: "pcs \<sigma> p = Cr_end i"
  shows "sem_inv P \<lparr>pcs = (pcs \<sigma>)(p := pc), kernel = k\<rparr>"
proof -
  note idle = sem_inv_idle [OF inv p _ _ refl]
  note exits = sem_inv_exit [OF inv p _ P]
  note D = sem_invD [OF inv]
  note Cr_end
  then obtain s where s: "sem_sets (kernel \<sigma>) i = Some s" using D(4) [of p i] by auto
  note si = D(1) [OF s(1)] and b = set_inv_bounds [OF D(1) [OF s(1)] P(1) D(5) P(2)]
  have alone: "\<forall>q. q \<noteq> p \<longrightarrow> \<not> holds_lock (pcs \<sigma> q) i" using D(3) [of p i] Cr_end by auto
  have "vals s ! 1 \<noteq> 0" using si Cr_end by (auto simp: set_inv_def)
  then have v: "vals s ! 1 \<noteq> 0" "vals s ! 2 = 1" using set_inv_holder(1) [OF si, of p] Cr_end by simp_all
  let ?s = "s\<lparr>vals := (vals s)[1 := vals s ! 1 - 1, 2 := 0],
          adj := (adj s)(p := (adj s p)(1 := adj s p 1 + 1, 2 := adj s p 2 + 1))\<rparr>"
  have ap: "sem_apply p op_endcreate s = Done ?s"
    by (rule sem_apply_endcreate) (use b v in auto)
  have "set_inv ((pcs \<sigma>)(p := In_use i)) i ?s"
    by (rule set_inv_move [OF si P(1) D(5) P(2)])
       (use b(1) v alone Cr_end set_inv_holder [OF si, of p] in auto)
  then show ?thesis
    using sem_inv_semop [OF inv p P s, of "In_use i" ?s k] st Cr_end s ap by (simp add: semop_def)
qed

lemma sem_inv_step_create:
  assumes inv: "sem_inv P \<sigma>" and p: "p \<in> P" and P: "finite P" "int (card P) < BIGCOUNT"
    and st: "sem_create ky initval p (pcs \<sigma> p) (kernel \<sigma>) = (pc, k)"
  shows "sem_inv P \<lparr>pcs = (pcs \<sigma>)(p := pc), kernel = k\<rparr>"
proof -
  note idle = sem_inv_idle [OF inv p _ _ refl]
  note exits = sem_inv_exit [OF inv p _ P]
  note D = sem_invD [OF inv]
  show ?thesis
  proof (cases "pcs \<sigma> p")
    case Cr_get
    then show ?thesis by (rule sem_inv_step_create_Cr_get [OF assms])
  next
    case (Cr_lock i asleep)
    then show ?thesis by (rule sem_inv_step_create_Cr_lock [OF assms])
  next
    case (Cr_getval i)
    then show ?thesis by (rule sem_inv_step_create_Cr_getval [OF assms])
  next
    case (Cr_set0 i)
    then show ?thesis by (rule sem_inv_step_create_Cr_set0 [OF assms])
  next
    case (Cr_set1 i)
    then show ?thesis by (rule sem_inv_step_create_Cr_set1 [OF assms])
  next
    case (Cr_end i)
    then show ?thesis by (rule sem_inv_step_create_Cr_end [OF assms])
  qed (use st inv in \<open>auto simp: fun_upd_idem\<close>)
qed

lemma sem_inv_step_close_Cl_op:
  assumes inv: "sem_inv P \<sigma>" and p: "p \<in> P" and P: "finite P" "int (card P) < BIGCOUNT"
    and st: "sem_close p (pcs \<sigma> p) (kernel \<sigma>) = (pc, k)"
    and Cl_op: "pcs \<sigma> p = Cl_op i"
  shows "sem_inv P \<lparr>pcs = (pcs \<sigma>)(p := pc), kernel = k\<rparr> \<and> pc \<noteq> Err_dump \<or> pc = pcs \<sigma> p \<and> k = kernel \<sigma>"
proof -
  note exits = sem_inv_exit [OF inv p _ P]
  note D = sem_invD [OF inv]
  have old: "sem_inv P \<lparr>pcs = (pcs \<sigma>)(p := pcs \<sigma> p), kernel = kernel \<sigma>\<rparr>" using inv by (simp add: fun_upd_idem)
  note Cl_op
  then obtain s where s: "sem_sets (kernel \<sigma>) i = Some s" using D(4) [of p i] by auto
  note si = D(1) [OF s(1)] and b = set_inv_bounds [OF D(1) [OF s(1)] P(1) D(5) P(2)]
  have nz: "vals s ! 1 \<noteq> 0" using set_inv_bounds(4) [OF si P(1) D(5) P(2), of p] Cl_op by auto
  show ?thesis
  proof (cases "vals s ! 2 = 0")
    case True
    let ?s = "s\<lparr>vals := (vals s)[2 := 1, 1 := vals s ! 1 + 1],
                adj := (adj s)(p := (adj s p)(2 := adj s p 2 - 1, 1 := adj s p 1 - 1))\<rparr>"
    have ap: "sem_apply p op_close s = Done ?s"
      using sem_apply_close [OF b(1-3), of p] True by simp
    have nolock: "\<forall>q. \<not> holds_lock (pcs \<sigma> q) i" using True b(6) by simp
    have "set_inv ((pcs \<sigma>)(p := Cl_getval i)) i ?s"
      by (rule set_inv_move [OF si P(1) D(5) P(2)])
         (use b(1) nz nolock Cl_op si in \<open>auto simp: set_inv_def\<close>)
    then show ?thesis
      using sem_inv_semop [OF inv p P s, of "Cl_getval i" ?s k] st Cl_op s ap nolock
      by (auto simp: semop_def)
  next
    case False
    then have "sem_apply p op_close s = Sleep" using sem_apply_close [OF b(1-3), of p] by simp
    then show ?thesis using st Cl_op s by (simp add: semop_def)
  qed
qed

lemma sem_inv_step_close_Cl_getval:
  assumes inv: "sem_inv P \<sigma>" and p: "p \<in> P" and P: "finite P" "int (card P) < BIGCOUNT"
    and st: "sem_close p (pcs \<sigma> p) (kernel \<sigma>) = (pc, k)"
    and Cl_getval: "pcs \<sigma> p = Cl_getval i"
  shows "sem_inv P \<lparr>pcs = (pcs \<sigma>)(p := pc), kernel = k\<rparr> \<and> pc \<noteq> Err_dump \<or> pc = pcs \<sigma> p \<and> k = kernel \<sigma>"
proof -
  note exits = sem_inv_exit [OF inv p _ P]
  note D = sem_invD [OF inv]
  have old: "sem_inv P \<lparr>pcs = (pcs \<sigma>)(p := pcs \<sigma> p), kernel = kernel \<sigma>\<rparr>" using inv by (simp add: fun_upd_idem)
  note Cl_getval
  then obtain s where s: "sem_sets (kernel \<sigma>) i = Some s" using D(4) [of p i] by auto
  note si = D(1) [OF s(1)] and b = set_inv_bounds [OF D(1) [OF s(1)] P(1) D(5) P(2)]
  have alone: "\<forall>q. q \<noteq> p \<longrightarrow> \<not> holds_lock (pcs \<sigma> q) i" using D(3) [of p i] Cl_getval by auto
  have pc: "pc = (if vals s ! 1 = BIGCOUNT then Cl_rm i else Cl_unlock i)" "k = kernel \<sigma>"
    using st Cl_getval s b(3) by (auto simp: semctl_getval_def split: if_splits)
  have "set_inv ((pcs \<sigma>)(p := pc)) i s"
    by (rule set_inv_move [OF si P(1) D(5) P(2)])
       (use b(1) pc alone Cl_getval set_inv_holder [OF si, of p] in \<open>auto split: if_splits\<close>)
  then show ?thesis
    using sem_inv_semop [OF inv p P s, of pc s k] pc Cl_getval s alone by (auto simp: fun_upd_idem)
qed

lemma sem_inv_step_close_Cl_unlock:
  assumes inv: "sem_inv P \<sigma>" and p: "p \<in> P" and P: "finite P" "int (card P) < BIGCOUNT"
    and st: "sem_close p (pcs \<sigma> p) (kernel \<sigma>) = (pc, k)"
    and Cl_unlock: "pcs \<sigma> p = Cl_unlock i"
  shows "sem_inv P \<lparr>pcs = (pcs \<sigma>)(p := pc), kernel = k\<rparr> \<and> pc \<noteq> Err_dump \<or> pc = pcs \<sigma> p \<and> k = kernel \<sigma>"
proof -
  note exits = sem_inv_exit [OF inv p _ P]
  note D = sem_invD [OF inv]
  have old: "sem_inv P \<lparr>pcs = (pcs \<sigma>)(p := pcs \<sigma> p), kernel = kernel \<sigma>\<rparr>" using inv by (simp add: fun_upd_idem)
  note Cl_unlock
  then obtain s where s: "sem_sets (kernel \<sigma>) i = Some s" using D(4) [of p i] by auto
  note si = D(1) [OF s(1)] and b = set_inv_bounds [OF D(1) [OF s(1)] P(1) D(5) P(2)]
  have alone: "\<forall>q. q \<noteq> p \<longrightarrow> \<not> holds_lock (pcs \<sigma> q) i" using D(3) [of p i] Cl_unlock by auto
  have l: "vals s ! 2 = 1" using set_inv_holder(1) [OF si, of p] Cl_unlock by simp
  let ?s = "s\<lparr>vals := (vals s)[2 := 0], adj := (adj s)(p := (adj s p)(2 := adj s p 2 + 1))\<rparr>"
  have ap: "sem_apply p op_unlock s = Done ?s" by (rule sem_apply_unlock) (use b l in auto)
  have "set_inv ((pcs \<sigma>)(p := Closed)) i ?s"
    by (rule set_inv_move [OF si P(1) D(5) P(2)])
       (use b(1) l alone Cl_unlock set_inv_holder [OF si, of p] in auto)
  then show ?thesis
    using sem_inv_update [OF inv p, of i Closed k ?s] D(2) [OF s] st Cl_unlock s ap by (auto simp: semop_def)
qed

lemma sem_inv_step_close:
  assumes inv: "sem_inv P \<sigma>" and p: "p \<in> P" and P: "finite P" "int (card P) < BIGCOUNT"
    and st: "sem_close p (pcs \<sigma> p) (kernel \<sigma>) = (pc, k)"
  shows "sem_inv P \<lparr>pcs = (pcs \<sigma>)(p := pc), kernel = k\<rparr> \<and> pc \<noteq> Err_dump \<or> pc = pcs \<sigma> p \<and> k = kernel \<sigma>"
proof -
  note exits = sem_inv_exit [OF inv p _ P]
  note D = sem_invD [OF inv]
  have old: "sem_inv P \<lparr>pcs = (pcs \<sigma>)(p := pcs \<sigma> p), kernel = kernel \<sigma>\<rparr>" using inv by (simp add: fun_upd_idem)
  show ?thesis
  proof (cases "pcs \<sigma> p")
    case (Cl_op i)
    then show ?thesis by (rule sem_inv_step_close_Cl_op [OF assms])
  next
    case (Cl_getval i)
    then show ?thesis by (rule sem_inv_step_close_Cl_getval [OF assms])
  next
    case (Cl_rm i)
    then obtain s where s: "sem_sets (kernel \<sigma>) i = Some s" using D(4) [of p i] by auto
    then obtain k' where k': "semctl_rmid i (kernel \<sigma>) = Inr k'" by (simp add: semctl_rmid_def)
    show ?thesis
      using sem_inv_rmid [OF inv p Cl_rm P k'] st Cl_rm k' by (simp add: sem_rm_def)
  next
    case (Cl_unlock i)
    then show ?thesis by (rule sem_inv_step_close_Cl_unlock [OF assms])
  qed (use st old in auto)
qed

lemma sem_inv_op:
  assumes inv: "sem_inv P \<sigma>" and p: "p \<in> P" and P: "finite P" "int (card P) < BIGCOUNT"
    and u: "pcs \<sigma> p = In_use i" and st: "sem_op p i v (kernel \<sigma>) = Done k"
  shows "sem_inv P (\<sigma>\<lparr>kernel := k\<rparr>)"
proof -
  note D = sem_invD [OF inv]
  obtain s s' where s: "sem_sets (kernel \<sigma>) i = Some s" "sem_apply p (op_op v) s = Done s'"
      "k = (kernel \<sigma>)\<lparr>sem_sets := (sem_sets (kernel \<sigma>))(i \<mapsto> s')\<rparr>"
    using st by (auto simp: sem_op_def kernel_simps split: if_splits)
  note si = D(1) [OF s(1)]
  note o = sem_apply_op [OF s(2) set_inv_bounds(1) [OF si P(1) D(5) P(2)]]
  have "set_inv ((pcs \<sigma>)(p := In_use i)) i s'"
    using si o u by (simp add: set_inv_def fun_upd_idem)
  then have "sem_inv P \<lparr>pcs = (pcs \<sigma>)(p := In_use i), kernel = k\<rparr>"
    using sem_inv_semop [OF inv p P s(1), of "In_use i" s' k] u s(3) by simp
  then show ?thesis using u by (simp add: fun_upd_idem)
qed

lemma sem_inv_leave:
  assumes inv: "sem_inv P \<sigma>" and p: "p \<in> P" and u: "pcs \<sigma> p = In_use i"
  shows "sem_inv P (\<sigma>\<lparr>pcs := (pcs \<sigma>)(p := Cl_op i)\<rparr>)"
proof -
  have h: "holds_lock (((pcs \<sigma>)(p := Cl_op i)) q) j = holds_lock (pcs \<sigma> q) j" for q j using u by auto
  have c: "counted (((pcs \<sigma>)(p := Cl_op i)) q) j = counted (pcs \<sigma> q) j" for q j using u by auto
  have x: "((pcs \<sigma>)(p := Cl_op i)) q = pc \<longleftrightarrow> pcs \<sigma> q = pc"
    if "holds_lock pc j" for q j pc using u that by (cases pc) auto
  have "set_inv ((pcs \<sigma>)(p := Cl_op i)) j s = set_inv (pcs \<sigma>) j s" for j s
    unfolding set_inv_def h c using x [of _ j] by simp
  then show ?thesis using inv p sem_invD(4) [OF inv, of p i] u unfolding sem_inv_def by (simp add: h c)
qed

lemma sem_reach_inv:
  assumes "finite P" "int (card P) < BIGCOUNT" "sem_reach ky initval P \<sigma>"
  shows "sem_inv P \<sigma>"
  using assms(3)
proof induction
  case start
  then show ?case by (auto simp: sem_inv_def)
next
  case (step \<sigma> \<sigma>')
  from step.hyps(2) show ?case
  proof cases
    case (create p pc k)
    then show ?thesis using sem_inv_step_create [OF step.IH _ assms(1,2)] by simp
  next
    case (close p pc k)
    then show ?thesis
      using sem_inv_step_close [OF step.IH close(2) assms(1,2) close(3)] step.IH by (auto simp: fun_upd_idem)
  next
    case (use p i v k)
    then show ?thesis using sem_inv_op [OF step.IH _ assms(1,2)] by simp
  next
    case (leave p i)
    then show ?thesis using sem_inv_leave [OF step.IH] by simp
  next
    case (exit p)
    then show ?thesis using sem_inv_exit [OF step.IH _ _ assms(1,2)] by simp
  qed
qed

section \<open>Properties\<close>

text \<open>Moves of one process, for runs in witnesses.\<close>

definition create_move :: "pid \<Rightarrow> sem_sys \<Rightarrow> sem_sys" where
  "create_move p \<sigma> = (case sem_create 23456 1 p (pcs \<sigma> p) (kernel \<sigma>) of (pc, k) \<Rightarrow> \<lparr>pcs = (pcs \<sigma>)(p := pc), kernel = k\<rparr>)"

definition close_move :: "pid \<Rightarrow> sem_sys \<Rightarrow> sem_sys" where
  "close_move p \<sigma> = (case sem_close p (pcs \<sigma> p) (kernel \<sigma>) of (pc, k) \<Rightarrow> \<lparr>pcs = (pcs \<sigma>)(p := pc), kernel = k\<rparr>)"

lemma create_reach: "sem_reach 23456 1 P \<sigma> \<Longrightarrow> p \<in> P \<Longrightarrow> sem_reach 23456 1 P (create_move p \<sigma>)"
  by (cases "sem_create 23456 1 p (pcs \<sigma> p) (kernel \<sigma>)") (simp add: create_move_def sem_reach.step sem_step.create)

lemma close_reach: "sem_reach 23456 1 P \<sigma> \<Longrightarrow> p \<in> P \<Longrightarrow> sem_reach 23456 1 P (close_move p \<sigma>)"
  by (cases "sem_close p (pcs \<sigma> p) (kernel \<sigma>)") (simp add: close_move_def sem_reach.step sem_step.close)

lemma leave_reach: "sem_reach 23456 1 P \<sigma> \<Longrightarrow> p \<in> P \<Longrightarrow> pcs \<sigma> p = In_use i \<Longrightarrow>
    sem_reach 23456 1 P (\<sigma>\<lparr>pcs := (pcs \<sigma>)(p := Cl_op i)\<rparr>)"
  by (rule sem_reach.step [OF _ sem_step.leave])

lemmas demo_moves = create_move_def close_move_def semget_def semop_def op_lock_def op_endcreate_def op_close_def op_unlock_def sop_def
  semctl_getval_def semctl_setval_def SEMVMX_def BIGCOUNT_def

text \<open>Two processes create the semaphore and use it; then one of them closes it, and then the other.\<close>

definition demo_start :: sem_sys where
  "demo_start = \<lparr>pcs = (\<lambda>_. Cr_get), kernel = \<lparr>sem_ids = (\<lambda>_. None), sem_sets = (\<lambda>_. None), next_semid = 0\<rparr>\<rparr>"

definition demo_both :: sem_sys where
  "demo_both = (create_move 1 ^^ 4) ((create_move 0 ^^ 6) demo_start)"

definition demo_last :: sem_sys where
  "demo_last = (close_move 0 ^^ 2) ((\<lambda>\<sigma>. \<sigma>\<lparr>pcs := (pcs \<sigma>)(0 := Cl_op 0)\<rparr>)
     ((close_move 1 ^^ 3) ((\<lambda>\<sigma>. \<sigma>\<lparr>pcs := (pcs \<sigma>)(1 := Cl_op 0)\<rparr>) demo_both)))"

lemma demo_both_value:
  "pcs demo_both 0 = In_use 0" "pcs demo_both 1 = In_use 0" "q \<noteq> 0 \<Longrightarrow> q \<noteq> 1 \<Longrightarrow> pcs demo_both q = Cr_get"
  "\<exists>s. sem_sets (kernel demo_both) 0 = Some s \<and> vals s = [1, 9998, 0]"
  by (simp_all add: demo_both_def demo_start_def demo_moves numeral_eq_Suc)

lemma demo_both_reach: "sem_reach 23456 1 {0, 1} demo_both"
proof -
  have c: "sem_reach 23456 1 {0, 1} \<sigma> \<Longrightarrow> p \<in> {0, 1} \<Longrightarrow> sem_reach 23456 1 {0, 1} ((create_move p ^^ n) \<sigma>)" for p n \<sigma>
    by (induction n) (simp_all add: create_reach del: insert_iff)
  show ?thesis unfolding demo_both_def demo_start_def by (intro c sem_reach.start) simp_all
qed

lemma demo_last_reach: "sem_reach 23456 1 {0, 1} demo_last" and demo_last_value: "pcs demo_last 0 = Cl_rm 0"
proof -
  have c: "sem_reach 23456 1 {0, 1} \<sigma> \<Longrightarrow> p \<in> {0, 1} \<Longrightarrow> sem_reach 23456 1 {0, 1} ((close_move p ^^ n) \<sigma>)" for p n \<sigma>
    by (induction n) (simp_all add: close_reach del: insert_iff)
  let ?\<tau> = "(close_move 1 ^^ 3) (demo_both\<lparr>pcs := (pcs demo_both)(1 := Cl_op 0)\<rparr>)"
  have "sem_reach 23456 1 {0, 1} ?\<tau>"
    using demo_both_value(2) by (intro c leave_reach [OF demo_both_reach]) simp_all
  moreover have "pcs ?\<tau> 0 = In_use 0"
    by (simp add: demo_both_def demo_start_def demo_moves numeral_eq_Suc)
  ultimately have "sem_reach 23456 1 {0, 1} (?\<tau>\<lparr>pcs := (pcs ?\<tau>)(0 := Cl_op 0)\<rparr>)"
    by (intro leave_reach [of _ ?\<tau>]) simp_all
  then show "sem_reach 23456 1 {0, 1} demo_last"
    unfolding demo_last_def by (intro c) simp_all
  show "pcs demo_last 0 = Cl_rm 0"
    by (simp add: demo_last_def demo_both_def demo_start_def demo_moves numeral_eq_Suc)
qed

text \<open>C5: with fewer than \<open>BIGCOUNT\<close> processes that create, use and close the semaphore, in any
  interleaving and with any process dying at any point: the set of a process that uses the
  semaphore exists, is initialised, and its counter is \<open>BIGCOUNT\<close> less the number of users;
  so \<open>sem_close\<close> removes the set only when nobody uses it and its \<open>err_dump\<close> is never reached.\<close>
theorem semaphore_counts_its_users:
  assumes "finite P" "int (card P) < BIGCOUNT" "sem_reach ky initval P \<sigma>"
  shows "(pcs \<sigma> p = In_use i \<longrightarrow>
            (\<exists>s. sem_sets (kernel \<sigma>) i = Some s \<and>
                 vals s ! 1 = BIGCOUNT - int (card {q. pcs \<sigma> q = In_use i \<or> pcs \<sigma> q = Cl_op i}))) \<and>
         (pcs \<sigma> p = Cl_rm i \<longrightarrow> (\<forall>q. pcs \<sigma> q \<noteq> In_use i \<and> pcs \<sigma> q \<noteq> Cl_op i)) \<and>
         (pcs \<sigma> p \<noteq> Err_dump \<longrightarrow> fst (sem_close p (pcs \<sigma> p) (kernel \<sigma>)) \<noteq> Err_dump)"
proof -
  note inv = sem_reach_inv [OF assms]
  note D = sem_invD [OF inv]
  have set: "counted pc i \<longleftrightarrow> pc = In_use i \<or> pc = Cl_op i" for pc by (cases pc) auto
  have use: "\<exists>s. sem_sets (kernel \<sigma>) i = Some s \<and>
      vals s ! 1 = BIGCOUNT - int (card {q. counted (pcs \<sigma> q) i})" if u: "pcs \<sigma> p = In_use i"
  proof -
    obtain s where s: "sem_sets (kernel \<sigma>) i = Some s" using D(4) [of p i] u by auto
    note b = set_inv_bounds [OF D(1) [OF s] assms(1) D(5) assms(2)]
    have "vals s ! 1 \<noteq> 0" using set_inv_bounds(4) [OF D(1) [OF s] assms(1) D(5) assms(2), of p] u by auto
    with s b(5) show ?thesis by blast
  qed
  have rm: "\<not> counted (pcs \<sigma> q) i" if u: "pcs \<sigma> p = Cl_rm i" for q
  proof -
    obtain s where s: "sem_sets (kernel \<sigma>) i = Some s" using D(4) [of p i] u by auto
    note b = set_inv_bounds [OF D(1) [OF s] assms(1) D(5) assms(2)]
    have "vals s ! 1 = BIGCOUNT" using D(1) [OF s] u by (auto simp: set_inv_def)
    then show ?thesis
      using b(5) finite_counted [OF assms(1) D(5), of i] by (auto simp: BIGCOUNT_def)
  qed
  have dump: "fst (sem_close p (pcs \<sigma> p) (kernel \<sigma>)) \<noteq> Err_dump" if "pcs \<sigma> p \<noteq> Err_dump"
  proof (cases "p \<in> P")
    case True
    then show ?thesis
      using sem_inv_step_close [OF inv True assms(1,2), of "fst (sem_close p (pcs \<sigma> p) (kernel \<sigma>))"
          "snd (sem_close p (pcs \<sigma> p) (kernel \<sigma>))"] that by auto
  next
    case False
    then show ?thesis using D(5) by simp
  qed
  show ?thesis using use rm dump unfolding set by blast
qed

text \<open>Both use it: the counter is two less than \<open>BIGCOUNT\<close>; the last one closes it: nobody uses it, and it is removed.\<close>

theorem semaphore_counts_its_users_witness:
  "(pcs demo_both 0 = In_use 0 \<and>
      (\<exists>s. sem_sets (kernel demo_both) 0 = Some s \<and>
           vals s ! 1 = BIGCOUNT - int (card {q. pcs demo_both q = In_use 0 \<or> pcs demo_both q = Cl_op 0}))) \<and>
   (pcs demo_last 0 = Cl_rm 0 \<and> (\<forall>q. pcs demo_last q \<noteq> In_use 0 \<and> pcs demo_last q \<noteq> Cl_op 0)) \<and>
   fst (sem_close 0 (pcs demo_last 0) (kernel demo_last)) \<noteq> Err_dump"
proof -
  note c = semaphore_counts_its_users [of "{0, 1}" 23456 1 _ 0 0]
  have "int (card {0 :: nat, 1}) < BIGCOUNT" by (simp add: BIGCOUNT_def)
  then show ?thesis
    using c [OF _ _ demo_both_reach] c [OF _ _ demo_last_reach] demo_both_value(1) demo_last_value by simp
qed

text \<open>C1: the lock member works: at most one process is between the \<open>op_lock\<close> of \<open>sem_create\<close> or
  the \<open>op_close\<close> of \<open>sem_close\<close> and the release; the member of an existing set is 1 while a process is there and 0 while none is,
  so every release gives it back; the set a holder works on exists; and the death of the holder leaves the member 0.\<close>
theorem semaphore_lock_excludes:
  assumes "finite P" "int (card P) < BIGCOUNT" "sem_reach ky initval P \<sigma>"
  shows "(\<forall>p q. holds_lock (pcs \<sigma> p) i \<longrightarrow> holds_lock (pcs \<sigma> q) i \<longrightarrow> q = p) \<and>
         (\<forall>s. sem_sets (kernel \<sigma>) i = Some s \<longrightarrow> vals s ! 2 = (if \<exists>p. holds_lock (pcs \<sigma> p) i then 1 else 0)) \<and>
         (\<forall>p. holds_lock (pcs \<sigma> p) i \<longrightarrow> sem_sets (kernel \<sigma>) i \<noteq> None \<and>
            (\<exists>s. sem_sets (sem_exit p (kernel \<sigma>)) i = Some s \<and> vals s ! 2 = 0))"
proof -
  note D = sem_invD [OF sem_reach_inv [OF assms(1-3)]]
  have "vals s ! 2 = (if \<exists>p. holds_lock (pcs \<sigma> p) i then 1 else 0)" if "sem_sets (kernel \<sigma>) i = Some s" for s
    using D(1) [OF that] by (simp add: set_inv_def)
  moreover have "sem_sets (kernel \<sigma>) i \<noteq> None \<and> (\<exists>s. sem_sets (sem_exit p (kernel \<sigma>)) i = Some s \<and> vals s ! 2 = 0)"
    if p: "holds_lock (pcs \<sigma> p) i" for p
  proof -
    obtain s where s: "sem_sets (kernel \<sigma>) i = Some s" using D(4) [of p i] p by auto
    note h = set_inv_holder [OF D(1) [OF s], of p, OF p]
    have "length (vals s) = 3" using D(1) [OF s] by (simp add: set_inv_def)
    then have "vals (set_exit p s) ! 2 = 0" using h by (simp add: set_exit_def numeral_2_eq_2)
    then show ?thesis using s by (simp add: sem_exit_def)
  qed
  moreover have "\<forall>p q. holds_lock (pcs \<sigma> p) i \<longrightarrow> holds_lock (pcs \<sigma> q) i \<longrightarrow> q = p" using D(3) by blast
  ultimately show ?thesis by blast
qed

theorem semaphore_lock_excludes_witness:
  "\<exists>\<sigma>. sem_reach 23456 1 {0} \<sigma> \<and> pcs \<sigma> 0 = Cr_getval 0 \<and>
     (\<exists>s. sem_sets (kernel \<sigma>) 0 = Some s \<and> vals s ! 2 = 1) \<and>
     (\<exists>s. sem_sets (sem_exit 0 (kernel \<sigma>)) 0 = Some s \<and> vals s ! 2 = 0)"
proof -
  let ?\<sigma>0 = "\<lparr>pcs = (\<lambda>_. Cr_get), kernel = \<lparr>sem_ids = (\<lambda>_. None), sem_sets = (\<lambda>_. None), next_semid = 0\<rparr>\<rparr> :: sem_sys"
  let ?\<sigma> = "create_move 0 (create_move 0 ?\<sigma>0)"
  have r: "sem_reach 23456 1 {0} ?\<sigma>"
    by (intro create_reach sem_reach.start) auto
  have pc: "pcs ?\<sigma> 0 = Cr_getval 0"
    by (simp add: demo_moves)
  then have "holds_lock (pcs ?\<sigma> 0) 0" by simp
  note c = semaphore_lock_excludes [of "{0}" 23456 1 ?\<sigma> 0, OF _ _ r]
  have "sem_sets (kernel ?\<sigma>) 0 \<noteq> None" "\<exists>s. sem_sets (sem_exit 0 (kernel ?\<sigma>)) 0 = Some s \<and> vals s ! 2 = 0"
    using c \<open>holds_lock (pcs ?\<sigma> 0) 0\<close> by (simp_all add: BIGCOUNT_def)
  moreover have "\<forall>s. sem_sets (kernel ?\<sigma>) 0 = Some s \<longrightarrow> vals s ! 2 = 1"
    using c \<open>holds_lock (pcs ?\<sigma> 0) 0\<close> by (auto simp: BIGCOUNT_def)
  ultimately show ?thesis using r pc by (intro exI [of _ ?\<sigma>]) auto
qed

text \<open>C36: \<open>sem_open\<close> takes no lock, so it can be overtaken: a process that counts itself in between
  the last closer's reading of the counter and its removal of the set is left with an identifier
  of a set that no longer exists.\<close>
theorem sem_open_race:
  fixes k0 :: sem_kernel
  defines "s0 \<equiv> \<lparr>vals = [1, BIGCOUNT - 1, 0], adj = (\<lambda>p n. if p = 0 \<and> n = 1 then 1 else 0)\<rparr>"
  assumes k0: "sem_ids k0 ky = Some i" "sem_sets k0 i = Some s0" "ky \<noteq> 0" "ky \<noteq> - 1"
  shows "\<exists>k1 k2 k3.
     sem_open ky 1 Op_get k0 = (Op_dec i, k0) \<and>
     sem_close 0 (Cl_op i) k0 = (Cl_getval i, k1) \<and> sem_close 0 (Cl_getval i) k1 = (Cl_rm i, k1) \<and>
     sem_open ky 1 (Op_dec i) k1 = (In_use i, k2) \<and>
     sem_close 0 (Cl_rm i) k2 = (Closed, k3) \<and> sem_wait 1 i k3 = Fail EINVAL"
  using k0(3,4)
  by (simp add: k0 s0_def semget_def semop_def op_close_def op_open_def sop_def SEMVMX_def BIGCOUNT_def
      semctl_getval_def sem_rm_def semctl_rmid_def sem_wait_def sem_op_def)

theorem sem_open_race_witness:
  "\<exists>k. sem_open 7 1 Op_get k = (Op_dec 0, k)"
  using sem_open_race [of "\<lparr>sem_ids = [7 \<mapsto> 0], sem_sets = [0 \<mapsto>
      \<lparr>vals = [1, BIGCOUNT - 1, 0], adj = (\<lambda>p n. if p = 0 \<and> n = 1 then 1 else 0)\<rparr>], next_semid = 1\<rparr>" 7 0]
  by auto

end
