(* ===== verification/Record_Lock.thy ===== *)
theory Record_Lock
  imports C_Library SysV_Sem
begin

text \<open>
  The sequence-number program of chapter 3 (\<open>1_file_record_locking/file_record.c\<close> and, with the
  semaphore in place of the lock, \<open>9_semaphores/main.c\<close>): several processes increment a number
  kept in a file, twenty times each, under a lock.  The lock is an interface, \<open>lock_scheme\<close>:
  acquiring it may take several system calls and may be tried again for ever, releasing it is one
  call.  The theorem that no increment is lost is proved once, for every scheme.
\<close>

section \<open>The program\<close>

type_synonym pid = SysV_Sem.pid

datatype 'l lock_result = Again 'l | Acquired 'l | Lock_error

datatype 'l rec_pc =
    Trying nat 'l            \<comment> \<open>in the lock routine, in round \<open>i\<close>\<close>
  | Reading nat 'l           \<comment> \<open>rewind, \<open>read\<close>, \<open>sscanf\<close>\<close>
  | Writing nat 'l int       \<comment> \<open>rewind, \<open>write\<close>, with the incremented number\<close>
  | Unlocking nat 'l
  | Finished
  | Died                     \<comment> \<open>\<open>err_sys\<close>\<close>

record ('k, 'l) rec_sys =
  rpcs :: "pid \<Rightarrow> 'l rec_pc"
  lockk :: 'k
  seqfile :: "byte list"

definition seq_text :: "int \<Rightarrow> byte list" where
  "seq_text seqno = show_03d seqno @ [NL]"

text \<open>One system call of the process \<open>p\<close>, with the computation up to the next.\<close>

definition file_record ::
  "(pid \<Rightarrow> 'l \<Rightarrow> 'k \<Rightarrow> 'l lock_result \<times> 'k) \<Rightarrow> (pid \<Rightarrow> 'l \<Rightarrow> 'k \<Rightarrow> 'l option \<times> 'k) \<Rightarrow> pid \<Rightarrow>
    ('k, 'l) rec_sys \<Rightarrow> ('k, 'l) rec_sys"
where
  "file_record lock unlock p \<sigma> =
     (case rpcs \<sigma> p of
        Trying i l \<Rightarrow>
          (case lock p l (lockk \<sigma>) of
             (Again l, k) \<Rightarrow> \<sigma>\<lparr>rpcs := (rpcs \<sigma>)(p := Trying i l), lockk := k\<rparr>
           | (Acquired l, k) \<Rightarrow> \<sigma>\<lparr>rpcs := (rpcs \<sigma>)(p := Reading i l), lockk := k\<rparr>
           | (Lock_error, k) \<Rightarrow> \<sigma>\<lparr>rpcs := (rpcs \<sigma>)(p := Died), lockk := k\<rparr>)
      | Reading i l \<Rightarrow>
          (let buff = take 100 (seqfile \<sigma>)
           in if buff = [] then \<sigma>\<lparr>rpcs := (rpcs \<sigma>)(p := Died)\<rparr>
              else (case scan_d (cstr buff) of
                      None \<Rightarrow> \<sigma>\<lparr>rpcs := (rpcs \<sigma>)(p := Died)\<rparr>
                    | Some seqno \<Rightarrow> \<sigma>\<lparr>rpcs := (rpcs \<sigma>)(p := Writing i l (seqno + 1))\<rparr>))
      | Writing i l seqno \<Rightarrow>
          (let buff = seq_text seqno
           in \<sigma>\<lparr>rpcs := (rpcs \<sigma>)(p := Unlocking i l),
                seqfile := buff @ drop (length buff) (seqfile \<sigma>)\<rparr>)
      | Unlocking i l \<Rightarrow>
          (case unlock p l (lockk \<sigma>) of
             (None, k) \<Rightarrow> \<sigma>\<lparr>rpcs := (rpcs \<sigma>)(p := Died), lockk := k\<rparr>
           | (Some l, k) \<Rightarrow>
               \<sigma>\<lparr>rpcs := (rpcs \<sigma>)(p := (if i + 1 < 20 then Trying (i + 1) l else Finished)),
                 lockk := k\<rparr>)
      | Finished \<Rightarrow> \<sigma>
      | Died \<Rightarrow> \<sigma>)"

text \<open>A schedule is the list of the processes that make the successive system calls.\<close>

definition run_record ::
  "(pid \<Rightarrow> 'l \<Rightarrow> 'k \<Rightarrow> 'l lock_result \<times> 'k) \<Rightarrow> (pid \<Rightarrow> 'l \<Rightarrow> 'k \<Rightarrow> 'l option \<times> 'k) \<Rightarrow> pid list \<Rightarrow>
    ('k, 'l) rec_sys \<Rightarrow> ('k, 'l) rec_sys"
where
  "run_record lock unlock sched \<sigma> = fold (file_record lock unlock) sched \<sigma>"

section \<open>What a lock must do\<close>

text \<open>
  \<open>idle p l k\<close> and \<open>held p l k\<close> say that the process \<open>p\<close>, outside or inside the lock, finds the
  lock's own files and records as it left them; \<open>owns l\<close> marks the points of the lock routine
  after which the lock is taken although the routine has not returned yet.
\<close>

locale lock_scheme =
  fixes lock :: "pid \<Rightarrow> 'l \<Rightarrow> 'k \<Rightarrow> 'l lock_result \<times> 'k"
    and unlock :: "pid \<Rightarrow> 'l \<Rightarrow> 'k \<Rightarrow> 'l option \<times> 'k"
    and free :: "'k \<Rightarrow> bool"
    and owns :: "'l \<Rightarrow> bool"
    and left :: "'l \<Rightarrow> nat"
    and idle :: "pid \<Rightarrow> 'l \<Rightarrow> 'k \<Rightarrow> bool"
    and held :: "pid \<Rightarrow> 'l \<Rightarrow> 'k \<Rightarrow> bool"
    and glob :: "'k \<Rightarrow> bool"
  assumes lock_again: "glob k \<Longrightarrow> idle p l k \<Longrightarrow> (owns l \<Longrightarrow> \<not> free k) \<Longrightarrow> lock p l k = (Again l', k') \<Longrightarrow>
      glob k' \<and> idle p l' k' \<and> (if owns l' \<and> \<not> owns l then free k \<and> \<not> free k' else free k' = free k \<and> owns l' = owns l)"
    and lock_progress: "glob k \<Longrightarrow> idle p l k \<Longrightarrow> (owns l \<Longrightarrow> \<not> free k) \<Longrightarrow> lock p l k = (Again l', k') \<Longrightarrow>
      free k \<or> owns l \<Longrightarrow> left l' < left l"
    and lock_acquired: "glob k \<Longrightarrow> idle p l k \<Longrightarrow> (owns l \<Longrightarrow> \<not> free k) \<Longrightarrow> lock p l k = (Acquired l', k') \<Longrightarrow>
      glob k' \<and> held p l' k' \<and> \<not> free k' \<and> (owns l \<or> free k)"
    and lock_no_error: "glob k \<Longrightarrow> idle p l k \<Longrightarrow> (owns l \<Longrightarrow> \<not> free k) \<Longrightarrow> fst (lock p l k) \<noteq> Lock_error"
    and lock_others: "glob k \<Longrightarrow> idle p l k \<Longrightarrow> (owns l \<Longrightarrow> \<not> free k) \<Longrightarrow> lock p l k = (r, k') \<Longrightarrow> q \<noteq> p \<Longrightarrow>
      (idle q m k \<longrightarrow> idle q m k') \<and> (held q m k \<longrightarrow> held q m k')"
    and unlock_ok: "glob k \<Longrightarrow> held p l k \<Longrightarrow> \<not> free k \<Longrightarrow>
      \<exists>l' k'. unlock p l k = (Some l', k') \<and> glob k' \<and> idle p l' k' \<and> free k' \<and> \<not> owns l'"
    and unlock_others: "glob k \<Longrightarrow> held p l k \<Longrightarrow> \<not> free k \<Longrightarrow> unlock p l k = (u, k') \<Longrightarrow> q \<noteq> p \<Longrightarrow>
      idle q m k \<Longrightarrow> idle q m k'"

section \<open>No increment is lost\<close>

fun rounds_done :: "'l rec_pc \<Rightarrow> nat" where
  "rounds_done (Trying i l) = i"
| "rounds_done (Reading i l) = i"
| "rounds_done (Writing i l v) = i"
| "rounds_done (Unlocking i l) = i + 1"
| "rounds_done Finished = 20"
| "rounds_done Died = 0"

fun in_section :: "'l rec_pc \<Rightarrow> bool" where
  "in_section (Reading i l) = True"
| "in_section (Writing i l v) = True"
| "in_section (Unlocking i l) = True"
| "in_section pc = False"

definition seq_value :: "int \<Rightarrow> pid set \<Rightarrow> (pid \<Rightarrow> 'l rec_pc) \<Rightarrow> int" where
  "seq_value v0 P f = v0 + int (\<Sum>p\<in>P. rounds_done (f p))"

lemma seq_value_upd:
  "finite P \<Longrightarrow> p \<in> P \<Longrightarrow>
     seq_value v0 P (f(p := pc)) = seq_value v0 P f - int (rounds_done (f p)) + int (rounds_done pc)"
  by (simp add: seq_value_def sum.remove [of P p] cong: sum.cong)
     (simp add: sum.remove [of P p "\<lambda>p. rounds_done (f p)"])

lemma length_seq_text: "0 \<le> v \<Longrightarrow> v < 10 ^ 98 \<Longrightarrow> length (seq_text v) \<le> 100"
  using length_show_nat [of "nat v" 98] by (simp add: seq_text_def show_03d_def nat_less_iff Let_def)

lemma scan_seq_text:
  assumes "0 \<le> v" "v < 10 ^ 98"
  shows "take 100 (seq_text v @ junk) \<noteq> []" "scan_d (cstr (take 100 (seq_text v @ junk))) = Some v"
proof -
  have ds: "\<forall>c \<in> set (show_03d v). is_digit c" "show_03d v \<noteq> []" using hd_show_03d assms(1) by blast+
  have len: "length (show_03d v) + 1 \<le> 100" using length_seq_text [OF assms] by (simp add: seq_text_def)
  have t: "take 100 (seq_text v @ junk) = show_03d v @ NL # take (100 - length (seq_text v)) junk"
    using len by (simp add: seq_text_def take_Cons')
  then show "take 100 (seq_text v @ junk) \<noteq> []" by simp
  have nz: "\<forall>c \<in> set (show_03d v). c \<noteq> NUL" using ds(1) by (auto simp: is_digit_def)
  then have "cstr (take 100 (seq_text v @ junk)) = show_03d v @ NL # cstr (take (100 - length (seq_text v)) junk)"
    unfolding t by (simp add: cstr_def takeWhile_append2)
  then show "scan_d (cstr (take 100 (seq_text v @ junk))) = Some v" using scan_show_03d [OF assms(1)] by simp
qed

text \<open>What \<open>sscanf\<close> finds in the file, and what a process has still to do.\<close>

definition file_holds :: "int \<Rightarrow> byte list \<Rightarrow> bool" where
  "file_holds v f \<longleftrightarrow> take 100 f \<noteq> [] \<and> scan_d (cstr (take 100 f)) = Some v"

fun has_lock :: "('l \<Rightarrow> bool) \<Rightarrow> 'l rec_pc \<Rightarrow> bool" where
  "has_lock owns (Trying i l) = owns l"
| "has_lock owns pc = in_section pc"

fun turns_left :: "'l rec_pc \<Rightarrow> nat" where
  "turns_left (Trying i l) = 20 - i"
| "turns_left (Reading i l) = 20 - i"
| "turns_left (Writing i l v) = 20 - i"
| "turns_left (Unlocking i l) = 20 - i"
| "turns_left pc = 0"

fun pc_ok :: "('l \<Rightarrow> bool) \<Rightarrow> ('l \<Rightarrow> bool) \<Rightarrow> int \<Rightarrow> 'l rec_pc \<Rightarrow> bool" where
  "pc_ok idl hld n (Trying i l) \<longleftrightarrow> i < 20 \<and> idl l"
| "pc_ok idl hld n (Reading i l) \<longleftrightarrow> i < 20 \<and> hld l"
| "pc_ok idl hld n (Writing i l v) \<longleftrightarrow> i < 20 \<and> hld l \<and> v = n + 1"
| "pc_ok idl hld n (Unlocking i l) \<longleftrightarrow> i < 20 \<and> hld l"
| "pc_ok idl hld n Finished \<longleftrightarrow> True"
| "pc_ok idl hld n Died \<longleftrightarrow> False"

lemma pc_ok_rounds: "pc_ok idl hld n pc \<Longrightarrow> rounds_done pc \<le> 20"
  by (cases pc) auto

lemma sum_le_20:
  assumes "\<And>p. p \<in> P \<Longrightarrow> g p \<le> (20 :: nat)"
  shows "int (\<Sum>p\<in>P. g p) \<le> 20 * int (card P)"
proof -
  have "(\<Sum>p\<in>P. g p) \<le> card P * 20" using sum_bounded_above [of P g 20] assms by simp
  then show ?thesis by linarith
qed

lemma file_holds_seq_text:
  "0 \<le> v \<Longrightarrow> v < 2 ^ 31 \<Longrightarrow> file_holds v (seq_text v @ junk)"
  unfolding file_holds_def using scan_seq_text [of v junk] by fastforce

lemma run_record_append [simp]:
  "run_record lock unlock (s @ t) \<sigma> = run_record lock unlock t (run_record lock unlock s \<sigma>)"
  by (simp add: run_record_def)

text \<open>What is promised of every run under the schedule \<open>sched\<close>.\<close>

definition counts_right ::
  "(pid \<Rightarrow> 'l \<Rightarrow> 'k \<Rightarrow> 'l lock_result \<times> 'k) \<Rightarrow> (pid \<Rightarrow> 'l \<Rightarrow> 'k \<Rightarrow> 'l option \<times> 'k) \<Rightarrow> pid set \<Rightarrow> int \<Rightarrow>
    pid list \<Rightarrow> ('k, 'l) rec_sys \<Rightarrow> bool"
where
  "counts_right lock unlock P v0 sched \<sigma>0 \<longleftrightarrow>
     (let \<sigma> = run_record lock unlock sched \<sigma>0
      in (\<forall>p \<in> P. rpcs \<sigma> p \<noteq> Died) \<and>
         (\<forall>p \<in> P. \<forall>q \<in> P. in_section (rpcs \<sigma> p) \<longrightarrow> in_section (rpcs \<sigma> q) \<longrightarrow> p = q) \<and>
         file_holds (v0 + int (\<Sum>p\<in>P. rounds_done (rpcs \<sigma> p))) (seqfile \<sigma>) \<and>
         (\<exists>sched'. set sched' \<subseteq> P \<and>
            (\<forall>p \<in> P. rpcs (run_record lock unlock (sched @ sched') \<sigma>0) p = Finished) \<and>
            file_holds (v0 + 20 * int (card P)) (seqfile (run_record lock unlock (sched @ sched') \<sigma>0))))"

lemma counts_rightD:
  assumes "counts_right lock unlock P v0 sched \<sigma>0"
  shows "(\<forall>p \<in> P. rpcs (run_record lock unlock sched \<sigma>0) p \<noteq> Died) \<and>
     (\<forall>p \<in> P. \<forall>q \<in> P. in_section (rpcs (run_record lock unlock sched \<sigma>0) p) \<longrightarrow>
        in_section (rpcs (run_record lock unlock sched \<sigma>0) q) \<longrightarrow> p = q) \<and>
     file_holds (v0 + int (\<Sum>p\<in>P. rounds_done (rpcs (run_record lock unlock sched \<sigma>0) p)))
       (seqfile (run_record lock unlock sched \<sigma>0))"
    and "\<exists>sched'. set sched' \<subseteq> P \<and>
      (\<forall>p \<in> P. rpcs (run_record lock unlock (sched @ sched') \<sigma>0) p = Finished) \<and>
      file_holds (v0 + 20 * int (card P)) (seqfile (run_record lock unlock (sched @ sched') \<sigma>0))"
  using assms unfolding counts_right_def Let_def by blast+

context lock_scheme
begin

definition rec_inv :: "int \<Rightarrow> pid set \<Rightarrow> ('k, 'l) rec_sys \<Rightarrow> bool" where
  "rec_inv v0 P \<sigma> \<longleftrightarrow>
     glob (lockk \<sigma>) \<and> file_holds (seq_value v0 P (rpcs \<sigma>)) (seqfile \<sigma>) \<and>
     (\<forall>p \<in> P. pc_ok (\<lambda>l. idle p l (lockk \<sigma>)) (\<lambda>l. held p l (lockk \<sigma>)) (seq_value v0 P (rpcs \<sigma>)) (rpcs \<sigma> p)) \<and>
     (\<forall>p \<in> P. \<forall>q \<in> P. has_lock owns (rpcs \<sigma> p) \<longrightarrow> has_lock owns (rpcs \<sigma> q) \<longrightarrow> p = q) \<and>
     (free (lockk \<sigma>) \<longleftrightarrow> (\<forall>p \<in> P. \<not> has_lock owns (rpcs \<sigma> p)))"

abbreviation step :: "pid \<Rightarrow> ('k, 'l) rec_sys \<Rightarrow> ('k, 'l) rec_sys" where
  "step \<equiv> file_record lock unlock"

text \<open>The general step: the process moves to \<open>pc\<close>, the lock to \<open>k\<close>, the file to \<open>f\<close>.\<close>

lemma rec_inv_upd:
  assumes inv: "rec_inv v0 P \<sigma>" and p: "p \<in> P" and fin: "finite P"
    and k: "glob k" "pc_ok (\<lambda>l. idle p l k) (\<lambda>l. held p l k) (seq_value v0 P ((rpcs \<sigma>)(p := pc))) pc"
    and f: "file_holds (seq_value v0 P ((rpcs \<sigma>)(p := pc))) f"
    and others: "\<And>q m. q \<noteq> p \<Longrightarrow> q \<in> P \<Longrightarrow> idle q m (lockk \<sigma>) \<Longrightarrow> idle q m k"
      "\<And>q m. q \<noteq> p \<Longrightarrow> q \<in> P \<Longrightarrow> \<not> has_lock owns (rpcs \<sigma> p) \<Longrightarrow> held q m (lockk \<sigma>) \<Longrightarrow> held q m k"
    and val: "rounds_done pc = rounds_done (rpcs \<sigma> p) \<or> has_lock owns (rpcs \<sigma> p)"
    and lk: "has_lock owns pc \<Longrightarrow> \<not> free k \<and> (has_lock owns (rpcs \<sigma> p) \<or> free (lockk \<sigma>))"
      "\<not> has_lock owns pc \<Longrightarrow> free k = (free (lockk \<sigma>) \<or> has_lock owns (rpcs \<sigma> p))"
  shows "rec_inv v0 P (\<sigma>\<lparr>rpcs := (rpcs \<sigma>)(p := pc), lockk := k, seqfile := f\<rparr>)"
proof -
  let ?f = "(rpcs \<sigma>)(p := pc)"
  have u: "\<And>p q. p \<in> P \<Longrightarrow> q \<in> P \<Longrightarrow> has_lock owns (rpcs \<sigma> p) \<Longrightarrow> has_lock owns (rpcs \<sigma> q) \<Longrightarrow> p = q"
    and fr: "free (lockk \<sigma>) \<longleftrightarrow> (\<forall>p \<in> P. \<not> has_lock owns (rpcs \<sigma> p))"
    using inv unfolding rec_inv_def by blast+
  have "pc_ok (\<lambda>l. idle q l k) (\<lambda>l. held q l k) (seq_value v0 P ?f) (?f q)" if q: "q \<in> P" for q
  proof (cases "q = p")
    case False
    have ok: "pc_ok (\<lambda>l. idle q l (lockk \<sigma>)) (\<lambda>l. held q l (lockk \<sigma>)) (seq_value v0 P (rpcs \<sigma>)) (rpcs \<sigma> q)"
      using inv q by (simp add: rec_inv_def)
    have sec: "\<not> has_lock owns (rpcs \<sigma> p)" if "has_lock owns (rpcs \<sigma> q)" using u [OF q p that] False by blast
    have same: "seq_value v0 P ?f = seq_value v0 P (rpcs \<sigma>)" if "has_lock owns (rpcs \<sigma> q)"
      using seq_value_upd [OF fin p, of v0 "rpcs \<sigma>" pc] val sec [OF that] by simp
    show ?thesis
      using ok False others(1) [OF False q] others(2) [OF False q] sec same by (cases "rpcs \<sigma> q") auto
  qed (use k in simp)
  moreover have "q = r" if "q \<in> P" "r \<in> P" "has_lock owns (?f q)" "has_lock owns (?f r)" for q r
    using that u [of q r] u [of p q] u [of p r] lk(1) fr p by (auto split: if_splits)
  moreover have "free k \<longleftrightarrow> (\<forall>q \<in> P. \<not> has_lock owns (?f q))"
  proof (cases "has_lock owns pc")
    case False
    then have "(\<forall>q \<in> P. \<not> has_lock owns (?f q)) \<longleftrightarrow> (\<forall>q \<in> P. q = p \<or> \<not> has_lock owns (rpcs \<sigma> q))" by auto
    also have "\<dots> \<longleftrightarrow> free (lockk \<sigma>) \<or> has_lock owns (rpcs \<sigma> p)" unfolding fr using u [OF _ p] by auto
    finally show ?thesis using lk(2) [OF False] by simp
  qed (use lk(1) p in auto)
  ultimately show ?thesis unfolding rec_inv_def using k f by simp
qed

lemma inv_pc:
  "rec_inv v0 P \<sigma> \<Longrightarrow> p \<in> P \<Longrightarrow>
     pc_ok (\<lambda>l. idle p l (lockk \<sigma>)) (\<lambda>l. held p l (lockk \<sigma>)) (seq_value v0 P (rpcs \<sigma>)) (rpcs \<sigma> p)"
  by (simp add: rec_inv_def)

lemma turns_left_0: "pc_ok idl hld n pc \<Longrightarrow> turns_left pc = 0 \<Longrightarrow> pc = Finished"
  by (cases pc) auto

lemma has_lock_turns: "pc_ok idl hld n pc \<Longrightarrow> has_lock owns pc \<Longrightarrow> turns_left pc \<noteq> 0"
  by (cases pc) auto

lemma rounds_le_20: "rec_inv v0 P \<sigma> \<Longrightarrow> p \<in> P \<Longrightarrow> rounds_done (rpcs \<sigma> p) \<le> 20"
  unfolding rec_inv_def using pc_ok_rounds by blast

lemma inv_bounds:
  assumes "rec_inv v0 P \<sigma>" "finite P" "0 \<le> v0" "v0 + 20 * int (card P) < 2 ^ 31"
  shows "0 \<le> seq_value v0 P (rpcs \<sigma>)" "seq_value v0 P (rpcs \<sigma>) < 2 ^ 31"
proof -
  have "int (\<Sum>p\<in>P. rounds_done (rpcs \<sigma> p)) \<le> 20 * int (card P)"
    by (rule sum_le_20) (use rounds_le_20 [OF assms(1)] in blast)
  then show "0 \<le> seq_value v0 P (rpcs \<sigma>)" "seq_value v0 P (rpcs \<sigma>) < 2 ^ 31"
    using assms(3,4) unfolding seq_value_def by linarith+
qed

lemma step_lock:
  assumes inv: "rec_inv v0 P \<sigma>" and p: "p \<in> P" and fin: "finite P" and pc: "rpcs \<sigma> p = Trying i l"
  shows "rec_inv v0 P (step p \<sigma>) \<and>
     (\<exists>l' k'. lock p l (lockk \<sigma>) = (Acquired l', k') \<and> step p \<sigma> = \<sigma>\<lparr>rpcs := (rpcs \<sigma>)(p := Reading i l'), lockk := k'\<rparr> \<or>
         lock p l (lockk \<sigma>) = (Again l', k') \<and> step p \<sigma> = \<sigma>\<lparr>rpcs := (rpcs \<sigma>)(p := Trying i l'), lockk := k'\<rparr>)"
proof -
  have g: "glob (lockk \<sigma>)" and i: "i < 20" "idle p l (lockk \<sigma>)" and fr: "owns l \<Longrightarrow> \<not> free (lockk \<sigma>)"
    and f: "file_holds (seq_value v0 P (rpcs \<sigma>)) (seqfile \<sigma>)"
    using inv p pc unfolding rec_inv_def by force+
  have same: "seq_value v0 P ((rpcs \<sigma>)(p := pc')) = seq_value v0 P (rpcs \<sigma>)" if "rounds_done pc' = i" for pc'
    using seq_value_upd [OF fin p, of v0 "rpcs \<sigma>" pc'] pc that by simp
  obtain r k' where r: "lock p l (lockk \<sigma>) = (r, k')" by fastforce
  note others = lock_others [OF g i(2) fr r]
  show ?thesis
  proof (cases r)
    case (Again l')
    note a = lock_again [OF g i(2) fr r [unfolded Again]]
    have st: "step p \<sigma> = \<sigma>\<lparr>rpcs := (rpcs \<sigma>)(p := Trying i l'), lockk := k'\<rparr>"
      using pc r Again by (simp add: file_record_def)
    have "rec_inv v0 P (\<sigma>\<lparr>rpcs := (rpcs \<sigma>)(p := Trying i l'), lockk := k', seqfile := seqfile \<sigma>\<rparr>)"
      by (rule rec_inv_upd [OF inv p fin]) (use a i same f others pc fr in \<open>auto split: if_splits\<close>)
    then show ?thesis using st r Again by auto
  next
    case (Acquired l')
    note a = lock_acquired [OF g i(2) fr r [unfolded Acquired]]
    have st: "step p \<sigma> = \<sigma>\<lparr>rpcs := (rpcs \<sigma>)(p := Reading i l'), lockk := k'\<rparr>"
      using pc r Acquired by (simp add: file_record_def)
    have "rec_inv v0 P (\<sigma>\<lparr>rpcs := (rpcs \<sigma>)(p := Reading i l'), lockk := k', seqfile := seqfile \<sigma>\<rparr>)"
      by (rule rec_inv_upd [OF inv p fin]) (use a i same f others pc fr in \<open>auto split: if_splits\<close>)
    then show ?thesis using st r Acquired by auto
  next
    case Lock_error
    then show ?thesis using lock_no_error [OF g i(2) fr] r by simp
  qed
qed

lemma step_read:
  assumes inv: "rec_inv v0 P \<sigma>" and p: "p \<in> P" and fin: "finite P" and pc: "rpcs \<sigma> p = Reading i l"
  shows "rec_inv v0 P (step p \<sigma>)"
    "step p \<sigma> = \<sigma>\<lparr>rpcs := (rpcs \<sigma>)(p := Writing i l (seq_value v0 P (rpcs \<sigma>) + 1))\<rparr>"
proof -
  let ?n = "seq_value v0 P (rpcs \<sigma>)"
  have f: "file_holds ?n (seqfile \<sigma>)" and ok: "i < 20" "held p l (lockk \<sigma>)" "glob (lockk \<sigma>)" "\<not> free (lockk \<sigma>)"
    using inv p pc unfolding rec_inv_def by force+
  show st: "step p \<sigma> = \<sigma>\<lparr>rpcs := (rpcs \<sigma>)(p := Writing i l (?n + 1))\<rparr>"
    using pc f by (simp add: file_record_def file_holds_def Let_def)
  have same: "seq_value v0 P ((rpcs \<sigma>)(p := Writing i l (?n + 1))) = ?n"
    using seq_value_upd [OF fin p, of v0 "rpcs \<sigma>" "Writing i l (?n + 1)"] pc by simp
  have "rec_inv v0 P (\<sigma>\<lparr>rpcs := (rpcs \<sigma>)(p := Writing i l (?n + 1)), lockk := lockk \<sigma>, seqfile := seqfile \<sigma>\<rparr>)"
    by (rule rec_inv_upd [OF inv p fin]) (use ok same f pc in auto)
  then show "rec_inv v0 P (step p \<sigma>)" by (simp add: st)
qed

lemma step_write:
  assumes inv: "rec_inv v0 P \<sigma>" and p: "p \<in> P" and fin: "finite P" and pc: "rpcs \<sigma> p = Writing i l v"
    and b: "0 \<le> v0" "v0 + 20 * int (card P) < 2 ^ 31"
  shows "rec_inv v0 P (step p \<sigma>)" "rpcs (step p \<sigma>) = (rpcs \<sigma>)(p := Unlocking i l)"
proof -
  let ?n = "seq_value v0 P (rpcs \<sigma>)" and ?f = "(rpcs \<sigma>)(p := Unlocking i l)"
  let ?F = "seq_text v @ drop (length (seq_text v)) (seqfile \<sigma>)"
  have ok: "i < 20" "held p l (lockk \<sigma>)" "glob (lockk \<sigma>)" "\<not> free (lockk \<sigma>)" "v = ?n + 1"
    using inv p pc unfolding rec_inv_def by force+
  have st: "step p \<sigma> = \<sigma>\<lparr>rpcs := ?f, lockk := lockk \<sigma>, seqfile := ?F\<rparr>"
    using pc by (simp add: file_record_def Let_def)
  then show "rpcs (step p \<sigma>) = ?f" by simp
  have n': "seq_value v0 P ?f = ?n + 1"
    using seq_value_upd [OF fin p, of v0 "rpcs \<sigma>" "Unlocking i l"] pc by simp
  have "int (\<Sum>q\<in>P. rounds_done (?f q)) \<le> 20 * int (card P)"
    by (rule sum_le_20) (use rounds_le_20 [OF inv] ok(1) in auto)
  then have "?n + 1 < 2 ^ 31" using b n' unfolding seq_value_def by linarith
  then have "file_holds (?n + 1) ?F" using ok(5) inv_bounds [OF inv fin b] by (auto intro: file_holds_seq_text)
  then show "rec_inv v0 P (step p \<sigma>)"
    unfolding st by (intro rec_inv_upd [OF inv p fin]) (use ok n' pc in auto)
qed

lemma step_unlock:
  assumes inv: "rec_inv v0 P \<sigma>" and p: "p \<in> P" and fin: "finite P" and pc: "rpcs \<sigma> p = Unlocking i l"
  shows "rec_inv v0 P (step p \<sigma>)"
    "\<exists>l'. rpcs (step p \<sigma>) = (rpcs \<sigma>)(p := if i + 1 < 20 then Trying (i + 1) l' else Finished) \<and> \<not> owns l'"
proof -
  have ok: "i < 20" "held p l (lockk \<sigma>)" "glob (lockk \<sigma>)" "\<not> free (lockk \<sigma>)"
    and f: "file_holds (seq_value v0 P (rpcs \<sigma>)) (seqfile \<sigma>)"
    using inv p pc unfolding rec_inv_def by force+
  obtain l' k' where u: "unlock p l (lockk \<sigma>) = (Some l', k')" "glob k'" "idle p l' k'" "free k'" "\<not> owns l'"
    using unlock_ok [OF ok(3,2,4)] by blast
  let ?pc = "if i + 1 < 20 then Trying (i + 1) l' else Finished"
  have same: "seq_value v0 P ((rpcs \<sigma>)(p := ?pc)) = seq_value v0 P (rpcs \<sigma>)"
    using seq_value_upd [OF fin p, of v0 "rpcs \<sigma>" ?pc] pc ok(1) by auto
  have st: "step p \<sigma> = \<sigma>\<lparr>rpcs := (rpcs \<sigma>)(p := ?pc), lockk := k', seqfile := seqfile \<sigma>\<rparr>"
    using pc u(1) by (simp add: file_record_def)
  then show "\<exists>l'. rpcs (step p \<sigma>) = (rpcs \<sigma>)(p := if i + 1 < 20 then Trying (i + 1) l' else Finished) \<and> \<not> owns l'"
    using u(5) by auto
  show "rec_inv v0 P (step p \<sigma>)"
    unfolding st
    by (rule rec_inv_upd [OF inv p fin])
       (use ok u same f pc unlock_others [OF ok(3,2,4) u(1)] in \<open>auto split: if_splits\<close>)
qed

lemma rec_inv_step:
  assumes "rec_inv v0 P \<sigma>" "p \<in> P" "finite P" "0 \<le> v0" "v0 + 20 * int (card P) < 2 ^ 31"
  shows "rec_inv v0 P (step p \<sigma>)"
proof (cases "rpcs \<sigma> p")
  case (Trying i l)
  then show ?thesis using step_lock assms by blast
next
  case (Reading i l)
  then show ?thesis using step_read assms by blast
next
  case (Writing i l v)
  then show ?thesis using step_write assms by blast
next
  case (Unlocking i l)
  then show ?thesis using step_unlock assms by blast
qed (use assms(1) in \<open>simp_all add: file_record_def\<close>)

lemma rec_inv_run:
  assumes "rec_inv v0 P \<sigma>" "set sched \<subseteq> P" "finite P" "0 \<le> v0" "v0 + 20 * int (card P) < 2 ^ 31"
  shows "rec_inv v0 P (run_record lock unlock sched \<sigma>)"
  using assms by (induction sched arbitrary: \<sigma>) (auto simp: run_record_def rec_inv_step)

text \<open>A process that can go on completes its turn when it is scheduled alone.\<close>

lemma solo_acquire:
  assumes "rec_inv v0 P \<sigma>" "p \<in> P" "finite P" "rpcs \<sigma> p = Trying i l" "free (lockk \<sigma>) \<or> owns l"
  shows "\<exists>n l' k. run_record lock unlock (replicate n p) \<sigma> = \<sigma>\<lparr>rpcs := (rpcs \<sigma>)(p := Reading i l'), lockk := k\<rparr>"
  using assms
proof (induction "left l" arbitrary: l \<sigma> rule: less_induct)
  case less
  have fr: "glob (lockk \<sigma>)" "idle p l (lockk \<sigma>)" "owns l \<Longrightarrow> \<not> free (lockk \<sigma>)"
    using less.prems unfolding rec_inv_def by force+
  from step_lock [OF less.prems(1-4)] obtain l' k' where st: "rec_inv v0 P (step p \<sigma>)"
    "lock p l (lockk \<sigma>) = (Acquired l', k') \<and> step p \<sigma> = \<sigma>\<lparr>rpcs := (rpcs \<sigma>)(p := Reading i l'), lockk := k'\<rparr> \<or>
     lock p l (lockk \<sigma>) = (Again l', k') \<and> step p \<sigma> = \<sigma>\<lparr>rpcs := (rpcs \<sigma>)(p := Trying i l'), lockk := k'\<rparr>"
    by blast
  show ?case
  proof (cases "lock p l (lockk \<sigma>) = (Acquired l', k')")
    case True
    then have "run_record lock unlock (replicate 1 p) \<sigma> = \<sigma>\<lparr>rpcs := (rpcs \<sigma>)(p := Reading i l'), lockk := k'\<rparr>"
      using st(2) by (simp add: run_record_def)
    then show ?thesis by blast
  next
    case False
    then have a: "lock p l (lockk \<sigma>) = (Again l', k')" "step p \<sigma> = \<sigma>\<lparr>rpcs := (rpcs \<sigma>)(p := Trying i l'), lockk := k'\<rparr>"
      using st(2) by auto
    note lt = lock_progress [OF fr a(1) less.prems(5)]
    have go: "free k' \<or> owns l'"
      using lock_again [OF fr a(1)] less.prems(5) by (auto split: if_splits)
    obtain n l'' k'' where n: "run_record lock unlock (replicate n p) (step p \<sigma>) =
        (step p \<sigma>)\<lparr>rpcs := (rpcs (step p \<sigma>))(p := Reading i l''), lockk := k''\<rparr>"
      using less.hyps [OF lt st(1) less.prems(2,3)] a go by auto
    have "run_record lock unlock (replicate (Suc n) p) \<sigma> = \<sigma>\<lparr>rpcs := (rpcs \<sigma>)(p := Reading i l''), lockk := k''\<rparr>"
      using n a(2) by (simp add: run_record_def)
    then show ?thesis by blast
  qed
qed

lemma solo_turn_Trying:
  assumes inv: "rec_inv v0 P \<sigma>" and p: "p \<in> P" and fin: "finite P"
    and b: "0 \<le> v0" "v0 + 20 * int (card P) < 2 ^ 31"
    and go: "turns_left (rpcs \<sigma> p) \<noteq> 0" "free (lockk \<sigma>) \<or> has_lock owns (rpcs \<sigma> p)"
    and Trying: "rpcs \<sigma> p = Trying i l"
  shows "\<exists>n pc. rpcs (run_record lock unlock (replicate n p) \<sigma>) = (rpcs \<sigma>)(p := pc) \<and>
           turns_left pc < turns_left (rpcs \<sigma> p)"
proof -
  have unl: "\<exists>pc. rpcs (step p \<tau>) = (rpcs \<tau>)(p := pc) \<and> turns_left pc < 20 - i"
    if inv': "rec_inv v0 P \<tau>" and pc': "rpcs \<tau> p = Unlocking i l" for i l \<tau>
  proof -
    obtain l' where "rpcs (step p \<tau>) = (rpcs \<tau>)(p := if i + 1 < 20 then Trying (i + 1) l' else Finished)"
      using step_unlock [OF inv' p fin pc'] by blast
    moreover have "i < 20" using inv_pc [OF inv' p] pc' by simp
    ultimately show ?thesis by (intro exI conjI) auto
  qed
  have wr: "\<exists>n pc. rpcs (run_record lock unlock (replicate n p) \<tau>) = (rpcs \<tau>)(p := pc) \<and> turns_left pc < 20 - i"
    if "rec_inv v0 P \<tau>" "rpcs \<tau> p = Writing i l v" for i l v \<tau>
  proof -
    note w = step_write [OF that(1) p fin that(2) b]
    obtain pc where "rpcs (step p (step p \<tau>)) = (rpcs (step p \<tau>))(p := pc) \<and> turns_left pc < 20 - i"
      using unl [OF w(1), of i l] w(2) by auto
    then show ?thesis using w(2) by (intro exI [of _ 2] exI [of _ pc]) (simp add: run_record_def numeral_2_eq_2)
  qed
  have rd: "\<exists>n pc. rpcs (run_record lock unlock (replicate n p) \<tau>) = (rpcs \<tau>)(p := pc) \<and> turns_left pc < 20 - i"
    if "rec_inv v0 P \<tau>" "rpcs \<tau> p = Reading i l" for i l \<tau>
  proof -
    note r = step_read [OF that(1) p fin that(2)]
    obtain n pc where "rpcs (run_record lock unlock (replicate n p) (step p \<tau>)) = (rpcs (step p \<tau>))(p := pc) \<and>
        turns_left pc < 20 - i" using wr [OF r(1), of i l] r(2) by auto
    then show ?thesis using r(2) by (intro exI [of _ "Suc n"] exI [of _ pc]) (simp add: run_record_def)
  qed
  obtain n l' k where n: "run_record lock unlock (replicate n p) \<sigma> =
      \<sigma>\<lparr>rpcs := (rpcs \<sigma>)(p := Reading i l'), lockk := k\<rparr>" (is "?\<tau> = _")
    using solo_acquire [OF inv p fin Trying] go(2) Trying by auto
  have "rec_inv v0 P ?\<tau>" by (rule rec_inv_run [OF inv _ fin b]) (use p in auto)
  then obtain m pc where "rpcs (run_record lock unlock (replicate m p) ?\<tau>) = (rpcs ?\<tau>)(p := pc)"
    "turns_left pc < 20 - i" using rd [of ?\<tau> i l'] n by auto
  then show ?thesis
    using n Trying by (intro exI [of _ "n + m"] exI [of _ pc]) (simp add: replicate_add)
qed

lemma solo_turn:
  assumes inv: "rec_inv v0 P \<sigma>" and p: "p \<in> P" and fin: "finite P"
    and b: "0 \<le> v0" "v0 + 20 * int (card P) < 2 ^ 31"
    and go: "turns_left (rpcs \<sigma> p) \<noteq> 0" "free (lockk \<sigma>) \<or> has_lock owns (rpcs \<sigma> p)"
  shows "\<exists>n pc. rpcs (run_record lock unlock (replicate n p) \<sigma>) = (rpcs \<sigma>)(p := pc) \<and>
           turns_left pc < turns_left (rpcs \<sigma> p)"
proof -
  have unl: "\<exists>pc. rpcs (step p \<tau>) = (rpcs \<tau>)(p := pc) \<and> turns_left pc < 20 - i"
    if inv': "rec_inv v0 P \<tau>" and pc': "rpcs \<tau> p = Unlocking i l" for i l \<tau>
  proof -
    obtain l' where "rpcs (step p \<tau>) = (rpcs \<tau>)(p := if i + 1 < 20 then Trying (i + 1) l' else Finished)"
      using step_unlock [OF inv' p fin pc'] by blast
    moreover have "i < 20" using inv_pc [OF inv' p] pc' by simp
    ultimately show ?thesis by (intro exI conjI) auto
  qed
  have wr: "\<exists>n pc. rpcs (run_record lock unlock (replicate n p) \<tau>) = (rpcs \<tau>)(p := pc) \<and> turns_left pc < 20 - i"
    if "rec_inv v0 P \<tau>" "rpcs \<tau> p = Writing i l v" for i l v \<tau>
  proof -
    note w = step_write [OF that(1) p fin that(2) b]
    obtain pc where "rpcs (step p (step p \<tau>)) = (rpcs (step p \<tau>))(p := pc) \<and> turns_left pc < 20 - i"
      using unl [OF w(1), of i l] w(2) by auto
    then show ?thesis using w(2) by (intro exI [of _ 2] exI [of _ pc]) (simp add: run_record_def numeral_2_eq_2)
  qed
  have rd: "\<exists>n pc. rpcs (run_record lock unlock (replicate n p) \<tau>) = (rpcs \<tau>)(p := pc) \<and> turns_left pc < 20 - i"
    if "rec_inv v0 P \<tau>" "rpcs \<tau> p = Reading i l" for i l \<tau>
  proof -
    note r = step_read [OF that(1) p fin that(2)]
    obtain n pc where "rpcs (run_record lock unlock (replicate n p) (step p \<tau>)) = (rpcs (step p \<tau>))(p := pc) \<and>
        turns_left pc < 20 - i" using wr [OF r(1), of i l] r(2) by auto
    then show ?thesis using r(2) by (intro exI [of _ "Suc n"] exI [of _ pc]) (simp add: run_record_def)
  qed
  show ?thesis
  proof (cases "rpcs \<sigma> p")
    case (Trying i l)
    then show ?thesis by (rule solo_turn_Trying [OF assms])
  next
    case (Unlocking i l)
    then obtain pc where "rpcs (step p \<sigma>) = (rpcs \<sigma>)(p := pc) \<and> turns_left pc < 20 - i" using unl [OF inv] by blast
    then show ?thesis using Unlocking by (intro exI [of _ 1] exI [of _ pc]) (simp add: run_record_def)
  qed (use rd [OF inv] wr [OF inv] go in \<open>auto\<close>)
qed

text \<open>Whatever happened so far, the processes can be scheduled so that all finish.\<close>

lemma can_finish:
  assumes "rec_inv v0 P \<sigma>" "finite P" "0 \<le> v0" "v0 + 20 * int (card P) < 2 ^ 31"
  shows "\<exists>sched. set sched \<subseteq> P \<and> (\<forall>p \<in> P. rpcs (run_record lock unlock sched \<sigma>) p = Finished)"
  using assms(1)
proof (induction "\<Sum>p\<in>P. turns_left (rpcs \<sigma> p)" arbitrary: \<sigma> rule: less_induct)
  case less
  show ?case
  proof (cases "\<forall>p \<in> P. turns_left (rpcs \<sigma> p) = 0")
    case True
    have "rpcs \<sigma> p = Finished" if "p \<in> P" for p
      by (rule turns_left_0 [OF inv_pc [OF less.prems that]]) (use True that in simp)
    then show ?thesis by (intro exI [of _ "[]"]) (simp add: run_record_def)
  next
    case False
    have "\<exists>p \<in> P. turns_left (rpcs \<sigma> p) \<noteq> 0 \<and> (free (lockk \<sigma>) \<or> has_lock owns (rpcs \<sigma> p))"
    proof (cases "free (lockk \<sigma>)")
      case False
      then obtain p where p: "p \<in> P" "has_lock owns (rpcs \<sigma> p)" using less.prems unfolding rec_inv_def by blast
      then have "turns_left (rpcs \<sigma> p) \<noteq> 0" using has_lock_turns [OF inv_pc [OF less.prems]] by blast
      with p show ?thesis by blast
    qed (use False in blast)
    then obtain p where p: "p \<in> P" "turns_left (rpcs \<sigma> p) \<noteq> 0" "free (lockk \<sigma>) \<or> has_lock owns (rpcs \<sigma> p)"
      by blast
    obtain n pc where n: "rpcs (run_record lock unlock (replicate n p) \<sigma>) = (rpcs \<sigma>)(p := pc)"
      "turns_left pc < turns_left (rpcs \<sigma> p)"
      using solo_turn [OF less.prems p(1) assms(2-4) p(2,3)] by blast
    let ?\<tau> = "run_record lock unlock (replicate n p) \<sigma>"
    have "(\<Sum>q\<in>P. turns_left (rpcs ?\<tau> q)) < (\<Sum>q\<in>P. turns_left (rpcs \<sigma> q))"
      unfolding n(1) by (rule sum_strict_mono_ex1) (use assms(2) p(1) n(2) in auto)
    moreover have "rec_inv v0 P ?\<tau>" by (rule rec_inv_run [OF less.prems _ assms(2-4)]) (use p(1) in auto)
    ultimately obtain sched where "set sched \<subseteq> P"
      "\<forall>q \<in> P. rpcs (run_record lock unlock sched ?\<tau>) q = Finished" using less.hyps by blast
    then show ?thesis using p(1) by (intro exI [of _ "replicate n p @ sched"]) auto
  qed
qed

lemma record_start_inv:
  assumes "glob k0" "free k0" "\<And>p. p \<in> P \<Longrightarrow> idle p l0 k0" "\<not> owns l0" "file_holds v0 f"
  shows "rec_inv v0 P \<lparr>rpcs = (\<lambda>_. Trying 0 l0), lockk = k0, seqfile = f\<rparr>"
  using assms by (simp add: rec_inv_def seq_value_def)

text \<open>The facts a property needs, about any schedule from the start.\<close>

lemma counts:
  assumes "glob k0" "free k0" "\<And>p. p \<in> P \<Longrightarrow> idle p l0 k0" "\<not> owns l0"
    and "file_holds v0 f" "0 \<le> v0" "finite P" "v0 + 20 * int (card P) < 2 ^ 31" "set sched \<subseteq> P"
  shows "counts_right lock unlock P v0 sched \<lparr>rpcs = (\<lambda>_. Trying 0 l0), lockk = k0, seqfile = f\<rparr>"
proof -
  let ?start = "\<lparr>rpcs = (\<lambda>_. Trying 0 l0), lockk = k0, seqfile = f\<rparr>"
  let ?\<sigma> = "run_record lock unlock sched ?start"
  have "rec_inv v0 P ?start" using record_start_inv assms(1-5) by blast
  then have inv: "rec_inv v0 P ?\<sigma>" by (rule rec_inv_run) (use assms in auto)
  have "\<forall>p \<in> P. rpcs ?\<sigma> p \<noteq> Died" using inv_pc [OF inv] by force
  moreover have "file_holds (v0 + int (\<Sum>p\<in>P. rounds_done (rpcs ?\<sigma> p))) (seqfile ?\<sigma>)"
    using inv by (simp add: rec_inv_def seq_value_def)
  moreover have sec: "has_lock owns pc" if "in_section pc" for pc using that by (cases pc) auto
  then have "\<forall>p \<in> P. \<forall>q \<in> P. in_section (rpcs ?\<sigma> p) \<longrightarrow> in_section (rpcs ?\<sigma> q) \<longrightarrow> p = q"
    using inv unfolding rec_inv_def by blast
  moreover obtain sched' where s: "set sched' \<subseteq> P" "\<forall>p \<in> P. rpcs (run_record lock unlock sched' ?\<sigma>) p = Finished"
    using can_finish [OF inv assms(7,6,8)] by blast
  moreover have "rec_inv v0 P (run_record lock unlock sched' ?\<sigma>)" by (rule rec_inv_run [OF inv s(1) assms(7,6,8)])
  then have "file_holds (v0 + 20 * int (card P)) (seqfile (run_record lock unlock sched' ?\<sigma>))"
    using s(2) by (simp add: rec_inv_def seq_value_def mult.commute)
  ultimately show ?thesis unfolding counts_right_def Let_def run_record_append by blast
qed

end

end
