(* ===== verification/Locking.thy ===== *)
theory Locking
  imports Record_Lock Semaphore
begin

text \<open>
  The locks of chapter 3: the five of \<open>1_file_record_locking/lock.c\<close> (\<open>lockf\<close>, \<open>flock\<close>, a hard
  link, \<open>creat\<close> without permissions, \<open>open\<close> with \<open>O_EXCL\<close>), the two semaphore locks of
  \<open>9_semaphores/pitfalls\<close>, and \<open>sem_wait\<close> with \<open>sem_signal\<close> as \<open>9_semaphores/main.c\<close> uses them.
  Each is one system call per step and an instance of \<open>lock_scheme\<close>.
\<close>

section \<open>The files and locks of the kernel\<close>

text \<open>
  The directory gives the permission bits of each file; the mask of the process leaves the
  owner's bits alone.  \<open>range_owner\<close> holds the \<open>lockf\<close> lock on the data file, \<open>flock_owner\<close> the
  \<open>flock\<close> lock.
\<close>

record lock_kernel =
  dirents :: "byte list \<Rightarrow> nat option"
  superuser :: bool
  dir_writable :: bool
  range_owner :: "pid option"
  flock_owner :: "pid option"

definition may_write :: "nat \<Rightarrow> bool" where
  "may_write mode \<longleftrightarrow> odd (mode div 128)"

definition may_change_dir :: "lock_kernel \<Rightarrow> bool" where
  "may_change_dir k \<longleftrightarrow> superuser k \<or> dir_writable k"

text \<open>The calls return the error, if any; the descriptor is closed at once by the callers.\<close>

definition sys_creat :: "byte list \<Rightarrow> nat \<Rightarrow> lock_kernel \<Rightarrow> errno option \<times> lock_kernel" where
  "sys_creat path mode k =
     (case dirents k path of
        Some m \<Rightarrow> (if superuser k \<or> may_write m then None else Some EACCES, k)
      | None \<Rightarrow> if may_change_dir k then (None, k\<lparr>dirents := (dirents k)(path \<mapsto> mode)\<rparr>) else (Some EACCES, k))"

definition sys_open_excl :: "byte list \<Rightarrow> nat \<Rightarrow> lock_kernel \<Rightarrow> errno option \<times> lock_kernel" where
  "sys_open_excl path mode k =
     (if dirents k path \<noteq> None then (Some EEXIST, k)
      else if may_change_dir k then (None, k\<lparr>dirents := (dirents k)(path \<mapsto> mode)\<rparr>)
      else (Some EACCES, k))"

definition sys_link :: "byte list \<Rightarrow> byte list \<Rightarrow> lock_kernel \<Rightarrow> errno option \<times> lock_kernel" where
  "sys_link old new k =
     (case dirents k old of
        None \<Rightarrow> (Some ENOENT, k)
      | Some m \<Rightarrow>
          if dirents k new \<noteq> None then (Some EEXIST, k)
          else if may_change_dir k then (None, k\<lparr>dirents := (dirents k)(new \<mapsto> m)\<rparr>)
          else (Some EACCES, k))"

definition sys_unlink :: "byte list \<Rightarrow> lock_kernel \<Rightarrow> errno option \<times> lock_kernel" where
  "sys_unlink path k =
     (if dirents k path = None then (Some ENOENT, k)
      else if may_change_dir k then (None, k\<lparr>dirents := (dirents k)(path := None)\<rparr>)
      else (Some EACCES, k))"

lemmas dir_calls = sys_creat_def sys_open_excl_def sys_link_def sys_unlink_def may_change_dir_def may_write_def

section \<open>lock.c\<close>

definition LOCKFILE :: "byte list" where "LOCKFILE = ''seqno.lock''"
definition TEMPFILE :: "byte list" where "TEMPFILE = ''temp.lock''"

definition tempfile :: "pid \<Rightarrow> byte list" where
  "tempfile p = ''LCK'' @ show_nat p"

text \<open>Where a process is in a lock routine; all but \<open>my_link_lock\<close> consist of one call, repeated.\<close>

datatype lock_pc = Start | Linking | Unlinking

definition my_lock :: "pid \<Rightarrow> lock_pc \<Rightarrow> lock_kernel \<Rightarrow> lock_pc lock_result \<times> lock_kernel" where
  "my_lock p l k =
     (if range_owner k \<in> {None, Some p} then (Acquired Start, k\<lparr>range_owner := Some p\<rparr>)
      else (Again Start, k))"

definition my_unlock :: "pid \<Rightarrow> lock_pc \<Rightarrow> lock_kernel \<Rightarrow> lock_pc option \<times> lock_kernel" where
  "my_unlock p l k = (Some Start, if range_owner k = Some p then k\<lparr>range_owner := None\<rparr> else k)"

definition my_sys_call_lock :: "pid \<Rightarrow> lock_pc \<Rightarrow> lock_kernel \<Rightarrow> lock_pc lock_result \<times> lock_kernel" where
  "my_sys_call_lock p l k =
     (if flock_owner k \<in> {None, Some p} then (Acquired Start, k\<lparr>flock_owner := Some p\<rparr>)
      else (Again Start, k))"

definition my_sys_call_unlock :: "pid \<Rightarrow> lock_pc \<Rightarrow> lock_kernel \<Rightarrow> lock_pc option \<times> lock_kernel" where
  "my_sys_call_unlock p l k = (Some Start, if flock_owner k = Some p then k\<lparr>flock_owner := None\<rparr> else k)"

text \<open>The mode 292 is 0444, and 438 is 0666.\<close>

fun my_link_lock :: "pid \<Rightarrow> lock_pc \<Rightarrow> lock_kernel \<Rightarrow> lock_pc lock_result \<times> lock_kernel" where
  "my_link_lock p Start k =
     (case sys_creat (tempfile p) 292 k of (None, k) \<Rightarrow> (Again Linking, k) | (Some e, k) \<Rightarrow> (Lock_error, k))"
| "my_link_lock p Linking k =
     (case sys_link (tempfile p) LOCKFILE k of
        (None, k) \<Rightarrow> (Again Unlinking, k)
      | (Some e, k) \<Rightarrow> (if e \<noteq> EEXIST then Lock_error else Again Linking, k))"
| "my_link_lock p Unlinking k =
     (case sys_unlink (tempfile p) k of (None, k) \<Rightarrow> (Acquired Start, k) | (Some e, k) \<Rightarrow> (Lock_error, k))"

definition my_link_unlock :: "pid \<Rightarrow> lock_pc \<Rightarrow> lock_kernel \<Rightarrow> lock_pc option \<times> lock_kernel" where
  "my_link_unlock p l k =
     (case sys_unlink LOCKFILE k of (None, k) \<Rightarrow> (Some Start, k) | (Some e, k) \<Rightarrow> (None, k))"

definition my_creat_lock :: "pid \<Rightarrow> lock_pc \<Rightarrow> lock_kernel \<Rightarrow> lock_pc lock_result \<times> lock_kernel" where
  "my_creat_lock p l k =
     (case sys_creat TEMPFILE 0 k of
        (None, k) \<Rightarrow> (Acquired Start, k)
      | (Some e, k) \<Rightarrow> (if e \<noteq> EACCES then Lock_error else Again Start, k))"

definition my_creat_unlock :: "pid \<Rightarrow> lock_pc \<Rightarrow> lock_kernel \<Rightarrow> lock_pc option \<times> lock_kernel" where
  "my_creat_unlock p l k =
     (case sys_unlink TEMPFILE k of (None, k) \<Rightarrow> (Some Start, k) | (Some e, k) \<Rightarrow> (None, k))"

definition my_open_lock :: "pid \<Rightarrow> lock_pc \<Rightarrow> lock_kernel \<Rightarrow> lock_pc lock_result \<times> lock_kernel" where
  "my_open_lock p l k =
     (case sys_open_excl LOCKFILE 438 k of
        (None, k) \<Rightarrow> (Acquired Start, k)
      | (Some e, k) \<Rightarrow> (if e \<noteq> EEXIST then Lock_error else Again Start, k))"

definition my_open_unlock :: "pid \<Rightarrow> lock_pc \<Rightarrow> lock_kernel \<Rightarrow> lock_pc option \<times> lock_kernel" where
  "my_open_unlock p l k =
     (case sys_unlink LOCKFILE k of (None, k) \<Rightarrow> (Some Start, k) | (Some e, k) \<Rightarrow> (None, k))"

section \<open>They are locks\<close>

lemma tempfile_eq [simp]: "tempfile p = tempfile q \<longleftrightarrow> p = q"
  using digits_val_show_nat by (metis tempfile_def append_same_eq same_append_eq)

lemma tempfile_neq [simp]: "tempfile p \<noteq> LOCKFILE" "LOCKFILE \<noteq> tempfile p"
  by (simp_all add: tempfile_def LOCKFILE_def)

fun own_tempfile :: "pid \<Rightarrow> lock_pc \<Rightarrow> lock_kernel \<Rightarrow> bool" where
  "own_tempfile p Start k \<longleftrightarrow> dirents k (tempfile p) = None"
| "own_tempfile p Linking k \<longleftrightarrow> dirents k (tempfile p) \<noteq> None"
| "own_tempfile p Unlinking k \<longleftrightarrow> dirents k (tempfile p) \<noteq> None"

fun link_calls_left :: "lock_pc \<Rightarrow> nat" where
  "link_calls_left Start = 2" | "link_calls_left Linking = 1" | "link_calls_left Unlinking = 0"

interpretation lockf: lock_scheme my_lock my_unlock "\<lambda>k. range_owner k = None" "\<lambda>_. False" "\<lambda>_. 0"
  "\<lambda>p _ k. range_owner k \<noteq> Some p" "\<lambda>p _ k. range_owner k = Some p" "\<lambda>_. True"
  by unfold_locales (auto simp: my_lock_def my_unlock_def split: if_splits)

interpretation flock: lock_scheme my_sys_call_lock my_sys_call_unlock "\<lambda>k. flock_owner k = None" "\<lambda>_. False" "\<lambda>_. 0"
  "\<lambda>p _ k. flock_owner k \<noteq> Some p" "\<lambda>p _ k. flock_owner k = Some p" "\<lambda>_. True"
  by unfold_locales (auto simp: my_sys_call_lock_def my_sys_call_unlock_def split: if_splits)

interpretation linkf: lock_scheme my_link_lock my_link_unlock "\<lambda>k. dirents k LOCKFILE = None" "\<lambda>l. l = Unlinking"
  link_calls_left own_tempfile "\<lambda>p l k. dirents k (tempfile p) = None" may_change_dir
proof unfold_locales
  fix k k' :: lock_kernel and p q :: pid and l l' m :: lock_pc and r u
  show "may_change_dir k \<Longrightarrow> own_tempfile p l k \<Longrightarrow> (l = Unlinking \<Longrightarrow> dirents k LOCKFILE \<noteq> None) \<Longrightarrow> my_link_lock p l k = (Again l', k') \<Longrightarrow>
      may_change_dir k' \<and> own_tempfile p l' k' \<and>
      (if l' = Unlinking \<and> l \<noteq> Unlinking then dirents k LOCKFILE = None \<and> dirents k' LOCKFILE \<noteq> None
       else (dirents k' LOCKFILE = None) = (dirents k LOCKFILE = None) \<and> (l' = Unlinking) = (l = Unlinking))"
    by (cases l) (auto simp: dir_calls split: option.splits if_splits)
  show "may_change_dir k \<Longrightarrow> own_tempfile p l k \<Longrightarrow> (l = Unlinking \<Longrightarrow> dirents k LOCKFILE \<noteq> None) \<Longrightarrow> my_link_lock p l k = (Again l', k') \<Longrightarrow>
      dirents k LOCKFILE = None \<or> l = Unlinking \<Longrightarrow> link_calls_left l' < link_calls_left l"
    by (cases l) (auto simp: dir_calls split: option.splits if_splits)
  show "may_change_dir k \<Longrightarrow> own_tempfile p l k \<Longrightarrow> (l = Unlinking \<Longrightarrow> dirents k LOCKFILE \<noteq> None) \<Longrightarrow> my_link_lock p l k = (Acquired l', k') \<Longrightarrow>
      may_change_dir k' \<and> dirents k' (tempfile p) = None \<and> dirents k' LOCKFILE \<noteq> None \<and>
      (l = Unlinking \<or> dirents k LOCKFILE = None)"
    by (cases l) (auto simp: dir_calls split: option.splits if_splits)
  show "may_change_dir k \<Longrightarrow> own_tempfile p l k \<Longrightarrow> (l = Unlinking \<Longrightarrow> dirents k LOCKFILE \<noteq> None) \<Longrightarrow> fst (my_link_lock p l k) \<noteq> Lock_error"
    by (cases l) (auto simp: dir_calls split: option.splits if_splits)
  show "may_change_dir k \<Longrightarrow> own_tempfile p l k \<Longrightarrow> (l = Unlinking \<Longrightarrow> dirents k LOCKFILE \<noteq> None) \<Longrightarrow> my_link_lock p l k = (r, k') \<Longrightarrow> q \<noteq> p \<Longrightarrow>
      (own_tempfile q m k \<longrightarrow> own_tempfile q m k') \<and>
      (dirents k (tempfile q) = None \<longrightarrow> dirents k' (tempfile q) = None)"
    by (cases l; cases m) (auto simp: dir_calls split: option.splits if_splits)
  show "may_change_dir k \<Longrightarrow> dirents k (tempfile p) = None \<Longrightarrow> dirents k LOCKFILE \<noteq> None \<Longrightarrow>
      \<exists>l' k'. my_link_unlock p l k = (Some l', k') \<and> may_change_dir k' \<and> own_tempfile p l' k' \<and>
        dirents k' LOCKFILE = None \<and> l' \<noteq> Unlinking"
    by (auto simp: my_link_unlock_def dir_calls)
  show "may_change_dir k \<Longrightarrow> dirents k (tempfile p) = None \<Longrightarrow> dirents k LOCKFILE \<noteq> None \<Longrightarrow>
      my_link_unlock p l k = (u, k') \<Longrightarrow> q \<noteq> p \<Longrightarrow> own_tempfile q m k \<Longrightarrow> own_tempfile q m k'"
    by (cases m) (auto simp: my_link_unlock_def dir_calls split: if_splits)
qed

interpretation creatf: lock_scheme my_creat_lock my_creat_unlock "\<lambda>k. dirents k TEMPFILE = None" "\<lambda>_. False" "\<lambda>_. 0"
  "\<lambda>_ _ _. True" "\<lambda>_ _ _. True"
  "\<lambda>k. \<not> superuser k \<and> may_change_dir k \<and> (\<forall>m. dirents k TEMPFILE = Some m \<longrightarrow> \<not> may_write m)"
  by unfold_locales
     (auto simp: my_creat_lock_def my_creat_unlock_def dir_calls split: option.splits if_splits)

interpretation openf: lock_scheme my_open_lock my_open_unlock "\<lambda>k. dirents k LOCKFILE = None" "\<lambda>_. False" "\<lambda>_. 0"
  "\<lambda>_ _ _. True" "\<lambda>_ _ _. True" may_change_dir
  by unfold_locales (auto simp: my_open_lock_def my_open_unlock_def dir_calls split: option.splits if_splits)

section \<open>The semaphore locks\<close>

definition SEMKEY :: key where "SEMKEY = 123456"

text \<open>\<open>pitfall_1/lock_unlock.c\<close>, and \<open>pitfall_2/lock_unlock_2.c\<close> with \<open>SEM_UNDO\<close>: the local state is
  the global \<open>semid\<close>, \<open>None\<close> while it is -1.  \<open>err_sys\<close> exits, so the kernel undoes.\<close>

definition pit1_op_lock :: "sembuf list" where
  "pit1_op_lock = [\<lparr>sem_num = 0, sem_op_of = 0, sem_undo = False, ipc_nowait = False\<rparr>,
                   \<lparr>sem_num = 0, sem_op_of = 1, sem_undo = False, ipc_nowait = False\<rparr>]"

definition pit1_op_unlock :: "sembuf list" where
  "pit1_op_unlock = [\<lparr>sem_num = 0, sem_op_of = - 1, sem_undo = False, ipc_nowait = True\<rparr>]"

definition pit2_op_lock :: "sembuf list" where
  "pit2_op_lock = [\<lparr>sem_num = 0, sem_op_of = 0, sem_undo = False, ipc_nowait = False\<rparr>,
                   \<lparr>sem_num = 0, sem_op_of = 1, sem_undo = True, ipc_nowait = False\<rparr>]"

definition pit2_op_unlock :: "sembuf list" where
  "pit2_op_unlock = [\<lparr>sem_num = 0, sem_op_of = - 1, sem_undo = True, ipc_nowait = True\<rparr>]"

text \<open>The two files differ in these arrays only.  Before the first lock \<open>semid\<close> is -1, which
  \<open>semop\<close> refuses; the unlocking operation never sleeps.\<close>

fun sem_lock_call :: "sembuf list \<Rightarrow> pid \<Rightarrow> nat option \<Rightarrow> sem_kernel \<Rightarrow> nat option lock_result \<times> sem_kernel" where
  "sem_lock_call lock_ops p None k =
     (case semget SEMKEY 1 True k of
        (Inl e, k) \<Rightarrow> (Lock_error, sem_exit p k) | (Inr semid, k) \<Rightarrow> (Again (Some semid), k))"
| "sem_lock_call lock_ops p (Some semid) k =
     (case semop p semid lock_ops k of
        Done k \<Rightarrow> (Acquired (Some semid), k)
      | Sleep \<Rightarrow> (Again (Some semid), k)
      | Fail e \<Rightarrow> (Lock_error, sem_exit p k))"

fun sem_unlock_call :: "sembuf list \<Rightarrow> pid \<Rightarrow> nat option \<Rightarrow> sem_kernel \<Rightarrow> nat option option \<times> sem_kernel" where
  "sem_unlock_call unlock_ops p None k = (None, sem_exit p k)"
| "sem_unlock_call unlock_ops p (Some semid) k =
     (case semop p semid unlock_ops k of Done k \<Rightarrow> (Some (Some semid), k) | _ \<Rightarrow> (None, sem_exit p k))"

definition pit1_lock where "pit1_lock = sem_lock_call pit1_op_lock"
definition pit1_unlock where "pit1_unlock = sem_unlock_call pit1_op_unlock"
definition pit2_lock where "pit2_lock = sem_lock_call pit2_op_lock"
definition pit2_unlock where "pit2_unlock = sem_unlock_call pit2_op_unlock"

text \<open>\<open>9_semaphores/main.c\<close>: the loop with \<open>sem_wait\<close> and \<open>sem_signal\<close> on the set \<open>semid\<close>.\<close>

definition main_lock :: "nat \<Rightarrow> pid \<Rightarrow> unit \<Rightarrow> sem_kernel \<Rightarrow> unit lock_result \<times> sem_kernel" where
  "main_lock semid p l k =
     (case sem_wait p semid k of
        Done k \<Rightarrow> (Acquired (), k) | Sleep \<Rightarrow> (Again (), k) | Fail e \<Rightarrow> (Lock_error, sem_exit p k))"

definition main_unlock :: "nat \<Rightarrow> pid \<Rightarrow> unit \<Rightarrow> sem_kernel \<Rightarrow> unit option \<times> sem_kernel" where
  "main_unlock semid p l k =
     (case sem_signal p semid k of Done k \<Rightarrow> (Some (), k) | _ \<Rightarrow> (None, sem_exit p k))"

text \<open>The array has 100 bytes, and the NUL behind what was read may be stored past it; the process is taken to die there.
  \<open>err_sys\<close> exits, so the kernel undoes.\<close>

definition sem_main :: "nat \<Rightarrow> pid \<Rightarrow> (sem_kernel, unit) rec_sys \<Rightarrow> (sem_kernel, unit) rec_sys" where
  "sem_main semid p \<sigma> =
     (case rpcs \<sigma> p of
        Reading i l \<Rightarrow>
          (let buff = take 100 (seqfile \<sigma>);
               dead = \<sigma>\<lparr>rpcs := (rpcs \<sigma>)(p := Died), lockk := sem_exit p (lockk \<sigma>)\<rparr>
           in if buff = [] \<or> 100 \<le> length buff then dead
              else (case scan_d (cstr buff) of
                      None \<Rightarrow> dead
                    | Some seqno \<Rightarrow> \<sigma>\<lparr>rpcs := (rpcs \<sigma>)(p := Writing i l (seqno + 1))\<rparr>))
      | _ \<Rightarrow> file_record (main_lock semid) (main_unlock semid) p \<sigma>)"

definition pit_glob :: "sem_kernel \<Rightarrow> bool" where
  "pit_glob k \<longleftrightarrow> (\<forall>i. sem_ids k SEMKEY = Some i \<longrightarrow>
     (\<exists>s v. sem_sets k i = Some s \<and> vals s = [v] \<and> (v = 0 \<or> v = 1)))"

definition pit_free :: "sem_kernel \<Rightarrow> bool" where
  "pit_free k \<longleftrightarrow> (\<forall>i s. sem_ids k SEMKEY = Some i \<longrightarrow> sem_sets k i = Some s \<longrightarrow> vals s ! 0 = 0)"

definition pit_idle :: "pid \<Rightarrow> nat option \<Rightarrow> sem_kernel \<Rightarrow> bool" where
  "pit_idle p l k \<longleftrightarrow> (\<forall>i. l = Some i \<longrightarrow> sem_ids k SEMKEY = Some i)"

definition pit_held :: "pid \<Rightarrow> nat option \<Rightarrow> sem_kernel \<Rightarrow> bool" where
  "pit_held p l k \<longleftrightarrow> (\<exists>i. l = Some i \<and> sem_ids k SEMKEY = Some i)"

definition main_glob :: "nat \<Rightarrow> sem_kernel \<Rightarrow> bool" where
  "main_glob i k \<longleftrightarrow> (\<exists>s. sem_sets k i = Some s \<and> length (vals s) = 3 \<and> vals s ! 0 \<in> {0, 1})"

definition main_free :: "nat \<Rightarrow> sem_kernel \<Rightarrow> bool" where
  "main_free i k \<longleftrightarrow> (\<exists>s. sem_sets k i = Some s \<and> vals s ! 0 = 1)"

lemmas pit_defs = pit_glob_def pit_free_def pit_idle_def pit_held_def
lemmas pit_ops = pit1_op_lock_def pit1_op_unlock_def pit2_op_lock_def pit2_op_unlock_def SEMVMX_def

text \<open>Operation arrays that make a one-member set a lock.\<close>

locale binary_ops =
  fixes lock_ops unlock_ops :: "sembuf list"
  assumes lock_free: "vals s = [0] \<Longrightarrow> \<exists>a. sem_apply p lock_ops s = Done (s\<lparr>vals := [1], adj := a\<rparr>)"
    and lock_busy: "vals s = [1] \<Longrightarrow> sem_apply p lock_ops s = Sleep"
    and unlock_busy: "vals s = [1] \<Longrightarrow> \<exists>a. sem_apply p unlock_ops s = Done (s\<lparr>vals := [0], adj := a\<rparr>)"
begin

lemma known_set:
  assumes "pit_glob k" "sem_ids k SEMKEY = Some i"
  obtains s where "sem_sets k i = Some s" "vals s = [0]" "pit_free k"
    | s where "sem_sets k i = Some s" "vals s = [1]" "\<not> pit_free k"
  using assms unfolding pit_glob_def pit_free_def by fastforce

lemma call_new:
  assumes "pit_glob k"
  shows "\<exists>i k'. sem_lock_call lock_ops p None k = (Again (Some i), k') \<and> pit_glob k' \<and> sem_ids k' SEMKEY = Some i \<and>
     pit_free k' = pit_free k \<and> (\<forall>j. sem_ids k SEMKEY = Some j \<longrightarrow> j = i)"
proof (cases "sem_ids k SEMKEY")
  case None
  then show ?thesis by (auto simp: semget_def pit_defs)
next
  case (Some i)
  then obtain s where "sem_sets k i = Some s" "length (vals s) = 1"
    using assms by (fastforce simp: pit_glob_def)
  then show ?thesis using Some assms by (simp add: semget_def)
qed

lemma call_lock:
  assumes "pit_glob k" "sem_ids k SEMKEY = Some i"
  shows "if pit_free k then
           \<exists>k'. sem_lock_call lock_ops p (Some i) k = (Acquired (Some i), k') \<and> pit_glob k' \<and> \<not> pit_free k' \<and>
             sem_ids k' = sem_ids k
         else sem_lock_call lock_ops p (Some i) k = (Again (Some i), k)"
  using assms
proof (cases rule: known_set)
  case (1 s)
  then obtain a where "sem_apply p lock_ops s = Done (s\<lparr>vals := [1], adj := a\<rparr>)" using lock_free by blast
  then show ?thesis using 1 assms by (auto simp: semop_def pit_defs)
next
  case (2 s)
  then show ?thesis using lock_busy by (simp add: semop_def)
qed

lemma call_unlock:
  assumes "pit_glob k" "sem_ids k SEMKEY = Some i" "\<not> pit_free k"
  shows "\<exists>k'. sem_unlock_call unlock_ops p (Some i) k = (Some (Some i), k') \<and> pit_glob k' \<and> pit_free k' \<and>
           sem_ids k' = sem_ids k"
  using assms(1,2)
proof (cases rule: known_set)
  case (2 s)
  then obtain a where "sem_apply p unlock_ops s = Done (s\<lparr>vals := [0], adj := a\<rparr>)" using unlock_busy by blast
  then show ?thesis using 2 assms by (auto simp: semop_def pit_defs)
qed (use assms(3) in simp)

end

sublocale binary_ops \<subseteq> lock_scheme "sem_lock_call lock_ops" "sem_unlock_call unlock_ops" pit_free "\<lambda>_. False"
  "\<lambda>l. if l = None then 1 else 0" pit_idle pit_held pit_glob
proof unfold_locales
  fix k k' :: sem_kernel and p q :: pid and l l' m :: "nat option" and r u
  assume k: "pit_glob k"
  {
    assume i: "pit_idle p l k"
    note cases = call_new [OF k, of p] call_lock [OF k, of _ p] i [unfolded pit_idle_def]
    show "sem_lock_call lock_ops p l k = (Again l', k') \<Longrightarrow> pit_glob k' \<and> pit_idle p l' k' \<and>
        (if False \<and> \<not> False then pit_free k \<and> \<not> pit_free k' else pit_free k' = pit_free k \<and> False = False)"
      using cases k by (cases l) (fastforce simp: pit_idle_def split: if_splits)+
    show "sem_lock_call lock_ops p l k = (Again l', k') \<Longrightarrow> pit_free k \<or> False \<Longrightarrow>
        (if l' = None then 1 else 0 :: nat) < (if l = None then 1 else 0)"
      using cases by (cases l) (fastforce split: if_splits)+
    show "sem_lock_call lock_ops p l k = (Acquired l', k') \<Longrightarrow>
        pit_glob k' \<and> pit_held p l' k' \<and> \<not> pit_free k' \<and> (False \<or> pit_free k)"
      using cases by (cases l) (fastforce simp: pit_held_def split: if_splits)+
    show "fst (sem_lock_call lock_ops p l k) \<noteq> Lock_error"
      using cases by (cases l) (fastforce split: if_splits)+
    show "sem_lock_call lock_ops p l k = (r, k') \<Longrightarrow> q \<noteq> p \<Longrightarrow>
        (pit_idle q m k \<longrightarrow> pit_idle q m k') \<and> (pit_held q m k \<longrightarrow> pit_held q m k')"
      using cases by (cases l) (fastforce simp: pit_idle_def pit_held_def split: if_splits)+
  }
  assume h: "pit_held p l k" "\<not> pit_free k"
  then obtain i where i: "l = Some i" "sem_ids k SEMKEY = Some i" by (auto simp: pit_held_def)
  show "\<exists>l' k'. sem_unlock_call unlock_ops p l k = (Some l', k') \<and> pit_glob k' \<and> pit_idle p l' k' \<and> pit_free k' \<and> \<not> False"
    using call_unlock [OF k i(2) h(2), of p] i by (auto simp: pit_idle_def)
  show "sem_unlock_call unlock_ops p l k = (u, k') \<Longrightarrow> q \<noteq> p \<Longrightarrow> pit_idle q m k \<Longrightarrow> pit_idle q m k'"
    using call_unlock [OF k i(2) h(2), of p] i by (auto simp: pit_idle_def)
qed

lemma adj_same: "\<exists>a. s\<lparr>vals := v\<rparr> = (s :: sem_set)\<lparr>vals := v, adj := a\<rparr>"
  by (rule exI [of _ "adj s"]) simp

interpretation pit1: binary_ops pit1_op_lock pit1_op_unlock
  by unfold_locales (auto simp: pit_ops adj_same)

interpretation pit2: binary_ops pit2_op_lock pit2_op_unlock
  by unfold_locales (auto simp: pit_ops)

interpretation semm: lock_scheme "main_lock i" "main_unlock i" "main_free i" "\<lambda>_. False" "\<lambda>_. 0"
  "\<lambda>_ _ _. True" "\<lambda>_ _ _. True" "main_glob i" for i
proof unfold_locales
  have ap: "sem_apply p (op_op d) s = (if vals s ! 0 + d < 0 then Sleep else if SEMVMX < vals s ! 0 + d then Fail ERANGE
      else Done (s\<lparr>vals := (vals s)[0 := vals s ! 0 + d], adj := (adj s)(p := (adj s p)(0 := adj s p 0 - d))\<rparr>))"
    if "length (vals s) = 3" "d \<noteq> 0" for p d s
    using that by (auto simp: op_op_def sop_def Let_def)
  note defs = main_glob_def main_free_def main_lock_def main_unlock_def sem_wait_def sem_signal_def sem_op_def
    semop_def SEMVMX_def
  fix k k' :: sem_kernel and p q :: pid and l l' m :: unit and r u
  assume k: "main_glob i k"
  then obtain s where s: "sem_sets k i = Some s" "length (vals s) = 3" "vals s ! 0 = 0 \<or> vals s ! 0 = 1"
    by (auto simp: main_glob_def)
  show "main_lock i p l k = (Again l', k') \<Longrightarrow> main_glob i k' \<and> True \<and>
      (if False \<and> \<not> False then main_free i k \<and> \<not> main_free i k' else main_free i k' = main_free i k \<and> False = False)"
    "main_lock i p l k = (Again l', k') \<Longrightarrow> main_free i k \<or> False \<Longrightarrow> (0 :: nat) < 0"
    "main_lock i p l k = (Acquired l', k') \<Longrightarrow> main_glob i k' \<and> True \<and> \<not> main_free i k' \<and> (False \<or> main_free i k)"
    "fst (main_lock i p l k) \<noteq> Lock_error"
    "(True \<longrightarrow> True) \<and> (True \<longrightarrow> True)"
    "\<not> main_free i k \<Longrightarrow>
      \<exists>l' k'. main_unlock i p l k = (Some l', k') \<and> main_glob i k' \<and> True \<and> main_free i k' \<and> \<not> False"
    "True"
    using s k by (auto simp: defs ap split: if_splits)
qed

section \<open>What the programs achieve\<close>

text \<open>The choice of routines in \<open>file_record.c\<close>, which as it stands calls \<open>my_open_lock\<close> and
  \<open>my_open_unlock\<close>, and what each needs of the system before the first process starts.\<close>

datatype locking = Lockf | Flock | Link_lock | Creat_lock | Open_lock

fun lock_of :: "locking \<Rightarrow> pid \<Rightarrow> lock_pc \<Rightarrow> lock_kernel \<Rightarrow> lock_pc lock_result \<times> lock_kernel" where
  "lock_of Lockf = my_lock" | "lock_of Flock = my_sys_call_lock" | "lock_of Link_lock = my_link_lock"
| "lock_of Creat_lock = my_creat_lock" | "lock_of Open_lock = my_open_lock"

fun unlock_of :: "locking \<Rightarrow> pid \<Rightarrow> lock_pc \<Rightarrow> lock_kernel \<Rightarrow> lock_pc option \<times> lock_kernel" where
  "unlock_of Lockf = my_unlock" | "unlock_of Flock = my_sys_call_unlock" | "unlock_of Link_lock = my_link_unlock"
| "unlock_of Creat_lock = my_creat_unlock" | "unlock_of Open_lock = my_open_unlock"

fun lock_ready :: "locking \<Rightarrow> pid set \<Rightarrow> lock_kernel \<Rightarrow> bool" where
  "lock_ready Lockf P k \<longleftrightarrow> range_owner k = None"
| "lock_ready Flock P k \<longleftrightarrow> flock_owner k = None"
| "lock_ready Link_lock P k \<longleftrightarrow>
     may_change_dir k \<and> dirents k LOCKFILE = None \<and> (\<forall>p \<in> P. dirents k (tempfile p) = None)"
| "lock_ready Creat_lock P k \<longleftrightarrow> \<not> superuser k \<and> dir_writable k \<and> dirents k TEMPFILE = None"
| "lock_ready Open_lock P k \<longleftrightarrow> may_change_dir k \<and> dirents k LOCKFILE = None"

definition start_record :: "'l \<Rightarrow> 'k \<Rightarrow> byte list \<Rightarrow> ('k, 'l) rec_sys" where
  "start_record l k f = \<lparr>rpcs = (\<lambda>_. Trying 0 l), lockk = k, seqfile = f\<rparr>"

lemma holds_7: "file_holds 7 ''7''"
  by (simp add: file_holds_def cstr_def scan_d_def is_space_def is_digit_def digits_val_def digit_val_def)

lemma all_locks:
  assumes "lock_ready c P k" "file_holds v0 f" "0 \<le> v0" "finite P" "v0 + 20 * int (card P) < 2 ^ 31" "set sched \<subseteq> P"
  shows "counts_right (lock_of c) (unlock_of c) P v0 sched (start_record Start k f)"
  using assms(1)
proof (cases c)
  case Creat_lock
  show ?thesis unfolding Creat_lock lock_of.simps unlock_of.simps start_record_def
    by (rule creatf.counts) (use assms Creat_lock in \<open>simp_all add: may_change_dir_def\<close>)
qed (simp_all only: lock_of.simps unlock_of.simps lock_ready.simps start_record_def,
     (rule lockf.counts flock.counts linkf.counts openf.counts; use assms in simp)+)



text \<open>C34: no choice of the scheduler is fatal: from every reachable state of \<open>file_record.c\<close> there is a
  continuation after which all processes have finished, and the file then holds the initial number
  plus twenty for each process.\<close>
theorem file_record_can_finish:
  assumes "lock_ready c P k" "file_holds v0 f" "0 \<le> v0" "finite P" "v0 + 20 * int (card P) < 2 ^ 31" "set sched \<subseteq> P"
  shows "\<exists>sched'. set sched' \<subseteq> P \<and>
    (\<forall>p \<in> P. rpcs (run_record (lock_of c) (unlock_of c) (sched @ sched') (start_record Start k f)) p = Finished) \<and>
    file_holds (v0 + 20 * int (card P))
      (seqfile (run_record (lock_of c) (unlock_of c) (sched @ sched') (start_record Start k f)))"
  by (rule counts_rightD(2)) (rule all_locks [OF assms])

theorem file_record_can_finish_witness:
  "\<exists>sched'. file_holds 47 (seqfile (run_record my_link_lock my_link_unlock ([0, 1, 0] @ sched')
     (start_record Start \<lparr>dirents = Map.empty, superuser = False, dir_writable = True, range_owner = None,
        flock_owner = None\<rparr> ''7'')))"
proof -
  show ?thesis
    using file_record_can_finish [of Link_lock "{0, 1}" "\<lparr>dirents = Map.empty, superuser = False,
        dir_writable = True, range_owner = None, flock_owner = None\<rparr>" 7 "''7''" "[0, 1, 0]"]
    by (auto simp: may_change_dir_def holds_7)
qed

text \<open>While the file is shorter than the array, a step of \<open>sem_main\<close> is one of \<open>file_record\<close> with the semaphore for a lock.\<close>

lemma sem_main_step:
  assumes "semm.rec_inv i v0 P \<sigma>" "p \<in> P" "finite P" "0 \<le> v0" "v0 + 20 * int (card P) < 2 ^ 31" "length (seqfile \<sigma>) < 100"
  shows "sem_main i p \<sigma> = file_record (main_lock i) (main_unlock i) p \<sigma> \<and> length (seqfile (sem_main i p \<sigma>)) < 100"
proof (cases "rpcs \<sigma> p")
  case (Writing j l v)
  have "v = seq_value v0 P (rpcs \<sigma>) + 1" using semm.inv_pc [OF assms(1,2)] Writing by simp
  then have v: "0 \<le> v" "v \<le> 2 ^ 31" using semm.inv_bounds [OF assms(1,3-5)] by linarith+
  then have "length (show_nat (nat v)) \<le> 10" by (intro length_show_nat) (simp_all add: nat_less_iff)
  then have "length (seq_text v) < 100" using v(1) by (simp add: seq_text_def show_03d_def Let_def)
  then show ?thesis using Writing assms(6) by (simp add: sem_main_def file_record_def Let_def)
next
  case (Reading j l)
  have "file_holds (seq_value v0 P (rpcs \<sigma>)) (seqfile \<sigma>)" using assms(1) by (simp add: semm.rec_inv_def)
  then show ?thesis using Reading assms(6) by (simp add: sem_main_def file_record_def file_holds_def Let_def)
qed (use assms(6) in \<open>auto simp: sem_main_def file_record_def split: prod.splits lock_result.splits option.splits\<close>)

lemma sem_main_run:
  assumes "semm.rec_inv i v0 P \<sigma>" "set sched \<subseteq> P" "finite P" "0 \<le> v0" "v0 + 20 * int (card P) < 2 ^ 31" "length (seqfile \<sigma>) < 100"
  shows "fold (sem_main i) sched \<sigma> = run_record (main_lock i) (main_unlock i) sched \<sigma> \<and>
     length (seqfile (fold (sem_main i) sched \<sigma>)) < 100"
  using assms
proof (induction sched arbitrary: \<sigma>)
  case (Cons p sched)
  have p: "p \<in> P" using Cons.prems(2) by simp
  note s = sem_main_step [OF Cons.prems(1) p Cons.prems(3-6)]
  have "semm.rec_inv i v0 P (sem_main i p \<sigma>)"
    using semm.rec_inv_step [OF Cons.prems(1) p Cons.prems(3-5)] s by simp
  from Cons.IH [OF this _ Cons.prems(3-5)] Cons.prems(2) s
  have "fold (sem_main i) sched (sem_main i p \<sigma>) = run_record (main_lock i) (main_unlock i) sched (sem_main i p \<sigma>) \<and>
      length (seqfile (fold (sem_main i) sched (sem_main i p \<sigma>))) < 100" by auto
  then show ?case unfolding run_record_def fold_simps conjunct1 [OF s, symmetric] .
qed (simp add: run_record_def)

lemma main_value:
  assumes "semm.rec_inv i v0 P \<sigma>"
  shows "\<exists>s. sem_sets (lockk \<sigma>) i = Some s \<and> vals s ! 0 = (if \<exists>p \<in> P. in_section (rpcs \<sigma> p) then 0 else 1)"
proof -
  have h: "has_lock (\<lambda>_. False) pc = in_section pc" for pc :: "unit rec_pc" by (cases pc) simp_all
  have "main_glob i (lockk \<sigma>)" "main_free i (lockk \<sigma>) \<longleftrightarrow> (\<forall>p \<in> P. \<not> in_section (rpcs \<sigma> p))"
    using assms by (simp_all add: semm.rec_inv_def h)
  then show ?thesis by (auto simp: main_glob_def main_free_def)
qed

text \<open>C37: the loop of \<open>9_semaphores/main.c\<close>, run by several processes on a set that was created with the value 1 and a
  file of less than 100 bytes that holds a number (a longer file overruns the array).  In any interleaving the value of the semaphore is 0 while one of the processes is between
  \<open>sem_wait\<close> and \<open>sem_signal\<close>, and 1 otherwise; no increment is lost, and all processes can finish.\<close>
theorem sem_main_loses_no_update:
  assumes "main_glob i k" "main_free i k" "file_holds v0 f" "0 \<le> v0" "finite P" "v0 + 20 * int (card P) < 2 ^ 31"
    "set sched \<subseteq> P" "length f < 100"
  defines "\<sigma> \<equiv> fold (sem_main i) sched (start_record () k f)"
  shows "(\<forall>p \<in> P. rpcs \<sigma> p \<noteq> Died) \<and>
     (\<forall>p \<in> P. \<forall>q \<in> P. in_section (rpcs \<sigma> p) \<longrightarrow> in_section (rpcs \<sigma> q) \<longrightarrow> p = q) \<and>
     (\<exists>s. sem_sets (lockk \<sigma>) i = Some s \<and> vals s ! 0 = (if \<exists>p \<in> P. in_section (rpcs \<sigma> p) then 0 else 1)) \<and>
     file_holds (v0 + int (\<Sum>p\<in>P. rounds_done (rpcs \<sigma> p))) (seqfile \<sigma>) \<and>
     (\<exists>sched'. set sched' \<subseteq> P \<and> (\<forall>p \<in> P. rpcs (fold (sem_main i) sched' \<sigma>) p = Finished) \<and>
        file_holds (v0 + 20 * int (card P)) (seqfile (fold (sem_main i) sched' \<sigma>)))"
proof -
  have start: "semm.rec_inv i v0 P (start_record () k f)"
    unfolding start_record_def by (rule semm.record_start_inv) (use assms in auto)
  have run: "fold (sem_main i) s (start_record () k f) = run_record (main_lock i) (main_unlock i) s (start_record () k f)"
    if "set s \<subseteq> P" for s
    using sem_main_run [OF start that assms(5,4,6)] assms(8) by (simp add: start_record_def)
  have inv: "semm.rec_inv i v0 P \<sigma>"
    unfolding \<sigma>_def run [OF assms(7)] by (rule semm.rec_inv_run [OF start assms(7,5,4,6)])
  have c: "counts_right (main_lock i) (main_unlock i) P v0 sched (start_record () k f)"
    unfolding start_record_def by (rule semm.counts) (use assms in auto)
  obtain sched' where s': "set sched' \<subseteq> P"
    "\<forall>p \<in> P. rpcs (run_record (main_lock i) (main_unlock i) (sched @ sched') (start_record () k f)) p = Finished"
    "file_holds (v0 + 20 * int (card P)) (seqfile (run_record (main_lock i) (main_unlock i) (sched @ sched') (start_record () k f)))"
    using counts_rightD(2) [OF c] by blast
  have "fold (sem_main i) sched' \<sigma> = run_record (main_lock i) (main_unlock i) (sched @ sched') (start_record () k f)"
    using run [of "sched @ sched'"] assms(7) s'(1) by (simp add: \<sigma>_def)
  with s' have "\<exists>sched'. set sched' \<subseteq> P \<and> (\<forall>p \<in> P. rpcs (fold (sem_main i) sched' \<sigma>) p = Finished) \<and>
      file_holds (v0 + 20 * int (card P)) (seqfile (fold (sem_main i) sched' \<sigma>))"
    by (intro exI [of _ sched']) simp
  moreover note counts_rightD(1) [OF c, folded run [OF assms(7)] \<sigma>_def] main_value [OF inv]
  ultimately show ?thesis by blast
qed

theorem sem_main_loses_no_update_witness:
  "\<exists>sched'. file_holds 47 (seqfile (fold (sem_main 5) sched' (fold (sem_main 5) [1, 0, 0, 1]
     (start_record () \<lparr>sem_ids = [23456 \<mapsto> 5], sem_sets = [5 \<mapsto> \<lparr>vals = [1, 9998, 0], adj = (\<lambda>_ _. 0)\<rparr>],
        next_semid = 6\<rparr> ''7''))))"
proof -
  show ?thesis
    using sem_main_loses_no_update [of 5 "\<lparr>sem_ids = [23456 \<mapsto> 5], sem_sets = [5 \<mapsto> \<lparr>vals = [1, 9998, 0], adj = (\<lambda>_ _. 0)\<rparr>],
        next_semid = 6\<rparr>" 7 "''7''" "{0, 1}" "[1, 0, 0, 1]"]
    by (auto simp: main_glob_def main_free_def holds_7)
qed

text \<open>C38: what \<open>SEM_UNDO\<close> is for: when a process dies while it holds the semaphore lock, the lock of
  \<open>pitfall_1\<close> stays taken for ever, however often another process tries, and that of \<open>pitfall_2\<close>
  is free again.\<close>
theorem sem_undo_releases_the_lock:
  assumes "sem_ids k SEMKEY = Some i" "sem_sets k i = Some s" "vals s = [0]" "adj s p 0 = 0"
  shows "(\<exists>k'. pit1_lock p (Some i) k = (Acquired (Some i), k') \<and>
            (\<forall>n. ((\<lambda>k. snd (pit1_lock q (Some i) k)) ^^ n) (sem_exit p k') = sem_exit p k') \<and>
            pit1_lock q (Some i) (sem_exit p k') = (Again (Some i), sem_exit p k')) \<and>
         (\<exists>k'. pit2_lock p (Some i) k = (Acquired (Some i), k') \<and>
            (\<exists>k''. pit2_lock q (Some i) (sem_exit p k') = (Acquired (Some i), k'')))"
proof -
  have ex: "[0..<Suc 0] = [0]" by simp
  let ?k1 = "k\<lparr>sem_sets := (sem_sets k)(i \<mapsto> s\<lparr>vals := [1]\<rparr>)\<rparr>"
  have 1: "pit1_lock p (Some i) k = (Acquired (Some i), ?k1)"
    using assms by (simp add: pit1_lock_def semop_def pit_ops)
  have 2: "pit1_lock q (Some i) (sem_exit p ?k1) = (Again (Some i), sem_exit p ?k1)"
    using assms(4) by (simp add: pit1_lock_def semop_def pit_ops sem_exit_def set_exit_def)
  then have "((\<lambda>k. snd (pit1_lock q (Some i) k)) ^^ n) (sem_exit p ?k1) = sem_exit p ?k1" for n
    by (induction n) simp_all
  moreover have "\<exists>k'. pit2_lock p (Some i) k = (Acquired (Some i), k') \<and>
      (\<exists>k''. pit2_lock q (Some i) (sem_exit p k') = (Acquired (Some i), k''))"
    using assms by (simp add: pit2_lock_def semop_def pit_ops sem_exit_def set_exit_def)
  ultimately show ?thesis using 1 2 by blast
qed

theorem sem_undo_releases_the_lock_witness:
  "\<exists>k'. pit1_lock 3 (Some 0) \<lparr>sem_ids = [SEMKEY \<mapsto> 0], sem_sets = [0 \<mapsto> \<lparr>vals = [0], adj = (\<lambda>_ _. 0)\<rparr>], next_semid = 1\<rparr> =
     (Acquired (Some 0), k') \<and> pit1_lock 4 (Some 0) (sem_exit 3 k') = (Again (Some 0), sem_exit 3 k')"
  using sem_undo_releases_the_lock [of "\<lparr>sem_ids = [SEMKEY \<mapsto> 0], sem_sets = [0 \<mapsto> \<lparr>vals = [0], adj = (\<lambda>_ _. 0)\<rparr>],
     next_semid = 1\<rparr>" 0 "\<lparr>vals = [0], adj = (\<lambda>_ _. 0)\<rparr>" 3 4] by auto

text \<open>The limits of the file locks: two processes of the superuser both get the \<open>creat\<close> lock; a
  directory without write permission makes it wait for ever; and a temporary file left over from
  an earlier process of the same number ends \<open>my_link_lock\<close> in \<open>err_sys\<close>, although the comment
  expects it to be truncated.\<close>
theorem file_lock_limits:
  "(superuser k \<longrightarrow> (\<exists>k1 k2. my_creat_lock p Start k = (Acquired Start, k1) \<and> my_creat_lock q Start k1 = (Acquired Start, k2))) \<and>
   (\<not> may_change_dir k \<and> dirents k TEMPFILE = None \<longrightarrow> my_creat_lock p Start k = (Again Start, k)) \<and>
   (\<not> superuser k \<and> dirents k (tempfile p) = Some 292 \<longrightarrow> my_link_lock p Start k = (Lock_error, k))"
proof -
  have "\<exists>k1 k2. my_creat_lock p Start k = (Acquired Start, k1) \<and> my_creat_lock q Start k1 = (Acquired Start, k2)"
    if "superuser k"
    using that by (cases "dirents k TEMPFILE") (simp_all add: my_creat_lock_def dir_calls)
  then show ?thesis by (auto simp: my_creat_lock_def dir_calls)
qed

theorem file_lock_limits_witness:
  "\<exists>k1 k2. my_creat_lock 1 Start \<lparr>dirents = Map.empty, superuser = True, dir_writable = True, range_owner = None,
        flock_owner = None\<rparr> = (Acquired Start, k1) \<and> my_creat_lock 2 Start k1 = (Acquired Start, k2)"
  using file_lock_limits [of "\<lparr>dirents = Map.empty, superuser = True, dir_writable = True, range_owner = None,
        flock_owner = None\<rparr>" 1 2] by simp

end
