(* ===== verification/SharedMem.thy ===== *)
theory SharedMem
  imports Kernel_IO Semaphore
begin

text \<open>
  The file server of \<open>10_shared_memory\<close>: client and server share one message in a memory
  segment and hand it to each other with two semaphores.  Each process is a machine that makes
  one system call per step; the semaphores are those of \<open>semaphore.c\<close>, with the adjustments the
  kernel applies when a process exits.
\<close>

section \<open>Messages and semaphores\<close>

definition MAXMESGDATA :: nat where "MAXMESGDATA = 4096 - 16"

record Mesg =
  mesg_len :: int
  mesg_data :: "byte list"

definition SHMKEY :: key where "SHMKEY = 7890"
definition SEMKEY1 :: key where "SEMKEY1 = 7891"
definition SEMKEY2 :: key where "SEMKEY2 = 7892"

text \<open>\<open>sys_err_str\<close> of \<open>err_routine.c\<close>; the texts of the system are the argument \<open>sys_errlist\<close>.\<close>

definition sys_err_str :: "(errno \<Rightarrow> byte list) \<Rightarrow> errno \<Rightarrow> byte list" where
  "sys_err_str sys_errlist e = ''('' @ sys_errlist e @ '')''"

definition errmesg :: "(errno \<Rightarrow> byte list) \<Rightarrow> errno \<Rightarrow> byte list" where
  "errmesg sys_errlist e = '': can't open, '' @ sys_err_str sys_errlist e"

text \<open>The two processes: 0 is the client and 1 the server.\<close>

abbreviation (input) cli :: pid where "cli \<equiv> 0"
abbreviation (input) srv :: pid where "srv \<equiv> 1"

text \<open>A call of \<open>sem_wait\<close> or \<open>sem_signal\<close> that sleeps leaves the process where it is; one that
  fails ends it in \<open>err_sys\<close>.\<close>

definition sem_call :: "'s sem_verdict \<Rightarrow> ('s \<Rightarrow> 'a) \<Rightarrow> 'a \<Rightarrow> 'a \<Rightarrow> 'a" where
  "sem_call v go asleep dead = (case v of Done k \<Rightarrow> go k | Sleep \<Rightarrow> asleep | Fail e \<Rightarrow> dead)"

section \<open>The client and the server\<close>

datatype cli_pc =
    Cwait0 | Cfill | Csig0   \<comment> \<open>the request\<close>
  | Cwait | Ctest | Csig     \<comment> \<open>the loop: \<open>Ctest\<close> reads the length and writes\<close>
  | Creturned | Cdead

datatype srv_pc =
    Swait0 | Sopen
  | Sesig | Sewait           \<comment> \<open>the error message\<close>
  | Sread | Ssig | Swait     \<comment> \<open>the loop\<close>
  | Send | Sendsig           \<comment> \<open>the final empty message\<close>
  | Sreturned | Sdead | Skilled
  | Sgone                    \<comment> \<open>\<open>main\<close> has called \<open>exit\<close> after \<open>server\<close>\<close>

record shm_sys =
  kern :: sem_kernel
  mesg :: Mesg
  cin :: stream_in
  cout :: sink
  filefd :: source
  cpc :: cli_pc
  spc :: srv_pc

text \<open>\<open>client\<close>: \<open>c\<close> and \<open>s\<close> are the identifiers \<open>clisem\<close> and \<open>servsem\<close>.\<close>

definition client_dead :: "shm_sys \<Rightarrow> shm_sys" where
  "client_dead \<sigma> = \<sigma>\<lparr>cpc := Cdead, kern := sem_exit cli (kern \<sigma>)\<rparr>"

definition client :: "nat \<Rightarrow> nat \<Rightarrow> shm_sys \<Rightarrow> shm_sys" where
  "client c s \<sigma> =
     (case cpc \<sigma> of
        Cwait0 \<Rightarrow> sem_call (sem_wait cli c (kern \<sigma>)) (\<lambda>k. \<sigma>\<lparr>kern := k, cpc := Cfill\<rparr>) \<sigma> (client_dead \<sigma>)
      | Cfill \<Rightarrow>
          (case fgets MAXMESGDATA (cin \<sigma>) of
             (None, fp) \<Rightarrow> client_dead (\<sigma>\<lparr>cin := fp\<rparr>)
           | (Some l, fp) \<Rightarrow>
               (let d = poke (mesg_data (mesg \<sigma>)) 0 (l @ [NUL]); n = strlen d;
                    n = (if 0 < n \<and> d ! (n - 1) = NL then n - 1 else n)
                in \<sigma>\<lparr>cin := fp, mesg := \<lparr>mesg_len = int n, mesg_data = d\<rparr>, cpc := Csig0\<rparr>))
      | Csig0 \<Rightarrow> sem_call (sem_signal cli s (kern \<sigma>)) (\<lambda>k. \<sigma>\<lparr>kern := k, cpc := Cwait\<rparr>) \<sigma> (client_dead \<sigma>)
      | Cwait \<Rightarrow> sem_call (sem_wait cli c (kern \<sigma>)) (\<lambda>k. \<sigma>\<lparr>kern := k, cpc := Ctest\<rparr>) \<sigma> (client_dead \<sigma>)
      | Ctest \<Rightarrow>
          (let n = mesg_len (mesg \<sigma>)
           in if 0 < n
              then (case sys_write (cout \<sigma>) (take (nat n) (mesg_data (mesg \<sigma>))) of
                      (Inr w, out) \<Rightarrow> if int w \<noteq> n then client_dead (\<sigma>\<lparr>cout := out\<rparr>)
                                    else \<sigma>\<lparr>cout := out, cpc := Csig\<rparr>
                    | (Inl e, out) \<Rightarrow> client_dead (\<sigma>\<lparr>cout := out\<rparr>))
              else if n < 0 then client_dead \<sigma>
              else \<sigma>\<lparr>cpc := Creturned\<rparr>)
      | Csig \<Rightarrow> sem_call (sem_signal cli s (kern \<sigma>)) (\<lambda>k. \<sigma>\<lparr>kern := k, cpc := Cwait\<rparr>) \<sigma> (client_dead \<sigma>)
      | Creturned \<Rightarrow> \<sigma>
      | Cdead \<Rightarrow> \<sigma>)"

text \<open>\<open>server\<close>: opening a file is the argument \<open>open_file\<close>.  A string longer than \<open>msgstr\<close> (200 bytes), \<open>errmesg\<close>
  (256) or the segment is a store past its end, which kills the process.\<close>

definition server_dead :: "srv_pc \<Rightarrow> shm_sys \<Rightarrow> shm_sys" where
  "server_dead how \<sigma> = \<sigma>\<lparr>spc := how, kern := sem_exit srv (kern \<sigma>)\<rparr>"

definition server ::
  "(byte list \<Rightarrow> errno + source) \<Rightarrow> (errno \<Rightarrow> byte list) \<Rightarrow> nat \<Rightarrow> nat \<Rightarrow> shm_sys \<Rightarrow> shm_sys"
where
  "server open_file sys_errlist c s \<sigma> =
     (case spc \<sigma> of
        Swait0 \<Rightarrow> sem_call (sem_wait srv s (kern \<sigma>)) (\<lambda>k. \<sigma>\<lparr>kern := k, spc := Sopen\<rparr>) \<sigma> (server_dead Sdead \<sigma>)
      | Sopen \<Rightarrow>
          (let d = (mesg_data (mesg \<sigma>))[nat (mesg_len (mesg \<sigma>)) := NUL]
           in case open_file (cstr d) of
                Inl e \<Rightarrow>
                  (let t = cstr d @ errmesg sys_errlist e
                   in if 200 \<le> length (sys_err_str sys_errlist e) \<or> 256 \<le> length (errmesg sys_errlist e) \<or> MAXMESGDATA \<le> length t
                      then server_dead Skilled \<sigma>
                      else (let d = poke d (strlen d) (errmesg sys_errlist e @ [NUL])
                            in \<sigma>\<lparr>mesg := \<lparr>mesg_len = int (strlen d), mesg_data = d\<rparr>, spc := Sesig\<rparr>))
              | Inr f \<Rightarrow> \<sigma>\<lparr>mesg := (mesg \<sigma>)\<lparr>mesg_data := d\<rparr>, filefd := f, spc := Sread\<rparr>)
      | Sesig \<Rightarrow> sem_call (sem_signal srv c (kern \<sigma>)) (\<lambda>k. \<sigma>\<lparr>kern := k, spc := Sewait\<rparr>) \<sigma> (server_dead Sdead \<sigma>)
      | Sewait \<Rightarrow> sem_call (sem_wait srv s (kern \<sigma>)) (\<lambda>k. \<sigma>\<lparr>kern := k, spc := Send\<rparr>) \<sigma> (server_dead Sdead \<sigma>)
      | Sread \<Rightarrow>
          (case sys_read (filefd \<sigma>) (MAXMESGDATA - 1) of
             (Inl e, f) \<Rightarrow> server_dead Sdead (\<sigma>\<lparr>filefd := f\<rparr>)
           | (Inr xs, f) \<Rightarrow>
               if xs = [] then \<sigma>\<lparr>filefd := f, spc := Send\<rparr>
               else \<sigma>\<lparr>filefd := f, spc := Ssig,
                      mesg := \<lparr>mesg_len = int (length xs), mesg_data = poke (mesg_data (mesg \<sigma>)) 0 xs\<rparr>\<rparr>)
      | Ssig \<Rightarrow> sem_call (sem_signal srv c (kern \<sigma>)) (\<lambda>k. \<sigma>\<lparr>kern := k, spc := Swait\<rparr>) \<sigma> (server_dead Sdead \<sigma>)
      | Swait \<Rightarrow> sem_call (sem_wait srv s (kern \<sigma>)) (\<lambda>k. \<sigma>\<lparr>kern := k, spc := Sread\<rparr>) \<sigma> (server_dead Sdead \<sigma>)
      | Send \<Rightarrow> \<sigma>\<lparr>mesg := (mesg \<sigma>)\<lparr>mesg_len := 0\<rparr>, spc := Sendsig\<rparr>
      | Sendsig \<Rightarrow> sem_call (sem_signal srv c (kern \<sigma>)) (\<lambda>k. \<sigma>\<lparr>kern := k, spc := Sreturned\<rparr>) \<sigma> (server_dead Sdead \<sigma>)
      | Sreturned \<Rightarrow> \<sigma>
      | Sdead \<Rightarrow> \<sigma>
      | Skilled \<Rightarrow> \<sigma>
      | Sgone \<Rightarrow> \<sigma>)"

section \<open>The semaphores as numbers\<close>

text \<open>The two sets exist, and their first members are \<open>x\<close> and \<open>y\<close>.\<close>

definition sem_vals :: "sem_kernel \<Rightarrow> nat \<Rightarrow> nat \<Rightarrow> int \<Rightarrow> int \<Rightarrow> bool" where
  "sem_vals k c s x y \<longleftrightarrow> c \<noteq> s \<and>
     (\<exists>C S. sem_sets k c = Some C \<and> length (vals C) = 3 \<and> vals C ! 0 = x \<and>
            sem_sets k s = Some S \<and> length (vals S) = 3 \<and> vals S ! 0 = y)"

lemma sem_op_vals:
  assumes "sem_sets k i = Some C" "length (vals C) = 3" "v \<noteq> 0"
  shows "sem_op p i v k =
     (if vals C ! 0 + v < 0 then Sleep else if SEMVMX < vals C ! 0 + v then Fail ERANGE
      else Done (k\<lparr>sem_sets := (sem_sets k)(i \<mapsto> C\<lparr>vals := (vals C)[0 := vals C ! 0 + v],
                   adj := (adj C)(p := (adj C p)(0 := adj C p 0 - v))\<rparr>)\<rparr>))"
  using assms by (auto simp: sem_op_def semop_def op_op_def sop_def Let_def)

text \<open>A wait on either semaphore, and a signal.\<close>

lemma sem_call_wait:
  assumes "sem_vals k c s x y" "x \<le> SEMVMX" "y \<le> SEMVMX"
  shows "if 0 < x then \<exists>k'. sem_call (sem_wait p c k) go a d = go k' \<and> sem_vals k' c s (x - 1) y
         else sem_call (sem_wait p c k) go a d = a"
    and "if 0 < y then \<exists>k'. sem_call (sem_wait p s k) go a d = go k' \<and> sem_vals k' c s x (y - 1)
         else sem_call (sem_wait p s k) go a d = a"
proof -
  obtain C S where cs: "c \<noteq> s" "sem_sets k c = Some C" "length (vals C) = 3" "vals C ! 0 = x"
    "sem_sets k s = Some S" "length (vals S) = 3" "vals S ! 0 = y" using assms(1) by (auto simp: sem_vals_def)
  show "if 0 < x then \<exists>k'. sem_call (sem_wait p c k) go a d = go k' \<and> sem_vals k' c s (x - 1) y
         else sem_call (sem_wait p c k) go a d = a"
    using cs assms(2) by (simp add: sem_wait_def sem_op_vals sem_call_def) (auto simp: sem_vals_def)
  show "if 0 < y then \<exists>k'. sem_call (sem_wait p s k) go a d = go k' \<and> sem_vals k' c s x (y - 1)
         else sem_call (sem_wait p s k) go a d = a"
    using cs assms(3) by (simp add: sem_wait_def sem_op_vals sem_call_def) (auto simp: sem_vals_def)
qed

lemma sem_call_signal:
  assumes "sem_vals k c s x y" "0 \<le> x" "0 \<le> y"
  shows "x < SEMVMX \<Longrightarrow> \<exists>k'. sem_call (sem_signal p c k) go a d = go k' \<and> sem_vals k' c s (x + 1) y"
    and "y < SEMVMX \<Longrightarrow> \<exists>k'. sem_call (sem_signal p s k) go a d = go k' \<and> sem_vals k' c s x (y + 1)"
proof -
  obtain C S where cs: "c \<noteq> s" "sem_sets k c = Some C" "length (vals C) = 3" "vals C ! 0 = x"
    "sem_sets k s = Some S" "length (vals S) = 3" "vals S ! 0 = y" using assms(1) by (auto simp: sem_vals_def)
  show "x < SEMVMX \<Longrightarrow> \<exists>k'. sem_call (sem_signal p c k) go a d = go k' \<and> sem_vals k' c s (x + 1) y"
    using cs assms(2) by (simp add: sem_signal_def sem_op_vals sem_call_def) (auto simp: sem_vals_def)
  show "y < SEMVMX \<Longrightarrow> \<exists>k'. sem_call (sem_signal p s k) go a d = go k' \<and> sem_vals k' c s x (y + 1)"
    using cs assms(3) by (simp add: sem_signal_def sem_op_vals sem_call_def) (auto simp: sem_vals_def)
qed

section \<open>The conversation\<close>

text \<open>What the client should print: the contents of the file, or the name with the error message.\<close>

definition shm_answer :: "(byte list \<Rightarrow> errno + source) \<Rightarrow> (errno \<Rightarrow> byte list) \<Rightarrow> byte list \<Rightarrow> byte list" where
  "shm_answer open_file sys_errlist name =
     (case open_file name of Inl e \<Rightarrow> name @ errmesg sys_errlist e | Inr f \<Rightarrow> src_pending f)"

text \<open>The name in the first line of the input.\<close>

definition request :: "byte list \<Rightarrow> byte list" where
  "request l = (let t = cstr l in if t \<noteq> [] \<and> last t = NL then butlast t else t)"

datatype phase =
    P_start | P_fill | P_req | P_asked | P_open
  | P_err | P_err_sent | P_err_got | P_err_out | P_err_ack
  | P_read | P_data | P_sent | P_got | P_out | P_ack
  | P_end | P_empty | P_end_sent | P_end_got | P_done

text \<open>Where the processes are in each phase, and the values of the two semaphores.\<close>

fun shape :: "phase \<Rightarrow> cli_pc \<times> srv_pc \<times> int \<times> int" where
  "shape P_start = (Cwait0, Swait0, 1, 0)"   | "shape P_fill = (Cfill, Swait0, 0, 0)"
| "shape P_req = (Csig0, Swait0, 0, 0)"      | "shape P_asked = (Cwait, Swait0, 0, 1)"
| "shape P_open = (Cwait, Sopen, 0, 0)"
| "shape P_err = (Cwait, Sesig, 0, 0)"       | "shape P_err_sent = (Cwait, Sewait, 1, 0)"
| "shape P_err_got = (Ctest, Sewait, 0, 0)"  | "shape P_err_out = (Csig, Sewait, 0, 0)"
| "shape P_err_ack = (Cwait, Sewait, 0, 1)"
| "shape P_read = (Cwait, Sread, 0, 0)"      | "shape P_data = (Cwait, Ssig, 0, 0)"
| "shape P_sent = (Cwait, Swait, 1, 0)"      | "shape P_got = (Ctest, Swait, 0, 0)"
| "shape P_out = (Csig, Swait, 0, 0)"        | "shape P_ack = (Cwait, Swait, 0, 1)"
| "shape P_end = (Cwait, Send, 0, 0)"        | "shape P_empty = (Cwait, Sendsig, 0, 0)"
| "shape P_end_sent = (Cwait, Sreturned, 1, 0)" | "shape P_end_got = (Ctest, Sreturned, 0, 0)"
| "shape P_done = (Creturned, Sreturned, 0, 0)"

definition msg_is :: "byte list \<Rightarrow> Mesg \<Rightarrow> bool" where
  "msg_is xs m \<longleftrightarrow> mesg_len m = int (length xs) \<and> take (length xs) (mesg_data m) = xs"

text \<open>What is in the segment, on the output and still in the file, for the answer \<open>a\<close>.\<close>

fun contents :: "byte list \<Rightarrow> byte list \<Rightarrow> phase \<Rightarrow> shm_sys \<Rightarrow> bool" where
  "contents l a P_start \<sigma> \<longleftrightarrow> written (cout \<sigma>) = [] \<and> rest (cin \<sigma>) \<noteq> [] \<and> take_line (MAXMESGDATA - 1) (rest (cin \<sigma>)) = l"
| "contents l a P_fill \<sigma> \<longleftrightarrow> written (cout \<sigma>) = [] \<and> rest (cin \<sigma>) \<noteq> [] \<and> take_line (MAXMESGDATA - 1) (rest (cin \<sigma>)) = l"
| "contents l a P_req \<sigma> \<longleftrightarrow> written (cout \<sigma>) = [] \<and> msg_is (request l) (mesg \<sigma>)"
| "contents l a P_asked \<sigma> \<longleftrightarrow> written (cout \<sigma>) = [] \<and> msg_is (request l) (mesg \<sigma>)"
| "contents l a P_open \<sigma> \<longleftrightarrow> written (cout \<sigma>) = [] \<and> msg_is (request l) (mesg \<sigma>)"
| "contents l a P_err \<sigma> \<longleftrightarrow> written (cout \<sigma>) = [] \<and> msg_is a (mesg \<sigma>) \<and> a \<noteq> []"
| "contents l a P_err_sent \<sigma> \<longleftrightarrow> written (cout \<sigma>) = [] \<and> msg_is a (mesg \<sigma>) \<and> a \<noteq> []"
| "contents l a P_err_got \<sigma> \<longleftrightarrow> written (cout \<sigma>) = [] \<and> msg_is a (mesg \<sigma>) \<and> a \<noteq> []"
| "contents l a P_err_out \<sigma> \<longleftrightarrow> written (cout \<sigma>) = a"
| "contents l a P_err_ack \<sigma> \<longleftrightarrow> written (cout \<sigma>) = a"
| "contents l a P_read \<sigma> \<longleftrightarrow> src_broken (filefd \<sigma>) = None \<and> written (cout \<sigma>) @ src_pending (filefd \<sigma>) = a"
| "contents l a P_data \<sigma> \<longleftrightarrow> src_broken (filefd \<sigma>) = None \<and>
     (\<exists>xs. xs \<noteq> [] \<and> msg_is xs (mesg \<sigma>) \<and> written (cout \<sigma>) @ xs @ src_pending (filefd \<sigma>) = a)"
| "contents l a P_sent \<sigma> \<longleftrightarrow> src_broken (filefd \<sigma>) = None \<and>
     (\<exists>xs. xs \<noteq> [] \<and> msg_is xs (mesg \<sigma>) \<and> written (cout \<sigma>) @ xs @ src_pending (filefd \<sigma>) = a)"
| "contents l a P_got \<sigma> \<longleftrightarrow> src_broken (filefd \<sigma>) = None \<and>
     (\<exists>xs. xs \<noteq> [] \<and> msg_is xs (mesg \<sigma>) \<and> written (cout \<sigma>) @ xs @ src_pending (filefd \<sigma>) = a)"
| "contents l a P_out \<sigma> \<longleftrightarrow> src_broken (filefd \<sigma>) = None \<and> written (cout \<sigma>) @ src_pending (filefd \<sigma>) = a"
| "contents l a P_ack \<sigma> \<longleftrightarrow> src_broken (filefd \<sigma>) = None \<and> written (cout \<sigma>) @ src_pending (filefd \<sigma>) = a"
| "contents l a P_end \<sigma> \<longleftrightarrow> written (cout \<sigma>) = a"
| "contents l a P_empty \<sigma> \<longleftrightarrow> written (cout \<sigma>) = a \<and> mesg_len (mesg \<sigma>) = 0"
| "contents l a P_end_sent \<sigma> \<longleftrightarrow> written (cout \<sigma>) = a \<and> mesg_len (mesg \<sigma>) = 0"
| "contents l a P_end_got \<sigma> \<longleftrightarrow> written (cout \<sigma>) = a \<and> mesg_len (mesg \<sigma>) = 0"
| "contents l a P_done \<sigma> \<longleftrightarrow> written (cout \<sigma>) = a"

fun steps_left :: "byte list \<Rightarrow> phase \<Rightarrow> source \<Rightarrow> nat" where
  "steps_left a P_start f = 24 + 8 * length a" | "steps_left a P_fill f = 23 + 8 * length a"
| "steps_left a P_req f = 22 + 8 * length a"   | "steps_left a P_asked f = 21 + 8 * length a"
| "steps_left a P_open f = 20 + 8 * length a"
| "steps_left a P_err f = 11" | "steps_left a P_err_sent f = 10" | "steps_left a P_err_got f = 9"
| "steps_left a P_err_out f = 8" | "steps_left a P_err_ack f = 7"
| "steps_left a P_read f = 6 + 8 * length (src_pending f)"  | "steps_left a P_data f = 11 + 8 * length (src_pending f)"
| "steps_left a P_sent f = 10 + 8 * length (src_pending f)" | "steps_left a P_got f = 9 + 8 * length (src_pending f)"
| "steps_left a P_out f = 8 + 8 * length (src_pending f)"   | "steps_left a P_ack f = 7 + 8 * length (src_pending f)"
| "steps_left a P_end f = 5" | "steps_left a P_empty f = 4" | "steps_left a P_end_sent f = 3"
| "steps_left a P_end_got f = 2" | "steps_left a P_done f = 0"

definition in_phase :: "nat \<Rightarrow> nat \<Rightarrow> byte list \<Rightarrow> byte list \<Rightarrow> phase \<Rightarrow> shm_sys \<Rightarrow> bool" where
  "in_phase c s l a ph \<sigma> \<longleftrightarrow>
     (case shape ph of (cp, sp, x, y) \<Rightarrow> cpc \<sigma> = cp \<and> spc \<sigma> = sp \<and> sem_vals (kern \<sigma>) c s x y) \<and>
     grants (cout \<sigma>) = [] \<and> length (mesg_data (mesg \<sigma>)) = MAXMESGDATA \<and> contents l a ph \<sigma>"

text \<open>Who moves next.\<close>

fun client_turn :: "phase \<Rightarrow> bool" where
  "client_turn P_asked = False" | "client_turn P_open = False" | "client_turn P_err = False"
| "client_turn P_err_ack = False" | "client_turn P_read = False" | "client_turn P_data = False"
| "client_turn P_ack = False" | "client_turn P_end = False" | "client_turn P_empty = False"
| "client_turn ph = True"

text \<open>A step into the phase \<open>ph'\<close> from \<open>ph\<close>.\<close>

definition advances :: "nat \<Rightarrow> nat \<Rightarrow> byte list \<Rightarrow> byte list \<Rightarrow> phase \<Rightarrow> shm_sys \<Rightarrow> shm_sys \<Rightarrow> bool" where
  "advances c s l a ph \<sigma> \<sigma>' \<longleftrightarrow>
     (\<exists>ph'. in_phase c s l a ph' \<sigma>' \<and> steps_left a ph' (filefd \<sigma>') < steps_left a ph (filefd \<sigma>))"

lemma advancesI:
  "in_phase c s l a ph' \<sigma>' \<Longrightarrow> steps_left a ph' (filefd \<sigma>') < steps_left a ph (filefd \<sigma>) \<Longrightarrow> advances c s l a ph \<sigma> \<sigma>'"
  by (auto simp: advances_def)

section \<open>Every step is the next step of the conversation\<close>

lemma cstr_poke_line:
  assumes "length l < length d"
  shows "cstr (poke d 0 (l @ [NUL])) = cstr l" "take (length (cstr l)) (poke d 0 (l @ [NUL])) = cstr l"
proof -
  have p: "poke d 0 (l @ [NUL]) = l @ NUL # drop (Suc (length l)) d" using assms by (simp add: poke_eq)
  have "takeWhile (\<lambda>c. c \<noteq> NUL) (l @ NUL # t) = takeWhile (\<lambda>c. c \<noteq> NUL) l" for t by (induction l) auto
  then show "cstr (poke d 0 (l @ [NUL])) = cstr l" by (simp add: p cstr_def)
  have "length (cstr l) \<le> length l" by (simp add: cstr_def length_takeWhile_le)
  then have "take (length (cstr l)) (l @ t) = take (length (cstr l)) l" for t by simp
  moreover have "take (length (cstr l)) l = cstr l" unfolding cstr_def by (metis takeWhile_eq_take)
  ultimately show "take (length (cstr l)) (poke d 0 (l @ [NUL])) = cstr l" unfolding p by metis
qed

lemma request_stored:
  assumes "length l < length d"
  defines "d' \<equiv> poke d 0 (l @ [NUL])"
  defines "n \<equiv> (if 0 < strlen d' \<and> d' ! (strlen d' - 1) = NL then strlen d' - 1 else strlen d')"
  shows "n = length (request l)" "take n d' = request l"
proof -
  let ?t = "cstr l"
  have s: "strlen d' = length ?t" and t: "take (length ?t) d' = ?t"
    using cstr_poke_line [OF assms(1)] by (simp_all add: strlen_def d'_def)
  have last: "d' ! (length ?t - 1) = last ?t" if "?t \<noteq> []"
    using that t by (metis One_nat_def diff_less last_conv_nth length_greater_0_conv nth_take zero_less_one)
  show n: "n = length (request l)"
    using last by (auto simp: n_def s request_def Let_def)
  show "take n d' = request l"
  proof (cases "?t \<noteq> [] \<and> last ?t = NL")
    case True
    then have "request l = butlast ?t" "n = length ?t - 1" using n by (simp_all add: request_def Let_def)
    then show ?thesis using t by (metis butlast_conv_take butlast_take diff_le_self take_take min.absorb1)
  next
    case False
    then have "request l = ?t" by (auto simp: request_def Let_def)
    then show ?thesis using n t by simp
  qed
qed

lemma request_no_NUL: "NUL \<notin> set (request l)" "length (request l) \<le> length l"
proof -
  have "length (cstr l) \<le> length l" by (simp add: cstr_def length_takeWhile_le)
  then show "length (request l) \<le> length l" by (auto simp: request_def Let_def)
  show "NUL \<notin> set (request l)"
    using NUL_notin_cstr [of l] by (auto simp: request_def Let_def dest: in_set_butlastD)
qed

lemma client_blocked:
  assumes "in_phase c s l a ph \<sigma>" "\<not> client_turn ph \<or> ph = P_done"
  shows "client c s \<sigma> = \<sigma>"
proof -
  have sleeps: "client c s \<sigma> = \<sigma>" if "cpc \<sigma> = Cwait" "sem_vals (kern \<sigma>) c s 0 y" "y \<le> SEMVMX" for y
    using sem_call_wait(1) [OF that(2), of cli "\<lambda>k. \<sigma>\<lparr>kern := k, cpc := Ctest\<rparr>" \<sigma> "client_dead \<sigma>"] that
    by (simp add: client_def SEMVMX_def)
  show ?thesis
    using assms sleeps [of 0] sleeps [of 1]
    by (cases ph) (auto simp: in_phase_def client_def SEMVMX_def)
qed

lemma server_blocked:
  assumes "in_phase c s l a ph \<sigma>" "client_turn ph"
  shows "server open_file errs c s \<sigma> = \<sigma>"
proof -
  have sleeps: "server open_file errs c s \<sigma> = \<sigma>"
    if "spc \<sigma> \<in> {Swait0, Sewait, Swait}" "sem_vals (kern \<sigma>) c s x 0" "x \<le> SEMVMX" for x
    using sem_call_wait(2) [OF that(2), of srv _ \<sigma> "server_dead Sdead \<sigma>"] that
    by (auto simp: server_def SEMVMX_def)
  show ?thesis
    using assms sleeps [of 0] sleeps [of 1]
    by (cases ph) (auto simp: in_phase_def server_def SEMVMX_def)
qed

lemma client_wait:
  assumes "sem_vals (kern \<sigma>) c s 1 y" "y \<le> SEMVMX"
  shows "cpc \<sigma> = Cwait0 \<Longrightarrow> \<exists>k. client c s \<sigma> = \<sigma>\<lparr>kern := k, cpc := Cfill\<rparr> \<and> sem_vals k c s 0 y"
    and "cpc \<sigma> = Cwait \<Longrightarrow> \<exists>k. client c s \<sigma> = \<sigma>\<lparr>kern := k, cpc := Ctest\<rparr> \<and> sem_vals k c s 0 y"
  using sem_call_wait(1) [OF assms(1), of cli _ \<sigma> "client_dead \<sigma>"] assms(2)
  by (auto simp: client_def SEMVMX_def)

lemma client_signal:
  assumes "sem_vals (kern \<sigma>) c s 0 0" "cpc \<sigma> \<in> {Csig0, Csig}"
  shows "\<exists>k. client c s \<sigma> = \<sigma>\<lparr>kern := k, cpc := Cwait\<rparr> \<and> sem_vals k c s 0 1"
  using sem_call_signal(2) [OF assms(1), of cli "\<lambda>k. \<sigma>\<lparr>kern := k, cpc := Cwait\<rparr>" \<sigma> "client_dead \<sigma>"] assms(2)
  by (auto simp: client_def SEMVMX_def)

lemma client_writes:
  assumes "cpc \<sigma> = Ctest" "msg_is xs (mesg \<sigma>)" "xs \<noteq> []" "grants (cout \<sigma>) = []"
  shows "client c s \<sigma> = \<sigma>\<lparr>cout := (cout \<sigma>)\<lparr>written := written (cout \<sigma>) @ xs\<rparr>, cpc := Csig\<rparr>"
  using assms by (simp add: client_def msg_is_def sys_write_def)

lemma client_fills:
  assumes "cpc \<sigma> = Cfill" "rest (cin \<sigma>) \<noteq> []" "take_line (MAXMESGDATA - 1) (rest (cin \<sigma>)) = l"
    "length (mesg_data (mesg \<sigma>)) = MAXMESGDATA"
  shows "\<exists>fp m. client c s \<sigma> = \<sigma>\<lparr>cin := fp, mesg := m, cpc := Csig0\<rparr> \<and> msg_is (request l) m \<and>
     length (mesg_data m) = MAXMESGDATA"
proof -
  have "length l \<le> MAXMESGDATA - 1" using length_take_line assms(3) by blast
  then have "length l < length (mesg_data (mesg \<sigma>))" using assms(4) by (simp add: MAXMESGDATA_def)
  note r = request_stored [OF this]
  let ?d = "poke (mesg_data (mesg \<sigma>)) 0 (l @ [NUL])"
  have "client c s \<sigma> = \<sigma>\<lparr>cin := (cin \<sigma>)\<lparr>rest := drop (length l) (rest (cin \<sigma>))\<rparr>,
      mesg := \<lparr>mesg_len = int (length (request l)), mesg_data = ?d\<rparr>, cpc := Csig0\<rparr>"
    using assms r(1) by (simp add: client_def fgets_def Let_def)
  moreover have "msg_is (request l) \<lparr>mesg_len = int (length (request l)), mesg_data = ?d\<rparr>"
    "length ?d = MAXMESGDATA"
    using r assms(4) by (simp_all add: msg_is_def)
  ultimately show ?thesis by (metis Mesg.select_convs(2))
qed

lemma client_advances:
  assumes "in_phase c s l a ph \<sigma>" "client_turn ph" "ph \<noteq> P_done"
  shows "advances c s l a ph \<sigma> (client c s \<sigma>)"
proof (cases ph)
  case P_start
  then obtain k where "client c s \<sigma> = \<sigma>\<lparr>kern := k, cpc := Cfill\<rparr>" "sem_vals k c s 0 0"
    using assms client_wait(1) [of \<sigma> c s 0] by (auto simp: in_phase_def SEMVMX_def)
  then show ?thesis
    by (intro advancesI [of _ _ _ _ P_fill]) (use assms P_start in \<open>auto simp: in_phase_def\<close>)
next
  case P_fill
  then obtain fp m where "client c s \<sigma> = \<sigma>\<lparr>cin := fp, mesg := m, cpc := Csig0\<rparr>" "msg_is (request l) m"
    "length (mesg_data m) = MAXMESGDATA"
    using assms client_fills [of \<sigma> l c s] by (auto simp: in_phase_def)
  then show ?thesis
    by (intro advancesI [of _ _ _ _ P_req]) (use assms P_fill in \<open>auto simp: in_phase_def\<close>)
next
  case P_req
  then obtain k where "client c s \<sigma> = \<sigma>\<lparr>kern := k, cpc := Cwait\<rparr>" "sem_vals k c s 0 1"
    using assms client_signal [of \<sigma> c s] by (auto simp: in_phase_def)
  then show ?thesis
    by (intro advancesI [of _ _ _ _ P_asked]) (use assms P_req in \<open>auto simp: in_phase_def\<close>)
next
  case P_err_sent
  then obtain k where "client c s \<sigma> = \<sigma>\<lparr>kern := k, cpc := Ctest\<rparr>" "sem_vals k c s 0 0"
    using assms client_wait(2) [of \<sigma> c s 0] by (auto simp: in_phase_def SEMVMX_def)
  then show ?thesis
    by (intro advancesI [of _ _ _ _ P_err_got]) (use assms P_err_sent in \<open>auto simp: in_phase_def\<close>)
next
  case P_err_got
  then show ?thesis
    using assms client_writes [of \<sigma> a c s]
    by (intro advancesI [of _ _ _ _ P_err_out]) (auto simp: in_phase_def)
next
  case P_err_out
  then obtain k where "client c s \<sigma> = \<sigma>\<lparr>kern := k, cpc := Cwait\<rparr>" "sem_vals k c s 0 1"
    using assms client_signal [of \<sigma> c s] by (auto simp: in_phase_def)
  then show ?thesis
    by (intro advancesI [of _ _ _ _ P_err_ack]) (use assms P_err_out in \<open>auto simp: in_phase_def\<close>)
next
  case P_sent
  then obtain k where "client c s \<sigma> = \<sigma>\<lparr>kern := k, cpc := Ctest\<rparr>" "sem_vals k c s 0 0"
    using assms client_wait(2) [of \<sigma> c s 0] by (auto simp: in_phase_def SEMVMX_def)
  then show ?thesis
    by (intro advancesI [of _ _ _ _ P_got]) (use assms P_sent in \<open>auto simp: in_phase_def\<close>)
next
  case P_got
  then obtain xs where xs: "xs \<noteq> []" "msg_is xs (mesg \<sigma>)" "written (cout \<sigma>) @ xs @ src_pending (filefd \<sigma>) = a"
    using assms by (auto simp: in_phase_def)
  with P_got show ?thesis
    using assms client_writes [of \<sigma> xs c s]
    by (intro advancesI [of _ _ _ _ P_out]) (auto simp: in_phase_def)
next
  case P_out
  then obtain k where "client c s \<sigma> = \<sigma>\<lparr>kern := k, cpc := Cwait\<rparr>" "sem_vals k c s 0 1"
    using assms client_signal [of \<sigma> c s] by (auto simp: in_phase_def)
  then show ?thesis
    by (intro advancesI [of _ _ _ _ P_ack]) (use assms P_out in \<open>auto simp: in_phase_def\<close>)
next
  case P_end_sent
  then obtain k where "client c s \<sigma> = \<sigma>\<lparr>kern := k, cpc := Ctest\<rparr>" "sem_vals k c s 0 0"
    using assms client_wait(2) [of \<sigma> c s 0] by (auto simp: in_phase_def SEMVMX_def)
  then show ?thesis
    by (intro advancesI [of _ _ _ _ P_end_got]) (use assms P_end_sent in \<open>auto simp: in_phase_def\<close>)
next
  case P_end_got
  then have "client c s \<sigma> = \<sigma>\<lparr>cpc := Creturned\<rparr>"
    using assms by (auto simp: in_phase_def client_def)
  then show ?thesis
    by (intro advancesI [of _ _ _ _ P_done]) (use assms P_end_got in \<open>auto simp: in_phase_def\<close>)
qed (use assms in simp_all)

lemma server_wait:
  assumes "sem_vals (kern \<sigma>) c s 0 1"
  shows "spc \<sigma> = Swait0 \<Longrightarrow> \<exists>k. server op errs c s \<sigma> = \<sigma>\<lparr>kern := k, spc := Sopen\<rparr> \<and> sem_vals k c s 0 0"
    and "spc \<sigma> = Sewait \<Longrightarrow> \<exists>k. server op errs c s \<sigma> = \<sigma>\<lparr>kern := k, spc := Send\<rparr> \<and> sem_vals k c s 0 0"
    and "spc \<sigma> = Swait \<Longrightarrow> \<exists>k. server op errs c s \<sigma> = \<sigma>\<lparr>kern := k, spc := Sread\<rparr> \<and> sem_vals k c s 0 0"
  using sem_call_wait(2) [OF assms(1), of srv _ \<sigma> "server_dead Sdead \<sigma>"]
  by (auto simp: server_def SEMVMX_def)

lemma server_signal:
  assumes "sem_vals (kern \<sigma>) c s 0 0"
  shows "spc \<sigma> = Sesig \<Longrightarrow> \<exists>k. server op errs c s \<sigma> = \<sigma>\<lparr>kern := k, spc := Sewait\<rparr> \<and> sem_vals k c s 1 0"
    and "spc \<sigma> = Ssig \<Longrightarrow> \<exists>k. server op errs c s \<sigma> = \<sigma>\<lparr>kern := k, spc := Swait\<rparr> \<and> sem_vals k c s 1 0"
    and "spc \<sigma> = Sendsig \<Longrightarrow> \<exists>k. server op errs c s \<sigma> = \<sigma>\<lparr>kern := k, spc := Sreturned\<rparr> \<and> sem_vals k c s 1 0"
  using sem_call_signal(1) [OF assms(1), of srv _ \<sigma> "server_dead Sdead \<sigma>"]
  by (auto simp: server_def SEMVMX_def)

text \<open>The name with its NUL, and the error message after it.\<close>

lemma name_stored:
  assumes "msg_is nm m" "length (mesg_data m) = MAXMESGDATA" "length nm < MAXMESGDATA" "NUL \<notin> set nm"
  shows "cstr ((mesg_data m)[nat (mesg_len m) := NUL]) = nm"
proof -
  have "drop (length nm) (mesg_data m) \<noteq> []" using assms(2,3) by simp
  then obtain x t where "drop (length nm) (mesg_data m) = x # t" by (cases "drop (length nm) (mesg_data m)") auto
  then have "mesg_data m = nm @ x # t" "mesg_len m = int (length nm)"
    using assms(1) unfolding msg_is_def by (metis append_take_drop_id, simp)
  then show ?thesis using assms(4) by simp
qed

definition file_ok :: "(byte list \<Rightarrow> errno + source) \<Rightarrow> (errno \<Rightarrow> byte list) \<Rightarrow> byte list \<Rightarrow> bool" where
  "file_ok open_file sys_errlist name \<longleftrightarrow>
     (case open_file name of
        Inl e \<Rightarrow> NUL \<notin> set (sys_errlist e) \<and> length (sys_err_str sys_errlist e) < 200 \<and>
          length (name @ errmesg sys_errlist e) < MAXMESGDATA
      | Inr f \<Rightarrow> src_broken f = None)"

lemma server_opens:
  assumes "spc \<sigma> = Sopen" "msg_is nm (mesg \<sigma>)" "length (mesg_data (mesg \<sigma>)) = MAXMESGDATA"
    "length nm < MAXMESGDATA" "NUL \<notin> set nm" "file_ok open_file errs nm" "a = shm_answer open_file errs nm"
  shows "(\<exists>m. server open_file errs c s \<sigma> = \<sigma>\<lparr>mesg := m, spc := Sesig\<rparr> \<and> msg_is a m \<and> a \<noteq> [] \<and>
            length (mesg_data m) = MAXMESGDATA) \<or>
         (\<exists>m f. server open_file errs c s \<sigma> = \<sigma>\<lparr>mesg := m, filefd := f, spc := Sread\<rparr> \<and>
            length (mesg_data m) = MAXMESGDATA \<and> src_broken f = None \<and> src_pending f = a)"
proof -
  let ?d = "(mesg_data (mesg \<sigma>))[nat (mesg_len (mesg \<sigma>)) := NUL]"
  have nm: "cstr ?d = nm" using name_stored [OF assms(2,3,4,5)] .
  show ?thesis
  proof (cases "open_file nm")
    case (Inl e)
    let ?m = "errmesg errs e" and ?e = "poke ?d (strlen ?d) (errmesg errs e @ [NUL])"
    have fit: "length (nm @ ?m) < MAXMESGDATA" "NUL \<notin> set ?m" "length (sys_err_str errs e) < 200" and a: "a = nm @ ?m"
      using assms(6,7) Inl by (auto simp: file_ok_def shm_answer_def errmesg_def sys_err_str_def)
    have tk: "take (length nm) ?d = nm" using nm by (metis cstr_def takeWhile_eq_take)
    have e: "?e = a @ NUL # drop (Suc (length a)) ?d"
      using fit(1) assms(3) nm tk by (simp add: a strlen_def poke_eq)
    have "NUL \<notin> set a" using assms(5) fit(2) by (simp add: a)
    then have "strlen ?e = length a" unfolding e by (rule strlen_append_NUL)
    moreover have "take (length a) ?e = a" unfolding e by simp
    moreover have "\<not> (200 \<le> length (sys_err_str errs e) \<or> 256 \<le> length ?m \<or> MAXMESGDATA \<le> length (nm @ ?m))"
      using fit by (simp add: errmesg_def)
    ultimately have "server open_file errs c s \<sigma> = \<sigma>\<lparr>mesg := \<lparr>mesg_len = int (length a), mesg_data = ?e\<rparr>, spc := Sesig\<rparr> \<and>
        msg_is a \<lparr>mesg_len = int (length a), mesg_data = ?e\<rparr> \<and> a \<noteq> [] \<and> length ?e = MAXMESGDATA"
      using assms(1,3) Inl nm by (simp add: server_def Let_def msg_is_def a errmesg_def)
    then show ?thesis by (metis Mesg.select_convs(2))
  next
    case (Inr f)
    have "server open_file errs c s \<sigma> = \<sigma>\<lparr>mesg := (mesg \<sigma>)\<lparr>mesg_data := ?d\<rparr>, filefd := f, spc := Sread\<rparr>"
      using assms(1) Inr nm by (simp add: server_def Let_def)
    moreover have "length (mesg_data ((mesg \<sigma>)\<lparr>mesg_data := ?d\<rparr>)) = MAXMESGDATA" "src_broken f = None" "src_pending f = a"
      using assms(3,6,7) Inr by (simp_all add: file_ok_def shm_answer_def)
    ultimately show ?thesis by blast
  qed
qed

lemma server_reads:
  assumes "spc \<sigma> = Sread" "src_broken (filefd \<sigma>) = None" "length (mesg_data (mesg \<sigma>)) = MAXMESGDATA"
  shows "if src_pending (filefd \<sigma>) = [] then \<exists>f. server op errs c s \<sigma> = \<sigma>\<lparr>filefd := f, spc := Send\<rparr>
         else \<exists>xs f m. server op errs c s \<sigma> = \<sigma>\<lparr>filefd := f, spc := Ssig, mesg := m\<rparr> \<and> xs \<noteq> [] \<and> msg_is xs m \<and>
           length (mesg_data m) = MAXMESGDATA \<and> src_broken f = None \<and> src_pending (filefd \<sigma>) = xs @ src_pending f"
proof (cases "src_pending (filefd \<sigma>) = []")
  case True
  then obtain f where "sys_read (filefd \<sigma>) (MAXMESGDATA - 1) = (Inr [], f)"
    using sys_read_eof assms(2) by blast
  then show ?thesis using True assms(1) by (auto simp: server_def)
next
  case False
  have "0 < MAXMESGDATA - 1" by (simp add: MAXMESGDATA_def)
  then obtain xs f where r: "sys_read (filefd \<sigma>) (MAXMESGDATA - 1) = (Inr xs, f)" "xs \<noteq> []" "length xs \<le> MAXMESGDATA - 1"
    "src_pending (filefd \<sigma>) = xs @ src_pending f" "src_broken f = src_broken (filefd \<sigma>)"
    using sys_read_some [OF False] by blast
  let ?m = "\<lparr>mesg_len = int (length xs), mesg_data = poke (mesg_data (mesg \<sigma>)) 0 xs\<rparr>"
  have "server op errs c s \<sigma> = \<sigma>\<lparr>filefd := f, spc := Ssig, mesg := ?m\<rparr>" "msg_is xs ?m" "length (mesg_data ?m) = MAXMESGDATA"
    using r(1-3) assms(1,3) by (simp_all add: server_def msg_is_def take_poke)
  then have "\<exists>xs f m. server op errs c s \<sigma> = \<sigma>\<lparr>filefd := f, spc := Ssig, mesg := m\<rparr> \<and> xs \<noteq> [] \<and> msg_is xs m \<and>
      length (mesg_data m) = MAXMESGDATA \<and> src_broken f = None \<and> src_pending (filefd \<sigma>) = xs @ src_pending f"
    using r(2,4,5) assms(2) by metis
  then show ?thesis using False by simp
qed

lemma server_advances_open:
  assumes "in_phase c s l a P_open \<sigma>" "length l < MAXMESGDATA"
    "file_ok open_file errs (request l)" "a = shm_answer open_file errs (request l)"
  shows "advances c s l a P_open \<sigma> (server open_file errs c s \<sigma>)"
proof -
  have rq: "length (request l) < MAXMESGDATA" "NUL \<notin> set (request l)"
    using request_no_NUL [of l] assms(2) by simp_all
  have \<sigma>: "spc \<sigma> = Sopen" "msg_is (request l) (mesg \<sigma>)" "length (mesg_data (mesg \<sigma>)) = MAXMESGDATA"
    using assms(1) by (simp_all add: in_phase_def)
  from server_opens [OF \<sigma> rq assms(3,4), of c s] show ?thesis
  proof (elim disjE exE conjE)
    fix m
    assume m: "server open_file errs c s \<sigma> = \<sigma>\<lparr>mesg := m, spc := Sesig\<rparr>" "msg_is a m" "a \<noteq> []"
      "length (mesg_data m) = MAXMESGDATA"
    show ?thesis
      by (intro advancesI [of _ _ _ _ P_err]) (use assms(1) m in \<open>auto simp: in_phase_def\<close>)
  next
    fix m f
    assume m: "server open_file errs c s \<sigma> = \<sigma>\<lparr>mesg := m, filefd := f, spc := Sread\<rparr>"
      "length (mesg_data m) = MAXMESGDATA" "src_broken f = None" "src_pending f = a"
    show ?thesis
      by (intro advancesI [of _ _ _ _ P_read]) (use assms(1) m in \<open>auto simp: in_phase_def\<close>)
  qed
qed

lemma server_advances_read:
  assumes "in_phase c s l a P_read \<sigma>"
  shows "advances c s l a P_read \<sigma> (server open_file errs c s \<sigma>)"
proof -
  have \<sigma>: "spc \<sigma> = Sread" "src_broken (filefd \<sigma>) = None" "length (mesg_data (mesg \<sigma>)) = MAXMESGDATA"
    using assms(1) by (simp_all add: in_phase_def)
  note rd = server_reads [OF \<sigma>, of open_file errs c s]
  show ?thesis
  proof (cases "src_pending (filefd \<sigma>) = []")
    case True
    then obtain f where "server open_file errs c s \<sigma> = \<sigma>\<lparr>filefd := f, spc := Send\<rparr>" using rd by auto
    then show ?thesis
      by (intro advancesI [of _ _ _ _ P_end]) (use assms(1) True in \<open>auto simp: in_phase_def\<close>)
  next
    case False
    then obtain xs f m where m: "server open_file errs c s \<sigma> = \<sigma>\<lparr>filefd := f, spc := Ssig, mesg := m\<rparr>" "xs \<noteq> []" "msg_is xs m"
      "length (mesg_data m) = MAXMESGDATA" "src_broken f = None" "src_pending (filefd \<sigma>) = xs @ src_pending f"
      using rd by auto
    then have "1 \<le> length xs" by (cases xs) auto
    then show ?thesis
      by (intro advancesI [of _ _ _ _ P_data]) (use assms(1) m in \<open>auto simp: in_phase_def\<close>)
  qed
qed

lemma server_advances:
  assumes "in_phase c s l a ph \<sigma>" "\<not> client_turn ph" "length l < MAXMESGDATA"
    "file_ok open_file errs (request l)" "a = shm_answer open_file errs (request l)"
  shows "advances c s l a ph \<sigma> (server open_file errs c s \<sigma>)"
proof (cases ph)
  case P_asked
  then obtain k where "server open_file errs c s \<sigma> = \<sigma>\<lparr>kern := k, spc := Sopen\<rparr>" "sem_vals k c s 0 0"
    using assms server_wait(1) [of \<sigma> c s] by (auto simp: in_phase_def)
  then show ?thesis
    by (intro advancesI [of _ _ _ _ P_open]) (use assms P_asked in \<open>auto simp: in_phase_def\<close>)
next
  case P_open
  then show ?thesis using server_advances_open assms(1,3-5) by blast
next
  case P_err
  then obtain k where "server open_file errs c s \<sigma> = \<sigma>\<lparr>kern := k, spc := Sewait\<rparr>" "sem_vals k c s 1 0"
    using assms server_signal(1) [of \<sigma> c s] by (auto simp: in_phase_def)
  then show ?thesis
    by (intro advancesI [of _ _ _ _ P_err_sent]) (use assms P_err in \<open>auto simp: in_phase_def\<close>)
next
  case P_err_ack
  then obtain k where "server open_file errs c s \<sigma> = \<sigma>\<lparr>kern := k, spc := Send\<rparr>" "sem_vals k c s 0 0"
    using assms server_wait(2) [of \<sigma> c s] by (auto simp: in_phase_def)
  then show ?thesis
    by (intro advancesI [of _ _ _ _ P_end]) (use assms P_err_ack in \<open>auto simp: in_phase_def\<close>)
next
  case P_read
  then show ?thesis using server_advances_read assms(1) by blast
next
  case P_data
  then obtain k where "server open_file errs c s \<sigma> = \<sigma>\<lparr>kern := k, spc := Swait\<rparr>" "sem_vals k c s 1 0"
    using assms server_signal(2) [of \<sigma> c s] by (auto simp: in_phase_def)
  then show ?thesis
    by (intro advancesI [of _ _ _ _ P_sent]) (use assms P_data in \<open>auto simp: in_phase_def\<close>)
next
  case P_ack
  then obtain k where "server open_file errs c s \<sigma> = \<sigma>\<lparr>kern := k, spc := Sread\<rparr>" "sem_vals k c s 0 0"
    using assms server_wait(3) [of \<sigma> c s] by (auto simp: in_phase_def)
  then show ?thesis
    by (intro advancesI [of _ _ _ _ P_read]) (use assms P_ack in \<open>auto simp: in_phase_def\<close>)
next
  case P_end
  then have "server open_file errs c s \<sigma> = \<sigma>\<lparr>mesg := (mesg \<sigma>)\<lparr>mesg_len := 0\<rparr>, spc := Sendsig\<rparr>"
    using assms by (auto simp: in_phase_def server_def)
  then show ?thesis
    by (intro advancesI [of _ _ _ _ P_empty]) (use assms(1) P_end in \<open>auto simp: in_phase_def\<close>)
next
  case P_empty
  then obtain k where "server open_file errs c s \<sigma> = \<sigma>\<lparr>kern := k, spc := Sreturned\<rparr>" "sem_vals k c s 1 0"
    using assms server_signal(3) [of \<sigma> c s] by (auto simp: in_phase_def)
  then show ?thesis
    by (intro advancesI [of _ _ _ _ P_end_sent]) (use assms P_empty in \<open>auto simp: in_phase_def\<close>)
qed (use assms in simp_all)

section \<open>The two processes together\<close>

text \<open>A schedule lists who makes the next call.  When \<open>server\<close> has returned, \<open>main\<close> detaches the segment, closes the
  semaphores and exits at any time; of the first members of the two sets only the exit changes anything, by the
  adjustments of \<open>SEM_UNDO\<close>.\<close>

datatype shm_move = Client_calls | Server_calls | Server_exits

definition server_leaves :: "shm_sys \<Rightarrow> shm_sys" where
  "server_leaves \<sigma> = (if spc \<sigma> = Sreturned then server_dead Sgone \<sigma> else \<sigma>)"

definition shm_step ::
  "(byte list \<Rightarrow> errno + source) \<Rightarrow> (errno \<Rightarrow> byte list) \<Rightarrow> nat \<Rightarrow> nat \<Rightarrow> shm_move \<Rightarrow> shm_sys \<Rightarrow> shm_sys"
where
  "shm_step open_file sys_errlist c s move \<sigma> =
     (case move of
        Client_calls \<Rightarrow> client c s \<sigma>
      | Server_calls \<Rightarrow> server open_file sys_errlist c s \<sigma>
      | Server_exits \<Rightarrow> server_leaves \<sigma>)"

text \<open>What the exit of the server would undo of \<open>clisem\<close>: it only ever signals it.\<close>

definition undo_ok :: "nat \<Rightarrow> shm_sys \<Rightarrow> bool" where
  "undo_ok c \<sigma> \<longleftrightarrow> (\<forall>C. sem_sets (kern \<sigma>) c = Some C \<longrightarrow> adj C srv 0 \<le> (if spc \<sigma> = Sreturned then - 1 else 0))"

lemma sem_op_undo:
  "sem_op p i v k = Done k' \<Longrightarrow> sem_sets k' c = Some C' \<Longrightarrow>
     \<exists>C. sem_sets k c = Some C \<and> adj C' q 0 = adj C q 0 - (if q = p \<and> i = c then v else 0)"
  by (auto simp: sem_op_def semop_def op_op_def sop_def Let_def split: if_splits option.splits sem_verdict.splits)

lemma sem_call_cases:
  "(\<And>k. v = Done k \<Longrightarrow> Q (go k)) \<Longrightarrow> Q asleep \<Longrightarrow> Q dead \<Longrightarrow> Q (sem_call v go asleep dead)"
  by (cases v) (simp_all add: sem_call_def)

lemma undo_client_dead: "undo_ok c \<sigma> \<Longrightarrow> spc \<tau> = spc \<sigma> \<Longrightarrow> kern \<tau> = kern \<sigma> \<Longrightarrow> undo_ok c (client_dead \<tau>)"
  by (auto simp: undo_ok_def client_dead_def sem_exit_def set_exit_def)

lemma undo_server_dead: "how \<noteq> Sreturned \<Longrightarrow> undo_ok c (server_dead how \<sigma>)"
  by (auto simp: undo_ok_def server_dead_def sem_exit_def set_exit_def)

lemma undo_client_op:
  "undo_ok c \<sigma> \<Longrightarrow> sem_op cli i v (kern \<sigma>) = Done k \<Longrightarrow> undo_ok c (\<sigma>\<lparr>kern := k, cpc := pc\<rparr>)"
  using sem_op_undo [of cli i v "kern \<sigma>" k c _ srv] by (fastforce simp: undo_ok_def)

lemma undo_client:
  assumes "undo_ok c \<sigma>"
  shows "undo_ok c (client c s \<sigma>)"
proof -
  have same: "undo_ok c \<tau>" if "kern \<tau> = kern \<sigma>" "spc \<tau> = spc \<sigma>" for \<tau>
    using assms that by (simp add: undo_ok_def)
  have call: "undo_ok c (sem_call (sem_op cli i v (kern \<sigma>)) (\<lambda>k. \<sigma>\<lparr>kern := k, cpc := pc\<rparr>) \<sigma> (client_dead \<sigma>))" for i v pc
    by (rule sem_call_cases) (use assms undo_client_op undo_client_dead in auto)
  show ?thesis
  proof (cases "cpc \<sigma>")
    case Cfill
    then show ?thesis
      using undo_client_dead [OF assms] same by (simp add: client_def Let_def split: prod.split option.split)
  next
    case Ctest
    then show ?thesis
      using undo_client_dead [OF assms] same
      by (simp add: client_def Let_def split: prod.split sum.split)
  qed (use call same in \<open>simp_all add: client_def sem_wait_def sem_signal_def\<close>)
qed

lemma undo_server:
  assumes "undo_ok c \<sigma>" "c \<noteq> s"
  shows "undo_ok c (server open_file errs c s \<sigma>)"
proof -
  have same: "undo_ok c \<tau>" if "kern \<tau> = kern \<sigma>" "spc \<tau> \<noteq> Sreturned" for \<tau>
    using assms that by (fastforce simp: undo_ok_def split: if_splits)
  have dead: "undo_ok c (server_dead Sdead \<tau>)" "undo_ok c (server_dead Skilled \<tau>)" for \<tau>
    by (rule undo_server_dead; simp)+
  have wait: "undo_ok c (sem_call (sem_wait srv s (kern \<sigma>)) (\<lambda>k. \<sigma>\<lparr>kern := k, spc := pc\<rparr>) \<sigma> (server_dead Sdead \<sigma>))"
    if "pc \<noteq> Sreturned" for pc
  proof (rule sem_call_cases)
    fix k assume "sem_wait srv s (kern \<sigma>) = Done k"
    then show "undo_ok c (\<sigma>\<lparr>kern := k, spc := pc\<rparr>)"
      using sem_op_undo [of srv s "- 1" "kern \<sigma>" k c _ srv] assms that
      by (fastforce simp: undo_ok_def sem_wait_def split: if_splits)
  qed (use assms dead in auto)
  have signal: "undo_ok c (sem_call (sem_signal srv c (kern \<sigma>)) (\<lambda>k. \<sigma>\<lparr>kern := k, spc := pc\<rparr>) \<sigma> (server_dead Sdead \<sigma>))" for pc
  proof (rule sem_call_cases)
    fix k assume "sem_signal srv c (kern \<sigma>) = Done k"
    then show "undo_ok c (\<sigma>\<lparr>kern := k, spc := pc\<rparr>)"
      using sem_op_undo [of srv c 1 "kern \<sigma>" k c _ srv] assms(1)
      by (fastforce simp: undo_ok_def sem_signal_def split: if_splits)
  qed (use assms dead in auto)
  show ?thesis
  proof (cases "spc \<sigma>")
    case Sopen
    then show ?thesis using same dead by (simp add: server_def Let_def split: sum.split)
  next
    case Sread
    then show ?thesis using same dead by (simp add: server_def split: prod.split sum.split)
  qed (use wait signal same assms(1) in \<open>simp_all add: server_def\<close>)
qed

text \<open>After the server's exit everything is printed; a client that still has to wait sleeps for ever.\<close>

definition after_exit :: "nat \<Rightarrow> byte list \<Rightarrow> shm_sys \<Rightarrow> bool" where
  "after_exit c a \<sigma> \<longleftrightarrow> spc \<sigma> = Sgone \<and> written (cout \<sigma>) = a \<and>
     (cpc \<sigma> = Cwait \<and> (\<exists>C. sem_sets (kern \<sigma>) c = Some C \<and> length (vals C) = 3 \<and> vals C ! 0 = 0) \<or>
      cpc \<sigma> = Ctest \<and> mesg_len (mesg \<sigma>) = 0 \<or> cpc \<sigma> = Creturned)"

lemma exit_reached:
  assumes "in_phase c s l a ph \<sigma>" "undo_ok c \<sigma>" "spc \<sigma> = Sreturned"
  shows "after_exit c a (server_leaves \<sigma>)"
proof -
  have up: "[0..<3] = [0, 1, 2]" by (simp add: upt_rec)
  have e: "sem_sets (kern (server_leaves \<sigma>)) c = map_option (set_exit srv) (sem_sets (kern \<sigma>) c)"
    using assms(3) by (simp add: server_leaves_def server_dead_def sem_exit_def)
  have "\<exists>C. sem_sets (kern (server_leaves \<sigma>)) c = Some C \<and> length (vals C) = 3 \<and> vals C ! 0 = 0" if "ph = P_end_sent"
  proof -
    have "sem_vals (kern \<sigma>) c s 1 0" using assms(1) that by (simp add: in_phase_def)
    then obtain C where "sem_sets (kern \<sigma>) c = Some C" "length (vals C) = 3" "vals C ! 0 = 1"
      by (auto simp: sem_vals_def)
    moreover from this(1) have "adj C srv 0 \<le> - 1" using assms(2,3) by (simp add: undo_ok_def)
    ultimately show ?thesis using e by (simp add: set_exit_def up)
  qed
  then show ?thesis
    using assms(1,3) by (cases ph) (auto simp: in_phase_def after_exit_def server_leaves_def server_dead_def)
qed

lemma after_exit_step:
  assumes "after_exit c a \<sigma>"
  shows "shm_step open_file errs c s move \<sigma> =
     (if cpc \<sigma> = Ctest \<and> move = Client_calls then \<sigma>\<lparr>cpc := Creturned\<rparr> else \<sigma>)"
proof -
  have "client c s \<sigma> = \<sigma>" if "cpc \<sigma> = Cwait"
  proof -
    have "sem_wait cli c (kern \<sigma>) = Sleep" using assms that by (auto simp: after_exit_def sem_wait_def sem_op_vals)
    then show ?thesis using that by (simp add: client_def sem_call_def)
  qed
  moreover have "cpc \<sigma> \<in> {Cwait, Ctest, Creturned}" "spc \<sigma> = Sgone" "cpc \<sigma> = Ctest \<Longrightarrow> mesg_len (mesg \<sigma>) = 0"
    using assms by (auto simp: after_exit_def)
  ultimately show ?thesis by (cases move) (auto simp: shm_step_def server_leaves_def server_def client_def)
qed

lemma after_exit_run:
  "after_exit c a \<sigma> \<Longrightarrow> after_exit c a (fold (shm_step open_file errs c s) sched \<sigma>) \<and>
     (cpc \<sigma> = Cwait \<longrightarrow> fold (shm_step open_file errs c s) sched \<sigma> = \<sigma>)"
proof (induction sched arbitrary: \<sigma>)
  case (Cons move sched)
  have "after_exit c a (shm_step open_file errs c s move \<sigma>)"
    using Cons.prems after_exit_step [OF Cons.prems] by (auto simp: after_exit_def)
  then show ?case using Cons.IH [of "shm_step open_file errs c s move \<sigma>"] after_exit_step [OF Cons.prems] by auto
qed simp

lemma in_phase_distinct: "in_phase c s l a ph \<sigma> \<Longrightarrow> c \<noteq> s"
  by (auto simp: in_phase_def sem_vals_def split: prod.splits)

lemma in_phase_here: "in_phase c s l a ph \<sigma> \<Longrightarrow> spc \<sigma> \<noteq> Sgone"
  by (cases ph) (auto simp: in_phase_def)

definition mover :: "phase \<Rightarrow> shm_move" where
  "mover ph = (if client_turn ph then Client_calls else Server_calls)"

lemma shm_step_phase:
  assumes "in_phase c s l a ph \<sigma>" "undo_ok c \<sigma>" "length l < MAXMESGDATA"
    "file_ok open_file errs (request l)" "a = shm_answer open_file errs (request l)"
  shows "shm_step open_file errs c s move \<sigma> = \<sigma> \<or> advances c s l a ph \<sigma> (shm_step open_file errs c s move \<sigma>) \<or>
      after_exit c a (shm_step open_file errs c s move \<sigma>)"
    and "ph \<noteq> P_done \<Longrightarrow> advances c s l a ph \<sigma> (shm_step open_file errs c s (mover ph) \<sigma>)"
    and "move \<noteq> Server_exits \<Longrightarrow> undo_ok c (shm_step open_file errs c s move \<sigma>)"
proof -
  show "shm_step open_file errs c s move \<sigma> = \<sigma> \<or> advances c s l a ph \<sigma> (shm_step open_file errs c s move \<sigma>) \<or>
      after_exit c a (shm_step open_file errs c s move \<sigma>)"
    using client_blocked [OF assms(1)] server_blocked [OF assms(1), of open_file errs] exit_reached [OF assms(1,2)]
      client_advances [OF assms(1)] server_advances [OF assms(1) _ assms(3-5)]
    by (cases move; auto simp: shm_step_def server_leaves_def)
  show "ph \<noteq> P_done \<Longrightarrow> advances c s l a ph \<sigma> (shm_step open_file errs c s (mover ph) \<sigma>)"
    using client_advances [OF assms(1)] server_advances [OF assms(1) _ assms(3-5)] by (auto simp: shm_step_def mover_def)
  show "move \<noteq> Server_exits \<Longrightarrow> undo_ok c (shm_step open_file errs c s move \<sigma>)"
    using undo_client [OF assms(2)] undo_server [OF assms(2) in_phase_distinct [OF assms(1)]]
    by (cases move) (simp_all add: shm_step_def)
qed

lemma shm_run_phase:
  assumes "in_phase c s l a ph \<sigma>" "undo_ok c \<sigma>" "length l < MAXMESGDATA"
    "file_ok open_file errs (request l)" "a = shm_answer open_file errs (request l)"
  shows "(\<exists>ph'. in_phase c s l a ph' (fold (shm_step open_file errs c s) sched \<sigma>) \<and>
            undo_ok c (fold (shm_step open_file errs c s) sched \<sigma>) \<and>
            steps_left a ph' (filefd (fold (shm_step open_file errs c s) sched \<sigma>)) \<le> steps_left a ph (filefd \<sigma>)) \<or>
         after_exit c a (fold (shm_step open_file errs c s) sched \<sigma>)"
  using assms(1,2)
proof (induction sched arbitrary: ph \<sigma>)
  case (Cons move sched)
  let ?\<tau> = "shm_step open_file errs c s move \<sigma>"
  show ?case
  proof (cases "after_exit c a ?\<tau>")
    case True
    then show ?thesis using after_exit_run by simp
  next
    case False
    note st = shm_step_phase [OF Cons.prems assms(3-5)]
    obtain ph1 where 1: "in_phase c s l a ph1 ?\<tau>" "steps_left a ph1 (filefd ?\<tau>) \<le> steps_left a ph (filefd \<sigma>)"
      using st(1) [of move] False Cons.prems(1) by (auto simp: advances_def dest: less_imp_le)
    have "undo_ok c ?\<tau>"
    proof (cases "move = Server_exits")
      case True
      have "?\<tau> = \<sigma>"
        using False exit_reached [OF Cons.prems] by (auto simp: True shm_step_def server_leaves_def)
      then show ?thesis using Cons.prems(2) by simp
    qed (use st(3) [of move] in blast)
    from Cons.IH [OF 1(1) this] 1(2) show ?thesis by (fastforce intro: order_trans)
  qed
qed auto

lemma shm_can_finish:
  assumes "in_phase c s l a ph \<sigma>" "undo_ok c \<sigma>" "length l < MAXMESGDATA"
    "file_ok open_file errs (request l)" "a = shm_answer open_file errs (request l)"
  shows "\<exists>sched. length sched \<le> steps_left a ph (filefd \<sigma>) \<and> Server_exits \<notin> set sched \<and>
           in_phase c s l a P_done (fold (shm_step open_file errs c s) sched \<sigma>)"
  using assms(1,2)
proof (induction "steps_left a ph (filefd \<sigma>)" arbitrary: ph \<sigma> rule: less_induct)
  case less
  show ?case
  proof (cases "ph = P_done")
    case True
    then show ?thesis using less.prems by (intro exI [of _ "[]"]) simp
  next
    case False
    let ?\<tau> = "shm_step open_file errs c s (mover ph) \<sigma>"
    note st = shm_step_phase [OF less.prems assms(3-5)]
    have m: "mover ph \<noteq> Server_exits" by (simp add: mover_def)
    obtain ph' where ph': "in_phase c s l a ph' ?\<tau>" "steps_left a ph' (filefd ?\<tau>) < steps_left a ph (filefd \<sigma>)"
      using st(2) [OF False] by (auto simp: advances_def)
    obtain sched where "length sched \<le> steps_left a ph' (filefd ?\<tau>)" "Server_exits \<notin> set sched"
      "in_phase c s l a P_done (fold (shm_step open_file errs c s) sched ?\<tau>)"
      using less.hyps [OF ph'(2,1) st(3) [OF m]] by blast
    then show ?thesis using ph'(2) m by (intro exI [of _ "mover ph # sched"]) simp
  qed
qed

lemma in_phase_output:
  assumes "in_phase c s l a ph \<sigma>"
  shows "\<exists>t. written (cout \<sigma>) @ t = a" "cpc \<sigma> \<noteq> Cdead" "spc \<sigma> \<noteq> Sdead" "spc \<sigma> \<noteq> Skilled"
    "cpc \<sigma> = Creturned \<Longrightarrow> written (cout \<sigma>) = a"
  using assms by (cases ph; auto simp: in_phase_def)+

text \<open>C6: client and server of \<open>10_shared_memory\<close> in every interleaving, with the exit of the server at any
  time after it has returned.  What the client has printed is always a beginning of the answer (the contents of the
  file it named, or the name with the error message), neither process fails, and a client that returns has printed all of
  it.  While the server has not exited, at most \<open>24 + 8 * length\<close> more calls, suitably scheduled, bring both functions to
  the end.  When it has exited, everything is printed; but its exit takes back its last signal (\<open>SEM_UNDO\<close>), so a client that has
  not passed its last \<open>sem_wait\<close> sleeps there for ever, and one that has passed it returns.\<close>
theorem shared_memory_delivers_the_file:
  assumes "sem_vals (kern \<sigma>0) c s 1 0" "cpc \<sigma>0 = Cwait0" "spc \<sigma>0 = Swait0"
    and "rest (cin \<sigma>0) \<noteq> []" "l = take_line (MAXMESGDATA - 1) (rest (cin \<sigma>0))"
    and "cout \<sigma>0 = \<lparr>written = [], grants = []\<rparr>" "length (mesg_data (mesg \<sigma>0)) = MAXMESGDATA"
    and "file_ok open_file errs (request l)" "a = shm_answer open_file errs (request l)"
    and "\<And>C. sem_sets (kern \<sigma>0) c = Some C \<Longrightarrow> adj C srv 0 = 0"
  defines "run \<equiv> \<lambda>sched. fold (shm_step open_file errs c s) sched \<sigma>0"
  shows "(\<exists>t. written (cout (run sched)) @ t = a) \<and>
     cpc (run sched) \<noteq> Cdead \<and> spc (run sched) \<noteq> Sdead \<and> spc (run sched) \<noteq> Skilled \<and>
     (cpc (run sched) = Creturned \<longrightarrow> written (cout (run sched)) = a) \<and>
     (spc (run sched) \<noteq> Sgone \<longrightarrow>
        (\<exists>sched'. length sched' \<le> 24 + 8 * length a \<and> Server_exits \<notin> set sched' \<and> cpc (run (sched @ sched')) = Creturned \<and>
           spc (run (sched @ sched')) = Sreturned \<and> written (cout (run (sched @ sched'))) = a)) \<and>
     (spc (run sched) = Sgone \<longrightarrow> written (cout (run sched)) = a \<and>
        (if cpc (run sched) = Cwait then \<forall>sched'. run (sched @ sched') = run sched
         else cpc (run (sched @ [Client_calls])) = Creturned))"
proof -
  have "length l \<le> MAXMESGDATA - 1" using assms(5) length_take_line by blast
  then have l: "length l < MAXMESGDATA" by (simp add: MAXMESGDATA_def)
  have start: "in_phase c s l a P_start \<sigma>0" using assms(1-7) by (simp add: in_phase_def)
  have undo: "undo_ok c \<sigma>0" using assms(3,10) by (simp add: undo_ok_def)
  have app: "run (xs @ ys) = fold (shm_step open_file errs c s) ys (run xs)" for xs ys by (simp add: run_def)
  show ?thesis
  proof (cases "after_exit c a (run sched)")
    case True
    have "if cpc (run sched) = Cwait then \<forall>sched'. run (sched @ sched') = run sched
         else cpc (run (sched @ [Client_calls])) = Creturned"
      using after_exit_run [OF True] after_exit_step [OF True] True unfolding app by (auto simp: after_exit_def)
    then show ?thesis using True by (auto simp: after_exit_def)
  next
    case False
    then obtain ph where ph: "in_phase c s l a ph (run sched)" "undo_ok c (run sched)"
      "steps_left a ph (filefd (run sched)) \<le> steps_left a P_start (filefd \<sigma>0)"
      using shm_run_phase [OF start undo l assms(8,9)] unfolding run_def by blast
    obtain sched' where s': "length sched' \<le> steps_left a ph (filefd (run sched))" "Server_exits \<notin> set sched'"
      "in_phase c s l a P_done (run (sched @ sched'))"
      using shm_can_finish [OF ph(1,2) l assms(8,9)] unfolding app by blast
    have "length sched' \<le> 24 + 8 * length a" using s'(1) ph(3) by simp
    moreover have "cpc (run (sched @ sched')) = Creturned \<and>
        spc (run (sched @ sched')) = Sreturned \<and> written (cout (run (sched @ sched'))) = a"
      using s'(3) by (simp add: in_phase_def)
    ultimately show ?thesis using in_phase_output [OF ph(1)] in_phase_here [OF ph(1)] s'(2) by blast
  qed
qed

text \<open>The start for the witness, and the schedule in which the server of an empty file exits while the client still waits.\<close>

definition shm_demo :: shm_sys where
  "shm_demo = \<lparr>kern = \<lparr>sem_ids = Map.empty, sem_sets = [5 \<mapsto> \<lparr>vals = [1, 9998, 0], adj = (\<lambda>_ _. 0)\<rparr>,
        6 \<mapsto> \<lparr>vals = [0, 9998, 0], adj = (\<lambda>_ _. 0)\<rparr>], next_semid = 7\<rparr>,
      mesg = \<lparr>mesg_len = 0, mesg_data = replicate MAXMESGDATA NUL\<rparr>,
      cin = \<lparr>rest = ''notes'' @ [NL], read_error = False\<rparr>, cout = \<lparr>written = [], grants = []\<rparr>, filefd = [],
      cpc = Cwait0, spc = Swait0\<rparr>"

definition exit_sched :: "shm_move list" where
  "exit_sched = [Client_calls, Client_calls, Client_calls, Server_calls, Server_calls, Server_calls, Server_calls, Server_calls, Server_exits]"

lemma exit_sched_starves:
  "cpc (fold (shm_step (\<lambda>_. Inr []) (\<lambda>_. []) 5 6) exit_sched shm_demo) = Cwait \<and>
   spc (fold (shm_step (\<lambda>_. Inr []) (\<lambda>_. []) 5 6) exit_sched shm_demo) = Sgone"
  by (simp add: exit_sched_def shm_demo_def shm_step_def client_def server_def fgets_def Let_def sem_call_def sem_wait_def sem_signal_def
      sem_op_def semop_def op_op_def sop_def SEMVMX_def server_leaves_def server_dead_def)

theorem shared_memory_delivers_the_file_witness:
  "(\<exists>sched. written (cout (fold (shm_step (\<lambda>_. Inr [Data ''hello'', Data '' world'']) (\<lambda>_. ''error'') 5 6) sched shm_demo)) = ''hello world'') \<and>
   (\<forall>sched'. cpc (fold (shm_step (\<lambda>_. Inr []) (\<lambda>_. []) 5 6) (exit_sched @ sched') shm_demo) = Cwait)"
proof
  let ?op = "\<lambda>_. Inr [Data ''hello'', Data '' world'']"
  have "\<exists>sched'. written (cout (fold (shm_step ?op (\<lambda>_. ''error'') 5 6) ([] @ sched') shm_demo)) = ''hello world''"
    using shared_memory_delivers_the_file [of shm_demo 5 6 _ ?op "\<lambda>_. ''error''" "''hello world''" "[]"]
    by (auto simp: shm_demo_def sem_vals_def file_ok_def shm_answer_def)
  then show "\<exists>sched. written (cout (fold (shm_step ?op (\<lambda>_. ''error'') 5 6) sched shm_demo)) = ''hello world''" by simp
  have "sem_vals (kern shm_demo) 5 6 1 0" "cpc shm_demo = Cwait0" "spc shm_demo = Swait0" "rest (cin shm_demo) \<noteq> []"
    "cout shm_demo = \<lparr>written = [], grants = []\<rparr>" "length (mesg_data (mesg shm_demo)) = MAXMESGDATA"
    "\<And>C. sem_sets (kern shm_demo) 5 = Some C \<Longrightarrow> adj C srv 0 = 0" "\<And>r. file_ok (\<lambda>_. Inr []) (\<lambda>_. []) r"
    by (auto simp: shm_demo_def sem_vals_def file_ok_def)
  from shared_memory_delivers_the_file [OF this(1-4) refl this(5,6) this(8) refl this(7), of exit_sched] exit_sched_starves
  have "fold (shm_step (\<lambda>_. Inr []) (\<lambda>_. []) 5 6) (exit_sched @ sched') shm_demo =
      fold (shm_step (\<lambda>_. Inr []) (\<lambda>_. []) 5 6) exit_sched shm_demo" for sched' by presburger
  then show "\<forall>sched'. cpc (fold (shm_step (\<lambda>_. Inr []) (\<lambda>_. []) 5 6) (exit_sched @ sched') shm_demo) = Cwait"
    using exit_sched_starves by metis
qed

text \<open>The exit of the server can starve the client: after its last signal and before the client's
  wait, the adjustments of \<open>SEM_UNDO\<close> take the signal back, and the client sleeps for ever, having
  printed everything but never returning.\<close>
theorem server_exit_starves_the_client:
  fixes open_file :: "byte list \<Rightarrow> errno + source" and errs :: "errno \<Rightarrow> byte list"
  assumes "spc \<sigma> = Sendsig" "cpc \<sigma> = Cwait" "sem_vals (kern \<sigma>) c s 0 0"
    and "\<And>C. sem_sets (kern \<sigma>) c = Some C \<Longrightarrow> adj C srv 0 \<le> 0"
  defines "\<tau> \<equiv> server open_file errs c s \<sigma>"
  defines "\<tau>' \<equiv> \<tau>\<lparr>kern := sem_exit srv (kern \<tau>)\<rparr>"
  shows "spc \<tau> = Sreturned \<and> cpc (client c s \<tau>) = Ctest \<and> (client c s ^^ n) \<tau>' = \<tau>'"
proof -
  obtain C S where cs: "c \<noteq> s" "sem_sets (kern \<sigma>) c = Some C" "length (vals C) = 3" "vals C ! 0 = 0"
    "sem_sets (kern \<sigma>) s = Some S" "length (vals S) = 3" using assms(3) by (auto simp: sem_vals_def)
  have a: "adj C srv 0 \<le> 0" using assms(4) cs(2) by simp
  let ?C = "C\<lparr>vals := (vals C)[0 := 1], adj := (adj C)(srv := (adj C srv)(0 := adj C srv 0 - 1))\<rparr>"
  have t: "\<tau> = \<sigma>\<lparr>kern := (kern \<sigma>)\<lparr>sem_sets := (sem_sets (kern \<sigma>))(c \<mapsto> ?C)\<rparr>, spc := Sreturned\<rparr>"
    using assms(1) cs by (simp add: \<tau>_def server_def sem_signal_def sem_op_vals sem_call_def SEMVMX_def)
  have "cpc (client c s \<tau>) = Ctest"
    using assms(2) cs by (simp add: t client_def sem_wait_def sem_op_vals sem_call_def SEMVMX_def)
  moreover have "client c s \<tau>' = \<tau>'"
  proof -
    have up: "[0..<3] = [0, 1, 2]" by (simp add: upt_rec)
    have "set_exit srv ?C = ?C\<lparr>vals := map (\<lambda>n. max 0 (vals ?C ! n + adj ?C srv n)) [0, 1, 2], adj := (adj ?C)(srv := (\<lambda>_. 0))\<rparr>"
      using cs(3) by (simp add: set_exit_def up)
    moreover have "vals (set_exit srv ?C) ! 0 = 0" "length (vals (set_exit srv ?C)) = 3"
      using a cs(3) by (simp_all add: set_exit_def up)
    moreover have "sem_sets (kern \<tau>') c = Some (set_exit srv ?C)"
      by (simp add: \<tau>'_def t sem_exit_def)
    ultimately have "sem_wait cli c (kern \<tau>') = Sleep" by (simp add: sem_wait_def sem_op_vals)
    moreover have "cpc \<tau>' = Cwait" using assms(2) by (simp add: \<tau>'_def t)
    ultimately show ?thesis by (simp add: client_def sem_call_def)
  qed
  then have "(client c s ^^ n) \<tau>' = \<tau>'" by (induction n) simp_all
  ultimately show ?thesis by (simp add: t)
qed

theorem server_exit_starves_the_client_witness:
  "\<exists>\<tau>. cpc \<tau> = Cwait \<and> written (cout \<tau>) = ''hello'' \<and> client 5 6 \<tau> = \<tau>"
proof -
  let ?\<sigma> = "\<lparr>kern = \<lparr>sem_ids = Map.empty,
        sem_sets = [5 \<mapsto> \<lparr>vals = [0, 9998, 0], adj = (\<lambda>p n. if n = 0 then (if p = 0 then 2 else - 1) else 0)\<rparr>,
                    6 \<mapsto> \<lparr>vals = [0, 9998, 0], adj = (\<lambda>p n. if n = 0 then (if p = 0 then - 2 else 2) else 0)\<rparr>],
        next_semid = 7\<rparr>,
      mesg = \<lparr>mesg_len = 0, mesg_data = replicate MAXMESGDATA NUL\<rparr>, cin = \<lparr>rest = [], read_error = False\<rparr>,
      cout = \<lparr>written = ''hello'', grants = []\<rparr>, filefd = [], cpc = Cwait, spc = Sendsig\<rparr>"
  let ?\<tau> = "server (\<lambda>_. Inr []) (\<lambda>_. []) 5 6 ?\<sigma>"
  let ?\<tau>' = "?\<tau>\<lparr>kern := sem_exit srv (kern ?\<tau>)\<rparr>"
  have "(client 5 6 ^^ 1) ?\<tau>' = ?\<tau>'"
    using server_exit_starves_the_client [of ?\<sigma> 5 6 "\<lambda>_. Inr []" "\<lambda>_. []" 1] by (auto simp: sem_vals_def)
  moreover have "cpc ?\<tau>' = Cwait" "written (cout ?\<tau>') = ''hello''"
    by (simp_all add: server_def sem_signal_def sem_op_def semop_def op_op_def sop_def sem_call_def SEMVMX_def)
  ultimately show ?thesis by (intro exI [of _ ?\<tau>']) simp
qed

section \<open>The main programs\<close>

text \<open>
  \<open>main\<close> of the two programs: attaching the segment, the two semaphores, the conversation, and
  the way out.  The segment is known by its key while \<open>segment\<close> holds; a process that has it
  attached keeps it after its removal.  Each program has its own \<open>clisem\<close> and \<open>servsem\<close>.
\<close>

datatype main_pc =
    Mget | Msem1 sem_pc | Msem2 sem_pc | Mtalk | Mdetach | Mremove
  | Mclose1 sem_pc | Mclose2 sem_pc | Mexit int

record shm_prog =
  talk :: shm_sys
  segment :: bool
  cmain :: main_pc
  smain :: main_pc
  cids :: "nat \<times> nat"
  sids :: "nat \<times> nat"

text \<open>\<open>exit\<close> and \<open>err_sys\<close>: the kernel applies the adjustments; \<open>sem_close\<close> and the others have
  done so already when they ended in \<open>err_sys\<close>.\<close>

definition client_exit :: "int \<Rightarrow> shm_prog \<Rightarrow> shm_prog" where
  "client_exit status \<pi> =
     \<pi>\<lparr>cmain := Mexit status, talk := (talk \<pi>)\<lparr>kern := sem_exit cli (kern (talk \<pi>))\<rparr>\<rparr>"

definition server_exit :: "int \<Rightarrow> shm_prog \<Rightarrow> shm_prog" where
  "server_exit status \<pi> =
     \<pi>\<lparr>smain := Mexit status, talk := (talk \<pi>)\<lparr>kern := sem_exit srv (kern (talk \<pi>))\<rparr>\<rparr>"

definition client_main :: "shm_prog \<Rightarrow> shm_prog" where
  "client_main \<pi> =
     (let k = kern (talk \<pi>); with = (\<lambda>k \<pi>. \<pi>\<lparr>talk := (talk \<pi>)\<lparr>kern := k\<rparr>\<rparr>)
      in case cmain \<pi> of
           Mget \<Rightarrow> if segment \<pi> then \<pi>\<lparr>cmain := Msem1 Op_get\<rparr> else client_exit EXIT_FAILURE \<pi>
         | Msem1 pc \<Rightarrow>
             (case sem_open SEMKEY1 cli pc k of
                (In_use i, k) \<Rightarrow> with k (\<pi>\<lparr>cids := (i, snd (cids \<pi>)), cmain := Msem2 Op_get\<rparr>)
              | (Op_dec i, k) \<Rightarrow> with k (\<pi>\<lparr>cmain := Msem1 (Op_dec i)\<rparr>)
              | (pc, k) \<Rightarrow> client_exit EXIT_FAILURE (with k \<pi>))
         | Msem2 pc \<Rightarrow>
             (case sem_open SEMKEY2 cli pc k of
                (In_use i, k) \<Rightarrow> with k (\<pi>\<lparr>cids := (fst (cids \<pi>), i), cmain := Mtalk\<rparr>)
              | (Op_dec i, k) \<Rightarrow> with k (\<pi>\<lparr>cmain := Msem2 (Op_dec i)\<rparr>)
              | (pc, k) \<Rightarrow> client_exit EXIT_FAILURE (with k \<pi>))
         | Mtalk \<Rightarrow>
             (let \<sigma> = client (fst (cids \<pi>)) (snd (cids \<pi>)) (talk \<pi>)
              in \<pi>\<lparr>talk := \<sigma>, cmain := (case cpc \<sigma> of Creturned \<Rightarrow> Mdetach | Cdead \<Rightarrow> Mexit EXIT_FAILURE | _ \<Rightarrow> Mtalk)\<rparr>)
         | Mdetach \<Rightarrow> \<pi>\<lparr>cmain := Mremove\<rparr>
         | Mremove \<Rightarrow> if segment \<pi> then \<pi>\<lparr>segment := False, cmain := Mclose1 (Cl_op (fst (cids \<pi>)))\<rparr>
                     else client_exit EXIT_FAILURE \<pi>
         | Mclose1 pc \<Rightarrow>
             (case sem_close cli pc k of
                (Closed, k) \<Rightarrow> with k (\<pi>\<lparr>cmain := Mclose2 (Cl_op (snd (cids \<pi>)))\<rparr>)
              | (Err_sys, k) \<Rightarrow> with k (\<pi>\<lparr>cmain := Mexit EXIT_FAILURE\<rparr>)
              | (Err_dump, k) \<Rightarrow> with k (\<pi>\<lparr>cmain := Mexit EXIT_FAILURE\<rparr>)
              | (pc, k) \<Rightarrow> with k (\<pi>\<lparr>cmain := Mclose1 pc\<rparr>))
         | Mclose2 pc \<Rightarrow>
             (case sem_close cli pc k of
                (Closed, k) \<Rightarrow> client_exit EXIT_SUCCESS (with k \<pi>)
              | (Err_sys, k) \<Rightarrow> with k (\<pi>\<lparr>cmain := Mexit EXIT_FAILURE\<rparr>)
              | (Err_dump, k) \<Rightarrow> with k (\<pi>\<lparr>cmain := Mexit EXIT_FAILURE\<rparr>)
              | (pc, k) \<Rightarrow> with k (\<pi>\<lparr>cmain := Mclose2 pc\<rparr>))
         | Mexit status \<Rightarrow> \<pi>)"

definition server_main :: "(byte list \<Rightarrow> errno + source) \<Rightarrow> (errno \<Rightarrow> byte list) \<Rightarrow> shm_prog \<Rightarrow> shm_prog" where
  "server_main open_file sys_errlist \<pi> =
     (let k = kern (talk \<pi>); with = (\<lambda>k \<pi>. \<pi>\<lparr>talk := (talk \<pi>)\<lparr>kern := k\<rparr>\<rparr>)
      in case smain \<pi> of
           Mget \<Rightarrow> \<pi>\<lparr>segment := True, smain := Msem1 Cr_get\<rparr>
         | Msem1 pc \<Rightarrow>
             (case sem_create SEMKEY1 1 srv pc k of
                (In_use i, k) \<Rightarrow> with k (\<pi>\<lparr>sids := (i, snd (sids \<pi>)), smain := Msem2 Cr_get\<rparr>)
              | (Failed_call, k) \<Rightarrow> server_exit EXIT_FAILURE (with k \<pi>)
              | (Err_sys, k) \<Rightarrow> with k (\<pi>\<lparr>smain := Mexit EXIT_FAILURE\<rparr>)
              | (pc, k) \<Rightarrow> with k (\<pi>\<lparr>smain := Msem1 pc\<rparr>))
         | Msem2 pc \<Rightarrow>
             (case sem_create SEMKEY2 0 srv pc k of
                (In_use i, k) \<Rightarrow> with k (\<pi>\<lparr>sids := (fst (sids \<pi>), i), smain := Mtalk\<rparr>)
              | (Failed_call, k) \<Rightarrow> server_exit EXIT_FAILURE (with k \<pi>)
              | (Err_sys, k) \<Rightarrow> with k (\<pi>\<lparr>smain := Mexit EXIT_FAILURE\<rparr>)
              | (pc, k) \<Rightarrow> with k (\<pi>\<lparr>smain := Msem2 pc\<rparr>))
         | Mtalk \<Rightarrow>
             (let \<sigma> = server open_file sys_errlist (fst (sids \<pi>)) (snd (sids \<pi>)) (talk \<pi>)
              in \<pi>\<lparr>talk := \<sigma>, smain := (if spc \<sigma> = Sreturned then Mdetach
                                       else if spc \<sigma> \<in> {Sdead, Skilled} then Mexit EXIT_FAILURE else Mtalk)\<rparr>)
         | Mdetach \<Rightarrow> \<pi>\<lparr>smain := Mclose1 (Cl_op (fst (sids \<pi>)))\<rparr>
         | Mremove \<Rightarrow> \<pi>
         | Mclose1 pc \<Rightarrow>
             (case sem_close srv pc k of
                (Closed, k) \<Rightarrow> with k (\<pi>\<lparr>smain := Mclose2 (Cl_op (snd (sids \<pi>)))\<rparr>)
              | (Err_sys, k) \<Rightarrow> with k (\<pi>\<lparr>smain := Mexit EXIT_FAILURE\<rparr>)
              | (Err_dump, k) \<Rightarrow> with k (\<pi>\<lparr>smain := Mexit EXIT_FAILURE\<rparr>)
              | (pc, k) \<Rightarrow> with k (\<pi>\<lparr>smain := Mclose1 pc\<rparr>))
         | Mclose2 pc \<Rightarrow>
             (case sem_close srv pc k of
                (Closed, k) \<Rightarrow> server_exit EXIT_SUCCESS (with k \<pi>)
              | (Err_sys, k) \<Rightarrow> with k (\<pi>\<lparr>smain := Mexit EXIT_FAILURE\<rparr>)
              | (Err_dump, k) \<Rightarrow> with k (\<pi>\<lparr>smain := Mexit EXIT_FAILURE\<rparr>)
              | (pc, k) \<Rightarrow> with k (\<pi>\<lparr>smain := Mclose2 pc\<rparr>))
         | Mexit status \<Rightarrow> \<pi>)"

text \<open>The set-up: with the server started first, both processes reach the conversation, in which
  the semaphores are 1 and 0.\<close>

lemmas main_run = client_main_def server_main_def Let_def semget_def semop_def semctl_getval_def semctl_setval_def
  op_lock_def op_endcreate_def op_open_def sop_def SEMVMX_def BIGCOUNT_def SEMKEY1_def SEMKEY2_def

text \<open>The start-up of the two main programs: with the server first, on a system without the
  semaphores, thirteen calls of the server and five of the client bring both to the conversation
  with the same identifiers, the client's semaphore at 1 and the server's at 0; a client started
  before the server gives up.\<close>
theorem shm_startup:
  fixes open_file :: "byte list \<Rightarrow> errno + source" and errs :: "errno \<Rightarrow> byte list"
  assumes "kern (talk \<pi>) = \<lparr>sem_ids = Map.empty, sem_sets = Map.empty, next_semid = n\<rparr>"
    "cmain \<pi> = Mget" "smain \<pi> = Mget"
  defines "\<pi>' \<equiv> (client_main ^^ 5) ((server_main open_file errs ^^ 13) \<pi>)"
  shows "cmain \<pi>' = Mtalk \<and> smain \<pi>' = Mtalk \<and> cids \<pi>' = (n, n + 1) \<and> sids \<pi>' = (n, n + 1) \<and>
     sem_vals (kern (talk \<pi>')) n (n + 1) 1 0 \<and>
     (\<not> segment \<pi> \<longrightarrow> cmain (client_main \<pi>) = Mexit EXIT_FAILURE)"
proof -
  have "cmain \<pi>' = Mtalk \<and> smain \<pi>' = Mtalk \<and> cids \<pi>' = (n, n + 1) \<and> sids \<pi>' = (n, n + 1) \<and>
     sem_vals (kern (talk \<pi>')) n (n + 1) 1 0"
    using assms(1-3) unfolding \<pi>'_def
    by (simp add: main_run numeral_eq_Suc sem_vals_def)
  then show ?thesis using assms(2) by (simp add: client_main_def client_exit_def)
qed

theorem shm_startup_witness:
  "\<exists>\<pi>. \<not> segment \<pi> \<and> cmain (client_main \<pi>) = Mexit EXIT_FAILURE \<and>
     sem_vals (kern (talk ((client_main ^^ 5) ((server_main (\<lambda>_. Inr []) (\<lambda>_. []) ^^ 13) \<pi>)))) 3 (3 + 1) 1 0"
proof -
  have "\<exists>\<pi> :: shm_prog. kern (talk \<pi>) = \<lparr>sem_ids = Map.empty, sem_sets = Map.empty, next_semid = 3\<rparr> \<and>
      cmain \<pi> = Mget \<and> smain \<pi> = Mget \<and> \<not> segment \<pi>"
    by (rule exI [of _ "\<lparr>talk = \<lparr>kern = \<lparr>sem_ids = Map.empty, sem_sets = Map.empty, next_semid = 3\<rparr>,
        mesg = \<lparr>mesg_len = 0, mesg_data = []\<rparr>, cin = \<lparr>rest = [], read_error = False\<rparr>,
        cout = \<lparr>written = [], grants = []\<rparr>, filefd = [], cpc = Cwait0, spc = Swait0\<rparr>,
      segment = False, cmain = Mget, smain = Mget, cids = (0, 0), sids = (0, 0)\<rparr>"]) simp
  then obtain \<pi> :: shm_prog where \<pi>: "kern (talk \<pi>) = \<lparr>sem_ids = Map.empty, sem_sets = Map.empty, next_semid = 3\<rparr>"
    "cmain \<pi> = Mget" "smain \<pi> = Mget" "\<not> segment \<pi>" by blast
  show ?thesis using shm_startup [OF \<pi>(1-3), of "\<lambda>_. Inr []" "\<lambda>_. []"] \<pi>(4) by blast
qed

end
