(* ===== verification/MultiBuffer.thy ===== *)
theory MultiBuffer
  imports SharedMem
begin

text \<open>
  The file server with several buffers, \<open>11_multi_buffer\<close>: the server fills the buffers of a ring
  ahead of the client, which prints and frees them.  Here the two processes really run at the
  same time; the invariant relates the ring to what has been read and printed.
\<close>

section \<open>The client and the server\<close>

definition NBUFF :: nat where "NBUFF = 4"

text \<open>The program counters carry the loop index \<open>i\<close>; \<open>MSsig i n\<close> has the \<open>n\<close> of the last \<open>read\<close>.\<close>

datatype mcli_pc =
    MCwait0 | MCfill | MCsig0
  | MCwait nat | MCtest nat | MCsig nat
  | MCreturned | MCdead

datatype msrv_pc =
    MSwait0 | MSopen
  | MSesig | MSewait | MSelen | MSesig2   \<comment> \<open>the error message in buffer 0, the end in buffer 1\<close>
  | MSinit nat                            \<comment> \<open>as many signals as buffers\<close>
  | MSwait nat | MSread nat | MSsig nat int
  | MSreturned | MSdead | MSkilled

record multi_sys =
  mkern :: sem_kernel
  mbuf :: "Mesg list"
  mcin :: stream_in
  mcout :: sink
  mfile :: source
  mcpc :: mcli_pc
  mspc :: msrv_pc

definition next_buf :: "nat \<Rightarrow> nat" where
  "next_buf i = (if i + 1 < NBUFF then i + 1 else 0)"

definition mclient_dead :: "multi_sys \<Rightarrow> multi_sys" where
  "mclient_dead \<sigma> = \<sigma>\<lparr>mcpc := MCdead, mkern := sem_exit cli (mkern \<sigma>)\<rparr>"

definition mserver_dead :: "msrv_pc \<Rightarrow> multi_sys \<Rightarrow> multi_sys" where
  "mserver_dead how \<sigma> = \<sigma>\<lparr>mspc := how, mkern := sem_exit srv (mkern \<sigma>)\<rparr>"

definition mclient :: "nat \<Rightarrow> nat \<Rightarrow> multi_sys \<Rightarrow> multi_sys" where
  "mclient c s \<sigma> =
     (case mcpc \<sigma> of
        MCwait0 \<Rightarrow> sem_call (sem_wait cli c (mkern \<sigma>)) (\<lambda>k. \<sigma>\<lparr>mkern := k, mcpc := MCfill\<rparr>) \<sigma> (mclient_dead \<sigma>)
      | MCfill \<Rightarrow>
          (case fgets MAXMESGDATA (mcin \<sigma>) of
             (None, fp) \<Rightarrow> mclient_dead (\<sigma>\<lparr>mcin := fp\<rparr>)
           | (Some l, fp) \<Rightarrow>
               (let d = poke (mesg_data (mbuf \<sigma> ! 0)) 0 (l @ [NUL]); n = strlen d;
                    n = (if 0 < n \<and> d ! (n - 1) = NL then n - 1 else n)
                in \<sigma>\<lparr>mcin := fp, mbuf := (mbuf \<sigma>)[0 := \<lparr>mesg_len = int n, mesg_data = d\<rparr>], mcpc := MCsig0\<rparr>))
      | MCsig0 \<Rightarrow> sem_call (sem_signal cli s (mkern \<sigma>)) (\<lambda>k. \<sigma>\<lparr>mkern := k, mcpc := MCwait 0\<rparr>) \<sigma> (mclient_dead \<sigma>)
      | MCwait i \<Rightarrow> sem_call (sem_wait cli c (mkern \<sigma>)) (\<lambda>k. \<sigma>\<lparr>mkern := k, mcpc := MCtest i\<rparr>) \<sigma> (mclient_dead \<sigma>)
      | MCtest i \<Rightarrow>
          (let n = mesg_len (mbuf \<sigma> ! i)
           in if n \<le> 0 then (if n < 0 then mclient_dead \<sigma> else \<sigma>\<lparr>mcpc := MCreturned\<rparr>)
              else (case sys_write (mcout \<sigma>) (take (nat n) (mesg_data (mbuf \<sigma> ! i))) of
                      (Inr w, out) \<Rightarrow> if int w \<noteq> n then mclient_dead (\<sigma>\<lparr>mcout := out\<rparr>)
                                    else \<sigma>\<lparr>mcout := out, mcpc := MCsig i\<rparr>
                    | (Inl e, out) \<Rightarrow> mclient_dead (\<sigma>\<lparr>mcout := out\<rparr>)))
      | MCsig i \<Rightarrow>
          sem_call (sem_signal cli s (mkern \<sigma>)) (\<lambda>k. \<sigma>\<lparr>mkern := k, mcpc := MCwait (next_buf i)\<rparr>) \<sigma> (mclient_dead \<sigma>)
      | MCreturned \<Rightarrow> \<sigma>
      | MCdead \<Rightarrow> \<sigma>)"

definition mserver ::
  "(byte list \<Rightarrow> errno + source) \<Rightarrow> (errno \<Rightarrow> byte list) \<Rightarrow> nat \<Rightarrow> nat \<Rightarrow> multi_sys \<Rightarrow> multi_sys"
where
  "mserver open_file sys_errlist c s \<sigma> =
     (case mspc \<sigma> of
        MSwait0 \<Rightarrow> sem_call (sem_wait srv s (mkern \<sigma>)) (\<lambda>k. \<sigma>\<lparr>mkern := k, mspc := MSopen\<rparr>) \<sigma> (mserver_dead MSdead \<sigma>)
      | MSopen \<Rightarrow>
          (let m = mbuf \<sigma> ! 0; d = (mesg_data m)[nat (mesg_len m) := NUL]
           in case open_file (cstr d) of
                Inl e \<Rightarrow>
                  (let t = cstr d @ errmesg sys_errlist e
                   in if 200 \<le> length (sys_err_str sys_errlist e) \<or> 256 \<le> length (errmesg sys_errlist e) \<or> MAXMESGDATA \<le> length t
                      then mserver_dead MSkilled \<sigma>
                      else (let d = poke d (strlen d) (errmesg sys_errlist e @ [NUL])
                            in \<sigma>\<lparr>mbuf := (mbuf \<sigma>)[0 := \<lparr>mesg_len = int (strlen d), mesg_data = d\<rparr>], mspc := MSesig\<rparr>))
              | Inr f \<Rightarrow> \<sigma>\<lparr>mbuf := (mbuf \<sigma>)[0 := m\<lparr>mesg_data := d\<rparr>], mfile := f, mspc := MSinit 0\<rparr>)
      | MSesig \<Rightarrow> sem_call (sem_signal srv c (mkern \<sigma>)) (\<lambda>k. \<sigma>\<lparr>mkern := k, mspc := MSewait\<rparr>) \<sigma> (mserver_dead MSdead \<sigma>)
      | MSewait \<Rightarrow> sem_call (sem_wait srv s (mkern \<sigma>)) (\<lambda>k. \<sigma>\<lparr>mkern := k, mspc := MSelen\<rparr>) \<sigma> (mserver_dead MSdead \<sigma>)
      | MSelen \<Rightarrow> \<sigma>\<lparr>mbuf := (mbuf \<sigma>)[1 := (mbuf \<sigma> ! 1)\<lparr>mesg_len := 0\<rparr>], mspc := MSesig2\<rparr>
      | MSesig2 \<Rightarrow> sem_call (sem_signal srv c (mkern \<sigma>)) (\<lambda>k. \<sigma>\<lparr>mkern := k, mspc := MSreturned\<rparr>) \<sigma> (mserver_dead MSdead \<sigma>)
      | MSinit i \<Rightarrow>
          sem_call (sem_signal srv s (mkern \<sigma>))
            (\<lambda>k. \<sigma>\<lparr>mkern := k, mspc := (if i + 1 < NBUFF then MSinit (i + 1) else MSwait 0)\<rparr>) \<sigma> (mserver_dead MSdead \<sigma>)
      | MSwait i \<Rightarrow> sem_call (sem_wait srv s (mkern \<sigma>)) (\<lambda>k. \<sigma>\<lparr>mkern := k, mspc := MSread i\<rparr>) \<sigma> (mserver_dead MSdead \<sigma>)
      | MSread i \<Rightarrow>
          (case sys_read (mfile \<sigma>) (MAXMESGDATA - 1) of
             (Inl e, f) \<Rightarrow> mserver_dead MSdead (\<sigma>\<lparr>mfile := f\<rparr>)
           | (Inr xs, f) \<Rightarrow>
               \<sigma>\<lparr>mfile := f, mspc := MSsig i (int (length xs)),
                 mbuf := (mbuf \<sigma>)[i := \<lparr>mesg_len = int (length xs), mesg_data = poke (mesg_data (mbuf \<sigma> ! i)) 0 xs\<rparr>]\<rparr>)
      | MSsig i n \<Rightarrow>
          sem_call (sem_signal srv c (mkern \<sigma>))
            (\<lambda>k. \<sigma>\<lparr>mkern := k, mspc := (if n = 0 then MSreturned else MSwait (next_buf i))\<rparr>) \<sigma> (mserver_dead MSdead \<sigma>)
      | MSreturned \<Rightarrow> \<sigma>
      | MSdead \<Rightarrow> \<sigma>
      | MSkilled \<Rightarrow> \<sigma>)"

definition multi_step ::
  "(byte list \<Rightarrow> errno + source) \<Rightarrow> (errno \<Rightarrow> byte list) \<Rightarrow> nat \<Rightarrow> nat \<Rightarrow> bool \<Rightarrow> multi_sys \<Rightarrow> multi_sys"
where
  "multi_step open_file sys_errlist c s who \<sigma> =
     (if who then mclient c s \<sigma> else mserver open_file sys_errlist c s \<sigma>)"

section \<open>The ring\<close>

text \<open>The buffers from \<open>b\<close> on hold the chunks \<open>q\<close>.\<close>

definition filled :: "nat \<Rightarrow> byte list list \<Rightarrow> Mesg list \<Rightarrow> bool" where
  "filled b q bufs \<longleftrightarrow> (\<forall>j < length q. msg_is (q ! j) (bufs ! ((b + j) mod NBUFF)))"

lemma next_buf_mod: "i < NBUFF \<Longrightarrow> next_buf i = (i + 1) mod NBUFF"
proof -
  assume "i < NBUFF"
  then have "i + 1 < NBUFF \<or> i + 1 = NBUFF" by auto
  then show ?thesis by (auto simp: next_buf_def)
qed

lemma filled_Nil [simp]: "filled b [] bufs"
  by (simp add: filled_def)

lemma filled_tl:
  assumes "filled b (x # q) bufs" "b < NBUFF"
  shows "msg_is x (bufs ! b)" "filled (next_buf b) q bufs"
proof -
  show "msg_is x (bufs ! b)" using assms by (force simp: filled_def)
  have "(next_buf b + j) mod NBUFF = (b + Suc j) mod NBUFF" for j
    using assms(2) by (simp add: next_buf_mod mod_add_left_eq)
  then show "filled (next_buf b) q bufs" using assms(1) by (force simp: filled_def)
qed

lemma filled_snoc:
  assumes "filled b q bufs" "msg_is x (bufs ! ((b + length q) mod NBUFF))"
  shows "filled b (q @ [x]) bufs"
  using assms by (auto simp: filled_def nth_append less_Suc_eq)

lemma filled_upd:
  assumes "filled b q bufs" "length q < NBUFF"
  shows "filled b q (bufs[(b + length q) mod NBUFF := m])"
proof -
  have "(b + j) mod NBUFF \<noteq> (b + length q) mod NBUFF" if "j < length q" for j
  proof
    assume "(b + j) mod NBUFF = (b + length q) mod NBUFF"
    then have "(b + length q) mod NBUFF = (b + j) mod NBUFF" by simp
    then have "NBUFF dvd (b + length q) - (b + j)" using that by (subst mod_eq_dvd_iff_nat [symmetric]) auto
    then have "NBUFF \<le> length q - j" using that by (auto intro: dvd_imp_le)
    then show False using assms(2) by simp
  qed
  then show ?thesis using assms(1) unfolding filled_def by (metis nth_list_update_neq)
qed

section \<open>The invariant\<close>

text \<open>
  Until the file is open the two alternate, as in \<open>SharedMem\<close>; the phases after an error, in
  which they go on alternating, are listed too.
\<close>

datatype mphase =
    M_start | M_fill | M_req | M_asked | M_open | M_init nat
  | M_err | M_err_sent | M_err_got | M_err_out | M_err_ack
  | M_len | M_empty | M_end_sent | M_end_got | M_done

fun mshape :: "mphase \<Rightarrow> mcli_pc \<times> msrv_pc \<times> int \<times> int" where
  "mshape M_start = (MCwait0, MSwait0, 1, 0)"   | "mshape M_fill = (MCfill, MSwait0, 0, 0)"
| "mshape M_req = (MCsig0, MSwait0, 0, 0)"      | "mshape M_asked = (MCwait 0, MSwait0, 0, 1)"
| "mshape M_open = (MCwait 0, MSopen, 0, 0)"    | "mshape (M_init i) = (MCwait 0, MSinit i, 0, int i)"
| "mshape M_err = (MCwait 0, MSesig, 0, 0)"     | "mshape M_err_sent = (MCwait 0, MSewait, 1, 0)"
| "mshape M_err_got = (MCtest 0, MSewait, 0, 0)" | "mshape M_err_out = (MCsig 0, MSewait, 0, 0)"
| "mshape M_err_ack = (MCwait 1, MSewait, 0, 1)" | "mshape M_len = (MCwait 1, MSelen, 0, 0)"
| "mshape M_empty = (MCwait 1, MSesig2, 0, 0)"  | "mshape M_end_sent = (MCwait 1, MSreturned, 1, 0)"
| "mshape M_end_got = (MCtest 1, MSreturned, 0, 0)" | "mshape M_done = (MCreturned, MSreturned, 0, 0)"

fun mcontents :: "byte list \<Rightarrow> byte list \<Rightarrow> mphase \<Rightarrow> multi_sys \<Rightarrow> bool" where
  "mcontents l a M_start \<sigma> \<longleftrightarrow> written (mcout \<sigma>) = [] \<and> rest (mcin \<sigma>) \<noteq> [] \<and> take_line (MAXMESGDATA - 1) (rest (mcin \<sigma>)) = l"
| "mcontents l a M_fill \<sigma> \<longleftrightarrow> written (mcout \<sigma>) = [] \<and> rest (mcin \<sigma>) \<noteq> [] \<and> take_line (MAXMESGDATA - 1) (rest (mcin \<sigma>)) = l"
| "mcontents l a M_req \<sigma> \<longleftrightarrow> written (mcout \<sigma>) = [] \<and> msg_is (request l) (mbuf \<sigma> ! 0)"
| "mcontents l a M_asked \<sigma> \<longleftrightarrow> written (mcout \<sigma>) = [] \<and> msg_is (request l) (mbuf \<sigma> ! 0)"
| "mcontents l a M_open \<sigma> \<longleftrightarrow> written (mcout \<sigma>) = [] \<and> msg_is (request l) (mbuf \<sigma> ! 0)"
| "mcontents l a (M_init i) \<sigma> \<longleftrightarrow> i < NBUFF \<and> written (mcout \<sigma>) = [] \<and> src_broken (mfile \<sigma>) = None \<and> src_pending (mfile \<sigma>) = a"
| "mcontents l a M_err \<sigma> \<longleftrightarrow> written (mcout \<sigma>) = [] \<and> msg_is a (mbuf \<sigma> ! 0) \<and> a \<noteq> []"
| "mcontents l a M_err_sent \<sigma> \<longleftrightarrow> written (mcout \<sigma>) = [] \<and> msg_is a (mbuf \<sigma> ! 0) \<and> a \<noteq> []"
| "mcontents l a M_err_got \<sigma> \<longleftrightarrow> written (mcout \<sigma>) = [] \<and> msg_is a (mbuf \<sigma> ! 0) \<and> a \<noteq> []"
| "mcontents l a M_err_out \<sigma> \<longleftrightarrow> written (mcout \<sigma>) = a"
| "mcontents l a M_err_ack \<sigma> \<longleftrightarrow> written (mcout \<sigma>) = a"
| "mcontents l a M_len \<sigma> \<longleftrightarrow> written (mcout \<sigma>) = a"
| "mcontents l a M_empty \<sigma> \<longleftrightarrow> written (mcout \<sigma>) = a \<and> mesg_len (mbuf \<sigma> ! 1) = 0"
| "mcontents l a M_end_sent \<sigma> \<longleftrightarrow> written (mcout \<sigma>) = a \<and> mesg_len (mbuf \<sigma> ! 1) = 0"
| "mcontents l a M_end_got \<sigma> \<longleftrightarrow> written (mcout \<sigma>) = a \<and> mesg_len (mbuf \<sigma> ! 1) = 0"
| "mcontents l a M_done \<sigma> \<longleftrightarrow> written (mcout \<sigma>) = a"

fun mleft :: "byte list \<Rightarrow> mphase \<Rightarrow> nat" where
  "mleft a M_start = 30 + 20 * length a" | "mleft a M_fill = 29 + 20 * length a"
| "mleft a M_req = 28 + 20 * length a"   | "mleft a M_asked = 27 + 20 * length a"
| "mleft a M_open = 26 + 20 * length a"  | "mleft a (M_init i) = 20 - i + 20 * length a"
| "mleft a M_err = 12" | "mleft a M_err_sent = 11" | "mleft a M_err_got = 10" | "mleft a M_err_out = 9"
| "mleft a M_err_ack = 8" | "mleft a M_len = 7" | "mleft a M_empty = 6" | "mleft a M_end_sent = 5"
| "mleft a M_end_got = 4" | "mleft a M_done = 0"

definition mphase_at :: "nat \<Rightarrow> nat \<Rightarrow> byte list \<Rightarrow> byte list \<Rightarrow> mphase \<Rightarrow> multi_sys \<Rightarrow> bool" where
  "mphase_at c s l a ph \<sigma> \<longleftrightarrow>
     (case mshape ph of (cp, sp, x, y) \<Rightarrow>
        mcpc \<sigma> = cp \<and> mspc \<sigma> = sp \<and> (ph \<noteq> M_done \<longrightarrow> sem_vals (mkern \<sigma>) c s x y)) \<and>
     mcontents l a ph \<sigma>"

text \<open>
  While data flows: \<open>b\<close> is the first buffer the client has not printed, \<open>q\<close> the chunks signalled
  to it, \<open>x\<close> and \<open>y\<close> the semaphores, and \<open>m\<close> the chunk the server has stored but not signalled.
  The free buffers, those in \<open>q\<close> and those in the hands of a process add up to the ring.
\<close>

definition client_at :: "multi_sys \<Rightarrow> nat \<Rightarrow> nat \<Rightarrow> int \<Rightarrow> nat \<Rightarrow> nat \<Rightarrow> bool" where
  "client_at \<sigma> b n x w left \<longleftrightarrow>
     mcpc \<sigma> = MCwait b \<and> x = int n \<and> w = 0 \<and> left = 3 \<or>
     mcpc \<sigma> = MCtest b \<and> x + 1 = int n \<and> w = 0 \<and> left = 2 \<or>
     (\<exists>i < NBUFF. mcpc \<sigma> = MCsig i \<and> b = next_buf i) \<and> x = int n \<and> w = 1 \<and> left = 4"

definition server_at :: "multi_sys \<Rightarrow> nat \<Rightarrow> byte list list \<Rightarrow> byte list \<Rightarrow> nat \<Rightarrow> nat \<Rightarrow> bool" where
  "server_at \<sigma> i q m r left \<longleftrightarrow>
     (mspc \<sigma> = MSwait i \<and> r = 0 \<and> m = [] \<and> [] \<notin> set q \<and> left = 12 \<or>
      mspc \<sigma> = MSread i \<and> r = 1 \<and> m = [] \<and> [] \<notin> set q \<and> left = 11 \<or>
      mspc \<sigma> = MSsig i (int (length m)) \<and> r = 1 \<and> msg_is m (mbuf \<sigma> ! i) \<and> [] \<notin> set q \<and>
        (m = [] \<longrightarrow> src_pending (mfile \<sigma>) = []) \<and> left = (if m = [] then 10 else 18) \<or>
      mspc \<sigma> = MSreturned \<and> r = 0 \<and> m = [] \<and> src_pending (mfile \<sigma>) = [] \<and>
        (\<exists>q'. q = q' @ [[]] \<and> [] \<notin> set q') \<and> left = 0)"

definition flow_vars ::
  "nat \<Rightarrow> nat \<Rightarrow> byte list \<Rightarrow> multi_sys \<Rightarrow> nat \<Rightarrow> byte list list \<Rightarrow> byte list \<Rightarrow> int \<Rightarrow> int \<Rightarrow> nat \<Rightarrow> nat \<Rightarrow> nat \<Rightarrow> nat \<Rightarrow> bool"
where
  "flow_vars c s a \<sigma> b q m x y w r lc ls \<longleftrightarrow>
     sem_vals (mkern \<sigma>) c s x y \<and> b < NBUFF \<and> filled b q (mbuf \<sigma>) \<and> 0 \<le> x \<and> 0 \<le> y \<and>
     client_at \<sigma> b (length q) x w lc \<and> server_at \<sigma> ((b + length q) mod NBUFF) q m r ls \<and>
     y + int r + int (length q) + int w = int NBUFF \<and>
     src_broken (mfile \<sigma>) = None \<and> written (mcout \<sigma>) @ concat q @ m @ src_pending (mfile \<sigma>) = a"

definition flowing :: "nat \<Rightarrow> nat \<Rightarrow> byte list \<Rightarrow> nat \<Rightarrow> multi_sys \<Rightarrow> bool" where
  "flowing c s a N \<sigma> \<longleftrightarrow>
     (\<exists>b q m x y w r lc ls. flow_vars c s a \<sigma> b q m x y w r lc ls \<and>
        N = 20 * length (src_pending (mfile \<sigma>)) + 5 * length q + lc + ls)"

definition well_stored :: "multi_sys \<Rightarrow> bool" where
  "well_stored \<sigma> \<longleftrightarrow> grants (mcout \<sigma>) = [] \<and> length (mbuf \<sigma>) = NBUFF \<and>
     (\<forall>i < NBUFF. length (mesg_data (mbuf \<sigma> ! i)) = MAXMESGDATA)"

definition multi_at :: "nat \<Rightarrow> nat \<Rightarrow> byte list \<Rightarrow> byte list \<Rightarrow> nat \<Rightarrow> multi_sys \<Rightarrow> bool" where
  "multi_at c s l a N \<sigma> \<longleftrightarrow> well_stored \<sigma> \<and>
     ((\<exists>ph. mphase_at c s l a ph \<sigma> \<and> N = mleft a ph) \<or> flowing c s a N \<sigma>)"

lemma flowingI:
  assumes "flow_vars c s a \<sigma> b q m x y w r lc ls" "well_stored \<sigma>"
    "20 * length (src_pending (mfile \<sigma>)) + 5 * length q + lc + ls < N"
  shows "\<exists>N' < N. multi_at c s l a N' \<sigma>"
  using assms unfolding multi_at_def flowing_def by blast

text \<open>A store into buffer \<open>i\<close>, a read and a write keep the buffers what they are.\<close>

lemma well_stored_upd:
  assumes "well_stored \<sigma>" "length (mesg_data m) = MAXMESGDATA"
  shows "well_stored (\<sigma>\<lparr>mbuf := (mbuf \<sigma>)[i := m]\<rparr>)"
  using assms by (cases "i < NBUFF") (auto simp: well_stored_def nth_list_update list_update_beyond)

lemma well_stored_frame [simp]:
  "well_stored (\<sigma>\<lparr>mkern := k\<rparr>) = well_stored \<sigma>" "well_stored (\<sigma>\<lparr>mcpc := cp\<rparr>) = well_stored \<sigma>"
  "well_stored (\<sigma>\<lparr>mspc := sp\<rparr>) = well_stored \<sigma>" "well_stored (\<sigma>\<lparr>mfile := f\<rparr>) = well_stored \<sigma>"
  "well_stored (\<sigma>\<lparr>mcin := fp\<rparr>) = well_stored \<sigma>"
  "well_stored (\<sigma>\<lparr>mcout := (mcout \<sigma>)\<lparr>written := t\<rparr>\<rparr>) = well_stored \<sigma>"
  by (simp_all add: well_stored_def)

lemma well_storedD:
  "well_stored \<sigma> \<Longrightarrow> grants (mcout \<sigma>) = []" "well_stored \<sigma> \<Longrightarrow> length (mbuf \<sigma>) = NBUFF"
  "well_stored \<sigma> \<Longrightarrow> i < NBUFF \<Longrightarrow> length (mesg_data (mbuf \<sigma> ! i)) = MAXMESGDATA"
  by (simp_all add: well_stored_def)

lemma client_flows_test:
  assumes f: "flow_vars c s a \<sigma> b q m x y w r lc ls" and st: "well_stored \<sigma>"
    and N: "N = 20 * length (src_pending (mfile \<sigma>)) + 5 * length q + lc + ls"
    and test: "mcpc \<sigma> = MCtest b" "x + 1 = int (length q)" "w = 0" "lc = 2"
  shows "\<exists>N' < N. multi_at c s l a N' (mclient c s \<sigma>)"
proof -
  note fs = f [unfolded flow_vars_def]
  obtain h q' where q: "q = h # q'" using fs test(2) by (cases q) auto
  have h: "msg_is h (mbuf \<sigma> ! b)" "filled (next_buf b) q' (mbuf \<sigma>)" using filled_tl fs q by auto
  have idx: "(next_buf b + length q') mod NBUFF = (b + length q) mod NBUFF"
    using fs q by (simp add: next_buf_mod mod_add_left_eq)
  have nb: "next_buf b < NBUFF" by (simp add: next_buf_def NBUFF_def)
  show ?thesis
  proof (cases "h = []")
    case True
    then have e: "q = [[]]" "mspc \<sigma> = MSreturned" "m = []" "src_pending (mfile \<sigma>) = []"
      using fs q by (auto simp: server_at_def Cons_eq_append_conv)
    have cl: "mclient c s \<sigma> = \<sigma>\<lparr>mcpc := MCreturned\<rparr>" using test(1) h(1) True by (simp add: mclient_def msg_is_def)
    have "mphase_at c s l a M_done (mclient c s \<sigma>)" using cl e fs by (simp add: mphase_at_def)
    then have "multi_at c s l a 0 (mclient c s \<sigma>)" using st cl unfolding multi_at_def by force
    then show ?thesis using N test by auto
  next
    case False
    have cl: "mclient c s \<sigma> = \<sigma>\<lparr>mcout := (mcout \<sigma>)\<lparr>written := written (mcout \<sigma>) @ h\<rparr>, mcpc := MCsig b\<rparr>"
      using test(1) h(1) False well_storedD(1) [OF st] by (simp add: mclient_def msg_is_def sys_write_def Let_def)
    have sv: "server_at (mclient c s \<sigma>) ((next_buf b + length q') mod NBUFF) q' m r ls"
      using fs False unfolding idx cl q by (auto simp: server_at_def Cons_eq_append_conv)
    have "flow_vars c s a (mclient c s \<sigma>) (next_buf b) q' m x y 1 r 4 ls"
      using fs sv h(2) test nb q unfolding flow_vars_def by (auto simp: cl client_at_def)
    then have "\<exists>N' < N. multi_at c s l a N' (mclient c s \<sigma>)"
      by (rule flowingI) (use cl st N test q in simp_all)
    then show ?thesis using test by simp
  qed
qed

lemma client_flows:
  assumes f: "flow_vars c s a \<sigma> b q m x y w r lc ls" and st: "well_stored \<sigma>"
    and N: "N = 20 * length (src_pending (mfile \<sigma>)) + 5 * length q + lc + ls"
  shows "if mcpc \<sigma> = MCwait b \<and> q = [] then mclient c s \<sigma> = \<sigma> else \<exists>N' < N. multi_at c s l a N' (mclient c s \<sigma>)"
proof -
  note fs = f [unfolded flow_vars_def]
  have sem: "sem_vals (mkern \<sigma>) c s x y" "x \<le> SEMVMX" "y < SEMVMX" "y \<le> SEMVMX"
    using fs by (auto simp: client_at_def NBUFF_def SEMVMX_def)
  from fs have "client_at \<sigma> b (length q) x w lc" by simp
  then consider (wait) "mcpc \<sigma> = MCwait b" "x = int (length q)" "w = 0" "lc = 3"
    | (test) "mcpc \<sigma> = MCtest b" "x + 1 = int (length q)" "w = 0" "lc = 2"
    | (sig) i where "i < NBUFF" "mcpc \<sigma> = MCsig i" "b = next_buf i" "x = int (length q)" "w = 1" "lc = 4"
    unfolding client_at_def by blast
  then show ?thesis
  proof cases
    case wait
    note sw = sem_call_wait(1) [OF sem(1,2,4), of cli "\<lambda>k. \<sigma>\<lparr>mkern := k, mcpc := MCtest b\<rparr>" \<sigma> "mclient_dead \<sigma>"]
    show ?thesis
    proof (cases "q = []")
      case True
      then show ?thesis using wait sw by (simp add: mclient_def)
    next
      case False
      then obtain k where k: "mclient c s \<sigma> = \<sigma>\<lparr>mkern := k, mcpc := MCtest b\<rparr>" "sem_vals k c s (x - 1) y"
        using wait sw by (auto simp: mclient_def)
      have "flow_vars c s a (mclient c s \<sigma>) b q m (x - 1) y 0 r 2 ls"
        using fs k wait False by (cases q) (simp_all add: flow_vars_def client_at_def server_at_def)
      then have "\<exists>N' < N. multi_at c s l a N' (mclient c s \<sigma>)"
        by (rule flowingI) (use k(1) st N wait in simp_all)
      then show ?thesis using False by simp
    qed
  next
    case test
    then show ?thesis using client_flows_test [OF f st N test] by simp
  next
    case (sig i)
    obtain k where k: "mclient c s \<sigma> = \<sigma>\<lparr>mkern := k, mcpc := MCwait b\<rparr>" "sem_vals k c s x (y + 1)"
      using sem_call_signal(2) [OF sem(1), of cli "\<lambda>k. \<sigma>\<lparr>mkern := k, mcpc := MCwait b\<rparr>" \<sigma> "mclient_dead \<sigma>"] fs sem(3) sig
      by (auto simp: mclient_def)
    have "flow_vars c s a (mclient c s \<sigma>) b q m x (y + 1) 0 r 3 ls"
      using fs k sig by (simp add: flow_vars_def client_at_def server_at_def)
    then have "\<exists>N' < N. multi_at c s l a N' (mclient c s \<sigma>)"
      by (rule flowingI) (use k st N sig in simp_all)
    then show ?thesis using sig by simp
  qed
qed

lemma mserver_reads:
  assumes "mspc \<sigma> = MSread i" "src_broken (mfile \<sigma>) = None" "i < NBUFF" "well_stored \<sigma>"
  shows "\<exists>xs f d. mserver op errs c s \<sigma> = \<sigma>\<lparr>mfile := f, mspc := MSsig i (int (length xs)),
             mbuf := (mbuf \<sigma>)[i := \<lparr>mesg_len = int (length xs), mesg_data = d\<rparr>]\<rparr> \<and>
           length d = MAXMESGDATA \<and> take (length xs) d = xs \<and> src_broken f = None \<and>
           src_pending (mfile \<sigma>) = xs @ src_pending f \<and> (xs = [] \<longrightarrow> src_pending f = [])"
proof -
  let ?d = "mesg_data (mbuf \<sigma> ! i)"
  have d: "length ?d = MAXMESGDATA" using assms(3,4) by (simp add: well_stored_def)
  have "0 < MAXMESGDATA - 1" by (simp add: MAXMESGDATA_def)
  then obtain xs f where r: "sys_read (mfile \<sigma>) (MAXMESGDATA - 1) = (Inr xs, f)" "length xs \<le> MAXMESGDATA - 1"
    "src_pending (mfile \<sigma>) = xs @ src_pending f" "src_broken f = None" "xs = [] \<longrightarrow> src_pending f = []"
    using sys_read_some [of "mfile \<sigma>" "MAXMESGDATA - 1"] sys_read_eof [of "mfile \<sigma>" "MAXMESGDATA - 1"] assms(2)
    by (cases "src_pending (mfile \<sigma>) = []") fastforce+
  have "mserver op errs c s \<sigma> = \<sigma>\<lparr>mfile := f, mspc := MSsig i (int (length xs)),
             mbuf := (mbuf \<sigma>)[i := \<lparr>mesg_len = int (length xs), mesg_data = poke ?d 0 xs\<rparr>]\<rparr>"
    using assms(1) r(1) by (simp add: mserver_def)
  moreover have "length (poke ?d 0 xs) = MAXMESGDATA" "take (length xs) (poke ?d 0 xs) = xs"
    using r(2) d by (simp_all add: take_poke)
  ultimately show ?thesis using r by blast
qed

lemma server_flows_read:
  assumes f: "flow_vars c s a \<sigma> b q m x y w r lc ls" and st: "well_stored \<sigma>"
    and N: "N = 20 * length (src_pending (mfile \<sigma>)) + 5 * length q + lc + ls"
    and read: "mspc \<sigma> = MSread ((b + length q) mod NBUFF)" "r = 1" "m = []" "[] \<notin> set q" "ls = 11"
  shows "\<exists>N' < N. multi_at c s l a N' (mserver op errs c s \<sigma>)"
proof -
  let ?i = "(b + length q) mod NBUFF"
  note fs = f [unfolded flow_vars_def]
  have i: "?i < NBUFF" by (simp add: NBUFF_def)
  obtain xs g d where g: "mserver op errs c s \<sigma> = \<sigma>\<lparr>mfile := g, mspc := MSsig ?i (int (length xs)),
           mbuf := (mbuf \<sigma>)[?i := \<lparr>mesg_len = int (length xs), mesg_data = d\<rparr>]\<rparr>"
    "length d = MAXMESGDATA" "take (length xs) d = xs" "src_broken g = None"
    "src_pending (mfile \<sigma>) = xs @ src_pending g" "xs = [] \<longrightarrow> src_pending g = []"
    using mserver_reads [OF read(1) _ i st, of op errs c s] fs by auto
  have lq: "length q < NBUFF" using fs read(2) by auto
  have fl: "filled b q ((mbuf \<sigma>)[?i := \<lparr>mesg_len = int (length xs), mesg_data = d\<rparr>])"
    using filled_upd [OF _ lq] fs by blast
  have "flow_vars c s a (mserver op errs c s \<sigma>) b q xs x y w 1 lc (if xs = [] then 10 else 18)"
    using fs g read fl i well_storedD(2) [OF st]
    unfolding flow_vars_def by (auto simp: client_at_def server_at_def msg_is_def)
  moreover have "well_stored (mserver op errs c s \<sigma>)"
    using well_stored_upd [OF st, of "\<lparr>mesg_len = int (length xs), mesg_data = d\<rparr>" ?i] g(1,2)
    by (simp add: well_stored_def)
  ultimately have "\<exists>N' < N. multi_at c s l a N' (mserver op errs c s \<sigma>)"
    by (rule flowingI) (use g N read Suc_le_eq [of 0 "length xs"] in auto)
  then show ?thesis using read by simp
qed

lemma server_flows_sig:
  assumes f: "flow_vars c s a \<sigma> b q m x y w r lc ls" and st: "well_stored \<sigma>"
    and N: "N = 20 * length (src_pending (mfile \<sigma>)) + 5 * length q + lc + ls"
    and sig: "mspc \<sigma> = MSsig ((b + length q) mod NBUFF) (int (length m))" "r = 1"
      "msg_is m (mbuf \<sigma> ! ((b + length q) mod NBUFF))" "[] \<notin> set q"
      "m = [] \<longrightarrow> src_pending (mfile \<sigma>) = []" "ls = (if m = [] then 10 else 18)"
  shows "\<exists>N' < N. multi_at c s l a N' (mserver op errs c s \<sigma>)"
proof -
  let ?i = "(b + length q) mod NBUFF"
  note fs = f [unfolded flow_vars_def]
  have i: "?i < NBUFF" by (simp add: NBUFF_def)
  have nx: "(b + length (q @ [z])) mod NBUFF = next_buf ?i" for z :: "byte list"
    using i by (simp add: next_buf_mod mod_Suc_eq)
  have sem: "sem_vals (mkern \<sigma>) c s x y" "x < SEMVMX" "0 \<le> x" "0 \<le> y"
    using fs by (auto simp: client_at_def NBUFF_def SEMVMX_def)
  let ?pc = "if m = [] then MSreturned else MSwait (next_buf ?i)"
  obtain k where k: "mserver op errs c s \<sigma> = \<sigma>\<lparr>mkern := k, mspc := ?pc\<rparr>" "sem_vals k c s (x + 1) y"
    using sem_call_signal(1) [OF sem(1,3,4,2), of srv "\<lambda>k. \<sigma>\<lparr>mkern := k, mspc := ?pc\<rparr>" \<sigma> "mserver_dead MSdead \<sigma>"] sig
    by (auto simp: mserver_def)
  have "server_at (mserver op errs c s \<sigma>) ((b + length (q @ [m])) mod NBUFF) (q @ [m]) [] 0 (if m = [] then 0 else 12)"
    using sig k(1) unfolding nx by (auto simp: server_at_def)
  moreover have "client_at (mserver op errs c s \<sigma>) b (length (q @ [m])) (x + 1) w lc"
    using fs k(1) unfolding client_at_def by auto
  moreover have "filled b (q @ [m]) (mbuf (mserver op errs c s \<sigma>))"
    using filled_snoc [of b q "mbuf \<sigma>" m] fs sig(3) k(1) by simp
  ultimately have "flow_vars c s a (mserver op errs c s \<sigma>) b (q @ [m]) [] (x + 1) y w 0 lc (if m = [] then 0 else 12)"
    using fs k sig(2) sem(3) unfolding flow_vars_def by simp
  then have "\<exists>N' < N. multi_at c s l a N' (mserver op errs c s \<sigma>)"
    by (rule flowingI) (use k(1) st N sig in auto)
  then show ?thesis using sig by simp
qed

lemma server_flows:
  assumes f: "flow_vars c s a \<sigma> b q m x y w r lc ls" and st: "well_stored \<sigma>"
    and N: "N = 20 * length (src_pending (mfile \<sigma>)) + 5 * length q + lc + ls"
  shows "if (\<exists>i. mspc \<sigma> = MSwait i) \<and> y = 0 \<or> mspc \<sigma> = MSreturned then mserver op errs c s \<sigma> = \<sigma>
         else \<exists>N' < N. multi_at c s l a N' (mserver op errs c s \<sigma>)"
proof -
  let ?i = "(b + length q) mod NBUFF"
  note fs = f [unfolded flow_vars_def]
  have i: "?i < NBUFF" by (simp add: NBUFF_def)
  have nx: "(b + length (q @ [z])) mod NBUFF = next_buf ?i" for z :: "byte list"
    using i by (simp add: next_buf_mod mod_Suc_eq)
  have sem: "sem_vals (mkern \<sigma>) c s x y" "x < SEMVMX" "x \<le> SEMVMX" "y \<le> SEMVMX" "0 \<le> x" "0 \<le> y"
    using fs by (auto simp: client_at_def NBUFF_def SEMVMX_def)
  from fs have "server_at \<sigma> ?i q m r ls" by simp
  then consider (wait) "mspc \<sigma> = MSwait ?i" "r = 0" "m = []" "[] \<notin> set q" "ls = 12"
    | (read) "mspc \<sigma> = MSread ?i" "r = 1" "m = []" "[] \<notin> set q" "ls = 11"
    | (sig) "mspc \<sigma> = MSsig ?i (int (length m))" "r = 1" "msg_is m (mbuf \<sigma> ! ?i)" "[] \<notin> set q"
        "m = [] \<longrightarrow> src_pending (mfile \<sigma>) = []" "ls = (if m = [] then 10 else 18)"
    | (ret) "mspc \<sigma> = MSreturned"
    unfolding server_at_def by blast
  then show ?thesis
  proof cases
    case wait
    note sw = sem_call_wait(2) [OF sem(1,3,4), of srv "\<lambda>k. \<sigma>\<lparr>mkern := k, mspc := MSread ?i\<rparr>" \<sigma> "mserver_dead MSdead \<sigma>"]
    show ?thesis
    proof (cases "y = 0")
      case True
      then show ?thesis using wait sw by (simp add: mserver_def)
    next
      case False
      then obtain k where k: "mserver op errs c s \<sigma> = \<sigma>\<lparr>mkern := k, mspc := MSread ?i\<rparr>" "sem_vals k c s x (y - 1)"
        using wait sw sem(6) by (auto simp: mserver_def)
      have "flow_vars c s a (mserver op errs c s \<sigma>) b q m x (y - 1) w 1 lc 11"
        using fs k wait False by (simp add: flow_vars_def client_at_def server_at_def)
      then have "\<exists>N' < N. multi_at c s l a N' (mserver op errs c s \<sigma>)"
        by (rule flowingI) (use k(1) st N wait in simp_all)
      then show ?thesis using False wait by simp
    qed
  next
    case read
    then show ?thesis using server_flows_read [OF f st N read] by simp
  next
    case sig
    then show ?thesis using server_flows_sig [OF f st N sig] by simp
  next
    case ret
    then show ?thesis by (simp add: mserver_def)
  qed
qed

section \<open>The request and the error message\<close>

fun mclient_turn :: "mphase \<Rightarrow> bool" where
  "mclient_turn M_start = True" | "mclient_turn M_fill = True" | "mclient_turn M_req = True"
| "mclient_turn M_err_sent = True" | "mclient_turn M_err_got = True" | "mclient_turn M_err_out = True"
| "mclient_turn M_end_sent = True" | "mclient_turn M_end_got = True" | "mclient_turn M_done = True"
| "mclient_turn ph = False"

lemma mphaseI:
  assumes "mphase_at c s l a ph \<sigma>" "well_stored \<sigma>" "mleft a ph < N"
  shows "\<exists>N' < N. multi_at c s l a N' \<sigma>"
  using assms unfolding multi_at_def by blast

lemma mclient_blocked:
  assumes "mphase_at c s l a ph \<sigma>" "\<not> mclient_turn ph \<or> ph = M_done"
  shows "mclient c s \<sigma> = \<sigma>"
proof -
  have sleeps: "mclient c s \<sigma> = \<sigma>" if "mcpc \<sigma> = MCwait i" "sem_vals (mkern \<sigma>) c s 0 y" "y \<le> SEMVMX" for y i
    using sem_call_wait(1) [OF that(2), of cli "\<lambda>k. \<sigma>\<lparr>mkern := k, mcpc := MCtest i\<rparr>" \<sigma> "mclient_dead \<sigma>"] that
    by (simp add: mclient_def SEMVMX_def)
  show ?thesis
  proof (cases ph)
    case (M_init i)
    then show ?thesis using assms sleeps [of 0 "int i"] by (simp add: mphase_at_def NBUFF_def SEMVMX_def)
  qed (use assms sleeps [of 0 0] sleeps [of 0 1] sleeps [of 1 0] sleeps [of 1 1] in
       \<open>auto simp: mphase_at_def mclient_def SEMVMX_def\<close>)
qed

lemma mserver_blocked:
  assumes "mphase_at c s l a ph \<sigma>" "mclient_turn ph"
  shows "mserver open_file errs c s \<sigma> = \<sigma>"
proof -
  have sleeps: "mserver open_file errs c s \<sigma> = \<sigma>"
    if "mspc \<sigma> \<in> {MSwait0, MSewait}" "sem_vals (mkern \<sigma>) c s x 0" "x \<le> SEMVMX" for x
    using sem_call_wait(2) [OF that(2), of srv _ \<sigma> "mserver_dead MSdead \<sigma>"] that
    by (auto simp: mserver_def SEMVMX_def)
  show ?thesis
    using assms sleeps [of 0] sleeps [of 1]
    by (cases ph) (auto simp: mphase_at_def mserver_def SEMVMX_def)
qed

lemma mclient_wait:
  assumes "sem_vals (mkern \<sigma>) c s 1 y" "y \<le> SEMVMX"
  shows "mcpc \<sigma> = MCwait0 \<Longrightarrow> \<exists>k. mclient c s \<sigma> = \<sigma>\<lparr>mkern := k, mcpc := MCfill\<rparr> \<and> sem_vals k c s 0 y"
    and "mcpc \<sigma> = MCwait i \<Longrightarrow> \<exists>k. mclient c s \<sigma> = \<sigma>\<lparr>mkern := k, mcpc := MCtest i\<rparr> \<and> sem_vals k c s 0 y"
  using sem_call_wait(1) [OF assms(1), of cli _ \<sigma> "mclient_dead \<sigma>"] assms(2)
  by (auto simp: mclient_def SEMVMX_def)

lemma mclient_signal:
  assumes "sem_vals (mkern \<sigma>) c s 0 0"
  shows "mcpc \<sigma> = MCsig0 \<Longrightarrow> \<exists>k. mclient c s \<sigma> = \<sigma>\<lparr>mkern := k, mcpc := MCwait 0\<rparr> \<and> sem_vals k c s 0 1"
    and "mcpc \<sigma> = MCsig i \<Longrightarrow> \<exists>k. mclient c s \<sigma> = \<sigma>\<lparr>mkern := k, mcpc := MCwait (next_buf i)\<rparr> \<and> sem_vals k c s 0 1"
  using sem_call_signal(2) [OF assms(1), of cli _ \<sigma> "mclient_dead \<sigma>"]
  by (auto simp: mclient_def SEMVMX_def)

lemma mserver_wait:
  assumes "sem_vals (mkern \<sigma>) c s 0 1"
  shows "mspc \<sigma> = MSwait0 \<Longrightarrow> \<exists>k. mserver op errs c s \<sigma> = \<sigma>\<lparr>mkern := k, mspc := MSopen\<rparr> \<and> sem_vals k c s 0 0"
    and "mspc \<sigma> = MSewait \<Longrightarrow> \<exists>k. mserver op errs c s \<sigma> = \<sigma>\<lparr>mkern := k, mspc := MSelen\<rparr> \<and> sem_vals k c s 0 0"
  using sem_call_wait(2) [OF assms(1), of srv _ \<sigma> "mserver_dead MSdead \<sigma>"]
  by (auto simp: mserver_def SEMVMX_def)

lemma mserver_signal:
  assumes "sem_vals (mkern \<sigma>) c s 0 0"
  shows "mspc \<sigma> = MSesig \<Longrightarrow> \<exists>k. mserver op errs c s \<sigma> = \<sigma>\<lparr>mkern := k, mspc := MSewait\<rparr> \<and> sem_vals k c s 1 0"
    and "mspc \<sigma> = MSesig2 \<Longrightarrow> \<exists>k. mserver op errs c s \<sigma> = \<sigma>\<lparr>mkern := k, mspc := MSreturned\<rparr> \<and> sem_vals k c s 1 0"
  using sem_call_signal(1) [OF assms(1), of srv _ \<sigma> "mserver_dead MSdead \<sigma>"]
  by (auto simp: mserver_def SEMVMX_def)

lemma NBUFF_pos [simp]: "0 < NBUFF" "Suc 0 < NBUFF" "next_buf 0 = 1"
  by (simp_all add: NBUFF_def next_buf_def)

lemma mclient_advances_fill:
  assumes ph: "mphase_at c s l a M_fill \<sigma>" and st: "well_stored \<sigma>"
  shows "\<exists>N' < mleft a M_fill. multi_at c s l a N' (mclient c s \<sigma>)"
proof -
  have l: "rest (mcin \<sigma>) \<noteq> []" "take_line (MAXMESGDATA - 1) (rest (mcin \<sigma>)) = l" "mcpc \<sigma> = MCfill"
    using ph by (auto simp: mphase_at_def)
  then have "length l \<le> MAXMESGDATA - 1" using length_take_line by blast
  then have ll: "length l < length (mesg_data (mbuf \<sigma> ! 0))"
    using well_storedD(3) [OF st, of 0] by (simp add: MAXMESGDATA_def)
  note r = request_stored [OF ll]
  let ?d = "poke (mesg_data (mbuf \<sigma> ! 0)) 0 (l @ [NUL])"
  let ?m = "\<lparr>mesg_len = int (length (request l)), mesg_data = ?d\<rparr>"
  have cl: "mclient c s \<sigma> = \<sigma>\<lparr>mcin := (mcin \<sigma>)\<lparr>rest := drop (length l) (rest (mcin \<sigma>))\<rparr>,
      mbuf := (mbuf \<sigma>)[0 := ?m], mcpc := MCsig0\<rparr>"
    using l r(1) by (simp add: mclient_def fgets_def Let_def)
  have "well_stored (mclient c s \<sigma>)"
    using well_stored_upd [OF st, of ?m 0] well_storedD(3) [OF st, of 0] unfolding cl by (simp add: well_stored_def)
  then show ?thesis
    by (intro mphaseI [of _ _ _ _ M_req])
       (use ph r(2) [unfolded r(1)] well_storedD(2) [OF st] in \<open>simp_all add: mphase_at_def cl msg_is_def\<close>)
qed

lemma mclient_advances:
  assumes ph: "mphase_at c s l a ph \<sigma>" and st: "well_stored \<sigma>" and turn: "mclient_turn ph" "ph \<noteq> M_done"
  shows "\<exists>N' < mleft a ph. multi_at c s l a N' (mclient c s \<sigma>)"
proof (cases ph)
  case M_start
  then obtain k where "mclient c s \<sigma> = \<sigma>\<lparr>mkern := k, mcpc := MCfill\<rparr>" "sem_vals k c s 0 0"
    using ph mclient_wait(1) [of \<sigma> c s 0] by (auto simp: mphase_at_def SEMVMX_def)
  then show ?thesis by (intro mphaseI [of _ _ _ _ M_fill]) (use ph st M_start in \<open>auto simp: mphase_at_def\<close>)
next
  case M_fill
  then show ?thesis using mclient_advances_fill [OF _ st] ph by simp
next
  case M_req
  then obtain k where "mclient c s \<sigma> = \<sigma>\<lparr>mkern := k, mcpc := MCwait 0\<rparr>" "sem_vals k c s 0 1"
    using ph mclient_signal(1) [of \<sigma> c s] by (auto simp: mphase_at_def)
  then show ?thesis by (intro mphaseI [of _ _ _ _ M_asked]) (use ph st M_req in \<open>auto simp: mphase_at_def\<close>)
next
  case M_err_sent
  then obtain k where "mclient c s \<sigma> = \<sigma>\<lparr>mkern := k, mcpc := MCtest 0\<rparr>" "sem_vals k c s 0 0"
    using ph mclient_wait(2) [of \<sigma> c s 0 0] by (auto simp: mphase_at_def SEMVMX_def)
  then show ?thesis by (intro mphaseI [of _ _ _ _ M_err_got]) (use ph st M_err_sent in \<open>auto simp: mphase_at_def\<close>)
next
  case M_err_got
  then have "mclient c s \<sigma> = \<sigma>\<lparr>mcout := (mcout \<sigma>)\<lparr>written := written (mcout \<sigma>) @ a\<rparr>, mcpc := MCsig 0\<rparr>"
    using ph well_storedD(1) [OF st] by (simp add: mphase_at_def mclient_def msg_is_def sys_write_def Let_def)
  then show ?thesis by (intro mphaseI [of _ _ _ _ M_err_out]) (use ph st M_err_got in \<open>auto simp: mphase_at_def\<close>)
next
  case M_err_out
  then obtain k where "mclient c s \<sigma> = \<sigma>\<lparr>mkern := k, mcpc := MCwait 1\<rparr>" "sem_vals k c s 0 1"
    using ph mclient_signal(2) [of \<sigma> c s 0] by (auto simp: mphase_at_def)
  then show ?thesis by (intro mphaseI [of _ _ _ _ M_err_ack]) (use ph st M_err_out in \<open>auto simp: mphase_at_def\<close>)
next
  case M_end_sent
  then obtain k where "mclient c s \<sigma> = \<sigma>\<lparr>mkern := k, mcpc := MCtest 1\<rparr>" "sem_vals k c s 0 0"
    using ph mclient_wait(2) [of \<sigma> c s 0 1] by (auto simp: mphase_at_def SEMVMX_def)
  then show ?thesis by (intro mphaseI [of _ _ _ _ M_end_got]) (use ph st M_end_sent in \<open>auto simp: mphase_at_def\<close>)
next
  case M_end_got
  then have "mclient c s \<sigma> = \<sigma>\<lparr>mcpc := MCreturned\<rparr>" using ph by (auto simp: mphase_at_def mclient_def)
  then show ?thesis by (intro mphaseI [of _ _ _ _ M_done]) (use ph st M_end_got in \<open>auto simp: mphase_at_def\<close>)
qed (use turn in simp_all)

lemma mserver_opens:
  assumes "mspc \<sigma> = MSopen" "msg_is nm (mbuf \<sigma> ! 0)" "length (mesg_data (mbuf \<sigma> ! 0)) = MAXMESGDATA"
    "length nm < MAXMESGDATA" "NUL \<notin> set nm" "file_ok open_file errs nm" "a = shm_answer open_file errs nm"
  shows "(\<exists>m. mserver open_file errs c s \<sigma> = \<sigma>\<lparr>mbuf := (mbuf \<sigma>)[0 := m], mspc := MSesig\<rparr> \<and> msg_is a m \<and> a \<noteq> [] \<and>
            length (mesg_data m) = MAXMESGDATA) \<or>
         (\<exists>m f. mserver open_file errs c s \<sigma> = \<sigma>\<lparr>mbuf := (mbuf \<sigma>)[0 := m], mfile := f, mspc := MSinit 0\<rparr> \<and>
            length (mesg_data m) = MAXMESGDATA \<and> src_broken f = None \<and> src_pending f = a)"
proof -
  let ?s = "\<lparr>kern = undefined, mesg = mbuf \<sigma> ! 0, cin = undefined, cout = undefined, filefd = undefined,
      cpc = undefined, spc = Sopen\<rparr>"
  have nm: "cstr ((mesg_data (mbuf \<sigma> ! 0))[nat (mesg_len (mbuf \<sigma> ! 0)) := NUL]) = nm"
    using name_stored [OF assms(2,3,4,5)] .
  have "spc ?s = Sopen" "msg_is nm (mesg ?s)" "length (mesg_data (mesg ?s)) = MAXMESGDATA" using assms by simp_all
  note op = server_opens [OF this assms(4-7), of c s]
  show ?thesis
  proof (cases "open_file nm")
    case (Inl e)
    have "length (errmesg errs e) < 256" using assms(6) Inl by (simp add: file_ok_def errmesg_def)
    then show ?thesis
      using op assms(1,6) nm Inl
      by (auto simp: mserver_def server_def Let_def file_ok_def split: if_splits)
  next
    case (Inr f)
    let ?m = "(mbuf \<sigma> ! 0)\<lparr>mesg_data := (mesg_data (mbuf \<sigma> ! 0))[nat (mesg_len (mbuf \<sigma> ! 0)) := NUL]\<rparr>"
    have "mserver open_file errs c s \<sigma> = \<sigma>\<lparr>mbuf := (mbuf \<sigma>)[0 := ?m], mfile := f, mspc := MSinit 0\<rparr>"
      using assms(1) nm Inr by (simp add: mserver_def Let_def)
    moreover have "length (mesg_data ?m) = MAXMESGDATA" "src_broken f = None" "src_pending f = a"
      using assms(3,6,7) Inr by (simp_all add: file_ok_def shm_answer_def)
    ultimately show ?thesis by blast
  qed
qed

lemma mserver_advances_open:
  assumes ph: "mphase_at c s l a M_open \<sigma>" and st: "well_stored \<sigma>"
    and l: "length l < MAXMESGDATA" "file_ok open_file errs (request l)" "a = shm_answer open_file errs (request l)"
  shows "\<exists>N' < mleft a M_open. multi_at c s l a N' (mserver open_file errs c s \<sigma>)"
proof -
  have rq: "length (request l) < MAXMESGDATA" "NUL \<notin> set (request l)"
    using request_no_NUL [of l] l(1) by simp_all
  have \<sigma>: "mspc \<sigma> = MSopen" "msg_is (request l) (mbuf \<sigma> ! 0)" "length (mesg_data (mbuf \<sigma> ! 0)) = MAXMESGDATA"
    using ph well_storedD(3) [OF st, of 0] by (simp_all add: mphase_at_def)
  from mserver_opens [OF \<sigma> rq l(2,3), of c s] show ?thesis
  proof (elim disjE exE conjE)
    fix m
    assume m: "mserver open_file errs c s \<sigma> = \<sigma>\<lparr>mbuf := (mbuf \<sigma>)[0 := m], mspc := MSesig\<rparr>" "msg_is a m" "a \<noteq> []"
      "length (mesg_data m) = MAXMESGDATA"
    have "well_stored (mserver open_file errs c s \<sigma>)" using well_stored_upd [OF st m(4), of 0] m(1) by simp
    then show ?thesis
      by (intro mphaseI [of _ _ _ _ M_err])
         (use ph m well_storedD(2) [OF st] in \<open>simp_all add: mphase_at_def\<close>)
  next
    fix m f
    assume m: "mserver open_file errs c s \<sigma> = \<sigma>\<lparr>mbuf := (mbuf \<sigma>)[0 := m], mfile := f, mspc := MSinit 0\<rparr>"
      "length (mesg_data m) = MAXMESGDATA" "src_broken f = None" "src_pending f = a"
    have "well_stored (mserver open_file errs c s \<sigma>)"
      using well_stored_upd [OF st m(2), of 0] m(1) by (simp add: well_stored_def)
    then show ?thesis
      by (intro mphaseI [of _ _ _ _ "M_init 0"])
         (use ph m well_storedD(2) [OF st] in \<open>simp_all add: mphase_at_def\<close>)
  qed
qed

lemma mserver_advances_init:
  assumes ph: "mphase_at c s l a (M_init i) \<sigma>" and st: "well_stored \<sigma>"
  shows "\<exists>N' < mleft a (M_init i). multi_at c s l a N' (mserver open_file errs c s \<sigma>)"
proof -
  have i: "i < NBUFF" "mspc \<sigma> = MSinit i" "mcpc \<sigma> = MCwait 0" "sem_vals (mkern \<sigma>) c s 0 (int i)"
    "written (mcout \<sigma>) = []" "src_broken (mfile \<sigma>) = None" "src_pending (mfile \<sigma>) = a"
    using ph by (auto simp: mphase_at_def)
  let ?pc = "if i + 1 < NBUFF then MSinit (i + 1) else MSwait 0"
  obtain k where k: "mserver open_file errs c s \<sigma> = \<sigma>\<lparr>mkern := k, mspc := ?pc\<rparr>" "sem_vals k c s 0 (int i + 1)"
    using sem_call_signal(2) [OF i(4), of srv "\<lambda>k. \<sigma>\<lparr>mkern := k, mspc := ?pc\<rparr>" \<sigma> "mserver_dead MSdead \<sigma>"] i(1,2)
    by (auto simp: mserver_def NBUFF_def SEMVMX_def)
  show ?thesis
  proof (cases "i + 1 < NBUFF")
    case True
    then show ?thesis
      using i k st
      by (intro mphaseI [of _ _ _ _ "M_init (i + 1)"]) (simp_all add: mphase_at_def add.commute NBUFF_def)
  next
    case False
    then have "i + 1 = NBUFF" using i(1) by simp
    then have "int i + 1 = int NBUFF" by linarith
    with k(2) have "sem_vals k c s 0 (int NBUFF)" by simp
    with \<open>i + 1 = NBUFF\<close> have "flow_vars c s a (mserver open_file errs c s \<sigma>) 0 [] [] 0 (int NBUFF) 0 0 3 12"
      using i k by (auto simp: flow_vars_def client_at_def server_at_def)
    then show ?thesis
      by (rule flowingI) (use k(1) st i in \<open>simp_all add: NBUFF_def\<close>)
  qed
qed

lemma mserver_advances:
  assumes ph: "mphase_at c s l a ph \<sigma>" and st: "well_stored \<sigma>" and turn: "\<not> mclient_turn ph"
    and l: "length l < MAXMESGDATA" "file_ok open_file errs (request l)" "a = shm_answer open_file errs (request l)"
  shows "\<exists>N' < mleft a ph. multi_at c s l a N' (mserver open_file errs c s \<sigma>)"
proof (cases ph)
  case M_asked
  then obtain k where "mserver open_file errs c s \<sigma> = \<sigma>\<lparr>mkern := k, mspc := MSopen\<rparr>" "sem_vals k c s 0 0"
    using ph mserver_wait(1) [of \<sigma> c s] by (auto simp: mphase_at_def)
  then show ?thesis by (intro mphaseI [of _ _ _ _ M_open]) (use ph st M_asked in \<open>auto simp: mphase_at_def\<close>)
next
  case M_open
  then show ?thesis using mserver_advances_open [OF _ st l] ph by simp
next
  case (M_init i)
  then show ?thesis using mserver_advances_init [OF _ st] ph by simp
next
  case M_err
  then obtain k where "mserver open_file errs c s \<sigma> = \<sigma>\<lparr>mkern := k, mspc := MSewait\<rparr>" "sem_vals k c s 1 0"
    using ph mserver_signal(1) [of \<sigma> c s] by (auto simp: mphase_at_def)
  then show ?thesis by (intro mphaseI [of _ _ _ _ M_err_sent]) (use ph st M_err in \<open>auto simp: mphase_at_def\<close>)
next
  case M_err_ack
  then obtain k where "mserver open_file errs c s \<sigma> = \<sigma>\<lparr>mkern := k, mspc := MSelen\<rparr>" "sem_vals k c s 0 0"
    using ph mserver_wait(2) [of \<sigma> c s] by (auto simp: mphase_at_def)
  then show ?thesis by (intro mphaseI [of _ _ _ _ M_len]) (use ph st M_err_ack in \<open>auto simp: mphase_at_def\<close>)
next
  case M_len
  let ?m = "(mbuf \<sigma> ! 1)\<lparr>mesg_len := 0\<rparr>"
  have e: "mserver open_file errs c s \<sigma> = \<sigma>\<lparr>mbuf := (mbuf \<sigma>)[1 := ?m], mspc := MSesig2\<rparr>"
    using ph M_len by (auto simp: mphase_at_def mserver_def)
  have "length (mesg_data ?m) = MAXMESGDATA" using well_storedD(3) [OF st, of 1] by simp
  then have "well_stored (mserver open_file errs c s \<sigma>)" using well_stored_upd [OF st, of ?m 1] e by simp
  then show ?thesis
    by (intro mphaseI [of _ _ _ _ M_empty]) (use ph e M_len well_storedD(2) [OF st] in \<open>auto simp: mphase_at_def\<close>)
next
  case M_empty
  then obtain k where "mserver open_file errs c s \<sigma> = \<sigma>\<lparr>mkern := k, mspc := MSreturned\<rparr>" "sem_vals k c s 1 0"
    using ph mserver_signal(2) [of \<sigma> c s] by (auto simp: mphase_at_def)
  then show ?thesis by (intro mphaseI [of _ _ _ _ M_end_sent]) (use ph st M_empty in \<open>auto simp: mphase_at_def\<close>)
qed (use turn in simp_all)

section \<open>The two processes together\<close>

lemma multi_step_at:
  assumes "multi_at c s l a N \<sigma>" "length l < MAXMESGDATA"
    "file_ok open_file errs (request l)" "a = shm_answer open_file errs (request l)"
  shows "multi_step open_file errs c s who \<sigma> = \<sigma> \<or> (\<exists>N' < N. multi_at c s l a N' (multi_step open_file errs c s who \<sigma>))"
    and "N \<noteq> 0 \<Longrightarrow> \<exists>who. \<exists>N' < N. multi_at c s l a N' (multi_step open_file errs c s who \<sigma>)"
proof -
  have st: "well_stored \<sigma>" using assms(1) by (simp add: multi_at_def)
  consider (phase) ph where "mphase_at c s l a ph \<sigma>" "N = mleft a ph"
    | (flow) b q m x y w r lc ls where "flow_vars c s a \<sigma> b q m x y w r lc ls"
        "N = 20 * length (src_pending (mfile \<sigma>)) + 5 * length q + lc + ls"
    using assms(1) unfolding multi_at_def flowing_def by blast
  then have "(\<forall>who. multi_step open_file errs c s who \<sigma> = \<sigma> \<or>
        (\<exists>N' < N. multi_at c s l a N' (multi_step open_file errs c s who \<sigma>))) \<and>
      (N \<noteq> 0 \<longrightarrow> (\<exists>who. \<exists>N' < N. multi_at c s l a N' (multi_step open_file errs c s who \<sigma>)))"
  proof cases
    case phase
    note b = mclient_blocked [OF phase(1)] mserver_blocked [OF phase(1), of open_file errs]
    note m = mclient_advances [OF phase(1) st] mserver_advances [OF phase(1) st _ assms(2-4)]
    have "ph \<noteq> M_done" if "N \<noteq> 0" using that phase(2) by auto
    then have "\<exists>N' < N. multi_at c s l a N' (multi_step open_file errs c s (mclient_turn ph) \<sigma>)" if "N \<noteq> 0"
      using that m phase(2) by (cases "mclient_turn ph") (simp_all add: multi_step_def)
    moreover have "multi_step open_file errs c s who \<sigma> = \<sigma> \<or>
        (\<exists>N' < N. multi_at c s l a N' (multi_step open_file errs c s who \<sigma>))" for who
      using b m phase(2) by (cases who) (auto simp: multi_step_def)
    ultimately show ?thesis by blast
  next
    case flow
    note c = client_flows [OF flow(1) st flow(2), of l]
    note s = server_flows [OF flow(1) st flow(2), of open_file errs l]
    note fs = flow(1) [unfolded flow_vars_def]
    have "\<not> (mcpc \<sigma> = MCwait b \<and> q = [] \<and> ((\<exists>i. mspc \<sigma> = MSwait i) \<and> y = 0 \<or> mspc \<sigma> = MSreturned))"
      using fs by (auto simp: client_at_def server_at_def NBUFF_def)
    then have "(\<exists>N' < N. multi_at c s l a N' (mclient c s \<sigma>)) \<or>
        (\<exists>N' < N. multi_at c s l a N' (mserver open_file errs c s \<sigma>))" using c s by meson
    then have "\<exists>who. \<exists>N' < N. multi_at c s l a N' (multi_step open_file errs c s who \<sigma>)"
      unfolding multi_step_def by (metis (full_types))
    moreover have "multi_step open_file errs c s who \<sigma> = \<sigma> \<or>
        (\<exists>N' < N. multi_at c s l a N' (multi_step open_file errs c s who \<sigma>))" for who
      using c s unfolding multi_step_def by (cases who; simp; meson)
    ultimately show ?thesis by blast
  qed
  then show "multi_step open_file errs c s who \<sigma> = \<sigma> \<or> (\<exists>N' < N. multi_at c s l a N' (multi_step open_file errs c s who \<sigma>))"
    and "N \<noteq> 0 \<Longrightarrow> \<exists>who. \<exists>N' < N. multi_at c s l a N' (multi_step open_file errs c s who \<sigma>)" by blast+
qed

lemma multi_run_at:
  assumes "multi_at c s l a N \<sigma>" "length l < MAXMESGDATA"
    "file_ok open_file errs (request l)" "a = shm_answer open_file errs (request l)"
  shows "\<exists>N' \<le> N. multi_at c s l a N' (fold (multi_step open_file errs c s) sched \<sigma>)"
  using assms(1)
proof (induction sched arbitrary: N \<sigma>)
  case (Cons who sched)
  obtain N1 where 1: "N1 \<le> N" "multi_at c s l a N1 (multi_step open_file errs c s who \<sigma>)"
    using multi_step_at(1) [OF Cons.prems assms(2-4), of who] Cons.prems by (metis less_imp_le order_refl)
  from Cons.IH [OF 1(2)] 1(1) show ?case by (auto intro: order_trans)
qed auto

lemma multi_can_finish:
  assumes "multi_at c s l a N \<sigma>" "length l < MAXMESGDATA"
    "file_ok open_file errs (request l)" "a = shm_answer open_file errs (request l)"
  shows "\<exists>sched. length sched \<le> N \<and> multi_at c s l a 0 (fold (multi_step open_file errs c s) sched \<sigma>)"
  using assms(1)
proof (induction N arbitrary: \<sigma> rule: less_induct)
  case (less N)
  show ?case
  proof (cases "N = 0")
    case True
    then show ?thesis using less.prems by (intro exI [of _ "[]"]) simp
  next
    case False
    then obtain who N' where w: "N' < N" "multi_at c s l a N' (multi_step open_file errs c s who \<sigma>)"
      using multi_step_at(2) [OF less.prems assms(2-4)] by blast
    obtain sched where "length sched \<le> N'"
      "multi_at c s l a 0 (fold (multi_step open_file errs c s) sched (multi_step open_file errs c s who \<sigma>))"
      using less.IH [OF w] by blast
    then show ?thesis using w(1) by (intro exI [of _ "who # sched"]) simp
  qed
qed

lemma multi_at_0: "multi_at c s l a 0 \<sigma> \<Longrightarrow> mcpc \<sigma> = MCreturned \<and> mspc \<sigma> = MSreturned \<and> written (mcout \<sigma>) = a"
proof -
  assume "multi_at c s l a 0 \<sigma>"
  moreover have "\<not> flowing c s a 0 \<sigma>" by (auto simp: flowing_def flow_vars_def client_at_def)
  ultimately obtain ph where "mphase_at c s l a ph \<sigma>" "0 = mleft a ph" by (auto simp: multi_at_def)
  then show ?thesis by (cases ph) (auto simp: mphase_at_def NBUFF_def)
qed

lemma multi_at_output:
  assumes "multi_at c s l a N \<sigma>"
  shows "(\<exists>t. written (mcout \<sigma>) @ t = a) \<and> mcpc \<sigma> \<noteq> MCdead \<and> mspc \<sigma> \<noteq> MSdead \<and> mspc \<sigma> \<noteq> MSkilled \<and>
     (mcpc \<sigma> = MCreturned \<longrightarrow> written (mcout \<sigma>) = a)"
proof -
  consider ph where "mphase_at c s l a ph \<sigma>" | "flowing c s a N \<sigma>" using assms unfolding multi_at_def by blast
  then show ?thesis
  proof cases
    case 1
    then show ?thesis by (cases ph) (auto simp: mphase_at_def)
  next
    case 2
    then show ?thesis by (auto simp: flowing_def flow_vars_def client_at_def server_at_def)
  qed
qed

definition multi_start :: "nat \<Rightarrow> nat \<Rightarrow> byte list \<Rightarrow> multi_sys \<Rightarrow> bool" where
  "multi_start c s l \<sigma> \<longleftrightarrow> sem_vals (mkern \<sigma>) c s 1 0 \<and> mcpc \<sigma> = MCwait0 \<and> mspc \<sigma> = MSwait0 \<and>
     rest (mcin \<sigma>) \<noteq> [] \<and> l = take_line (MAXMESGDATA - 1) (rest (mcin \<sigma>)) \<and> written (mcout \<sigma>) = [] \<and> well_stored \<sigma>"

lemma multi_startD: "multi_start c s l \<sigma> \<Longrightarrow> multi_at c s l a (30 + 20 * length a) \<sigma> \<and> length l < MAXMESGDATA"
proof -
  assume s: "multi_start c s l \<sigma>"
  then have "mphase_at c s l a M_start \<sigma>" "well_stored \<sigma>" by (simp_all add: multi_start_def mphase_at_def)
  then have "multi_at c s l a (30 + 20 * length a) \<sigma>" unfolding multi_at_def by (metis mleft.simps(1))
  moreover have "length l \<le> MAXMESGDATA - 1" using s length_take_line by (auto simp: multi_start_def)
  ultimately show ?thesis by (simp add: MAXMESGDATA_def)
qed

definition ring_example :: multi_sys where
  "ring_example = \<lparr>mkern = \<lparr>sem_ids = Map.empty, sem_sets = [5 \<mapsto> \<lparr>vals = [1, 9998, 0], adj = (\<lambda>_ _. 0)\<rparr>,
        6 \<mapsto> \<lparr>vals = [0, 9998, 0], adj = (\<lambda>_ _. 0)\<rparr>], next_semid = 7\<rparr>,
      mbuf = replicate NBUFF \<lparr>mesg_len = 0, mesg_data = replicate MAXMESGDATA NUL\<rparr>,
      mcin = \<lparr>rest = ''notes'' @ [NL], read_error = False\<rparr>, mcout = \<lparr>written = [], grants = []\<rparr>, mfile = [],
      mcpc = MCwait0, mspc = MSwait0\<rparr>"

lemma ring_example_start: "multi_start 5 6 (take_line (MAXMESGDATA - 1) (''notes'' @ [NL])) ring_example"
  by (simp add: multi_start_def ring_example_def sem_vals_def well_stored_def)

text \<open>C4: client and server of \<open>11_multi_buffer\<close>, which fill and empty the ring at the same time: in
  every interleaving what the client has printed is a beginning of the answer, nobody fails, a
  client that returns has printed it all, and at most \<open>30 + 20 * length\<close> further steps,
  suitably scheduled, end both; so the two never block each other.\<close>
theorem multi_buffer_delivers_the_file:
  assumes "multi_start c s l \<sigma>0" "file_ok open_file errs (request l)" "a = shm_answer open_file errs (request l)"
  defines "run \<equiv> \<lambda>sched. fold (multi_step open_file errs c s) sched \<sigma>0"
  shows "(\<exists>t. written (mcout (run sched)) @ t = a) \<and>
     mcpc (run sched) \<noteq> MCdead \<and> mspc (run sched) \<noteq> MSdead \<and> mspc (run sched) \<noteq> MSkilled \<and>
     (mcpc (run sched) = MCreturned \<longrightarrow> written (mcout (run sched)) = a) \<and>
     (\<exists>sched'. length sched' \<le> 30 + 20 * length a \<and> mcpc (run (sched @ sched')) = MCreturned \<and>
        mspc (run (sched @ sched')) = MSreturned \<and> written (mcout (run (sched @ sched'))) = a)"
proof -
  have l: "length l < MAXMESGDATA" and start: "multi_at c s l a (30 + 20 * length a) \<sigma>0"
    using multi_startD [OF assms(1)] by blast+
  obtain N where N: "N \<le> 30 + 20 * length a" "multi_at c s l a N (run sched)"
    using multi_run_at [OF start l assms(2,3)] unfolding run_def by blast
  obtain sched' where s': "length sched' \<le> N"
    "multi_at c s l a 0 (fold (multi_step open_file errs c s) sched' (run sched))"
    using multi_can_finish [OF N(2) l assms(2,3)] by blast
  have r: "run (sched @ sched') = fold (multi_step open_file errs c s) sched' (run sched)" by (simp add: run_def)
  have "length sched' \<le> 30 + 20 * length a" using s'(1) N(1) by simp
  then have "\<exists>sched'. length sched' \<le> 30 + 20 * length a \<and> mcpc (run (sched @ sched')) = MCreturned \<and>
        mspc (run (sched @ sched')) = MSreturned \<and> written (mcout (run (sched @ sched'))) = a"
    using multi_at_0 [OF s'(2)] unfolding r [symmetric] by (intro exI [of _ sched'] conjI) simp_all
  then show ?thesis using multi_at_output [OF N(2)] by simp
qed

theorem multi_buffer_delivers_the_file_witness:
  "\<exists>sched. written (mcout (fold (multi_step (\<lambda>_. Inr [Data ''hello'', Data '' world'']) (\<lambda>_. ''error'') 5 6) sched
     ring_example)) = ''hello world''"
proof -
  let ?op = "\<lambda>_. Inr [Data ''hello'', Data '' world'']"
  have "\<exists>sched'. written (mcout (fold (multi_step ?op (\<lambda>_. ''error'') 5 6) ([] @ sched') ring_example)) = ''hello world''"
    using multi_buffer_delivers_the_file [OF ring_example_start, of ?op "\<lambda>_. ''error''" "''hello world''" "[]"]
    by (auto simp: file_ok_def shm_answer_def)
  then show ?thesis by simp
qed

text \<open>The cure of \<open>11_multi_buffer\<close> for the starved client: the server leaves only after it has
  seen the client's semaphore at 0, and then, whatever its exit does to the semaphores, the next
  step of the client returns with everything printed.\<close>
theorem multi_server_exit_is_safe:
  fixes sched :: "bool list"
  assumes "multi_start c s l \<sigma>0" "file_ok open_file errs (request l)" "a = shm_answer open_file errs (request l)"
  defines "\<sigma> \<equiv> fold (multi_step open_file errs c s) sched \<sigma>0"
  assumes "mspc \<sigma> = MSreturned" "mcpc \<sigma> \<noteq> MCreturned" "semctl_getval c 0 (mkern \<sigma>) = Inr 0"
  shows "mcpc (mclient c s (\<sigma>\<lparr>mkern := k\<rparr>)) = MCreturned \<and>
         written (mcout (mclient c s (\<sigma>\<lparr>mkern := k\<rparr>))) = a"
proof -
  have l: "length l < MAXMESGDATA" and start: "multi_at c s l a (30 + 20 * length a) \<sigma>0"
    using multi_startD [OF assms(1)] by blast+
  obtain N where N: "multi_at c s l a N \<sigma>"
    using multi_run_at [OF start l assms(2,3), of sched] unfolding \<sigma>_def by blast
  have x0: "x = 0" if "sem_vals (mkern \<sigma>) c s x y" for x y
    using that assms(7) by (auto simp: sem_vals_def semctl_getval_def)
  consider (phase) ph where "mphase_at c s l a ph \<sigma>"
    | (flow) b q m x y w r lc ls where "flow_vars c s a \<sigma> b q m x y w r lc ls"
    using N unfolding multi_at_def flowing_def by blast
  then show ?thesis
  proof cases
    case phase
    then have "ph = M_end_got"
      using assms(5,6) x0 [of 1 0] by (cases ph) (auto simp: mphase_at_def)
    then show ?thesis using phase by (auto simp: mphase_at_def mclient_def)
  next
    case flow
    note fs = flow [unfolded flow_vars_def]
    then obtain q' where q: "q = q' @ [[]]" "[] \<notin> set q'" "m = []" "src_pending (mfile \<sigma>) = []"
      using assms(5) by (auto simp: server_at_def)
    have "x = 0" using x0 fs by blast
    then have "mcpc \<sigma> = MCtest b" "q' = []" using fs q(1) by (auto simp: client_at_def)
    moreover have "msg_is [] (mbuf \<sigma> ! b)" using fs q(1) calculation(2) by (auto simp: filled_def)
    ultimately show ?thesis using fs q by (simp add: mclient_def msg_is_def)
  qed
qed

theorem multi_server_exit_is_safe_witness:
  "\<exists>\<sigma>. mspc \<sigma> = MSreturned \<and> mcpc \<sigma> \<noteq> MCreturned \<and> mcpc (mclient 5 6 (\<sigma>\<lparr>mkern := sem_exit srv (mkern \<sigma>)\<rparr>)) = MCreturned"
proof -
  let ?sched = "[True, True, True, False, False, False, False, False, False, False, False, False, True]"
  let ?\<sigma> = "fold (multi_step (\<lambda>_. Inr []) (\<lambda>_. []) 5 6) ?sched ring_example"
  have "mspc ?\<sigma> = MSreturned \<and> mcpc ?\<sigma> = MCtest 0 \<and> semctl_getval 5 0 (mkern ?\<sigma>) = Inr 0"
    by (simp add: ring_example_def multi_step_def mclient_def mserver_def sem_wait_def sem_signal_def sem_op_def
        semop_def op_op_def sop_def sem_call_def SEMVMX_def fgets_def NBUFF_def Let_def semctl_getval_def numeral_eq_Suc)
  then have "mspc ?\<sigma> = MSreturned" "mcpc ?\<sigma> \<noteq> MCreturned" "semctl_getval 5 0 (mkern ?\<sigma>) = Inr 0" by simp_all
  moreover from this have "mcpc (mclient 5 6 (?\<sigma>\<lparr>mkern := sem_exit srv (mkern ?\<sigma>)\<rparr>)) = MCreturned"
    using multi_server_exit_is_safe [OF ring_example_start, of "\<lambda>_. Inr []" "\<lambda>_. []" "[]" ?sched]
    by (simp add: file_ok_def shm_answer_def)
  ultimately show ?thesis by blast
qed

section \<open>The main programs\<close>

text \<open>
  As in \<open>SharedMem\<close>, with one segment for each buffer; \<open>segments\<close> says which exist.  Before it
  closes the semaphores the server waits, in \<open>MMspin\<close>, for the client's to be 0.
\<close>

datatype mmain_pc =
    MMget nat | MMsem1 sem_pc | MMsem2 sem_pc | MMtalk | MMdetach nat | MMremove nat | MMspin
  | MMclose1 sem_pc | MMclose2 sem_pc | MMexit int

record multi_prog =
  mtalk :: multi_sys
  segments :: "bool list"
  mcmain :: mmain_pc
  msmain :: mmain_pc
  mcids :: "nat \<times> nat"
  msids :: "nat \<times> nat"

definition mclient_exit :: "int \<Rightarrow> multi_prog \<Rightarrow> multi_prog" where
  "mclient_exit status \<pi> =
     \<pi>\<lparr>mcmain := MMexit status, mtalk := (mtalk \<pi>)\<lparr>mkern := sem_exit cli (mkern (mtalk \<pi>))\<rparr>\<rparr>"

definition mserver_exit :: "int \<Rightarrow> multi_prog \<Rightarrow> multi_prog" where
  "mserver_exit status \<pi> =
     \<pi>\<lparr>msmain := MMexit status, mtalk := (mtalk \<pi>)\<lparr>mkern := sem_exit srv (mkern (mtalk \<pi>))\<rparr>\<rparr>"

definition multi_client_main :: "multi_prog \<Rightarrow> multi_prog" where
  "multi_client_main \<pi> =
     (let k = mkern (mtalk \<pi>); with = (\<lambda>k \<pi>. \<pi>\<lparr>mtalk := (mtalk \<pi>)\<lparr>mkern := k\<rparr>\<rparr>)
      in case mcmain \<pi> of
           MMget i \<Rightarrow> if segments \<pi> ! i then \<pi>\<lparr>mcmain := (if i + 1 < NBUFF then MMget (i + 1) else MMsem1 Op_get)\<rparr>
                     else mclient_exit EXIT_FAILURE \<pi>
         | MMsem1 pc \<Rightarrow>
             (case sem_open SEMKEY1 cli pc k of
                (In_use i, k) \<Rightarrow> with k (\<pi>\<lparr>mcids := (i, snd (mcids \<pi>)), mcmain := MMsem2 Op_get\<rparr>)
              | (Op_dec i, k) \<Rightarrow> with k (\<pi>\<lparr>mcmain := MMsem1 (Op_dec i)\<rparr>)
              | (pc, k) \<Rightarrow> mclient_exit EXIT_FAILURE (with k \<pi>))
         | MMsem2 pc \<Rightarrow>
             (case sem_open SEMKEY2 cli pc k of
                (In_use i, k) \<Rightarrow> with k (\<pi>\<lparr>mcids := (fst (mcids \<pi>), i), mcmain := MMtalk\<rparr>)
              | (Op_dec i, k) \<Rightarrow> with k (\<pi>\<lparr>mcmain := MMsem2 (Op_dec i)\<rparr>)
              | (pc, k) \<Rightarrow> mclient_exit EXIT_FAILURE (with k \<pi>))
         | MMtalk \<Rightarrow>
             (let \<sigma> = mclient (fst (mcids \<pi>)) (snd (mcids \<pi>)) (mtalk \<pi>)
              in \<pi>\<lparr>mtalk := \<sigma>, mcmain := (case mcpc \<sigma> of MCreturned \<Rightarrow> MMdetach 0 | MCdead \<Rightarrow> MMexit EXIT_FAILURE | _ \<Rightarrow> MMtalk)\<rparr>)
         | MMdetach i \<Rightarrow> \<pi>\<lparr>mcmain := MMremove i\<rparr>
         | MMremove i \<Rightarrow>
             if segments \<pi> ! i
             then \<pi>\<lparr>segments := (segments \<pi>)[i := False],
                    mcmain := (if i + 1 < NBUFF then MMdetach (i + 1) else MMclose1 (Cl_op (fst (mcids \<pi>))))\<rparr>
             else mclient_exit EXIT_FAILURE \<pi>
         | MMspin \<Rightarrow> \<pi>
         | MMclose1 pc \<Rightarrow>
             (case sem_close cli pc k of
                (Closed, k) \<Rightarrow> with k (\<pi>\<lparr>mcmain := MMclose2 (Cl_op (snd (mcids \<pi>)))\<rparr>)
              | (Err_sys, k) \<Rightarrow> with k (\<pi>\<lparr>mcmain := MMexit EXIT_FAILURE\<rparr>)
              | (Err_dump, k) \<Rightarrow> with k (\<pi>\<lparr>mcmain := MMexit EXIT_FAILURE\<rparr>)
              | (pc, k) \<Rightarrow> with k (\<pi>\<lparr>mcmain := MMclose1 pc\<rparr>))
         | MMclose2 pc \<Rightarrow>
             (case sem_close cli pc k of
                (Closed, k) \<Rightarrow> mclient_exit EXIT_SUCCESS (with k \<pi>)
              | (Err_sys, k) \<Rightarrow> with k (\<pi>\<lparr>mcmain := MMexit EXIT_FAILURE\<rparr>)
              | (Err_dump, k) \<Rightarrow> with k (\<pi>\<lparr>mcmain := MMexit EXIT_FAILURE\<rparr>)
              | (pc, k) \<Rightarrow> with k (\<pi>\<lparr>mcmain := MMclose2 pc\<rparr>))
         | MMexit status \<Rightarrow> \<pi>)"

definition multi_server_main :: "(byte list \<Rightarrow> errno + source) \<Rightarrow> (errno \<Rightarrow> byte list) \<Rightarrow> multi_prog \<Rightarrow> multi_prog" where
  "multi_server_main open_file sys_errlist \<pi> =
     (let k = mkern (mtalk \<pi>); with = (\<lambda>k \<pi>. \<pi>\<lparr>mtalk := (mtalk \<pi>)\<lparr>mkern := k\<rparr>\<rparr>)
      in case msmain \<pi> of
           MMget i \<Rightarrow> \<pi>\<lparr>segments := (segments \<pi>)[i := True],
                         msmain := (if i + 1 < NBUFF then MMget (i + 1) else MMsem1 Cr_get)\<rparr>
         | MMsem1 pc \<Rightarrow>
             (case sem_create SEMKEY1 1 srv pc k of
                (In_use i, k) \<Rightarrow> with k (\<pi>\<lparr>msids := (i, snd (msids \<pi>)), msmain := MMsem2 Cr_get\<rparr>)
              | (Failed_call, k) \<Rightarrow> mserver_exit EXIT_FAILURE (with k \<pi>)
              | (Err_sys, k) \<Rightarrow> with k (\<pi>\<lparr>msmain := MMexit EXIT_FAILURE\<rparr>)
              | (pc, k) \<Rightarrow> with k (\<pi>\<lparr>msmain := MMsem1 pc\<rparr>))
         | MMsem2 pc \<Rightarrow>
             (case sem_create SEMKEY2 0 srv pc k of
                (In_use i, k) \<Rightarrow> with k (\<pi>\<lparr>msids := (fst (msids \<pi>), i), msmain := MMtalk\<rparr>)
              | (Failed_call, k) \<Rightarrow> mserver_exit EXIT_FAILURE (with k \<pi>)
              | (Err_sys, k) \<Rightarrow> with k (\<pi>\<lparr>msmain := MMexit EXIT_FAILURE\<rparr>)
              | (pc, k) \<Rightarrow> with k (\<pi>\<lparr>msmain := MMsem2 pc\<rparr>))
         | MMtalk \<Rightarrow>
             (let \<sigma> = mserver open_file sys_errlist (fst (msids \<pi>)) (snd (msids \<pi>)) (mtalk \<pi>)
              in \<pi>\<lparr>mtalk := \<sigma>, msmain := (if mspc \<sigma> = MSreturned then MMdetach 0
                                        else if mspc \<sigma> \<in> {MSdead, MSkilled} then MMexit EXIT_FAILURE else MMtalk)\<rparr>)
         | MMdetach i \<Rightarrow> \<pi>\<lparr>msmain := (if i + 1 < NBUFF then MMdetach (i + 1) else MMspin)\<rparr>
         | MMremove i \<Rightarrow> \<pi>
         | MMspin \<Rightarrow> if semctl_getval (fst (msids \<pi>)) 0 k = Inr 0 then \<pi>\<lparr>msmain := MMclose1 (Cl_op (fst (msids \<pi>)))\<rparr> else \<pi>
         | MMclose1 pc \<Rightarrow>
             (case sem_close srv pc k of
                (Closed, k) \<Rightarrow> with k (\<pi>\<lparr>msmain := MMclose2 (Cl_op (snd (msids \<pi>)))\<rparr>)
              | (Err_sys, k) \<Rightarrow> with k (\<pi>\<lparr>msmain := MMexit EXIT_FAILURE\<rparr>)
              | (Err_dump, k) \<Rightarrow> with k (\<pi>\<lparr>msmain := MMexit EXIT_FAILURE\<rparr>)
              | (pc, k) \<Rightarrow> with k (\<pi>\<lparr>msmain := MMclose1 pc\<rparr>))
         | MMclose2 pc \<Rightarrow>
             (case sem_close srv pc k of
                (Closed, k) \<Rightarrow> mserver_exit EXIT_SUCCESS (with k \<pi>)
              | (Err_sys, k) \<Rightarrow> with k (\<pi>\<lparr>msmain := MMexit EXIT_FAILURE\<rparr>)
              | (Err_dump, k) \<Rightarrow> with k (\<pi>\<lparr>msmain := MMexit EXIT_FAILURE\<rparr>)
              | (pc, k) \<Rightarrow> with k (\<pi>\<lparr>msmain := MMclose2 pc\<rparr>))
         | MMexit status \<Rightarrow> \<pi>)"

end
