(* ===== verification/Conversation.thy ===== *)
theory Conversation
  imports SharedMem
begin

text \<open>
  The contract of the message programs of chapter 3 (directories 6, 7 and 8): a client asks for a
  file by name, a server answers with the contents or an error text, in messages that
  wait in two queues.  The machine below knows nothing of buffers, descriptors and
  identifiers; the locale \<open>conversation\<close> says when a system implements it, and its lemmas carry
  the correctness of every implementation.
\<close>

section \<open>The abstract machine\<close>

datatype asker =
    To_ask | Asking "byte list" | Listening | Printing "byte list" | Satisfied | Gone

datatype answerer =
    Attending | Looking "byte list" | Telling "byte list" | Reading | Sending "byte list"
  | Closing | Finished | Lost

text \<open>What the server makes of a name: an error text to send, a reason to give up, or a file.\<close>

datatype looked = Refused "byte list" | Denied | Opened source

record conv =
  asker :: asker
  answerer :: answerer
  requests :: "byte list list"
  replies :: "byte list list"
  keyboard :: stream_in
  screen :: sink
  disk :: source

text \<open>
  \<open>room who rq rp m\<close> tells whether the kernel takes one more message \<open>m\<close> while \<open>rq\<close> and \<open>rp\<close> are
  queued; \<open>hang\<close> whether a process learns that its peer has died (by an end-of-file or a failing
  write), as it does on a pipe.
\<close>

type_synonym rooms = "bool \<Rightarrow> byte list list \<Rightarrow> byte list list \<Rightarrow> byte list \<Rightarrow> bool"

definition ask_step :: "rooms \<Rightarrow> bool \<Rightarrow> conv \<Rightarrow> conv" where
  "ask_step room hang c =
     (case asker c of
        To_ask \<Rightarrow>
          (case fgets MAXMESGDATA (keyboard c) of
             (None, fp) \<Rightarrow> c\<lparr>asker := Gone, keyboard := fp\<rparr>
           | (Some l, fp) \<Rightarrow> c\<lparr>asker := Asking (request l), keyboard := fp\<rparr>)
      | Asking m \<Rightarrow>
          if hang \<and> answerer c = Lost then c\<lparr>asker := Gone\<rparr>
          else if room True (requests c) (replies c) m
          then c\<lparr>asker := Listening, requests := requests c @ [m]\<rparr> else c
      | Listening \<Rightarrow>
          (case replies c of
             [] \<Rightarrow> if hang \<and> answerer c = Lost then c\<lparr>asker := Satisfied\<rparr> else c
           | m # ms \<Rightarrow> c\<lparr>asker := (if m = [] then Satisfied else Printing m), replies := ms\<rparr>)
      | Printing m \<Rightarrow>
          (case sys_write (screen c) m of
             (Inr w, out) \<Rightarrow> c\<lparr>asker := (if w = length m then Listening else Gone), screen := out\<rparr>
           | (Inl e, out) \<Rightarrow> c\<lparr>asker := Gone, screen := out\<rparr>)
      | Satisfied \<Rightarrow> c
      | Gone \<Rightarrow> c)"

definition post :: "rooms \<Rightarrow> bool \<Rightarrow> byte list \<Rightarrow> answerer \<Rightarrow> conv \<Rightarrow> conv" where
  "post room hang m then_to c =
     (if hang \<and> asker c = Gone then c\<lparr>answerer := Lost\<rparr>
      else if room False (requests c) (replies c) m
      then c\<lparr>answerer := then_to, replies := replies c @ [m]\<rparr> else c)"

definition answer_step :: "rooms \<Rightarrow> bool \<Rightarrow> (byte list \<Rightarrow> looked) \<Rightarrow> conv \<Rightarrow> conv" where
  "answer_step room hang look c =
     (case answerer c of
        Attending \<Rightarrow>
          (case requests c of
             [] \<Rightarrow> if hang \<and> asker c = Gone then c\<lparr>answerer := Lost\<rparr> else c
           | m # ms \<Rightarrow> c\<lparr>answerer := (if m = [] then Lost else Looking m), requests := ms\<rparr>)
      | Looking m \<Rightarrow>
          (case look m of
             Refused t \<Rightarrow> c\<lparr>answerer := Telling t\<rparr>
           | Denied \<Rightarrow> c\<lparr>answerer := Lost\<rparr>
           | Opened f \<Rightarrow> c\<lparr>answerer := Reading, disk := f\<rparr>)
      | Telling t \<Rightarrow> post room hang t Closing c
      | Reading \<Rightarrow>
          (case sys_read (disk c) MAXMESGDATA of
             (Inl e, f) \<Rightarrow> c\<lparr>answerer := Lost, disk := f\<rparr>
           | (Inr xs, f) \<Rightarrow> c\<lparr>answerer := (if xs = [] then Closing else Sending xs), disk := f\<rparr>)
      | Sending m \<Rightarrow> post room hang m Reading c
      | Closing \<Rightarrow> post room hang [] Finished c
      | Finished \<Rightarrow> c
      | Lost \<Rightarrow> c)"

definition conv_step :: "rooms \<Rightarrow> bool \<Rightarrow> (byte list \<Rightarrow> looked) \<Rightarrow> bool \<Rightarrow> conv \<Rightarrow> conv" where
  "conv_step room hang look who c = (if who then ask_step room hang c else answer_step room hang look c)"

section \<open>Every step brings the answer closer\<close>

text \<open>The answer to a name, if the server has one to give.\<close>

definition answers :: "(byte list \<Rightarrow> looked) \<Rightarrow> byte list \<Rightarrow> byte list \<Rightarrow> bool" where
  "answers look name a \<longleftrightarrow>
     (case look name of
        Refused t \<Rightarrow> t = a \<and> a \<noteq> [] \<and> length a \<le> MAXMESGDATA
      | Denied \<Rightarrow> False
      | Opened f \<Rightarrow> src_pending f = a \<and> src_broken f = None)"

fun owed :: "byte list \<Rightarrow> answerer \<Rightarrow> source \<Rightarrow> byte list" where
  "owed a Attending f = a" | "owed a (Looking m) f = a" | "owed a (Telling t) f = t"
| "owed a Reading f = src_pending f" | "owed a (Sending m) f = m @ src_pending f"
| "owed a Closing f = []" | "owed a Finished f = []" | "owed a Lost f = []"

fun in_hand :: "asker \<Rightarrow> byte list" where
  "in_hand (Printing m) = m" | "in_hand s = []"

fun asker_ok :: "byte list \<Rightarrow> asker \<Rightarrow> conv \<Rightarrow> bool" where
  "asker_ok l To_ask c \<longleftrightarrow> rest (keyboard c) \<noteq> [] \<and> take_line (MAXMESGDATA - 1) (rest (keyboard c)) = l \<and>
     answerer c = Attending \<and> requests c = [] \<and> replies c = []"
| "asker_ok l (Asking m) c \<longleftrightarrow> m = request l \<and> answerer c = Attending \<and> requests c = [] \<and> replies c = []"
| "asker_ok l Gone c \<longleftrightarrow> False"
| "asker_ok l (Printing m) c \<longleftrightarrow> m \<noteq> [] \<and> requests c = (if answerer c = Attending then [request l] else [])"
| "asker_ok l Listening c \<longleftrightarrow> requests c = (if answerer c = Attending then [request l] else [])"
| "asker_ok l Satisfied c \<longleftrightarrow> answerer c = Finished \<and> replies c = [] \<and> requests c = []"

fun answerer_ok :: "byte list \<Rightarrow> answerer \<Rightarrow> source \<Rightarrow> bool" where
  "answerer_ok l Attending f \<longleftrightarrow> True"
| "answerer_ok l (Looking m) f \<longleftrightarrow> m = request l"
| "answerer_ok l (Telling t) f \<longleftrightarrow> t \<noteq> [] \<and> length t \<le> MAXMESGDATA"
| "answerer_ok l Reading f \<longleftrightarrow> src_broken f = None"
| "answerer_ok l (Sending m) f \<longleftrightarrow> src_broken f = None \<and> m \<noteq> [] \<and> length m \<le> MAXMESGDATA"
| "answerer_ok l Closing f \<longleftrightarrow> True"
| "answerer_ok l Finished f \<longleftrightarrow> True"
| "answerer_ok l Lost f \<longleftrightarrow> False"

definition sealed :: "bool \<Rightarrow> byte list list \<Rightarrow> bool" where
  "sealed ended ms \<longleftrightarrow> (\<exists>ds. [] \<notin> set ds \<and> ms = ds @ (if ended then [[]] else []))"

definition conv_inv :: "byte list \<Rightarrow> byte list \<Rightarrow> conv \<Rightarrow> bool" where
  "conv_inv l a c \<longleftrightarrow>
     grants (screen c) = [] \<and> asker_ok l (asker c) c \<and> answerer_ok l (answerer c) (disk c) \<and>
     written (screen c) @ in_hand (asker c) @ concat (replies c) @ owed a (answerer c) (disk c) = a \<and>
     sealed (answerer c = Finished \<and> asker c \<noteq> Satisfied) (replies c)"

fun client_left :: "asker \<Rightarrow> nat" where
  "client_left To_ask = 2" | "client_left (Asking m) = 1" | "client_left (Printing m) = 1"
| "client_left s = 0"

fun server_left :: "byte list \<Rightarrow> answerer \<Rightarrow> source \<Rightarrow> nat" where
  "server_left a Attending f = 9 + 4 * length a" | "server_left a (Looking m) f = 8 + 4 * length a"
| "server_left a (Telling t) f = 6"
| "server_left a Reading f = 4 + 4 * length (src_pending f)"
| "server_left a (Sending m) f = 7 + 4 * length (src_pending f)"
| "server_left a Closing f = 3" | "server_left a Finished f = 0" | "server_left a Lost f = 0"

definition conv_left :: "byte list \<Rightarrow> conv \<Rightarrow> nat" where
  "conv_left a c = client_left (asker c) + 2 * length (replies c) + server_left a (answerer c) (disk c)"

lemma sealed_Cons: "sealed e (m # ms) \<Longrightarrow> (m = [] \<longleftrightarrow> e \<and> ms = []) \<and> sealed (e \<and> m \<noteq> []) ms"
proof -
  assume "sealed e (m # ms)"
  then obtain ds where ds: "[] \<notin> set ds" "m # ms = ds @ (if e then [[]] else [])" by (auto simp: sealed_def)
  show ?thesis
  proof (cases ds)
    case Nil
    then show ?thesis using ds by (auto simp: sealed_def split: if_splits)
  next
    case (Cons d ds')
    then show ?thesis using ds by (auto simp: sealed_def)
  qed
qed

lemma sealed_snoc: "sealed False ms \<Longrightarrow> sealed (m = []) (ms @ [m])"
  by (auto simp: sealed_def)

lemma sealed_Nil [simp]: "sealed e [] \<longleftrightarrow> \<not> e"
  by (auto simp: sealed_def)

definition closer :: "byte list \<Rightarrow> byte list \<Rightarrow> conv \<Rightarrow> conv \<Rightarrow> bool" where
  "closer l a c c' \<longleftrightarrow> conv_inv l a c' \<and> conv_left a c' < conv_left a c"

lemma ask_step_closer:
  assumes "conv_inv l a c"
  shows "ask_step room hang c = c \<or> closer l a c (ask_step room hang c)"
proof (cases "asker c")
  case To_ask
  then show ?thesis using assms by (auto simp: closer_def conv_inv_def conv_left_def ask_step_def fgets_def Let_def)
next
  case (Asking m)
  then show ?thesis using assms by (auto simp: closer_def conv_inv_def conv_left_def ask_step_def)
next
  case Listening
  show ?thesis
  proof (cases "replies c")
    case Nil
    then show ?thesis using assms Listening by (auto simp: conv_inv_def ask_step_def)
  next
    case (Cons m ms)
    have s: "m = [] \<Longrightarrow> answerer c = Finished \<and> ms = []" "m \<noteq> [] \<Longrightarrow> sealed (answerer c = Finished) ms"
      using sealed_Cons [of "answerer c = Finished" m ms] assms Listening Cons by (auto simp: conv_inv_def)
    show ?thesis
    proof (cases "m = []")
      case True
      then show ?thesis
        using assms Listening Cons s(1) by (auto simp: closer_def conv_inv_def conv_left_def ask_step_def)
    next
      case False
      then show ?thesis
        using assms Listening Cons s(2) by (auto simp: closer_def conv_inv_def conv_left_def ask_step_def)
    qed
  qed
next
  case (Printing m)
  then show ?thesis
    using assms by (auto simp: closer_def conv_inv_def conv_left_def ask_step_def sys_write_def)
next
  case Satisfied
  then show ?thesis by (simp add: ask_step_def)
next
  case Gone
  then show ?thesis using assms by (simp add: conv_inv_def)
qed

lemma asker_after: "conv_inv l a c \<Longrightarrow> answerer c \<noteq> Attending \<Longrightarrow> (\<exists>m. asker c = Printing m) \<or> asker c = Listening \<or> asker c = Satisfied"
  by (cases "asker c") (auto simp: conv_inv_def)

lemma post_closer:
  assumes "conv_inv l a c" "answerer c \<noteq> Attending" "answerer c \<noteq> Finished"
    "then_to \<noteq> Attending" "answerer_ok l then_to (disk c)" "(then_to = Finished) = (m = [])"
    "owed a (answerer c) (disk c) = m @ owed a then_to (disk c)"
    "server_left a then_to (disk c) + 2 < server_left a (answerer c) (disk c)"
  shows "post room hang m then_to c = c \<or> closer l a c (post room hang m then_to c)"
proof -
  have "sealed (m = []) (replies c @ [m])" using sealed_snoc assms(1,3) by (auto simp: conv_inv_def)
  then show ?thesis
    using assms asker_after [OF assms(1,2)]
    by (auto simp: closer_def conv_inv_def conv_left_def post_def)
qed

lemma answer_step_closer_Reading:
  assumes "conv_inv l a c" "answers look (request l) a" "request l \<noteq> []"
    and Reading: "answerer c = Reading"
  shows "answer_step room hang look c = c \<or> closer l a c (answer_step room hang look c)"
proof -
  have r: "src_broken (disk c) = None" "sealed False (replies c)" "grants (screen c) = []" "asker_ok l (asker c) c"
    "written (screen c) @ in_hand (asker c) @ concat (replies c) @ src_pending (disk c) = a"
    using assms(1) Reading by (auto simp: conv_inv_def)
  show ?thesis
  proof (cases "src_pending (disk c) = []")
    case True
    then obtain f where "sys_read (disk c) MAXMESGDATA = (Inr [], f)" "src_pending f = []"
      using file_reader.rd_eof [of "disk c" MAXMESGDATA] r(1) by (auto simp: MAXMESGDATA_def)
    then show ?thesis
      using Reading True r asker_after [OF assms(1)]
      by (auto simp: closer_def conv_inv_def conv_left_def answer_step_def)
  next
    case False
    then obtain xs f where x: "sys_read (disk c) MAXMESGDATA = (Inr xs, f)" "xs \<noteq> []" "length xs \<le> MAXMESGDATA"
      "src_pending (disk c) = xs @ src_pending f" "src_broken f = src_broken (disk c)"
      using file_reader.rd_some [of "disk c" MAXMESGDATA] by (auto simp: MAXMESGDATA_def)
    have "1 \<le> length xs" using x(2) by (cases xs) auto
    then show ?thesis
      using Reading False r x asker_after [OF assms(1)]
      by (auto simp: closer_def conv_inv_def conv_left_def answer_step_def)
  qed
qed

lemma answer_step_closer:
  assumes "conv_inv l a c" "answers look (request l) a" "request l \<noteq> []"
  shows "answer_step room hang look c = c \<or> closer l a c (answer_step room hang look c)"
proof (cases "answerer c")
  case Attending
  then have "asker c = To_ask \<and> requests c = [] \<or> (\<exists>m. asker c = Asking m) \<and> requests c = [] \<or>
      (\<exists>m. asker c = Printing m) \<and> requests c = [request l] \<or> asker c = Listening \<and> requests c = [request l]"
    using assms(1) by (cases "asker c") (auto simp: conv_inv_def)
  then show ?thesis
    using Attending assms(1,3)
    by (elim disjE) (auto simp: closer_def conv_inv_def conv_left_def answer_step_def)
next
  case (Looking m)
  then show ?thesis
    using assms asker_after [OF assms(1)]
    by (auto simp: closer_def conv_inv_def conv_left_def answer_step_def answers_def split: looked.splits)
next
  case (Telling t)
  then show ?thesis
    using assms(1) post_closer [OF assms(1), of Closing t] by (auto simp: answer_step_def conv_inv_def)
next
  case Reading
  then show ?thesis by (rule answer_step_closer_Reading [OF assms])
next
  case (Sending m)
  then show ?thesis
    using assms(1) post_closer [OF assms(1), of Reading m] by (auto simp: answer_step_def conv_inv_def)
next
  case Closing
  then show ?thesis
    using post_closer [OF assms(1), of Finished "[]"] by (auto simp: answer_step_def)
next
  case Finished
  then show ?thesis by (simp add: answer_step_def)
next
  case Lost
  then show ?thesis using assms by (simp add: conv_inv_def)
qed

section \<open>Someone can always go on\<close>

definition roomy :: "rooms \<Rightarrow> bool" where
  "roomy room \<longleftrightarrow> (\<forall>who m. length m \<le> MAXMESGDATA \<longrightarrow> room who [] [] m)"

lemma roomyD: "roomy room \<Longrightarrow> length m \<le> MAXMESGDATA \<Longrightarrow> room who [] [] m"
  by (simp add: roomy_def)

lemma length_request: "length (request (take_line (MAXMESGDATA - 1) xs)) < MAXMESGDATA"
proof -
  have "length (request (take_line (MAXMESGDATA - 1) xs)) \<le> MAXMESGDATA - 1"
    using request_no_NUL(2) length_take_line order_trans by blast
  then show ?thesis by (simp add: MAXMESGDATA_def)
qed

lemma conv_step_closer:
  assumes "conv_inv l a c" "answers look (request l) a" "request l \<noteq> []"
  shows "conv_step room hang look who c = c \<or> closer l a c (conv_step room hang look who c)"
  using ask_step_closer [OF assms(1)] answer_step_closer [OF assms] by (simp add: conv_step_def)

lemma ask_moves:
  assumes "conv_inv l a c" "roomy room" "asker c = Listening \<Longrightarrow> replies c \<noteq> []" "asker c \<noteq> Satisfied"
    "length (request l) < MAXMESGDATA"
  shows "ask_step room hang c \<noteq> c"
proof -
  have "asker (ask_step room hang c) \<noteq> asker c"
    using assms roomyD [OF assms(2), of "request l" True]
    by (cases "asker c"; cases "replies c") (auto simp: ask_step_def conv_inv_def fgets_def Let_def sys_write_def)
  then show ?thesis by metis
qed

lemma answer_moves:
  assumes "conv_inv l a c" "roomy room" "asker c = Listening" "replies c = []" "request l \<noteq> []"
    "answers look (request l) a"
  shows "answer_step room hang look c \<noteq> c"
proof -
  have rd: "\<exists>xs f. sys_read (disk c) MAXMESGDATA = (Inr xs, f)" if "answerer c = Reading"
    using that assms(1) file_reader.rd_eof [of "disk c" MAXMESGDATA] file_reader.rd_some [of "disk c" MAXMESGDATA]
    by (cases "src_pending (disk c) = []") (auto simp: conv_inv_def MAXMESGDATA_def)
  have "answerer (answer_step room hang look c) \<noteq> answerer c"
    using assms rd roomyD [OF assms(2)]
    by (cases "answerer c")
       (auto simp: answer_step_def post_def conv_inv_def answers_def split: looked.splits)
  then show ?thesis by metis
qed

lemma someone_moves:
  assumes "conv_inv l a c" "roomy room" "answers look (request l) a" "request l \<noteq> []"
    "length (request l) < MAXMESGDATA" "asker c \<noteq> Satisfied"
  shows "\<exists>who. closer l a c (conv_step room hang look who c)"
proof (cases "asker c = Listening \<and> replies c = []")
  case True
  then have "conv_step room hang look False c \<noteq> c"
    using answer_moves assms by (simp add: conv_step_def)
  then show ?thesis using conv_step_closer [OF assms(1,3,4)] by metis
next
  case False
  then have "conv_step room hang look True c \<noteq> c"
    using ask_moves [OF assms(1,2)] assms by (simp add: conv_step_def)
  then show ?thesis using conv_step_closer [OF assms(1,3,4)] by metis
qed

text \<open>A client that waits for a server that has died: it sleeps for ever, unless it is told.\<close>

definition abandoned :: "conv \<Rightarrow> bool" where
  "abandoned c \<longleftrightarrow> asker c = Listening \<and> answerer c = Lost \<and> replies c = []"

lemma abandoned_stays: "abandoned c \<Longrightarrow> conv_step room False look who c = c"
  by (simp add: abandoned_def conv_step_def ask_step_def answer_step_def)

lemma abandoned_told: "abandoned c \<Longrightarrow> conv_step room True look True c = c\<lparr>asker := Satisfied\<rparr>"
  by (simp add: abandoned_def conv_step_def ask_step_def)

lemma empty_name_abandons:
  assumes "asker c = To_ask" "answerer c = Attending" "requests c = []" "replies c = []" "roomy room"
    "rest (keyboard c) \<noteq> []" "request (take_line (MAXMESGDATA - 1) (rest (keyboard c))) = []"
  shows "abandoned (fold (conv_step room hang look) [True, True, False] c)"
    "screen (fold (conv_step room hang look) [True, True, False] c) = screen c"
  using assms roomyD [OF assms(5), of "[]" True]
  by (simp_all add: abandoned_def conv_step_def ask_step_def answer_step_def fgets_def Let_def)

section \<open>Implementations\<close>

text \<open>
  A system implements the conversation when, in the states that are \<open>ok\<close>, each of its steps is a
  step of the abstract machine on the state it represents.
\<close>

locale conversation =
  fixes step :: "bool \<Rightarrow> 's \<Rightarrow> 's"
    and abs_conv :: "'s \<Rightarrow> conv"
    and ok :: "'s \<Rightarrow> bool"
    and room :: rooms
    and hang :: bool
    and look :: "byte list \<Rightarrow> looked"
  assumes step_ok: "ok \<sigma> \<Longrightarrow> ok (step who \<sigma>)"
    and step_abs: "ok \<sigma> \<Longrightarrow> abs_conv (step who \<sigma>) = conv_step room hang look who (abs_conv \<sigma>)"
    and roomy: "roomy room"
begin

lemma run_ok: "ok \<sigma> \<Longrightarrow> ok (fold step sched \<sigma>)"
  by (induction sched arbitrary: \<sigma>) (auto simp: step_ok)

lemma run_abs: "ok \<sigma> \<Longrightarrow> abs_conv (fold step sched \<sigma>) = fold (conv_step room hang look) sched (abs_conv \<sigma>)"
  by (induction sched arbitrary: \<sigma>) (auto simp: step_ok step_abs)

lemma run_inv:
  assumes "ok \<sigma>" "conv_inv l a (abs_conv \<sigma>)" "answers look (request l) a" "request l \<noteq> []"
  shows "conv_inv l a (abs_conv (fold step sched \<sigma>)) \<and>
     conv_left a (abs_conv (fold step sched \<sigma>)) \<le> conv_left a (abs_conv \<sigma>)"
  using assms(1,2)
proof (induction sched arbitrary: \<sigma>)
  case (Cons who sched)
  have "conv_inv l a (abs_conv (step who \<sigma>)) \<and> conv_left a (abs_conv (step who \<sigma>)) \<le> conv_left a (abs_conv \<sigma>)"
    using conv_step_closer [OF Cons.prems(2) assms(3,4), of room hang who] step_abs [OF Cons.prems(1)] Cons.prems(2)
    by (auto simp: closer_def)
  then show ?case using Cons.IH [OF step_ok [OF Cons.prems(1)]] by fastforce
qed simp

lemma empty_name:
  assumes "ok \<sigma>" "asker (abs_conv \<sigma>) = To_ask" "answerer (abs_conv \<sigma>) = Attending"
    "requests (abs_conv \<sigma>) = []" "replies (abs_conv \<sigma>) = []" "rest (keyboard (abs_conv \<sigma>)) \<noteq> []"
    "request (take_line (MAXMESGDATA - 1) (rest (keyboard (abs_conv \<sigma>)))) = []"
  defines "c \<equiv> \<lambda>sched. abs_conv (fold step ([True, True, False] @ sched) \<sigma>)"
  shows "if hang then asker (c [True]) = Satisfied \<and> screen (c [True]) = screen (abs_conv \<sigma>)
         else asker (c sched) = Listening \<and> answerer (c sched) = Lost \<and> screen (c sched) = screen (abs_conv \<sigma>)"
proof -
  let ?c = "abs_conv (fold step [True, True, False] \<sigma>)"
  have r: "?c = fold (conv_step room hang look) [True, True, False] (abs_conv \<sigma>)"
    using run_abs [OF assms(1)] by blast
  note a = empty_name_abandons [OF assms(2-5) roomy assms(6,7), of hang look, folded r]
  have s: "c sched = fold (conv_step room hang look) sched ?c" for sched
    using run_abs [OF run_ok [OF assms(1)], of sched "[True, True, False]"] by (simp add: c_def)
  have "fold (conv_step room False look) sched d = d" if "abandoned d" for d
    using abandoned_stays [OF that] by (induction sched) simp_all
  then show ?thesis
    using a abandoned_told [OF a(1), of room look] by (auto simp: s abandoned_def)
qed

lemma can_finish:
  assumes "ok \<sigma>" "conv_inv l a (abs_conv \<sigma>)" "answers look (request l) a" "request l \<noteq> []"
    "length (request l) < MAXMESGDATA"
  shows "\<exists>sched. length sched \<le> conv_left a (abs_conv \<sigma>) \<and> asker (abs_conv (fold step sched \<sigma>)) = Satisfied"
  using assms(1,2)
proof (induction "conv_left a (abs_conv \<sigma>)" arbitrary: \<sigma> rule: less_induct)
  case less
  show ?case
  proof (cases "asker (abs_conv \<sigma>) = Satisfied")
    case True
    then show ?thesis by (intro exI [of _ "[]"]) simp
  next
    case False
    then obtain who where w: "closer l a (abs_conv \<sigma>) (abs_conv (step who \<sigma>))"
      using someone_moves [OF less.prems(2) roomy assms(3-5), of hang] step_abs [OF less.prems(1)] by auto
    then obtain sched where "length sched \<le> conv_left a (abs_conv (step who \<sigma>))"
      "asker (abs_conv (fold step sched (step who \<sigma>))) = Satisfied"
      using less.hyps [OF _ step_ok [OF less.prems(1)]] by (auto simp: closer_def)
    then show ?thesis using w by (intro exI [of _ "who # sched"]) (simp add: closer_def)
  qed
qed

lemma delivers:
  assumes "ok \<sigma>" "conv_inv l a (abs_conv \<sigma>)" "answers look (request l) a" "request l \<noteq> []"
    "length (request l) < MAXMESGDATA"
  defines "c \<equiv> \<lambda>sched. abs_conv (fold step sched \<sigma>)"
  shows "(\<exists>t. written (screen (c sched)) @ t = a) \<and> asker (c sched) \<noteq> Gone \<and> answerer (c sched) \<noteq> Lost \<and>
     (asker (c sched) = Satisfied \<longrightarrow> answerer (c sched) = Finished \<and> written (screen (c sched)) = a) \<and>
     (\<exists>sched'. length sched' \<le> conv_left a (abs_conv \<sigma>) \<and> asker (c (sched @ sched')) = Satisfied)"
proof -
  have i: "conv_inv l a (c sched)" "conv_left a (c sched) \<le> conv_left a (abs_conv \<sigma>)"
    using run_inv [OF assms(1-4)] by (simp_all add: c_def)
  moreover obtain sched' where "length sched' \<le> conv_left a (c sched)" "asker (c (sched @ sched')) = Satisfied"
    using can_finish [OF run_ok [OF assms(1)], of l a sched] i(1) assms(3-5) by (auto simp: c_def)
  moreover have "asker (c sched) \<noteq> Gone \<and> answerer (c sched) \<noteq> Lost"
    using i(1) by (auto simp: conv_inv_def)
  moreover have "written (screen (c sched)) @ (in_hand (asker (c sched)) @ concat (replies (c sched)) @
      owed a (answerer (c sched)) (disk (c sched))) = a" using i(1) by (simp add: conv_inv_def)
  moreover have "answerer (c sched) = Finished \<and> written (screen (c sched)) = a" if "asker (c sched) = Satisfied"
    using that i(1) by (auto simp: conv_inv_def)
  ultimately show ?thesis by (meson order_trans)
qed

end

end
