(* ===== verification/Messages.thy ===== *)
theory Messages
  imports Conversation
begin

unbundle bit_operations_syntax

text \<open>
  The file server over messages, written once by the code and linked with different channels:
  \<open>client\<close> and \<open>server\<close> of \<open>7_system_v_ipc\<close> (the same text as in \<open>6_stream_messages\<close>), as machines
  that make one call per step, with \<open>mesg_send\<close> and \<open>mesg_recv\<close> as arguments.
\<close>

section \<open>Messages\<close>

record typed_mesg = Mesg +
  mesg_type :: int

definition MESGHDRSIZE :: nat where "MESGHDRSIZE = 4096 - MAXMESGDATA"

text \<open>The data a message carries.\<close>

definition body :: "typed_mesg \<Rightarrow> byte list" where
  "body m = take (nat (mesg_len m)) (mesg_data m)"

definition S_IFMT :: "32 word" where "S_IFMT = 0xF000"
definition S_IFDIR :: "32 word" where "S_IFDIR = 0x4000"

text \<open>\<open>open\<close> with \<open>fstat\<close>: an error, or the outcome of \<open>fstat\<close> and the open file.\<close>

type_synonym opener = "byte list \<Rightarrow> errno + (errno + 32 word) \<times> source"

text \<open>The channel: what \<open>mesg_send\<close> and \<open>mesg_recv\<close> do to a kernel \<open>'k\<close>.  A call that ends the
  process with an error is \<open>Fail\<close>, one that waits is \<open>Sleep\<close>.\<close>

type_synonym 'k sender = "nat \<Rightarrow> typed_mesg \<Rightarrow> 'k \<Rightarrow> 'k sem_verdict"
type_synonym 'k receiver = "nat \<Rightarrow> typed_mesg \<Rightarrow> 'k \<Rightarrow> (int \<times> typed_mesg \<times> 'k) sem_verdict"

section \<open>Client and server\<close>

datatype ipc_cpc = Ifill | Isend | Irecv | Iwrite int | Ireturned | Idead

datatype ipc_spc = Jrecv | Jopen int | Jerr | Jread | Jsend | Jend | Jreturned | Jdead

text \<open>\<open>leave p\<close> is what the kernel does to the channel when process \<open>p\<close> ends: nothing to a message
  queue, while the descriptors of a pipe are closed.\<close>

record 'k ipc =
  ipc_kern :: 'k
  cmesg :: typed_mesg
  smesg :: typed_mesg
  tin :: stream_in
  tout :: sink
  sfile :: source
  cst :: ipc_cpc
  sst :: ipc_spc

definition ipc_client_dead :: "(bool \<Rightarrow> 'k \<Rightarrow> 'k) \<Rightarrow> 'k ipc \<Rightarrow> 'k ipc" where
  "ipc_client_dead leave \<sigma> = \<sigma>\<lparr>cst := Idead, ipc_kern := leave True (ipc_kern \<sigma>)\<rparr>"

definition ipc_server_dead :: "(bool \<Rightarrow> 'k \<Rightarrow> 'k) \<Rightarrow> 'k ipc \<Rightarrow> 'k ipc" where
  "ipc_server_dead leave \<sigma> = \<sigma>\<lparr>sst := Jdead, ipc_kern := leave False (ipc_kern \<sigma>)\<rparr>"

definition ipc_client ::
  "'k sender \<Rightarrow> 'k receiver \<Rightarrow> (bool \<Rightarrow> 'k \<Rightarrow> 'k) \<Rightarrow> nat \<Rightarrow> nat \<Rightarrow> 'k ipc \<Rightarrow> 'k ipc"
where
  "ipc_client mesg_send mesg_recv leave readfd writefd \<sigma> =
     (case cst \<sigma> of
        Ifill \<Rightarrow>
          (case fgets MAXMESGDATA (tin \<sigma>) of
             (None, fp) \<Rightarrow> ipc_client_dead leave (\<sigma>\<lparr>tin := fp\<rparr>)
           | (Some l, fp) \<Rightarrow>
               (let d = poke (mesg_data (cmesg \<sigma>)) 0 (l @ [NUL]); n = strlen d;
                    n = (if 0 < n \<and> d ! (n - 1) = NL then n - 1 else n)
                in \<sigma>\<lparr>tin := fp, cmesg := \<lparr>mesg_len = int n, mesg_data = d, mesg_type = 1\<rparr>, cst := Isend\<rparr>))
      | Isend \<Rightarrow>
          (case mesg_send writefd (cmesg \<sigma>) (ipc_kern \<sigma>) of
             Done k \<Rightarrow> \<sigma>\<lparr>ipc_kern := k, cst := Irecv\<rparr>
           | Sleep \<Rightarrow> \<sigma>
           | Fail e \<Rightarrow> ipc_client_dead leave \<sigma>)
      | Irecv \<Rightarrow>
          (case mesg_recv readfd (cmesg \<sigma>) (ipc_kern \<sigma>) of
             Done (n, m, k) \<Rightarrow>
               if 0 < n then \<sigma>\<lparr>ipc_kern := k, cmesg := m, cst := Iwrite n\<rparr>
               else if n < 0 then ipc_client_dead leave (\<sigma>\<lparr>ipc_kern := k, cmesg := m\<rparr>)
               else \<sigma>\<lparr>ipc_kern := k, cmesg := m, cst := Ireturned\<rparr>
           | Sleep \<Rightarrow> \<sigma>
           | Fail e \<Rightarrow> ipc_client_dead leave \<sigma>)
      | Iwrite n \<Rightarrow>
          (case sys_write (tout \<sigma>) (take (nat n) (mesg_data (cmesg \<sigma>))) of
             (Inr w, out) \<Rightarrow> if int w \<noteq> n then ipc_client_dead leave (\<sigma>\<lparr>tout := out\<rparr>)
                           else \<sigma>\<lparr>tout := out, cst := Irecv\<rparr>
           | (Inl e, out) \<Rightarrow> ipc_client_dead leave (\<sigma>\<lparr>tout := out\<rparr>))
      | Ireturned \<Rightarrow> \<sigma>
      | Idead \<Rightarrow> \<sigma>)"

text \<open>The error text; \<open>errmesg\<close> of the function has 256 bytes.\<close>

definition ipc_errmesg :: "(errno \<Rightarrow> byte list) \<Rightarrow> errno \<Rightarrow> byte list" where
  "ipc_errmesg sys_errlist e = '': can't open, '' @ sys_err_str sys_errlist e @ [NL]"

definition ipc_server ::
  "'k sender \<Rightarrow> 'k receiver \<Rightarrow> (bool \<Rightarrow> 'k \<Rightarrow> 'k) \<Rightarrow> opener \<Rightarrow> (errno \<Rightarrow> byte list) \<Rightarrow>
     nat \<Rightarrow> nat \<Rightarrow> 'k ipc \<Rightarrow> 'k ipc"
where
  "ipc_server mesg_send mesg_recv leave open_file sys_errlist readfd writefd \<sigma> =
     (case sst \<sigma> of
        Jrecv \<Rightarrow>
          (case mesg_recv readfd ((smesg \<sigma>)\<lparr>mesg_type := 1\<rparr>) (ipc_kern \<sigma>) of
             Done (n, m, k) \<Rightarrow>
               if n \<le> 0 then ipc_server_dead leave (\<sigma>\<lparr>ipc_kern := k, smesg := m\<rparr>)
               else \<sigma>\<lparr>ipc_kern := k, smesg := m, sst := Jopen n\<rparr>
           | Sleep \<Rightarrow> \<sigma>
           | Fail e \<Rightarrow> ipc_server_dead leave \<sigma>)
      | Jopen n \<Rightarrow>
          if int MAXMESGDATA \<le> n then ipc_server_dead leave \<sigma>   \<comment> \<open>a store past the end of the array\<close>
          else
            (let d = (mesg_data (smesg \<sigma>))[nat n := NUL]
             in case open_file (cstr d) of
                  Inl e \<Rightarrow>
                    (let errmesg = ipc_errmesg sys_errlist e
                     in if 256 \<le> length errmesg \<or> MAXMESGDATA \<le> length (cstr d @ errmesg)
                        then ipc_server_dead leave \<sigma>
                        else (let d = poke d (strlen d) (errmesg @ [NUL])
                              in \<sigma>\<lparr>smesg := (smesg \<sigma>)\<lparr>mesg_len := int (strlen d), mesg_data := d\<rparr>, sst := Jerr\<rparr>))
                | Inr (Inl e, f) \<Rightarrow> ipc_server_dead leave \<sigma>
                | Inr (Inr st_mode, f) \<Rightarrow>
                    if st_mode AND S_IFMT = S_IFDIR then ipc_server_dead leave \<sigma>
                    else \<sigma>\<lparr>smesg := (smesg \<sigma>)\<lparr>mesg_data := d\<rparr>, sfile := f, sst := Jread\<rparr>)
      | Jerr \<Rightarrow>
          (case mesg_send writefd (smesg \<sigma>) (ipc_kern \<sigma>) of
             Done k \<Rightarrow> \<sigma>\<lparr>ipc_kern := k, sst := Jend\<rparr>
           | Sleep \<Rightarrow> \<sigma>
           | Fail e \<Rightarrow> ipc_server_dead leave \<sigma>)
      | Jread \<Rightarrow>
          (case sys_read (sfile \<sigma>) MAXMESGDATA of
             (Inl e, f) \<Rightarrow> ipc_server_dead leave (\<sigma>\<lparr>sfile := f\<rparr>)
           | (Inr xs, f) \<Rightarrow>
               if xs = [] then \<sigma>\<lparr>sfile := f, sst := Jend\<rparr>
               else \<sigma>\<lparr>sfile := f, sst := Jsend,
                      smesg := (smesg \<sigma>)\<lparr>mesg_len := int (length xs),
                                        mesg_data := poke (mesg_data (smesg \<sigma>)) 0 xs\<rparr>\<rparr>)
      | Jsend \<Rightarrow>
          (case mesg_send writefd (smesg \<sigma>) (ipc_kern \<sigma>) of
             Done k \<Rightarrow> \<sigma>\<lparr>ipc_kern := k, sst := Jread\<rparr>
           | Sleep \<Rightarrow> \<sigma>
           | Fail e \<Rightarrow> ipc_server_dead leave \<sigma>)
      | Jend \<Rightarrow>
          (case mesg_send writefd ((smesg \<sigma>)\<lparr>mesg_len := 0\<rparr>) (ipc_kern \<sigma>) of
             Done k \<Rightarrow> \<sigma>\<lparr>ipc_kern := k, smesg := (smesg \<sigma>)\<lparr>mesg_len := 0\<rparr>, sst := Jreturned\<rparr>
           | Sleep \<Rightarrow> \<sigma>
           | Fail e \<Rightarrow> ipc_server_dead leave \<sigma>)
      | Jreturned \<Rightarrow> \<sigma>
      | Jdead \<Rightarrow> \<sigma>)"

definition ipc_step ::
  "'k sender \<Rightarrow> 'k receiver \<Rightarrow> (bool \<Rightarrow> 'k \<Rightarrow> 'k) \<Rightarrow> opener \<Rightarrow> (errno \<Rightarrow> byte list) \<Rightarrow>
     nat \<Rightarrow> nat \<Rightarrow> bool \<Rightarrow> 'k ipc \<Rightarrow> 'k ipc"
where
  "ipc_step mesg_send mesg_recv leave open_file sys_errlist req rep who \<sigma> =
     (if who then ipc_client mesg_send mesg_recv leave rep req \<sigma>
      else ipc_server mesg_send mesg_recv leave open_file sys_errlist req rep \<sigma>)"

section \<open>They implement the conversation\<close>

definition ipc_look :: "opener \<Rightarrow> (errno \<Rightarrow> byte list) \<Rightarrow> byte list \<Rightarrow> looked" where
  "ipc_look open_file sys_errlist m =
     (case open_file (cstr m) of
        Inl e \<Rightarrow>
          if 256 \<le> length (ipc_errmesg sys_errlist e) \<or> MAXMESGDATA \<le> length (cstr m @ ipc_errmesg sys_errlist e)
          then Denied else Refused (cstr m @ ipc_errmesg sys_errlist e)
      | Inr (Inl e, f) \<Rightarrow> Denied
      | Inr (Inr st_mode, f) \<Rightarrow> if st_mode AND S_IFMT = S_IFDIR then Denied else Opened f)"

fun abs_asker :: "ipc_cpc \<Rightarrow> typed_mesg \<Rightarrow> asker" where
  "abs_asker Ifill m = To_ask" | "abs_asker Isend m = Asking (body m)" | "abs_asker Irecv m = Listening"
| "abs_asker (Iwrite n) m = Printing (take (nat n) (mesg_data m))" | "abs_asker Ireturned m = Satisfied"
| "abs_asker Idead m = Gone"

fun abs_answerer :: "ipc_spc \<Rightarrow> typed_mesg \<Rightarrow> answerer" where
  "abs_answerer Jrecv m = Attending" | "abs_answerer (Jopen n) m = Looking (take (nat n) (mesg_data m))"
| "abs_answerer Jerr m = Telling (body m)" | "abs_answerer Jread m = Reading"
| "abs_answerer Jsend m = Sending (body m)" | "abs_answerer Jend m = Closing"
| "abs_answerer Jreturned m = Finished" | "abs_answerer Jdead m = Lost"

lemma asker_iff [simp]:
  "abs_asker s m = Satisfied \<longleftrightarrow> s = Ireturned" "abs_asker s m = Gone \<longleftrightarrow> s = Idead"
  "abs_asker s m = To_ask \<longleftrightarrow> s = Ifill"
  by (cases s; simp)+

lemma answerer_iff [simp]:
  "abs_answerer s m = Finished \<longleftrightarrow> s = Jreturned" "abs_answerer s m = Lost \<longleftrightarrow> s = Jdead"
  "abs_answerer s m = Attending \<longleftrightarrow> s = Jrecv"
  by (cases s; simp)+

definition ipc_conv :: "('k \<Rightarrow> byte list list \<times> byte list list) \<Rightarrow> 'k ipc \<Rightarrow> conv" where
  "ipc_conv queued \<sigma> =
     \<lparr>asker = abs_asker (cst \<sigma>) (cmesg \<sigma>), answerer = abs_answerer (sst \<sigma>) (smesg \<sigma>),
      requests = fst (queued (ipc_kern \<sigma>)), replies = snd (queued (ipc_kern \<sigma>)),
      keyboard = tin \<sigma>, screen = tout \<sigma>, disk = sfile \<sigma>\<rparr>"

text \<open>The buffers: a message that is about to be sent fits its array.\<close>

definition mesg_ok :: "typed_mesg \<Rightarrow> bool" where
  "mesg_ok m \<longleftrightarrow> 0 \<le> mesg_len m \<and> mesg_len m \<le> int MAXMESGDATA \<and> length (mesg_data m) = MAXMESGDATA"

fun client_buf :: "ipc_cpc \<Rightarrow> typed_mesg \<Rightarrow> bool" where
  "client_buf Isend m \<longleftrightarrow> mesg_ok m \<and> mesg_len m < int MAXMESGDATA \<and> mesg_type m = 1"
| "client_buf (Iwrite n) m \<longleftrightarrow> 0 < n \<and> n \<le> int MAXMESGDATA"
| "client_buf pc m \<longleftrightarrow> True"

fun server_buf :: "ipc_spc \<Rightarrow> typed_mesg \<Rightarrow> bool" where
  "server_buf (Jopen n) m \<longleftrightarrow> 0 < n \<and> n < int MAXMESGDATA"
| "server_buf Jerr m \<longleftrightarrow> mesg_ok m" | "server_buf Jsend m \<longleftrightarrow> mesg_ok m"
| "server_buf pc m \<longleftrightarrow> True"

definition bufs_ok :: "'k ipc \<Rightarrow> bool" where
  "bufs_ok \<sigma> \<longleftrightarrow> length (mesg_data (cmesg \<sigma>)) = MAXMESGDATA \<and> length (mesg_data (smesg \<sigma>)) = MAXMESGDATA \<and>
     client_buf (cst \<sigma>) (cmesg \<sigma>) \<and> server_buf (sst \<sigma>) (smesg \<sigma>)"

lemma body_length: "mesg_ok m \<Longrightarrow> length (body m) = nat (mesg_len m)"
  by (auto simp: mesg_ok_def body_def)

lemma client_request:
  assumes "length l < MAXMESGDATA" "length d = MAXMESGDATA"
  defines "d' \<equiv> poke d 0 (l @ [NUL])"
  defines "n \<equiv> (if 0 < strlen d' \<and> d' ! (strlen d' - 1) = NL then strlen d' - 1 else strlen d')"
  shows "body \<lparr>mesg_len = int n, mesg_data = d', mesg_type = t\<rparr> = request l" "n < MAXMESGDATA"
    "length d' = MAXMESGDATA"
proof -
  have l: "length l < length d" using assms(1,2) by simp
  note r = request_stored [OF l, folded d'_def, folded n_def]
  show "body \<lparr>mesg_len = int n, mesg_data = d', mesg_type = t\<rparr> = request l" using r(2) by (simp add: body_def)
  show "n < MAXMESGDATA" using r(1) request_no_NUL(2) [of l] assms(1) by linarith
  show "length d' = MAXMESGDATA" using assms(2) by (simp add: d'_def)
qed

lemma sys_read_length: "sys_read s n = (Inr xs, s') \<Longrightarrow> length xs \<le> n"
  by (induction s n rule: sys_read.induct) (auto split: if_splits)

text \<open>The name in the server's array, and the error text behind it.\<close>

lemma cstr_cut:
  assumes "n < length d"
  shows "cstr (d[n := NUL]) = cstr (take n d)" "strlen (d[n := NUL]) \<le> n"
proof -
  have d: "d[n := NUL] = take n d @ NUL # drop (Suc n) d" using assms by (simp add: upd_conv_take_nth_drop)
  have "takeWhile (\<lambda>c. c \<noteq> NUL) (xs @ NUL # ys) = takeWhile (\<lambda>c. c \<noteq> NUL) xs" for xs ys by (induction xs) auto
  then show e: "cstr (d[n := NUL]) = cstr (take n d)" by (simp add: d cstr_def)
  show "strlen (d[n := NUL]) \<le> n"
    using length_takeWhile_le [of "\<lambda>c. c \<noteq> NUL" "take n d"] assms by (simp add: strlen_def e) (simp add: cstr_def)
qed

lemma strcat_text:
  assumes "length (cstr d @ t) < length d" "NUL \<notin> set t"
  shows "take (length (cstr d @ t)) (poke d (strlen d) (t @ [NUL])) = cstr d @ t"
    "strlen (poke d (strlen d) (t @ [NUL])) = length (cstr d @ t)"
proof -
  have s: "strlen d = length (cstr d)" by (simp add: strlen_def)
  have c: "take (length (cstr d)) d = cstr d" unfolding cstr_def by (metis takeWhile_eq_take)
  have p: "poke d (strlen d) (t @ [NUL]) = cstr d @ t @ NUL # drop (Suc (length (cstr d @ t))) d"
    using assms(1) by (simp add: s poke_eq c)
  show "take (length (cstr d @ t)) (poke d (strlen d) (t @ [NUL])) = cstr d @ t" by (simp add: p)
  have "NUL \<notin> set (cstr d @ t)" using NUL_notin_cstr [of d] assms(2) by simp
  then have "takeWhile (\<lambda>c. c \<noteq> NUL) ((cstr d @ t) @ NUL # ys) = cstr d @ t" for ys
    by (subst takeWhile_append2) auto
  then have "cstr (poke d (strlen d) (t @ [NUL])) = cstr d @ t" unfolding p cstr_def by simp
  then show "strlen (poke d (strlen d) (t @ [NUL])) = length (cstr d @ t)" by (simp add: strlen_def)
qed

lemma same_smesg: "\<sigma>\<lparr>ipc_kern := k, sst := s\<rparr> = \<sigma>\<lparr>ipc_kern := k, smesg := smesg \<sigma>, sst := s\<rparr>"
  by (cases \<sigma>) simp

definition texts_ok :: "(errno \<Rightarrow> byte list) \<Rightarrow> bool" where
  "texts_ok sys_errlist \<longleftrightarrow> (\<forall>e. NUL \<notin> set (sys_errlist e))"

text \<open>
  What the client and the server need from a channel: a kernel state represents the two queues of
  data; a send appends, waits when there is no room, or fails when the reader is gone; a receive
  takes the first message, waits, or reports the end of a channel whose writer is gone.
\<close>

locale msg_channel =
  fixes mesg_send :: "'k sender"
    and mesg_recv :: "'k receiver"
    and leave :: "bool \<Rightarrow> 'k \<Rightarrow> 'k"
    and req rep :: nat
    and queued :: "'k \<Rightarrow> byte list list \<times> byte list list"
    and chan_ok :: "'k \<Rightarrow> bool"
    and alive :: "'k \<Rightarrow> bool \<Rightarrow> bool"
    and room :: rooms
    and hang :: bool
  assumes send_req: "chan_ok k \<Longrightarrow> mesg_ok m \<Longrightarrow> mesg_len m < int MAXMESGDATA \<Longrightarrow> mesg_type m = 1 \<Longrightarrow>
      (if hang \<and> \<not> alive k False then \<exists>e. mesg_send req m k = Fail e
       else if room True (fst (queued k)) (snd (queued k)) (body m)
       then \<exists>k'. mesg_send req m k = Done k' \<and> chan_ok k' \<and> alive k' = alive k \<and>
              queued k' = (fst (queued k) @ [body m], snd (queued k))
       else mesg_send req m k = Sleep)"
    and send_rep: "chan_ok k \<Longrightarrow> mesg_ok m \<Longrightarrow> mesg_type m = 1 \<Longrightarrow>
      (if hang \<and> \<not> alive k True then \<exists>e. mesg_send rep m k = Fail e
       else if room False (fst (queued k)) (snd (queued k)) (body m)
       then \<exists>k'. mesg_send rep m k = Done k' \<and> chan_ok k' \<and> alive k' = alive k \<and>
              queued k' = (fst (queued k), snd (queued k) @ [body m])
       else mesg_send rep m k = Sleep)"
    and recv_empty: "chan_ok k \<Longrightarrow> mesg_type m = 1 \<Longrightarrow>
      (fst (queued k) = [] \<longrightarrow>
         mesg_recv req m k = (if hang \<and> \<not> alive k True then Done (0, m, k) else Sleep)) \<and>
      (snd (queued k) = [] \<longrightarrow>
         mesg_recv rep m k = (if hang \<and> \<not> alive k False then Done (0, m, k) else Sleep))"
    and recv_req: "chan_ok k \<Longrightarrow> mesg_type m = 1 \<Longrightarrow> length (mesg_data m) = MAXMESGDATA \<Longrightarrow>
      fst (queued k) = x # xs \<Longrightarrow>
      \<exists>m' k'. mesg_recv req m k = Done (int (length x), m', k') \<and> take (length x) (mesg_data m') = x \<and>
        length (mesg_data m') = MAXMESGDATA \<and> mesg_type m' = 1 \<and>
        chan_ok k' \<and> alive k' = alive k \<and> queued k' = (xs, snd (queued k))"
    and recv_rep: "chan_ok k \<Longrightarrow> mesg_type m = 1 \<Longrightarrow> length (mesg_data m) = MAXMESGDATA \<Longrightarrow>
      snd (queued k) = x # xs \<Longrightarrow>
      \<exists>m' k'. mesg_recv rep m k = Done (int (length x), m', k') \<and> take (length x) (mesg_data m') = x \<and>
        length (mesg_data m') = MAXMESGDATA \<and> mesg_type m' = 1 \<and>
        chan_ok k' \<and> alive k' = alive k \<and> queued k' = (fst (queued k), xs)"
    and leaving: "chan_ok k \<Longrightarrow> chan_ok (leave p k) \<and> queued (leave p k) = queued k \<and>
      (hang \<longrightarrow> alive (leave p k) = (alive k)(p := False))"
    and short: "chan_ok k \<Longrightarrow> (\<forall>x \<in> set (fst (queued k)). length x < MAXMESGDATA) \<and>
      (\<forall>x \<in> set (snd (queued k)). length x \<le> MAXMESGDATA)"
    and room_empty: "roomy room"
begin

definition ipc_ok :: "'k ipc \<Rightarrow> bool" where
  "ipc_ok \<sigma> \<longleftrightarrow> chan_ok (ipc_kern \<sigma>) \<and> bufs_ok \<sigma> \<and>
     (cst \<sigma> \<in> {Ifill, Idead} \<or> mesg_type (cmesg \<sigma>) = 1) \<and> (sst \<sigma> \<in> {Jrecv, Jdead} \<or> mesg_type (smesg \<sigma>) = 1) \<and>
     (hang \<longrightarrow> alive (ipc_kern \<sigma>) = (\<lambda>p. if p then cst \<sigma> \<noteq> Idead else sst \<sigma> \<noteq> Jdead))"

abbreviation conv_of :: "'k ipc \<Rightarrow> conv" where "conv_of \<equiv> ipc_conv queued"

lemma peer_alive:
  assumes "ipc_ok \<sigma>"
  shows "hang \<longrightarrow> (alive (ipc_kern \<sigma>) False \<longleftrightarrow> abs_answerer (sst \<sigma>) (smesg \<sigma>) \<noteq> Lost)"
    and "hang \<longrightarrow> (alive (ipc_kern \<sigma>) True \<longleftrightarrow> abs_asker (cst \<sigma>) (cmesg \<sigma>) \<noteq> Gone)"
proof -
  have "hang \<longrightarrow> alive (ipc_kern \<sigma>) = (\<lambda>p. if p then cst \<sigma> \<noteq> Idead else sst \<sigma> \<noteq> Jdead)"
    using assms by (simp add: ipc_ok_def)
  then show "hang \<longrightarrow> (alive (ipc_kern \<sigma>) False \<longleftrightarrow> abs_answerer (sst \<sigma>) (smesg \<sigma>) \<noteq> Lost)"
    and "hang \<longrightarrow> (alive (ipc_kern \<sigma>) True \<longleftrightarrow> abs_asker (cst \<sigma>) (cmesg \<sigma>) \<noteq> Gone)"
    by (cases "sst \<sigma>"; cases "cst \<sigma>"; simp)+
qed

lemma client_dead_ok:
  assumes "ipc_ok \<sigma>"
  shows "ipc_ok (ipc_client_dead leave \<sigma>) \<and> conv_of (ipc_client_dead leave \<sigma>) = (conv_of \<sigma>)\<lparr>asker := Gone\<rparr>"
  using assms leaving [of "ipc_kern \<sigma>" True]
  by (auto simp: ipc_ok_def bufs_ok_def ipc_client_dead_def ipc_conv_def fun_eq_iff)

lemma server_dead_ok:
  assumes "ipc_ok \<sigma>"
  shows "ipc_ok (ipc_server_dead leave \<sigma>) \<and> conv_of (ipc_server_dead leave \<sigma>) = (conv_of \<sigma>)\<lparr>answerer := Lost\<rparr>"
  using assms leaving [of "ipc_kern \<sigma>" False]
  by (auto simp: ipc_ok_def bufs_ok_def ipc_server_dead_def ipc_conv_def fun_eq_iff)

lemma client_ok_Ifill:
  assumes "ipc_ok \<sigma>"
    and Ifill: "cst \<sigma> = Ifill"
  shows "ipc_ok (ipc_client mesg_send mesg_recv leave rep req \<sigma>) \<and>
     conv_of (ipc_client mesg_send mesg_recv leave rep req \<sigma>) = ask_step room hang (conv_of \<sigma>)"
proof -
  show ?thesis
  proof (cases "rest (tin \<sigma>) = []")
    case True
    then show ?thesis
      using Ifill client_dead_ok [OF assms(1)] by (simp add: ipc_client_def ask_step_def ipc_conv_def fgets_def)
  next
    case False
    let ?l = "take_line (MAXMESGDATA - 1) (rest (tin \<sigma>))"
    have "length ?l \<le> MAXMESGDATA - 1" by (rule length_take_line)
    then have l: "length ?l < MAXMESGDATA" by (simp add: MAXMESGDATA_def)
    have d: "length (mesg_data (cmesg \<sigma>)) = MAXMESGDATA" using assms(1) by (simp add: ipc_ok_def bufs_ok_def)
    define d' where "d' = poke (mesg_data (cmesg \<sigma>)) 0 (?l @ [NUL])"
    define n where "n = (if 0 < strlen d' \<and> d' ! (strlen d' - 1) = NL then strlen d' - 1 else strlen d')"
    note r = client_request [OF l d, folded d'_def, folded n_def]
    have "ipc_client mesg_send mesg_recv leave rep req \<sigma> =
        \<sigma>\<lparr>tin := (tin \<sigma>)\<lparr>rest := drop (length ?l) (rest (tin \<sigma>))\<rparr>,
          cmesg := \<lparr>mesg_len = int n, mesg_data = d', mesg_type = 1\<rparr>, cst := Isend\<rparr>"
      using Ifill False by (simp add: ipc_client_def fgets_def Let_def d'_def n_def del: One_nat_def)
    then show ?thesis
      using assms(1) Ifill False r
      by (simp add: ask_step_def ipc_conv_def fgets_def ipc_ok_def bufs_ok_def mesg_ok_def Let_def del: One_nat_def)
  qed
qed

lemma client_ok_Isend:
  assumes "ipc_ok \<sigma>"
    and Isend: "cst \<sigma> = Isend"
  shows "ipc_ok (ipc_client mesg_send mesg_recv leave rep req \<sigma>) \<and>
     conv_of (ipc_client mesg_send mesg_recv leave rep req \<sigma>) = ask_step room hang (conv_of \<sigma>)"
proof -
  note Isend
  then have m: "chan_ok (ipc_kern \<sigma>)" "mesg_ok (cmesg \<sigma>)" "mesg_len (cmesg \<sigma>) < int MAXMESGDATA" "mesg_type (cmesg \<sigma>) = 1"
    using assms(1) by (auto simp: ipc_ok_def bufs_ok_def)
  note a = peer_alive(1) [OF assms(1)]
  let ?gone = "hang \<and> \<not> alive (ipc_kern \<sigma>) False"
  let ?room = "room True (fst (queued (ipc_kern \<sigma>))) (snd (queued (ipc_kern \<sigma>))) (body (cmesg \<sigma>))"
  consider "?gone" | "\<not> ?gone" "?room" | "\<not> ?gone" "\<not> ?room" by blast
  then show ?thesis
  proof cases
    case 1
    then obtain e where e: "mesg_send req (cmesg \<sigma>) (ipc_kern \<sigma>) = Fail e" using send_req [OF m] by auto
    have "abs_answerer (sst \<sigma>) (smesg \<sigma>) = Lost" using 1 a by blast
    then have "ask_step room hang (conv_of \<sigma>) = (conv_of \<sigma>)\<lparr>asker := Gone\<rparr>"
      using Isend 1 by (simp add: ask_step_def ipc_conv_def)
    then show ?thesis using Isend e client_dead_ok [OF assms(1)] by (simp add: ipc_client_def)
  next
    case 2
    then obtain k where k: "mesg_send req (cmesg \<sigma>) (ipc_kern \<sigma>) = Done k" "chan_ok k" "alive k = alive (ipc_kern \<sigma>)"
      "queued k = (fst (queued (ipc_kern \<sigma>)) @ [body (cmesg \<sigma>)], snd (queued (ipc_kern \<sigma>)))"
      using send_req [OF m] by auto
    have "\<not> (hang \<and> abs_answerer (sst \<sigma>) (smesg \<sigma>) = Lost)" using 2(1) a by blast
    then have "ask_step room hang (conv_of \<sigma>) =
        (conv_of \<sigma>)\<lparr>asker := Listening, requests := fst (queued (ipc_kern \<sigma>)) @ [body (cmesg \<sigma>)]\<rparr>"
      using Isend 2(2) by (simp add: ask_step_def ipc_conv_def)
    then show ?thesis
      using Isend k assms(1) by (simp add: ipc_client_def ipc_conv_def ipc_ok_def bufs_ok_def)
  next
    case 3
    then have "mesg_send req (cmesg \<sigma>) (ipc_kern \<sigma>) = Sleep" using send_req [OF m] by auto
    moreover have "\<not> (hang \<and> abs_answerer (sst \<sigma>) (smesg \<sigma>) = Lost)" using 3(1) a by blast
    ultimately show ?thesis
      using Isend 3(2) assms(1) by (simp add: ipc_client_def ask_step_def ipc_conv_def)
  qed
qed

lemma client_ok_Irecv:
  assumes "ipc_ok \<sigma>"
    and Irecv: "cst \<sigma> = Irecv"
  shows "ipc_ok (ipc_client mesg_send mesg_recv leave rep req \<sigma>) \<and>
     conv_of (ipc_client mesg_send mesg_recv leave rep req \<sigma>) = ask_step room hang (conv_of \<sigma>)"
proof -
  have c: "chan_ok (ipc_kern \<sigma>)" "mesg_type (cmesg \<sigma>) = 1" "length (mesg_data (cmesg \<sigma>)) = MAXMESGDATA"
    using assms(1) Irecv by (auto simp: ipc_ok_def bufs_ok_def)
  note a = peer_alive(1) [OF assms(1)]
  show ?thesis
  proof (cases "snd (queued (ipc_kern \<sigma>))")
    case Nil
    then show ?thesis
      using Irecv recv_empty [OF c(1,2)] assms(1) a
      by (auto simp: ipc_client_def ask_step_def ipc_conv_def ipc_ok_def bufs_ok_def)
  next
    case (Cons x xs)
    have x: "length x \<le> MAXMESGDATA" using short [OF c(1)] Cons by simp
    show ?thesis
      using Irecv recv_rep [OF c Cons] assms(1) x Cons
      by (auto simp: ipc_client_def ask_step_def ipc_conv_def ipc_ok_def bufs_ok_def)
  qed
qed

lemma client_ok_Iwrite:
  assumes "ipc_ok \<sigma>"
    and Iwrite: "cst \<sigma> = Iwrite n"
  shows "ipc_ok (ipc_client mesg_send mesg_recv leave rep req \<sigma>) \<and>
     conv_of (ipc_client mesg_send mesg_recv leave rep req \<sigma>) = ask_step room hang (conv_of \<sigma>)"
proof -
  note Iwrite
  then have n: "0 < n" "n \<le> int MAXMESGDATA" "length (mesg_data (cmesg \<sigma>)) = MAXMESGDATA"
    using assms(1) by (auto simp: ipc_ok_def bufs_ok_def)
  obtain r out where w: "sys_write (tout \<sigma>) (take (nat n) (mesg_data (cmesg \<sigma>))) = (r, out)" by fastforce
  have o: "ipc_ok (\<sigma>\<lparr>tout := out\<rparr>)" using assms(1) by (simp add: ipc_ok_def bufs_ok_def)
  show ?thesis
    using Iwrite n client_dead_ok [OF o] w o
    by (auto simp: ipc_client_def ask_step_def ipc_conv_def ipc_ok_def bufs_ok_def split: sum.splits)
qed

lemma client_ok:
  assumes "ipc_ok \<sigma>"
  shows "ipc_ok (ipc_client mesg_send mesg_recv leave rep req \<sigma>) \<and>
     conv_of (ipc_client mesg_send mesg_recv leave rep req \<sigma>) = ask_step room hang (conv_of \<sigma>)"
proof (cases "cst \<sigma>")
  case Ifill
  then show ?thesis by (rule client_ok_Ifill [OF assms])
next
  case Isend
  then show ?thesis by (rule client_ok_Isend [OF assms])
next
  case Irecv
  then show ?thesis by (rule client_ok_Irecv [OF assms])
next
  case (Iwrite n)
  then show ?thesis by (rule client_ok_Iwrite [OF assms])
next
  case Ireturned
  then show ?thesis using assms by (simp add: ipc_client_def ask_step_def ipc_conv_def)
next
  case Idead
  then show ?thesis using assms by (simp add: ipc_client_def ask_step_def ipc_conv_def)
qed

lemma server_posts:
  assumes "ipc_ok \<sigma>" "mesg_ok m" "mesg_type m = 1" "sst \<sigma> \<notin> {Jrecv, Jdead}"
    "s \<notin> {Jrecv, Jdead}" "server_buf s m" "abs_answerer s m = t"
  defines "\<tau> \<equiv> (case mesg_send rep m (ipc_kern \<sigma>) of
       Done k \<Rightarrow> \<sigma>\<lparr>ipc_kern := k, smesg := m, sst := s\<rparr> | Sleep \<Rightarrow> \<sigma> | Fail e \<Rightarrow> ipc_server_dead leave \<sigma>)"
  shows "ipc_ok \<tau> \<and> conv_of \<tau> = post room hang (body m) t (conv_of \<sigma>)"
proof -
  have k: "chan_ok (ipc_kern \<sigma>)" using assms(1) by (simp add: ipc_ok_def)
  note a = peer_alive(2) [OF assms(1)]
  let ?gone = "hang \<and> \<not> alive (ipc_kern \<sigma>) True"
  let ?room = "room False (fst (queued (ipc_kern \<sigma>))) (snd (queued (ipc_kern \<sigma>))) (body m)"
  consider "?gone" | "\<not> ?gone" "?room" | "\<not> ?gone" "\<not> ?room" by blast
  then show ?thesis
  proof cases
    case 1
    then obtain e where e: "mesg_send rep m (ipc_kern \<sigma>) = Fail e" using send_rep [OF k assms(2,3)] by auto
    have "abs_asker (cst \<sigma>) (cmesg \<sigma>) = Gone" using 1 a by blast
    then have "post room hang (body m) t (conv_of \<sigma>) = (conv_of \<sigma>)\<lparr>answerer := Lost\<rparr>"
      using 1 by (simp add: post_def ipc_conv_def)
    then show ?thesis using e server_dead_ok [OF assms(1)] by (simp add: \<tau>_def)
  next
    case 2
    then obtain k where k: "mesg_send rep m (ipc_kern \<sigma>) = Done k" "chan_ok k" "alive k = alive (ipc_kern \<sigma>)"
      "queued k = (fst (queued (ipc_kern \<sigma>)), snd (queued (ipc_kern \<sigma>)) @ [body m])"
      using send_rep [OF k assms(2,3)] by auto
    have "\<not> (hang \<and> abs_asker (cst \<sigma>) (cmesg \<sigma>) = Gone)" using 2(1) a by blast
    then have "post room hang (body m) t (conv_of \<sigma>) =
        (conv_of \<sigma>)\<lparr>answerer := t, replies := snd (queued (ipc_kern \<sigma>)) @ [body m]\<rparr>"
      using 2(2) by (simp add: post_def ipc_conv_def)
    then show ?thesis
      using k assms(1-7) by (simp add: \<tau>_def ipc_conv_def ipc_ok_def bufs_ok_def mesg_ok_def)
  next
    case 3
    then have "mesg_send rep m (ipc_kern \<sigma>) = Sleep" using send_rep [OF k assms(2,3)] by auto
    moreover have "\<not> (hang \<and> abs_asker (cst \<sigma>) (cmesg \<sigma>) = Gone)" using 3(1) a by blast
    ultimately show ?thesis using 3(2) assms(1) by (auto simp: \<tau>_def post_def ipc_conv_def)
  qed
qed

lemma answerer_reports:
  assumes "ipc_ok \<sigma>" "sst \<sigma> = Jopen n" "texts_ok sys_errlist"
    and n: "0 < n" "n < int MAXMESGDATA" and d_def: "d = (mesg_data (smesg \<sigma>))[nat n := NUL]"
    and d: "cstr d = cstr (take (nat n) (mesg_data (smesg \<sigma>)))" "length d = MAXMESGDATA"
    and Inl: "open_file (cstr d) = Inl e"
  shows "ipc_ok (ipc_server mesg_send mesg_recv leave open_file sys_errlist req rep \<sigma>) \<and>
     conv_of (ipc_server mesg_send mesg_recv leave open_file sys_errlist req rep \<sigma>) =
       answer_step room hang (ipc_look open_file sys_errlist) (conv_of \<sigma>)"
proof -
  let ?t = "ipc_errmesg sys_errlist e"
  have nul: "NUL \<notin> set ?t"
    using assms(3) by (auto simp: ipc_errmesg_def sys_err_str_def texts_ok_def)
  show ?thesis
  proof (cases "256 \<le> length ?t \<or> MAXMESGDATA \<le> length (cstr d @ ?t)")
    case True
    then have "ipc_server mesg_send mesg_recv leave open_file sys_errlist req rep \<sigma> = ipc_server_dead leave \<sigma>"
      using assms(2) n Inl by (simp add: ipc_server_def d_def [symmetric] Let_def)
    moreover have "answer_step room hang (ipc_look open_file sys_errlist) (conv_of \<sigma>) = (conv_of \<sigma>)\<lparr>answerer := Lost\<rparr>"
      using True assms(2) Inl by (simp add: answer_step_def ipc_conv_def ipc_look_def d [symmetric])
    ultimately show ?thesis using server_dead_ok [OF assms(1)] by simp
  next
    case False
    define d' where "d' = poke d (strlen d) (?t @ [NUL])"
    have s: "ipc_server mesg_send mesg_recv leave open_file sys_errlist req rep \<sigma> =
        \<sigma>\<lparr>smesg := (smesg \<sigma>)\<lparr>mesg_len := int (strlen d'), mesg_data := d'\<rparr>, sst := Jerr\<rparr>"
      using assms(2) n Inl False by (simp add: ipc_server_def d_def [symmetric] d'_def Let_def)
    have t: "take (length (cstr d @ ?t)) d' = cstr d @ ?t" "strlen d' = length (cstr d @ ?t)" "length d' = MAXMESGDATA"
      using strcat_text [of d ?t] False nul d(2) by (simp_all add: d'_def)
    have "answer_step room hang (ipc_look open_file sys_errlist) (conv_of \<sigma>) = (conv_of \<sigma>)\<lparr>answerer := Telling (cstr d @ ?t)\<rparr>"
      using False assms(2) Inl by (simp add: answer_step_def ipc_conv_def ipc_look_def d [symmetric])
    then show ?thesis
      using assms(1,2) t False by (simp add: s ipc_conv_def ipc_ok_def bufs_ok_def mesg_ok_def body_def nat_int_add)
  qed
qed

lemma answerer_stats:
  assumes "ipc_ok \<sigma>" "sst \<sigma> = Jopen n" "texts_ok sys_errlist"
    and n: "0 < n" "n < int MAXMESGDATA" and d_def: "d = (mesg_data (smesg \<sigma>))[nat n := NUL]"
    and d: "cstr d = cstr (take (nat n) (mesg_data (smesg \<sigma>)))" "length d = MAXMESGDATA"
    and p: "open_file (cstr d) = Inr (st, f)"
  shows "ipc_ok (ipc_server mesg_send mesg_recv leave open_file sys_errlist req rep \<sigma>) \<and>
     conv_of (ipc_server mesg_send mesg_recv leave open_file sys_errlist req rep \<sigma>) =
       answer_step room hang (ipc_look open_file sys_errlist) (conv_of \<sigma>)"
proof -
  show ?thesis
  proof (cases st)
    case (Inl e)
    then have "ipc_server mesg_send mesg_recv leave open_file sys_errlist req rep \<sigma> = ipc_server_dead leave \<sigma>"
      using assms(2) n p by (simp add: ipc_server_def d_def [symmetric] Let_def)
    moreover have "answer_step room hang (ipc_look open_file sys_errlist) (conv_of \<sigma>) = (conv_of \<sigma>)\<lparr>answerer := Lost\<rparr>"
      using assms(2) p Inl by (simp add: answer_step_def ipc_conv_def ipc_look_def d [symmetric])
    ultimately show ?thesis using server_dead_ok [OF assms(1)] by simp
  next
    case (Inr mode)
    then have s: "ipc_server mesg_send mesg_recv leave open_file sys_errlist req rep \<sigma> =
        (if mode AND S_IFMT = S_IFDIR then ipc_server_dead leave \<sigma>
         else \<sigma>\<lparr>smesg := (smesg \<sigma>)\<lparr>mesg_data := d\<rparr>, sfile := f, sst := Jread\<rparr>)"
      using assms(2) n p by (simp add: ipc_server_def d_def [symmetric] Let_def)
    have a: "answer_step room hang (ipc_look open_file sys_errlist) (conv_of \<sigma>) =
        (if mode AND S_IFMT = S_IFDIR then (conv_of \<sigma>)\<lparr>answerer := Lost\<rparr>
         else (conv_of \<sigma>)\<lparr>answerer := Reading, disk := f\<rparr>)"
      using assms(2) p Inr by (simp add: answer_step_def ipc_conv_def ipc_look_def d [symmetric])
    show ?thesis
    proof (cases "mode AND S_IFMT = S_IFDIR")
      case True
      then show ?thesis using server_dead_ok [OF assms(1)] by (simp add: s a)
    next
      case False
      have "ipc_ok (\<sigma>\<lparr>smesg := (smesg \<sigma>)\<lparr>mesg_data := d\<rparr>, sfile := f, sst := Jread\<rparr>)"
        using assms(1,2) d(2) by (simp add: ipc_ok_def bufs_ok_def)
      moreover have "conv_of (\<sigma>\<lparr>smesg := (smesg \<sigma>)\<lparr>mesg_data := d\<rparr>, sfile := f, sst := Jread\<rparr>) =
          (conv_of \<sigma>)\<lparr>answerer := Reading, disk := f\<rparr>" by (simp add: ipc_conv_def)
      ultimately show ?thesis using False by (simp add: s a)
    qed
  qed
qed

lemma answerer_opens:
  assumes "ipc_ok \<sigma>" "sst \<sigma> = Jopen n" "texts_ok sys_errlist"
  shows "ipc_ok (ipc_server mesg_send mesg_recv leave open_file sys_errlist req rep \<sigma>) \<and>
     conv_of (ipc_server mesg_send mesg_recv leave open_file sys_errlist req rep \<sigma>) =
       answer_step room hang (ipc_look open_file sys_errlist) (conv_of \<sigma>)"
proof -
  have n: "0 < n" "n < int MAXMESGDATA" "length (mesg_data (smesg \<sigma>)) = MAXMESGDATA"
    using assms(1,2) by (auto simp: ipc_ok_def bufs_ok_def)
  define d where "d = (mesg_data (smesg \<sigma>))[nat n := NUL]"
  have d: "cstr d = cstr (take (nat n) (mesg_data (smesg \<sigma>)))" "length d = MAXMESGDATA"
    using cstr_cut(1) [of "nat n" "mesg_data (smesg \<sigma>)"] n by (simp_all add: d_def)
  show ?thesis
  proof (cases "open_file (cstr d)")
    case (Inl e)
    then show ?thesis by (rule answerer_reports [OF assms n(1,2) d_def d])
  next
    case (Inr p)
    then obtain st f where "open_file (cstr d) = Inr (st, f)" by (cases p) auto
    then show ?thesis by (rule answerer_stats [OF assms n(1,2) d_def d])
  qed
qed

lemmas server_posts_same = server_posts [of \<sigma> "smesg \<sigma>" for \<sigma>, folded same_smesg]

lemma server_ok_Jrecv:
  assumes "ipc_ok \<sigma>" "texts_ok sys_errlist"
    and Jrecv: "sst \<sigma> = Jrecv"
  shows "ipc_ok (ipc_server mesg_send mesg_recv leave open_file sys_errlist req rep \<sigma>) \<and>
     conv_of (ipc_server mesg_send mesg_recv leave open_file sys_errlist req rep \<sigma>) =
       answer_step room hang (ipc_look open_file sys_errlist) (conv_of \<sigma>)"
proof -
  let ?m = "(smesg \<sigma>)\<lparr>mesg_type := 1\<rparr>"
  have c: "chan_ok (ipc_kern \<sigma>)" "mesg_type ?m = 1" "length (mesg_data ?m) = MAXMESGDATA"
    using assms(1-2) Jrecv by (auto simp: ipc_ok_def bufs_ok_def)
  note a = peer_alive(2) [OF assms(1)]
  show ?thesis
  proof (cases "fst (queued (ipc_kern \<sigma>))")
    case Nil
    show ?thesis
    proof (cases "hang \<and> \<not> alive (ipc_kern \<sigma>) True")
      case True
      then have "mesg_recv req ?m (ipc_kern \<sigma>) = Done (0, ?m, ipc_kern \<sigma>)" using recv_empty [OF c(1,2)] Nil by simp
      then have "ipc_server mesg_send mesg_recv leave open_file sys_errlist req rep \<sigma> =
          ipc_server_dead leave (\<sigma>\<lparr>smesg := ?m\<rparr>)" using Jrecv by (simp add: ipc_server_def)
      moreover have "ipc_ok (\<sigma>\<lparr>smesg := ?m\<rparr>)" using assms(1) Jrecv by (simp add: ipc_ok_def bufs_ok_def)
      moreover have "hang \<and> abs_asker (cst \<sigma>) (cmesg \<sigma>) = Gone" using True a by blast
      ultimately show ?thesis
        using server_dead_ok [of "\<sigma>\<lparr>smesg := ?m\<rparr>"] Jrecv Nil by (simp add: answer_step_def ipc_conv_def)
    next
      case False
      then have "mesg_recv req ?m (ipc_kern \<sigma>) = Sleep" using recv_empty [OF c(1,2)] Nil by simp
      moreover have "\<not> (hang \<and> abs_asker (cst \<sigma>) (cmesg \<sigma>) = Gone)" using False a by blast
      ultimately show ?thesis
        using Jrecv Nil assms(1) by (auto simp: ipc_server_def answer_step_def ipc_conv_def)
    qed
  next
    case (Cons x xs)
    have x: "length x < MAXMESGDATA" using short [OF c(1)] Cons by simp
    from recv_req [OF c Cons] obtain m k where
      r: "mesg_recv req ?m (ipc_kern \<sigma>) = Done (int (length x), m, k)" "take (length x) (mesg_data m) = x"
        "length (mesg_data m) = MAXMESGDATA" "mesg_type m = 1" "chan_ok k" "alive k = alive (ipc_kern \<sigma>)"
        "queued k = (xs, snd (queued (ipc_kern \<sigma>)))" by blast
    have o: "ipc_ok (\<sigma>\<lparr>ipc_kern := k, smesg := m\<rparr>)" using assms(1) Jrecv r by (simp add: ipc_ok_def bufs_ok_def)
    show ?thesis
    proof (cases "x = []")
      case True
      then show ?thesis
        using server_dead_ok [OF o] Jrecv r Cons by (simp add: ipc_server_def answer_step_def ipc_conv_def)
    next
      case False
      then show ?thesis
        using assms(1) Jrecv r x Cons by (simp add: ipc_server_def answer_step_def ipc_conv_def ipc_ok_def bufs_ok_def)
    qed
  qed
qed

lemma server_ok_Jread:
  assumes "ipc_ok \<sigma>" "texts_ok sys_errlist"
    and Jread: "sst \<sigma> = Jread"
  shows "ipc_ok (ipc_server mesg_send mesg_recv leave open_file sys_errlist req rep \<sigma>) \<and>
     conv_of (ipc_server mesg_send mesg_recv leave open_file sys_errlist req rep \<sigma>) =
       answer_step room hang (ipc_look open_file sys_errlist) (conv_of \<sigma>)"
proof -
  obtain r f where r: "sys_read (sfile \<sigma>) MAXMESGDATA = (r, f)" by fastforce
  have o: "ipc_ok (\<sigma>\<lparr>sfile := f\<rparr>)" using assms(1) by (simp add: ipc_ok_def bufs_ok_def)
  show ?thesis
  proof (cases r)
    case (Inl e)
    then show ?thesis
      using Jread r server_dead_ok [OF o] by (simp add: ipc_server_def answer_step_def ipc_conv_def)
  next
    case (Inr xs)
    have x: "length xs \<le> MAXMESGDATA" using sys_read_length r Inr by blast
    show ?thesis
      using Jread r Inr x assms(1)
      by (auto simp: ipc_server_def answer_step_def ipc_conv_def ipc_ok_def bufs_ok_def mesg_ok_def body_def buffer_simps)
  qed
qed

lemma server_ok_Jend:
  assumes "ipc_ok \<sigma>" "texts_ok sys_errlist"
    and Jend: "sst \<sigma> = Jend"
  shows "ipc_ok (ipc_server mesg_send mesg_recv leave open_file sys_errlist req rep \<sigma>) \<and>
     conv_of (ipc_server mesg_send mesg_recv leave open_file sys_errlist req rep \<sigma>) =
       answer_step room hang (ipc_look open_file sys_errlist) (conv_of \<sigma>)"
proof -
  let ?m = "(smesg \<sigma>)\<lparr>mesg_len := 0\<rparr>"
  have m: "mesg_ok ?m" "mesg_type ?m = 1" "body ?m = []"
    using assms(1) Jend by (auto simp: ipc_ok_def bufs_ok_def mesg_ok_def body_def)
  have "answer_step room hang (ipc_look open_file sys_errlist) (conv_of \<sigma>) = post room hang (body ?m) Finished (conv_of \<sigma>)"
    using Jend by (simp add: answer_step_def ipc_conv_def m(3))
  then show ?thesis
    using server_posts [OF assms(1) m(1,2), of Jreturned Finished] Jend by (simp add: ipc_server_def)
qed

lemma server_ok:
  assumes "ipc_ok \<sigma>" "texts_ok sys_errlist"
  shows "ipc_ok (ipc_server mesg_send mesg_recv leave open_file sys_errlist req rep \<sigma>) \<and>
     conv_of (ipc_server mesg_send mesg_recv leave open_file sys_errlist req rep \<sigma>) =
       answer_step room hang (ipc_look open_file sys_errlist) (conv_of \<sigma>)"
proof (cases "sst \<sigma>")
  case Jrecv
  then show ?thesis by (rule server_ok_Jrecv [OF assms])
next
  case (Jopen n)
  then show ?thesis using answerer_opens [OF assms(1) _ assms(2)] by blast
next
  case Jerr
  then have m: "mesg_ok (smesg \<sigma>)" "mesg_type (smesg \<sigma>) = 1" using assms(1) by (auto simp: ipc_ok_def bufs_ok_def)
  have "answer_step room hang (ipc_look open_file sys_errlist) (conv_of \<sigma>) = post room hang (body (smesg \<sigma>)) Closing (conv_of \<sigma>)"
    using Jerr by (simp add: answer_step_def ipc_conv_def)
  then show ?thesis
    using server_posts_same [OF assms(1) m, of Jend Closing] Jerr by (simp add: ipc_server_def)
next
  case Jread
  then show ?thesis by (rule server_ok_Jread [OF assms])
next
  case Jsend
  then have m: "mesg_ok (smesg \<sigma>)" "mesg_type (smesg \<sigma>) = 1" using assms(1) by (auto simp: ipc_ok_def bufs_ok_def)
  have "answer_step room hang (ipc_look open_file sys_errlist) (conv_of \<sigma>) = post room hang (body (smesg \<sigma>)) Reading (conv_of \<sigma>)"
    using Jsend by (simp add: answer_step_def ipc_conv_def)
  then show ?thesis
    using server_posts_same [OF assms(1) m, of Jread Reading] Jsend by (simp add: ipc_server_def)
next
  case Jend
  then show ?thesis by (rule server_ok_Jend [OF assms])
next
  case Jreturned
  then show ?thesis using assms by (simp add: ipc_server_def answer_step_def ipc_conv_def)
next
  case Jdead
  then show ?thesis using assms by (simp add: ipc_server_def answer_step_def ipc_conv_def)
qed

end

text \<open>So every channel carries the conversation; \<open>delivers\<close> holds for the client and the server on it.\<close>

sublocale msg_channel \<subseteq> conversation "ipc_step mesg_send mesg_recv leave open_file sys_errlist req rep"
    "ipc_conv queued" "\<lambda>\<sigma>. texts_ok sys_errlist \<and> ipc_ok \<sigma>" room hang "ipc_look open_file sys_errlist"
    for open_file sys_errlist
proof unfold_locales
  fix \<sigma> :: "'k ipc" and who
  assume o: "texts_ok sys_errlist \<and> ipc_ok \<sigma>"
  show "texts_ok sys_errlist \<and> ipc_ok (ipc_step mesg_send mesg_recv leave open_file sys_errlist req rep who \<sigma>)"
    using o client_ok server_ok by (simp add: ipc_step_def)
  show "ipc_conv queued (ipc_step mesg_send mesg_recv leave open_file sys_errlist req rep who \<sigma>) =
      conv_step room hang (ipc_look open_file sys_errlist) who (ipc_conv queued \<sigma>)"
    using o client_ok server_ok by (simp add: ipc_step_def conv_step_def)
qed (rule room_empty)

end
