(* ===== verification/Message_Queue.thy ===== *)
theory Message_Queue
  imports Messages
begin

text \<open>
  System V message queues and the programs of \<open>7_system_v_ipc\<close>: the kernel's queues, \<open>mesg_send\<close>
  and \<open>mesg_recv\<close> of \<open>mesg.c\<close> on them, the channel they give the client and the server, and the
  two main programs that create and remove the queues.
\<close>

section \<open>The queues of the kernel\<close>

text \<open>A queue is found by a key; a message is a positive type and its text.  Every identifier is used
  once.  The limits are those of Linux.\<close>

record msg_kernel =
  msg_ids :: "key \<Rightarrow> nat option"
  msg_qs :: "nat \<Rightarrow> (int \<times> byte list) list option"
  next_msqid :: nat

definition MSGMAX :: nat where "MSGMAX = 8192"
definition msg_qbytes :: nat where "msg_qbytes = 16384"

definition msg_fits :: "byte list list \<Rightarrow> byte list \<Rightarrow> bool" where
  "msg_fits q m \<longleftrightarrow> sum_list (map length q) + length m \<le> msg_qbytes \<and> length q + 1 \<le> msg_qbytes"

definition msgget :: "key \<Rightarrow> bool \<Rightarrow> msg_kernel \<Rightarrow> (errno + nat) \<times> msg_kernel" where
  "msgget ky creat k =
     (case msg_ids k ky of
        Some i \<Rightarrow> (Inr i, k)
      | None \<Rightarrow>
          if creat
          then (Inr (next_msqid k),
                k\<lparr>msg_ids := (msg_ids k)(ky \<mapsto> next_msqid k), msg_qs := (msg_qs k)(next_msqid k \<mapsto> []),
                  next_msqid := next_msqid k + 1\<rparr>)
          else (Inl ENOENT, k))"

definition msgsnd :: "nat \<Rightarrow> int \<Rightarrow> byte list \<Rightarrow> int \<Rightarrow> msg_kernel \<Rightarrow> msg_kernel sem_verdict" where
  "msgsnd i t text len k =
     (if len < 0 \<or> int MSGMAX < len \<or> t < 1 then Fail EINVAL
      else case msg_qs k i of
             None \<Rightarrow> Fail EINVAL
           | Some q \<Rightarrow>
               if msg_fits (map snd q) (take (nat len) text)
               then Done (k\<lparr>msg_qs := (msg_qs k)(i \<mapsto> q @ [(t, take (nat len) text)])\<rparr>) else Sleep)"

text \<open>The message that \<open>msgrcv\<close> chooses for the type \<open>t\<close>.\<close>

definition msg_pick ::
  "int \<Rightarrow> (int \<times> byte list) list \<Rightarrow> ((int \<times> byte list) list \<times> (int \<times> byte list) \<times> (int \<times> byte list) list) option"
where
  "msg_pick t q =
     (if 0 < t then List.extract (\<lambda>m. fst m = t) q
      else if t = 0 then List.extract (\<lambda>m. True) q
      else (let c = filter (\<lambda>m. fst m \<le> - t) q
            in if c = [] then None else List.extract (\<lambda>m. fst m = Min (fst ` set c)) q))"

definition msgrcv :: "nat \<Rightarrow> nat \<Rightarrow> int \<Rightarrow> msg_kernel \<Rightarrow> ((int \<times> byte list) \<times> msg_kernel) sem_verdict" where
  "msgrcv i maxlen t k =
     (case msg_qs k i of
        None \<Rightarrow> Fail EINVAL
      | Some q \<Rightarrow>
          (case msg_pick t q of
             None \<Rightarrow> Sleep
           | Some (xs, m, ys) \<Rightarrow>
               if maxlen < length (snd m) then Fail E2BIG
               else Done (m, k\<lparr>msg_qs := (msg_qs k)(i \<mapsto> xs @ ys)\<rparr>)))"

definition msgctl_rmid :: "nat \<Rightarrow> msg_kernel \<Rightarrow> errno + msg_kernel" where
  "msgctl_rmid i k =
     (case msg_qs k i of
        None \<Rightarrow> Inl EINVAL
      | Some q \<Rightarrow>
          Inr (k\<lparr>msg_qs := (msg_qs k)(i := None),
                 msg_ids := (\<lambda>ky. if msg_ids k ky = Some i then None else msg_ids k ky)\<rparr>))"

section \<open>\<open>mesg.c\<close>\<close>

definition mesg_send :: "nat \<Rightarrow> typed_mesg \<Rightarrow> msg_kernel \<Rightarrow> msg_kernel sem_verdict" where
  "mesg_send i m k = msgsnd i (mesg_type m) (mesg_data m) (mesg_len m) k"

definition mesg_recv :: "nat \<Rightarrow> typed_mesg \<Rightarrow> msg_kernel \<Rightarrow> (int \<times> typed_mesg \<times> msg_kernel) sem_verdict" where
  "mesg_recv i m k =
     (case msgrcv i MAXMESGDATA (mesg_type m) k of
        Done ((t, xs), k) \<Rightarrow>
          Done (int (length xs),
                m\<lparr>mesg_len := int (length xs), mesg_data := poke (mesg_data m) 0 xs, mesg_type := t\<rparr>, k)
      | Sleep \<Rightarrow> Sleep
      | Fail e \<Rightarrow> Fail e)"

section \<open>Two queues make a channel\<close>

definition mq_queued :: "nat \<Rightarrow> nat \<Rightarrow> msg_kernel \<Rightarrow> byte list list \<times> byte list list" where
  "mq_queued req rep k = (map snd (the (msg_qs k req)), map snd (the (msg_qs k rep)))"

definition mq_ok :: "nat \<Rightarrow> nat \<Rightarrow> msg_kernel \<Rightarrow> bool" where
  "mq_ok req rep k \<longleftrightarrow> req \<noteq> rep \<and>
     (\<exists>R P. msg_qs k req = Some R \<and> msg_qs k rep = Some P \<and>
        (\<forall>m \<in> set R. fst m = 1 \<and> length (snd m) < MAXMESGDATA) \<and>
        (\<forall>m \<in> set P. fst m = 1 \<and> length (snd m) \<le> MAXMESGDATA))"

definition mq_room :: rooms where
  "mq_room who rq rp m = msg_fits (if who then rq else rp) m"

lemma MAXMESGDATA_le: "n \<le> MAXMESGDATA \<Longrightarrow> n \<le> MSGMAX" "n \<le> MAXMESGDATA \<Longrightarrow> n \<le> msg_qbytes"
  by (simp_all add: MAXMESGDATA_def MSGMAX_def msg_qbytes_def)

lemma mesg_send_ok:
  assumes "mesg_ok m" "0 < mesg_type m" "msg_qs k i = Some q"
  shows "mesg_send i m k =
     (if msg_fits (map snd q) (body m)
      then Done (k\<lparr>msg_qs := (msg_qs k)(i \<mapsto> q @ [(mesg_type m, body m)])\<rparr>) else Sleep)"
proof -
  have "mesg_len m \<le> int MSGMAX" using assms(1) by (simp add: mesg_ok_def MAXMESGDATA_def MSGMAX_def)
  then show ?thesis using assms by (simp add: mesg_send_def msgsnd_def mesg_ok_def body_def)
qed

lemma mesg_recv_first:
  assumes "msg_qs k i = Some ((t, x) # q)" "mesg_type m = t" "0 < t" "length x \<le> MAXMESGDATA"
    "length (mesg_data m) = MAXMESGDATA"
  shows "\<exists>m'. mesg_recv i m k = Done (int (length x), m', k\<lparr>msg_qs := (msg_qs k)(i \<mapsto> q)\<rparr>) \<and>
     take (length x) (mesg_data m') = x \<and> length (mesg_data m') = MAXMESGDATA \<and> mesg_type m' = t"
  using assms by (simp add: mesg_recv_def msgrcv_def msg_pick_def extract_Cons_code buffer_simps)

lemma mesg_recv_none: "msg_qs k i = Some [] \<Longrightarrow> 0 < mesg_type m \<Longrightarrow> mesg_recv i m k = Sleep"
  by (simp add: mesg_recv_def msgrcv_def msg_pick_def extract_Nil_code)

interpretation mq: msg_channel mesg_send mesg_recv "\<lambda>p k. k" req rep "mq_queued req rep" "mq_ok req rep"
    "\<lambda>k p. True" mq_room False for req rep
proof (unfold_locales, goal_cases)
  case (1 k m)
  then obtain R where "msg_qs k req = Some R" "req \<noteq> rep" by (auto simp: mq_ok_def)
  with 1 show ?case
    using mesg_send_ok [of m k req R] body_length [of m]
    by (auto simp: mq_ok_def mq_queued_def mq_room_def nat_less_iff mesg_ok_def)
next
  case (2 k m)
  then obtain P where "msg_qs k rep = Some P" "req \<noteq> rep" by (auto simp: mq_ok_def)
  with 2 show ?case
    using mesg_send_ok [of m k rep P] body_length [of m]
    by (auto simp: mq_ok_def mq_queued_def mq_room_def mesg_ok_def)
next
  case (3 k m)
  then show ?case by (auto simp: mq_ok_def mq_queued_def mesg_recv_none)
next
  case (4 k m x xs)
  then obtain R P where q: "msg_qs k req = Some ((1, x) # R)" "map snd R = xs" "req \<noteq> rep" "msg_qs k rep = Some P"
    "length x \<le> MAXMESGDATA"
    by (fastforce simp: mq_ok_def mq_queued_def)
  show ?case using mesg_recv_first [OF q(1) 4(2) _ q(5) 4(3)] 4(1) q by (fastforce simp: mq_ok_def mq_queued_def)
next
  case (5 k m x xs)
  then obtain R P where q: "msg_qs k rep = Some ((1, x) # P)" "map snd P = xs" "req \<noteq> rep" "msg_qs k req = Some R"
    "length x \<le> MAXMESGDATA"
    by (fastforce simp: mq_ok_def mq_queued_def)
  show ?case using mesg_recv_first [OF q(1) 5(2) _ q(5) 5(3)] 5(1) q by (fastforce simp: mq_ok_def mq_queued_def)
next
  case (6 k p)
  then show ?case by simp
next
  case (7 k)
  then show ?case by (auto simp: mq_ok_def mq_queued_def)
next
  case 8
  show ?case by (simp add: roomy_def mq_room_def msg_fits_def MAXMESGDATA_le(2)) (simp add: msg_qbytes_def)
qed

section \<open>The main programs\<close>

definition MKEY1 :: key where "MKEY1 = 1234"
definition MKEY2 :: key where "MKEY2 = 2345"

datatype mq_pc = Qget1 | Qget2 | Qtalk | Qrm1 | Qrm2 | Qexit int

text \<open>Each program keeps the identifiers of the queue it reads and of the one it writes.\<close>

record mq_prog =
  qtalk :: "msg_kernel ipc"
  qcm :: mq_pc
  qsm :: mq_pc
  qcid :: "nat \<times> nat"
  qsid :: "nat \<times> nat"

definition with_kern :: "msg_kernel \<Rightarrow> mq_prog \<Rightarrow> mq_prog" where
  "with_kern k \<pi> = \<pi>\<lparr>qtalk := (qtalk \<pi>)\<lparr>ipc_kern := k\<rparr>\<rparr>"

definition mq_client_main :: "mq_prog \<Rightarrow> mq_prog" where
  "mq_client_main \<pi> =
     (let k = ipc_kern (qtalk \<pi>); (readid, writefd) = qcid \<pi>
      in case qcm \<pi> of
           Qget1 \<Rightarrow>
             (case msgget MKEY1 False k of
                (Inr i, k) \<Rightarrow> (with_kern k \<pi>)\<lparr>qcid := (readid, i), qcm := Qget2\<rparr>
              | (Inl e, k) \<Rightarrow> \<pi>\<lparr>qcm := Qexit EXIT_FAILURE\<rparr>)
         | Qget2 \<Rightarrow>
             (case msgget MKEY2 False k of
                (Inr i, k) \<Rightarrow> (with_kern k \<pi>)\<lparr>qcid := (i, writefd), qcm := Qtalk\<rparr>
              | (Inl e, k) \<Rightarrow> \<pi>\<lparr>qcm := Qexit EXIT_FAILURE\<rparr>)
         | Qtalk \<Rightarrow>
             (let \<sigma> = ipc_client mesg_send mesg_recv (\<lambda>p k. k) readid writefd (qtalk \<pi>)
              in \<pi>\<lparr>qtalk := \<sigma>, qcm := (if cst \<sigma> = Ireturned then Qrm1
                                        else if cst \<sigma> = Idead then Qexit EXIT_FAILURE else Qtalk)\<rparr>)
         | Qrm1 \<Rightarrow>
             (case msgctl_rmid readid k of
                Inr k \<Rightarrow> (with_kern k \<pi>)\<lparr>qcm := Qrm2\<rparr>
              | Inl e \<Rightarrow> \<pi>\<lparr>qcm := Qexit EXIT_FAILURE\<rparr>)
         | Qrm2 \<Rightarrow>
             (case msgctl_rmid writefd k of
                Inr k \<Rightarrow> (with_kern k \<pi>)\<lparr>qcm := Qexit EXIT_SUCCESS\<rparr>
              | Inl e \<Rightarrow> \<pi>\<lparr>qcm := Qexit EXIT_FAILURE\<rparr>)
         | Qexit status \<Rightarrow> \<pi>)"

definition mq_server_main :: "opener \<Rightarrow> (errno \<Rightarrow> byte list) \<Rightarrow> mq_prog \<Rightarrow> mq_prog" where
  "mq_server_main open_file sys_errlist \<pi> =
     (let k = ipc_kern (qtalk \<pi>); (readid, writeid) = qsid \<pi>
      in case qsm \<pi> of
           Qget1 \<Rightarrow>
             (case msgget MKEY1 True k of
                (Inr i, k) \<Rightarrow> (with_kern k \<pi>)\<lparr>qsid := (i, writeid), qsm := Qget2\<rparr>
              | (Inl e, k) \<Rightarrow> \<pi>\<lparr>qsm := Qexit EXIT_FAILURE\<rparr>)
         | Qget2 \<Rightarrow>
             (case msgget MKEY2 True k of
                (Inr i, k) \<Rightarrow> (with_kern k \<pi>)\<lparr>qsid := (readid, i), qsm := Qtalk\<rparr>
              | (Inl e, k) \<Rightarrow> \<pi>\<lparr>qsm := Qexit EXIT_FAILURE\<rparr>)
         | Qtalk \<Rightarrow>
             (let \<sigma> = ipc_server mesg_send mesg_recv (\<lambda>p k. k) open_file sys_errlist readid writeid (qtalk \<pi>)
              in \<pi>\<lparr>qtalk := \<sigma>, qsm := (if sst \<sigma> = Jreturned then Qexit EXIT_SUCCESS
                                        else if sst \<sigma> = Jdead then Qexit EXIT_FAILURE else Qtalk)\<rparr>)
         | Qrm1 \<Rightarrow> \<pi>
         | Qrm2 \<Rightarrow> \<pi>
         | Qexit status \<Rightarrow> \<pi>)"

definition mq_main_step :: "opener \<Rightarrow> (errno \<Rightarrow> byte list) \<Rightarrow> bool \<Rightarrow> mq_prog \<Rightarrow> mq_prog" where
  "mq_main_step open_file sys_errlist who \<pi> =
     (if who then mq_client_main \<pi> else mq_server_main open_file sys_errlist \<pi>)"

section \<open>The conversation inside the main programs\<close>

text \<open>Sending and receiving leave the table of keys alone.\<close>

lemma mesg_ids:
  "mesg_send i m k = Done k' \<Longrightarrow> msg_ids k' = msg_ids k"
  "mesg_recv i m k = Done (n, m', k') \<Longrightarrow> msg_ids k' = msg_ids k"
  by (auto simp: mesg_send_def msgsnd_def mesg_recv_def msgrcv_def
           split: option.splits if_splits sem_verdict.splits prod.splits)

lemma talk_ids:
  "msg_ids (ipc_kern (ipc_step mesg_send mesg_recv (\<lambda>p k. k) op errs i j who \<sigma>)) = msg_ids (ipc_kern \<sigma>)"
proof -
  have "msg_ids (ipc_kern (ipc_client mesg_send mesg_recv (\<lambda>p k. k) j i \<sigma>)) = msg_ids (ipc_kern \<sigma>)"
    by (cases "cst \<sigma>")
       (simp_all add: ipc_client_def ipc_client_dead_def Let_def mesg_ids
             split: sem_verdict.split prod.split option.split sum.split)
  moreover have "msg_ids (ipc_kern (ipc_server mesg_send mesg_recv (\<lambda>p k. k) op errs i j \<sigma>)) = msg_ids (ipc_kern \<sigma>)"
    by (cases "sst \<sigma>")
       (simp_all add: ipc_server_def ipc_server_dead_def Let_def mesg_ids
             split: sem_verdict.split prod.split sum.split)
  ultimately show ?thesis by (simp add: ipc_step_def)
qed

lemma same_kern [simp]: "(\<sigma> :: 'k ipc)\<lparr>ipc_kern := ipc_kern \<sigma>\<rparr> = \<sigma>"
  by (cases \<sigma>) simp

text \<open>The server has created the queues \<open>n\<close> and \<open>n + 1\<close> and talks on them; the client removes them at the end.\<close>

definition mq_talking :: "byte list \<Rightarrow> byte list \<Rightarrow> nat \<Rightarrow> mq_prog \<Rightarrow> bool" where
  "mq_talking l a n \<pi> \<longleftrightarrow>
     mq.ipc_ok n (n + 1) (qtalk \<pi>) \<and> conv_inv l a (ipc_conv (mq_queued n (n + 1)) (qtalk \<pi>)) \<and>
     (qsm \<pi> = Qtalk \<and> sst (qtalk \<pi>) \<noteq> Jreturned \<or> qsm \<pi> = Qexit EXIT_SUCCESS \<and> sst (qtalk \<pi>) = Jreturned) \<and>
     msg_ids (ipc_kern (qtalk \<pi>)) MKEY1 = Some n \<and> msg_ids (ipc_kern (qtalk \<pi>)) MKEY2 = Some (n + 1)"

definition mq_over :: "byte list \<Rightarrow> mq_prog \<Rightarrow> bool" where
  "mq_over a \<pi> \<longleftrightarrow> qsm \<pi> = Qexit EXIT_SUCCESS \<and> written (tout (qtalk \<pi>)) = a"

fun mq_stage :: "byte list \<Rightarrow> byte list \<Rightarrow> nat \<Rightarrow> mq_pc \<Rightarrow> mq_prog \<Rightarrow> bool" where
  "mq_stage l a n Qget1 \<pi> \<longleftrightarrow> mq_talking l a n \<pi> \<and> cst (qtalk \<pi>) = Ifill"
| "mq_stage l a n Qget2 \<pi> \<longleftrightarrow> mq_talking l a n \<pi> \<and> cst (qtalk \<pi>) = Ifill \<and> snd (qcid \<pi>) = n"
| "mq_stage l a n Qtalk \<pi> \<longleftrightarrow> mq_talking l a n \<pi> \<and> cst (qtalk \<pi>) \<noteq> Ireturned \<and> qcid \<pi> = (n + 1, n)"
| "mq_stage l a n Qrm1 \<pi> \<longleftrightarrow> mq_over a \<pi> \<and> qcid \<pi> = (n + 1, n) \<and>
     msg_qs (ipc_kern (qtalk \<pi>)) n \<noteq> None \<and> msg_qs (ipc_kern (qtalk \<pi>)) (n + 1) \<noteq> None"
| "mq_stage l a n Qrm2 \<pi> \<longleftrightarrow> mq_over a \<pi> \<and> qcid \<pi> = (n + 1, n) \<and>
     msg_qs (ipc_kern (qtalk \<pi>)) n \<noteq> None \<and> msg_qs (ipc_kern (qtalk \<pi>)) (n + 1) = None"
| "mq_stage l a n (Qexit s) \<pi> \<longleftrightarrow> mq_over a \<pi> \<and> s = EXIT_SUCCESS \<and>
     msg_qs (ipc_kern (qtalk \<pi>)) n = None \<and> msg_qs (ipc_kern (qtalk \<pi>)) (n + 1) = None"

fun stage_left :: "mq_pc \<Rightarrow> nat \<Rightarrow> nat" where
  "stage_left Qget1 t = 5 + t" | "stage_left Qget2 t = 4 + t" | "stage_left Qtalk t = 3 + t"
| "stage_left Qrm1 t = 2" | "stage_left Qrm2 t = 1" | "stage_left (Qexit s) t = 0"

definition mq_inv :: "byte list \<Rightarrow> byte list \<Rightarrow> nat \<Rightarrow> mq_prog \<Rightarrow> bool" where
  "mq_inv l a n \<pi> \<longleftrightarrow> qsid \<pi> = (n, n + 1) \<and> mq_stage l a n (qcm \<pi>) \<pi>"

definition mq_left :: "byte list \<Rightarrow> nat \<Rightarrow> mq_prog \<Rightarrow> nat" where
  "mq_left a n \<pi> = stage_left (qcm \<pi>) (conv_left a (ipc_conv (mq_queued n (n + 1)) (qtalk \<pi>)))"

lemma mq_talk_step:
  fixes who :: bool
  assumes "mq_talking l a n \<pi>" "texts_ok errs" "answers (ipc_look op errs) (request l) a" "request l \<noteq> []"
  defines "\<sigma>' \<equiv> ipc_step mesg_send mesg_recv (\<lambda>p k. k) op errs n (n + 1) who (qtalk \<pi>)"
  shows "mq.ipc_ok n (n + 1) \<sigma>' \<and> conv_inv l a (ipc_conv (mq_queued n (n + 1)) \<sigma>') \<and>
     (ipc_conv (mq_queued n (n + 1)) \<sigma>' = ipc_conv (mq_queued n (n + 1)) (qtalk \<pi>) \<or>
      conv_left a (ipc_conv (mq_queued n (n + 1)) \<sigma>') < conv_left a (ipc_conv (mq_queued n (n + 1)) (qtalk \<pi>))) \<and>
     msg_ids (ipc_kern \<sigma>') = msg_ids (ipc_kern (qtalk \<pi>))"
proof -
  have o: "texts_ok errs \<and> mq.ipc_ok n (n + 1) (qtalk \<pi>)" "conv_inv l a (ipc_conv (mq_queued n (n + 1)) (qtalk \<pi>))"
    using assms(1,2) by (simp_all add: mq_talking_def)
  have s: "ipc_conv (mq_queued n (n + 1)) \<sigma>' =
      conv_step mq_room False (ipc_look op errs) who (ipc_conv (mq_queued n (n + 1)) (qtalk \<pi>))"
    unfolding \<sigma>'_def using mq.step_abs [OF o(1)] by simp
  moreover have "mq.ipc_ok n (n + 1) \<sigma>'" unfolding \<sigma>'_def using mq.step_ok [OF o(1)] by simp
  ultimately show ?thesis
    using conv_step_closer [OF o(2) assms(3,4), of mq_room False who] o(2) talk_ids
    by (auto simp: closer_def \<sigma>'_def)
qed

definition mq_closer :: "byte list \<Rightarrow> byte list \<Rightarrow> nat \<Rightarrow> mq_prog \<Rightarrow> mq_prog \<Rightarrow> bool" where
  "mq_closer l a n \<pi> \<pi>' \<longleftrightarrow> mq_inv l a n \<pi>' \<and> mq_left a n \<pi>' < mq_left a n \<pi>"

lemma satisfied_over:
  assumes "conv_inv l a (ipc_conv Q \<sigma>)" "cst \<sigma> = Ireturned"
  shows "sst \<sigma> = Jreturned" "written (tout \<sigma>) = a"
  using assms by (auto simp: conv_inv_def ipc_conv_def)

lemma mq_ok_queues: "mq.ipc_ok n m \<sigma> \<Longrightarrow> msg_qs (ipc_kern \<sigma>) n \<noteq> None \<and> msg_qs (ipc_kern \<sigma>) m \<noteq> None"
  by (auto simp: mq.ipc_ok_def mq_ok_def)

lemma mq_client_main_inv_Qtalk:
  assumes "mq_inv l a n \<pi>" "texts_ok errs" "answers (ipc_look op errs) (request l) a" "request l \<noteq> []"
    and Qtalk: "qcm \<pi> = Qtalk"
  shows "mq_inv l a n (mq_client_main \<pi>) \<and> mq_left a n (mq_client_main \<pi>) \<le> mq_left a n \<pi> \<and>
     (qcm \<pi> \<notin> {Qtalk, Qexit EXIT_SUCCESS} \<longrightarrow> mq_left a n (mq_client_main \<pi>) < mq_left a n \<pi>)"
proof -
  note Qtalk
  then have t: "mq_talking l a n \<pi>" "cst (qtalk \<pi>) \<noteq> Ireturned" "qcid \<pi> = (n + 1, n)" using assms(1) by (auto simp: mq_inv_def)
  define \<sigma> where "\<sigma> = ipc_client mesg_send mesg_recv (\<lambda>p k. k) (n + 1) n (qtalk \<pi>)"
  have c: "mq.ipc_ok n (n + 1) \<sigma>" "conv_inv l a (ipc_conv (mq_queued n (n + 1)) \<sigma>)"
    "conv_left a (ipc_conv (mq_queued n (n + 1)) \<sigma>) \<le> conv_left a (ipc_conv (mq_queued n (n + 1)) (qtalk \<pi>))"
    "msg_ids (ipc_kern \<sigma>) = msg_ids (ipc_kern (qtalk \<pi>))"
    using mq_talk_step [OF t(1) assms(2-4), of True] by (auto simp: ipc_step_def \<sigma>_def)
  have s: "mq_client_main \<pi> = \<pi>\<lparr>qtalk := \<sigma>, qcm := (if cst \<sigma> = Ireturned then Qrm1
                                        else if cst \<sigma> = Idead then Qexit EXIT_FAILURE else Qtalk)\<rparr>"
    using Qtalk t(3) by (simp add: mq_client_main_def \<sigma>_def Let_def)
  have u: "sst \<sigma> = sst (qtalk \<pi>)"
    unfolding \<sigma>_def
    by (cases "cst (qtalk \<pi>)")
       (simp_all add: ipc_client_def ipc_client_dead_def Let_def split: sem_verdict.split prod.split option.split sum.split)
  have d: "cst \<sigma> \<noteq> Idead" using c(2) by (auto simp: conv_inv_def ipc_conv_def)
  show ?thesis
  proof (cases "cst \<sigma> = Ireturned")
    case True
    then show ?thesis
      using s satisfied_over [OF c(2) True] mq_ok_queues [OF c(1)] assms(1) t Qtalk u
      by (simp add: mq_inv_def mq_left_def mq_over_def mq_talking_def)
  next
    case False
    then show ?thesis
      using s c d assms(1) t Qtalk u by (simp add: mq_inv_def mq_left_def mq_talking_def)
  qed
qed

lemma mq_client_main_inv:
  assumes "mq_inv l a n \<pi>" "texts_ok errs" "answers (ipc_look op errs) (request l) a" "request l \<noteq> []"
  shows "mq_inv l a n (mq_client_main \<pi>) \<and> mq_left a n (mq_client_main \<pi>) \<le> mq_left a n \<pi> \<and>
     (qcm \<pi> \<notin> {Qtalk, Qexit EXIT_SUCCESS} \<longrightarrow> mq_left a n (mq_client_main \<pi>) < mq_left a n \<pi>)"
proof (cases "qcm \<pi>")
  case Qget1
  then have t: "mq_talking l a n \<pi>" "cst (qtalk \<pi>) = Ifill" using assms(1) by (auto simp: mq_inv_def)
  then have "mq_client_main \<pi> = \<pi>\<lparr>qcid := (fst (qcid \<pi>), n), qcm := Qget2\<rparr>"
    using Qget1 by (simp add: mq_client_main_def msgget_def mq_talking_def with_kern_def split: prod.splits)
  then show ?thesis using assms(1) Qget1 t by (simp add: mq_inv_def mq_left_def mq_talking_def)
next
  case Qget2
  then have t: "mq_talking l a n \<pi>" "cst (qtalk \<pi>) = Ifill" "snd (qcid \<pi>) = n" using assms(1) by (auto simp: mq_inv_def)
  then have "mq_client_main \<pi> = \<pi>\<lparr>qcid := (n + 1, n), qcm := Qtalk\<rparr>"
    using Qget2 by (auto simp: mq_client_main_def msgget_def mq_talking_def with_kern_def split: prod.splits)
  then show ?thesis using assms(1) Qget2 t by (simp add: mq_inv_def mq_left_def mq_talking_def)
next
  case Qtalk
  then show ?thesis by (rule mq_client_main_inv_Qtalk [OF assms])
next
  case Qrm1
  then show ?thesis
    using assms(1)
    by (auto simp: mq_client_main_def msgctl_rmid_def with_kern_def Let_def mq_inv_def mq_left_def mq_over_def)
next
  case Qrm2
  then show ?thesis
    using assms(1)
    by (auto simp: mq_client_main_def msgctl_rmid_def with_kern_def Let_def mq_inv_def mq_left_def mq_over_def)
next
  case (Qexit s)
  then show ?thesis using assms(1) by (auto simp: mq_client_main_def mq_inv_def)
qed

lemma mq_server_main_inv:
  assumes "mq_inv l a n \<pi>" "texts_ok errs" "answers (ipc_look op errs) (request l) a" "request l \<noteq> []"
  shows "mq_inv l a n (mq_server_main op errs \<pi>) \<and> mq_left a n (mq_server_main op errs \<pi>) \<le> mq_left a n \<pi>"
proof (cases "qsm \<pi> = Qexit EXIT_SUCCESS")
  case True
  then show ?thesis using assms(1) by (simp add: mq_server_main_def split: prod.splits)
next
  case False
  then have t: "mq_talking l a n \<pi>" "qcm \<pi> \<in> {Qget1, Qget2, Qtalk}"
    using assms(1) by (cases "qcm \<pi>"; auto simp: mq_inv_def mq_over_def)+
  then have q: "qsm \<pi> = Qtalk" "qsid \<pi> = (n, n + 1)" using False assms(1) by (auto simp: mq_talking_def mq_inv_def)
  define \<sigma> where "\<sigma> = ipc_server mesg_send mesg_recv (\<lambda>p k. k) op errs n (n + 1) (qtalk \<pi>)"
  have c: "mq.ipc_ok n (n + 1) \<sigma>" "conv_inv l a (ipc_conv (mq_queued n (n + 1)) \<sigma>)"
    "conv_left a (ipc_conv (mq_queued n (n + 1)) \<sigma>) \<le> conv_left a (ipc_conv (mq_queued n (n + 1)) (qtalk \<pi>))"
    "msg_ids (ipc_kern \<sigma>) = msg_ids (ipc_kern (qtalk \<pi>))"
    using mq_talk_step [OF t(1) assms(2-4), of False] by (auto simp: ipc_step_def \<sigma>_def)
  have s: "mq_server_main op errs \<pi> = \<pi>\<lparr>qtalk := \<sigma>, qsm := (if sst \<sigma> = Jreturned then Qexit EXIT_SUCCESS
                                        else if sst \<sigma> = Jdead then Qexit EXIT_FAILURE else Qtalk)\<rparr>"
    using q by (simp add: mq_server_main_def \<sigma>_def Let_def)
  have u: "cst \<sigma> = cst (qtalk \<pi>)"
    unfolding \<sigma>_def
    by (cases "sst (qtalk \<pi>)")
       (simp_all add: ipc_server_def ipc_server_dead_def Let_def split: sem_verdict.split prod.split sum.split)
  have "sst \<sigma> \<noteq> Jdead" using c(2) by (auto simp: conv_inv_def ipc_conv_def)
  then have "mq_talking l a n (mq_server_main op errs \<pi>)"
    using s c t(1) by (simp add: mq_talking_def)
  then show ?thesis
    using t s c(3) u assms(1) q(2) by (auto simp: mq_inv_def mq_left_def)
qed

lemma mq_someone_moves:
  assumes "mq_inv l a n \<pi>" "texts_ok errs" "answers (ipc_look op errs) (request l) a" "request l \<noteq> []"
    "length (request l) < MAXMESGDATA" "qcm \<pi> \<noteq> Qexit EXIT_SUCCESS"
  shows "\<exists>who. mq_left a n (mq_main_step op errs who \<pi>) < mq_left a n \<pi>"
proof (cases "qcm \<pi> = Qtalk")
  case False
  then show ?thesis
    using mq_client_main_inv [OF assms(1-4)] assms(6) by (intro exI [of _ True]) (simp add: mq_main_step_def)
next
  case True
  let ?C = "ipc_conv (mq_queued n (n + 1))"
  have t: "mq_talking l a n \<pi>" "qcid \<pi> = (n + 1, n)" "cst (qtalk \<pi>) \<noteq> Ireturned" "qsid \<pi> = (n, n + 1)"
    using assms(1) True by (auto simp: mq_inv_def)
  have o: "texts_ok errs \<and> mq.ipc_ok n (n + 1) (qtalk \<pi>)" "conv_inv l a (?C (qtalk \<pi>))"
    using t(1) assms(2) by (simp_all add: mq_talking_def)
  have "asker (?C (qtalk \<pi>)) \<noteq> Satisfied" using t(3) by (simp add: ipc_conv_def)
  from someone_moves [OF o(2) mq.room_empty assms(3-5) this, of False]
  obtain who where "closer l a (?C (qtalk \<pi>)) (conv_step mq_room False (ipc_look op errs) who (?C (qtalk \<pi>)))" by blast
  then have w: "conv_left a (?C (ipc_step mesg_send mesg_recv (\<lambda>p k. k) op errs n (n + 1) who (qtalk \<pi>))) <
      conv_left a (?C (qtalk \<pi>))"
    using mq.step_abs [OF o(1), where who = who] by (simp add: closer_def)
  show ?thesis
  proof (cases who)
    case True
    then show ?thesis
      using w t \<open>qcm \<pi> = Qtalk\<close>
      by (intro exI [of _ True]) (simp add: mq_main_step_def mq_client_main_def mq_left_def ipc_step_def Let_def)
  next
    case False
    then have "sst (qtalk \<pi>) \<noteq> Jreturned" using w by (auto simp: ipc_step_def ipc_server_def)
    then have "qsm \<pi> = Qtalk" using t(1) by (auto simp: mq_talking_def)
    then show ?thesis
      using w t False \<open>qcm \<pi> = Qtalk\<close>
      by (intro exI [of _ False]) (simp add: mq_main_step_def mq_server_main_def mq_left_def ipc_step_def Let_def)
  qed
qed

lemma mq_run_inv:
  assumes "mq_inv l a n \<pi>" "texts_ok errs" "answers (ipc_look op errs) (request l) a" "request l \<noteq> []"
  shows "mq_inv l a n (fold (mq_main_step op errs) sched \<pi>) \<and>
     mq_left a n (fold (mq_main_step op errs) sched \<pi>) \<le> mq_left a n \<pi>"
  using assms(1)
proof (induction sched arbitrary: \<pi>)
  case (Cons who sched)
  have "mq_inv l a n (mq_main_step op errs who \<pi>) \<and> mq_left a n (mq_main_step op errs who \<pi>) \<le> mq_left a n \<pi>"
    using mq_client_main_inv [OF Cons.prems assms(2-4)] mq_server_main_inv [OF Cons.prems assms(2-4)]
    by (simp add: mq_main_step_def)
  then show ?case using Cons.IH [of "mq_main_step op errs who \<pi>"] by fastforce
qed simp

lemma mq_can_finish:
  assumes "mq_inv l a n \<pi>" "texts_ok errs" "answers (ipc_look op errs) (request l) a" "request l \<noteq> []"
    "length (request l) < MAXMESGDATA"
  shows "\<exists>sched. length sched \<le> mq_left a n \<pi> \<and> qcm (fold (mq_main_step op errs) sched \<pi>) = Qexit EXIT_SUCCESS"
  using assms(1)
proof (induction "mq_left a n \<pi>" arbitrary: \<pi> rule: less_induct)
  case less
  show ?case
  proof (cases "qcm \<pi> = Qexit EXIT_SUCCESS")
    case True
    then show ?thesis by (intro exI [of _ "[]"]) simp
  next
    case False
    then obtain who where w: "mq_left a n (mq_main_step op errs who \<pi>) < mq_left a n \<pi>"
      using mq_someone_moves [OF less.prems assms(2-5)] by blast
    have "mq_inv l a n (mq_main_step op errs who \<pi>)"
      using mq_run_inv [OF less.prems assms(2-4), of "[who]"] by simp
    from less.hyps [OF w this] obtain sched where "length sched \<le> mq_left a n (mq_main_step op errs who \<pi>)"
      "qcm (fold (mq_main_step op errs) sched (mq_main_step op errs who \<pi>)) = Qexit EXIT_SUCCESS" by blast
    then show ?thesis using w by (intro exI [of _ "who # sched"]) simp
  qed
qed

lemma mq_inv_output:
  assumes "mq_inv l a n \<pi>"
  shows "\<exists>t. written (tout (qtalk \<pi>)) @ t = a" "qcm \<pi> \<noteq> Qexit EXIT_FAILURE" "qsm \<pi> \<noteq> Qexit EXIT_FAILURE"
    "qcm \<pi> = Qexit EXIT_SUCCESS \<Longrightarrow> qsm \<pi> = Qexit EXIT_SUCCESS \<and> written (tout (qtalk \<pi>)) = a \<and>
       msg_qs (ipc_kern (qtalk \<pi>)) n = None \<and> msg_qs (ipc_kern (qtalk \<pi>)) (n + 1) = None"
  using assms
  by (cases "qcm \<pi>"; auto simp: mq_inv_def mq_over_def mq_talking_def conv_inv_def ipc_conv_def)+

text \<open>Before the first call: no queue exists, nothing is written, a line is typed.\<close>

definition mq_clean :: "nat \<Rightarrow> byte list \<Rightarrow> mq_prog \<Rightarrow> bool" where
  "mq_clean n l \<pi> \<longleftrightarrow>
     ipc_kern (qtalk \<pi>) = \<lparr>msg_ids = Map.empty, msg_qs = Map.empty, next_msqid = n\<rparr> \<and>
     cst (qtalk \<pi>) = Ifill \<and> sst (qtalk \<pi>) = Jrecv \<and> qcm \<pi> = Qget1 \<and> qsm \<pi> = Qget1 \<and>
     length (mesg_data (cmesg (qtalk \<pi>))) = MAXMESGDATA \<and> length (mesg_data (smesg (qtalk \<pi>))) = MAXMESGDATA \<and>
     rest (tin (qtalk \<pi>)) \<noteq> [] \<and> l = take_line (MAXMESGDATA - 1) (rest (tin (qtalk \<pi>))) \<and>
     tout (qtalk \<pi>) = \<lparr>written = [], grants = []\<rparr>"

lemma mq_started:
  assumes "mq_clean n l \<pi>"
  shows "mq_inv l a n (mq_server_main op errs (mq_server_main op errs \<pi>))"
    "mq_left a n (mq_server_main op errs (mq_server_main op errs \<pi>)) = 16 + 4 * length a"
    "mq_client_main \<pi> = \<pi>\<lparr>qcm := Qexit EXIT_FAILURE\<rparr>"
  using assms
  by (auto simp: mq_clean_def mq_server_main_def mq_client_main_def with_kern_def msgget_def Let_def MKEY1_def MKEY2_def
        mq_inv_def mq_left_def mq_talking_def mq.ipc_ok_def mq_ok_def bufs_ok_def conv_inv_def conv_left_def ipc_conv_def
        mq_queued_def split: prod.splits)

section \<open>Properties\<close>

text \<open>C3: client and server of \<open>7_system_v_ipc\<close> on two message queues implement the abstract
  conversation: each call of theirs, blocked calls, failures and the end of a process included, is
  the step of the abstract machine on the state they represent.\<close>
theorem message_queues_refine_the_conversation:
  fixes op :: opener and who :: bool
  assumes "texts_ok errs" "mq.ipc_ok req rep \<sigma>"
  defines "\<sigma>' \<equiv> ipc_step mesg_send mesg_recv (\<lambda>p k. k) op errs req rep who \<sigma>"
  shows "ipc_conv (mq_queued req rep) \<sigma>' =
     conv_step mq_room False (ipc_look op errs) who (ipc_conv (mq_queued req rep) \<sigma>) \<and> mq.ipc_ok req rep \<sigma>'"
  using mq.step_abs [where req = req and rep = rep and \<sigma> = \<sigma> and sys_errlist = errs and open_file = op and who = who]
    mq.step_ok [where req = req and rep = rep and \<sigma> = \<sigma> and sys_errlist = errs and open_file = op and who = who] assms
  by simp

theorem message_queues_refine_the_conversation_witness:
  "\<exists>\<sigma>. msg_qs (ipc_kern \<sigma>) 4 = Some [(1, ''a'')] \<and>
     conv_step mq_room False (ipc_look (\<lambda>_. Inl ENOENT) (\<lambda>_. ''none'')) False (ipc_conv (mq_queued 4 9) \<sigma>) =
     ipc_conv (mq_queued 4 9) (ipc_step mesg_send mesg_recv (\<lambda>p k. k) (\<lambda>_. Inl ENOENT) (\<lambda>_. ''none'') 4 9 False \<sigma>)"
proof -
  let ?m = "\<lparr>mesg_len = 1, mesg_data = replicate MAXMESGDATA NUL, mesg_type = 1\<rparr>"
  let ?s = "\<lparr>ipc_kern = \<lparr>msg_ids = Map.empty, msg_qs = [4 \<mapsto> [(1, ''a'')], 9 \<mapsto> []], next_msqid = 10\<rparr>,
    cmesg = ?m, smesg = ?m, tin = \<lparr>rest = [], read_error = False\<rparr>, tout = \<lparr>written = [], grants = []\<rparr>, sfile = [],
    cst = Irecv, sst = Jrecv\<rparr>"
  have "mq.ipc_ok 4 9 ?s" by (simp add: mq.ipc_ok_def mq_ok_def bufs_ok_def MAXMESGDATA_def)
  moreover have "texts_ok (\<lambda>_. ''none'')" by (simp add: texts_ok_def)
  ultimately show ?thesis
    using message_queues_refine_the_conversation [of "\<lambda>_. ''none''" 4 9 ?s "\<lambda>_. Inl ENOENT" False]
    by (intro exI [of _ ?s]) simp
qed

text \<open>C14: the two main programs of \<open>7_system_v_ipc\<close> on a system without the queues, the server
  started first: in every interleaving no program fails, what the client has printed is a beginning
  of the answer to the name it was given, a client that has exited has printed all of it, has
  removed both queues and leaves no server behind, and at most \<open>16 + 4 * length\<close> more steps,
  suitably scheduled, bring it there.  A client started before the server gives up.\<close>
theorem message_queue_programs:
  assumes "mq_clean n l \<pi>" "texts_ok errs" "answers (ipc_look op errs) (request l) a" "request l \<noteq> []"
  defines "run \<equiv> \<lambda>sched. fold (mq_main_step op errs) ([False, False] @ sched) \<pi>"
  shows "qcm (run sched) \<noteq> Qexit EXIT_FAILURE \<and> qsm (run sched) \<noteq> Qexit EXIT_FAILURE \<and>
     (\<exists>t. written (tout (qtalk (run sched))) @ t = a) \<and>
     (qcm (run sched) = Qexit EXIT_SUCCESS \<longrightarrow>
        written (tout (qtalk (run sched))) = a \<and> qsm (run sched) = Qexit EXIT_SUCCESS \<and>
        msg_qs (ipc_kern (qtalk (run sched))) n = None \<and> msg_qs (ipc_kern (qtalk (run sched))) (n + 1) = None) \<and>
     (\<exists>sched'. length sched' \<le> 16 + 4 * length a \<and> qcm (run (sched @ sched')) = Qexit EXIT_SUCCESS) \<and>
     qcm (mq_main_step op errs True \<pi>) = Qexit EXIT_FAILURE"
proof -
  let ?\<pi> = "mq_server_main op errs (mq_server_main op errs \<pi>)"
  have r: "run s = fold (mq_main_step op errs) s ?\<pi>" for s by (simp add: run_def mq_main_step_def)
  note i = mq_run_inv [OF mq_started(1) [OF assms(1), of a op errs] assms(2-4), of sched]
  have l: "length (request l) < MAXMESGDATA" using assms(1) length_request by (simp add: mq_clean_def)
  obtain sched' where s: "length sched' \<le> mq_left a n (run sched)" "qcm (run (sched @ sched')) = Qexit EXIT_SUCCESS"
    using mq_can_finish [OF conjunct1 [OF i] assms(2-4) l] by (auto simp: r)
  have "length sched' \<le> 16 + 4 * length a"
    using s(1) conjunct2 [OF i] mq_started(2) [OF assms(1), of a op errs] by (simp add: r)
  then show ?thesis
    using s(2) mq_inv_output [OF conjunct1 [OF i]] mq_started(3) [OF assms(1)]
    by (auto simp: r mq_main_step_def)
qed

theorem message_queue_programs_witness:
  "\<exists>\<pi> sched. mq_clean 4 (''notes'' @ [NL]) \<pi> \<and>
     written (tout (qtalk (fold (mq_main_step (\<lambda>_. Inr (Inr 0x81A4, [Data ''hello''])) (\<lambda>_. ''none'')) ([False, False] @ sched) \<pi>)))
       = ''hello''"
proof -
  let ?op = "\<lambda>_. Inr (Inr 0x81A4, [Data ''hello''])"
  let ?m = "\<lparr>mesg_len = 0, mesg_data = replicate MAXMESGDATA NUL, mesg_type = 0\<rparr>"
  let ?p = "\<lparr>qtalk = \<lparr>ipc_kern = \<lparr>msg_ids = Map.empty, msg_qs = Map.empty, next_msqid = 4\<rparr>,
      cmesg = ?m, smesg = ?m, tin = \<lparr>rest = ''notes'' @ [NL], read_error = False\<rparr>,
      tout = \<lparr>written = [], grants = []\<rparr>, sfile = [], cst = Ifill, sst = Jrecv\<rparr>,
    qcm = Qget1, qsm = Qget1, qcid = (0, 0), qsid = (0, 0)\<rparr>"
  have l: "take_line (MAXMESGDATA - 1) (''notes'' @ [NL]) = ''notes'' @ [NL]"
    using take_line_exact [of "''notes''" "MAXMESGDATA - 1" "[]"] by (simp add: MAXMESGDATA_def)
  have c: "mq_clean 4 (''notes'' @ [NL]) ?p" by (simp add: mq_clean_def l [simplified])
  have q: "request (''notes'' @ [NL]) = ''notes''" by (simp add: request_def cstr_def)
  have "answers (ipc_look ?op (\<lambda>_. ''none'')) (request (''notes'' @ [NL])) ''hello''"
    unfolding q by (simp add: answers_def ipc_look_def S_IFMT_def S_IFDIR_def)
  from message_queue_programs [OF c _ this, of "[]"] q have
    "\<exists>sched'. qcm (fold (mq_main_step ?op (\<lambda>_. ''none'')) ([False, False] @ sched') ?p) = Qexit EXIT_SUCCESS"
    by (auto simp: texts_ok_def)
  then obtain s where s: "qcm (fold (mq_main_step ?op (\<lambda>_. ''none'')) ([False, False] @ s) ?p) = Qexit EXIT_SUCCESS" ..
  have "answers (ipc_look ?op (\<lambda>_. ''none'')) (request (''notes'' @ [NL])) ''hello''"
    unfolding q by (simp add: answers_def ipc_look_def S_IFMT_def S_IFDIR_def)
  from message_queue_programs [OF c _ this, of s] q s have
    "written (tout (qtalk (fold (mq_main_step ?op (\<lambda>_. ''none'')) ([False, False] @ s) ?p))) = ''hello''"
    by (simp add: texts_ok_def)
  then show ?thesis using c by blast
qed

text \<open>An empty name (a line that is just a newline) ends the server of \<open>7_system_v_ipc\<close> in
  \<open>err_sys\<close>, and its client waits on the reply queue for ever.\<close>
theorem empty_name_starves_the_queue_client:
  fixes op :: opener and sched :: "bool list"
  assumes "texts_ok errs" "mq.ipc_ok req rep \<sigma>" "cst \<sigma> = Ifill" "sst \<sigma> = Jrecv"
    "msg_qs (ipc_kern \<sigma>) req = Some []" "msg_qs (ipc_kern \<sigma>) rep = Some []" "rest (tin \<sigma>) = [NL]"
  defines "\<tau> \<equiv> fold (ipc_step mesg_send mesg_recv (\<lambda>p k. k) op errs req rep) ([True, True, False] @ sched) \<sigma>"
  shows "cst \<tau> = Irecv \<and> sst \<tau> = Jdead \<and> tout \<tau> = tout \<sigma>"
proof -
  note e = mq.empty_name [where req = req and rep = rep and \<sigma> = \<sigma> and sys_errlist = errs and open_file = op]
  have nl: "take_line (MAXMESGDATA - 1) [NL] = [NL]" by (simp add: MAXMESGDATA_def)
  have "request [NL] = []" by (simp add: request_def cstr_def)
  then have "asker (ipc_conv (mq_queued req rep) \<tau>) = Listening \<and>
      answerer (ipc_conv (mq_queued req rep) \<tau>) = Lost \<and> tout \<tau> = tout \<sigma>"
    using e [of sched] assms(1-7) nl
    by (simp add: ipc_conv_def mq_queued_def \<tau>_def)
  then show ?thesis by (cases "cst \<tau>"; cases "sst \<tau>") (auto simp: ipc_conv_def)
qed

theorem empty_name_starves_the_queue_client_witness:
  "\<exists>\<sigma>. rest (tin \<sigma>) = [NL] \<and>
     cst (fold (ipc_step mesg_send mesg_recv (\<lambda>p k. k) (\<lambda>_. Inl ENOENT) (\<lambda>_. ''none'') 4 9)
            ([True, True, False] @ [True, True]) \<sigma>) = Irecv"
proof -
  let ?m = "\<lparr>mesg_len = 0, mesg_data = replicate MAXMESGDATA NUL, mesg_type = 0\<rparr>"
  let ?s = "\<lparr>ipc_kern = \<lparr>msg_ids = Map.empty, msg_qs = [4 \<mapsto> [], 9 \<mapsto> []], next_msqid = 10\<rparr>,
    cmesg = ?m, smesg = ?m, tin = \<lparr>rest = [NL], read_error = False\<rparr>, tout = \<lparr>written = [], grants = []\<rparr>, sfile = [],
    cst = Ifill, sst = Jrecv\<rparr>"
  have "mq.ipc_ok 4 9 ?s" by (simp add: mq.ipc_ok_def mq_ok_def bufs_ok_def)
  moreover have "texts_ok (\<lambda>_. ''none'')" by (simp add: texts_ok_def)
  ultimately show ?thesis
    using empty_name_starves_the_queue_client [of "\<lambda>_. ''none''" 4 9 ?s "\<lambda>_. Inl ENOENT" "[True, True]"]
    by (intro exI [of _ ?s]) simp
qed

end
