(* ===== verification/Mux_Messages.thy ===== *)
theory Mux_Messages
  imports Message_Queue
begin

text \<open>
  The programs of \<open>8_multiplexing_messages\<close>: one message queue carries both directions, requests
  with type 1 and replies with type 2.  \<open>mesg.c\<close> is that of \<open>7_system_v_ipc\<close>; client and server
  are translated again, since they choose the types and the server checks less.
\<close>

section \<open>Client and server\<close>

definition mux_client_dead :: "'k ipc \<Rightarrow> 'k ipc" where
  "mux_client_dead \<sigma> = \<sigma>\<lparr>cst := Idead\<rparr>"

definition mux_server_dead :: "'k ipc \<Rightarrow> 'k ipc" where
  "mux_server_dead \<sigma> = \<sigma>\<lparr>sst := Jdead\<rparr>"

definition mux_client :: "nat \<Rightarrow> msg_kernel ipc \<Rightarrow> msg_kernel ipc" where
  "mux_client msgqid \<sigma> =
     (case cst \<sigma> of
        Ifill \<Rightarrow>
          (case fgets MAXMESGDATA (tin \<sigma>) of
             (None, fp) \<Rightarrow> mux_client_dead (\<sigma>\<lparr>tin := fp\<rparr>)
           | (Some l, fp) \<Rightarrow>
               (let d = poke (mesg_data (cmesg \<sigma>)) 0 (l @ [NUL]); n = strlen d;
                    n = (if 0 < n \<and> d ! (n - 1) = NL then n - 1 else n)
                in \<sigma>\<lparr>tin := fp, cmesg := \<lparr>mesg_len = int n, mesg_data = d[n := NUL], mesg_type = 1\<rparr>, cst := Isend\<rparr>))
      | Isend \<Rightarrow>
          (case mesg_send msgqid (cmesg \<sigma>) (ipc_kern \<sigma>) of
             Done k \<Rightarrow> \<sigma>\<lparr>ipc_kern := k, cmesg := (cmesg \<sigma>)\<lparr>mesg_type := 2\<rparr>, cst := Irecv\<rparr>
           | Sleep \<Rightarrow> \<sigma>
           | Fail e \<Rightarrow> mux_client_dead \<sigma>)
      | Irecv \<Rightarrow>
          (case mesg_recv msgqid (cmesg \<sigma>) (ipc_kern \<sigma>) of
             Done (n, m, k) \<Rightarrow>
               if 0 < n then \<sigma>\<lparr>ipc_kern := k, cmesg := m, cst := Iwrite n\<rparr>
               else if n < 0 then mux_client_dead (\<sigma>\<lparr>ipc_kern := k, cmesg := m\<rparr>)
               else \<sigma>\<lparr>ipc_kern := k, cmesg := m, cst := Ireturned\<rparr>
           | Sleep \<Rightarrow> \<sigma>
           | Fail e \<Rightarrow> mux_client_dead \<sigma>)
      | Iwrite n \<Rightarrow>
          (case sys_write (tout \<sigma>) (take (nat n) (mesg_data (cmesg \<sigma>))) of
             (Inr w, out) \<Rightarrow> if int w \<noteq> n then mux_client_dead (\<sigma>\<lparr>tout := out\<rparr>)
                           else \<sigma>\<lparr>tout := out, cst := Irecv\<rparr>
           | (Inl e, out) \<Rightarrow> mux_client_dead (\<sigma>\<lparr>tout := out\<rparr>))
      | Ireturned \<Rightarrow> \<sigma>
      | Idead \<Rightarrow> \<sigma>)"

definition mux_errmesg :: "(errno \<Rightarrow> byte list) \<Rightarrow> errno \<Rightarrow> byte list" where
  "mux_errmesg sys_errlist e = '': can't open '' @ sys_err_str sys_errlist e @ [NL]"

definition mux_server ::
  "(byte list \<Rightarrow> errno + source) \<Rightarrow> (errno \<Rightarrow> byte list) \<Rightarrow> nat \<Rightarrow> msg_kernel ipc \<Rightarrow> msg_kernel ipc"
where
  "mux_server open_file sys_errlist msgqid \<sigma> =
     (case sst \<sigma> of
        Jrecv \<Rightarrow>
          (case mesg_recv msgqid ((smesg \<sigma>)\<lparr>mesg_type := 1\<rparr>) (ipc_kern \<sigma>) of
             Done (n, m, k) \<Rightarrow>
               if n \<le> 0 then mux_server_dead (\<sigma>\<lparr>ipc_kern := k, smesg := m\<rparr>)
               else \<sigma>\<lparr>ipc_kern := k, smesg := m, sst := Jopen n\<rparr>
           | Sleep \<Rightarrow> \<sigma>
           | Fail e \<Rightarrow> mux_server_dead \<sigma>)
      | Jopen n \<Rightarrow>
          if int MAXMESGDATA \<le> n then mux_server_dead \<sigma>   \<comment> \<open>a store past the end of the array\<close>
          else
            (let d = (mesg_data (smesg \<sigma>))[nat n := NUL]
             in case open_file (cstr d) of
                  Inl e \<Rightarrow>
                    (let errmesg = mux_errmesg sys_errlist e
                     in if 256 \<le> length errmesg \<or> MAXMESGDATA \<le> length (cstr d @ errmesg)
                        then mux_server_dead \<sigma>
                        else (let d = poke d (strlen d) (errmesg @ [NUL])
                              in \<sigma>\<lparr>smesg := \<lparr>mesg_len = int (strlen d), mesg_data = d, mesg_type = 2\<rparr>, sst := Jerr\<rparr>))
                | Inr f \<Rightarrow>
                    \<sigma>\<lparr>smesg := (smesg \<sigma>)\<lparr>mesg_data := d, mesg_type := 2\<rparr>, sfile := f, sst := Jread\<rparr>)
      | Jerr \<Rightarrow>
          (case mesg_send msgqid (smesg \<sigma>) (ipc_kern \<sigma>) of
             Done k \<Rightarrow> \<sigma>\<lparr>ipc_kern := k, sst := Jend\<rparr>
           | Sleep \<Rightarrow> \<sigma>
           | Fail e \<Rightarrow> mux_server_dead \<sigma>)
      | Jread \<Rightarrow>
          (case sys_read (sfile \<sigma>) MAXMESGDATA of
             (Inl e, f) \<Rightarrow> mux_server_dead (\<sigma>\<lparr>sfile := f\<rparr>)
           | (Inr xs, f) \<Rightarrow>
               if xs = [] then \<sigma>\<lparr>sfile := f, sst := Jend\<rparr>
               else \<sigma>\<lparr>sfile := f, sst := Jsend,
                      smesg := (smesg \<sigma>)\<lparr>mesg_len := int (length xs),
                                        mesg_data := poke (mesg_data (smesg \<sigma>)) 0 xs\<rparr>\<rparr>)
      | Jsend \<Rightarrow>
          (case mesg_send msgqid (smesg \<sigma>) (ipc_kern \<sigma>) of
             Done k \<Rightarrow> \<sigma>\<lparr>ipc_kern := k, sst := Jread\<rparr>
           | Sleep \<Rightarrow> \<sigma>
           | Fail e \<Rightarrow> mux_server_dead \<sigma>)
      | Jend \<Rightarrow>
          (case mesg_send msgqid ((smesg \<sigma>)\<lparr>mesg_len := 0\<rparr>) (ipc_kern \<sigma>) of
             Done k \<Rightarrow> \<sigma>\<lparr>ipc_kern := k, smesg := (smesg \<sigma>)\<lparr>mesg_len := 0\<rparr>, sst := Jreturned\<rparr>
           | Sleep \<Rightarrow> \<sigma>
           | Fail e \<Rightarrow> mux_server_dead \<sigma>)
      | Jreturned \<Rightarrow> \<sigma>
      | Jdead \<Rightarrow> \<sigma>)"

definition mux_step ::
  "(byte list \<Rightarrow> errno + source) \<Rightarrow> (errno \<Rightarrow> byte list) \<Rightarrow> nat \<Rightarrow> bool \<Rightarrow> msg_kernel ipc \<Rightarrow> msg_kernel ipc"
where
  "mux_step open_file sys_errlist msgqid who \<sigma> =
     (if who then mux_client msgqid \<sigma> else mux_server open_file sys_errlist msgqid \<sigma>)"

section \<open>One queue, two types\<close>

definition of_type :: "int \<Rightarrow> (int \<times> byte list) list \<Rightarrow> byte list list" where
  "of_type t q = map snd (filter (\<lambda>m. fst m = t) q)"

definition mux_queued :: "nat \<Rightarrow> msg_kernel \<Rightarrow> byte list list \<times> byte list list" where
  "mux_queued i k = (of_type 1 (the (msg_qs k i)), of_type 2 (the (msg_qs k i)))"

definition mux_room :: rooms where
  "mux_room who rq rp m = msg_fits (rq @ rp) m"

definition mux_queue_ok :: "nat \<Rightarrow> msg_kernel \<Rightarrow> bool" where
  "mux_queue_ok i k \<longleftrightarrow> (\<exists>q. msg_qs k i = Some q \<and>
     (\<forall>m \<in> set q. (fst m = 1 \<or> fst m = 2) \<and> length (snd m) \<le> MAXMESGDATA \<and>
        (fst m = 1 \<longrightarrow> length (snd m) < MAXMESGDATA)))"

definition mux_ok :: "nat \<Rightarrow> msg_kernel ipc \<Rightarrow> bool" where
  "mux_ok i \<sigma> \<longleftrightarrow> mux_queue_ok i (ipc_kern \<sigma>) \<and> bufs_ok \<sigma> \<and>
     (cst \<sigma> \<in> {Ifill, Isend, Ireturned, Idead} \<or> mesg_type (cmesg \<sigma>) = 2) \<and>
     (sst \<sigma> \<in> {Jrecv, Jdead, Jreturned} \<or> (\<exists>n. sst \<sigma> = Jopen n) \<or> mesg_type (smesg \<sigma>) = 2)"

definition mux_look :: "(byte list \<Rightarrow> errno + source) \<Rightarrow> (errno \<Rightarrow> byte list) \<Rightarrow> byte list \<Rightarrow> looked" where
  "mux_look open_file sys_errlist m =
     (case open_file (cstr m) of
        Inl e \<Rightarrow>
          if 256 \<le> length (mux_errmesg sys_errlist e) \<or> MAXMESGDATA \<le> length (cstr m @ mux_errmesg sys_errlist e)
          then Denied else Refused (cstr m @ mux_errmesg sys_errlist e)
      | Inr f \<Rightarrow> Opened f)"

lemma of_type_simps [simp]:
  "of_type t [] = []" "of_type t (q @ q') = of_type t q @ of_type t q'"
  "of_type t (m # q) = (if fst m = t then snd m # of_type t q else of_type t q)"
  by (simp_all add: of_type_def)

lemma fits_types:
  "\<forall>m \<in> set q. fst m = 1 \<or> fst m = 2 \<Longrightarrow> msg_fits (map snd q) x \<longleftrightarrow> msg_fits (of_type 1 q @ of_type 2 q) x"
proof -
  assume "\<forall>m \<in> set q. fst m = 1 \<or> fst m = 2"
  then have "sum_list (map length (map snd q)) = sum_list (map length (of_type 1 q @ of_type 2 q)) \<and>
      length (map snd q) = length (of_type 1 q @ of_type 2 q)"
    by (induction q) auto
  then show ?thesis unfolding msg_fits_def by metis
qed

lemma mux_send:
  assumes "mux_queue_ok i k" "mesg_ok m" "mesg_type m = t" "t = 1 \<or> t = 2"
    "t = 1 \<Longrightarrow> mesg_len m < int MAXMESGDATA"
  shows "if msg_fits (fst (mux_queued i k) @ snd (mux_queued i k)) (body m)
     then \<exists>k'. mesg_send i m k = Done k' \<and> mux_queue_ok i k' \<and>
            mux_queued i k' = (if t = 1 then (fst (mux_queued i k) @ [body m], snd (mux_queued i k))
                               else (fst (mux_queued i k), snd (mux_queued i k) @ [body m]))
     else mesg_send i m k = Sleep"
proof -
  obtain q where q: "msg_qs k i = Some q" "\<forall>m \<in> set q. (fst m = 1 \<or> fst m = 2) \<and> length (snd m) \<le> MAXMESGDATA \<and>
        (fst m = 1 \<longrightarrow> length (snd m) < MAXMESGDATA)" using assms(1) by (auto simp: mux_queue_ok_def)
  have b: "length (body m) \<le> MAXMESGDATA" "t = 1 \<Longrightarrow> length (body m) < MAXMESGDATA"
    using body_length [OF assms(2)] assms(2,5) by (auto simp: mesg_ok_def nat_less_iff)
  have s: "mesg_send i m k = (if msg_fits (map snd q) (body m)
      then Done (k\<lparr>msg_qs := (msg_qs k)(i \<mapsto> q @ [(t, body m)])\<rparr>) else Sleep)"
    using mesg_send_ok [OF assms(2) _ q(1)] assms(3,4) by auto
  have f: "msg_fits (map snd q) (body m) \<longleftrightarrow> msg_fits (fst (mux_queued i k) @ snd (mux_queued i k)) (body m)"
    using fits_types [of q] q by (simp add: mux_queued_def)
  show ?thesis
    using s f b q assms(4) by (auto simp: mux_queued_def mux_queue_ok_def)
qed

lemma mux_recv:
  assumes "mux_queue_ok i k" "mesg_type m = t" "t = 1 \<or> t = 2" "length (mesg_data m) = MAXMESGDATA"
    "(if t = 1 then fst (mux_queued i k) else snd (mux_queued i k)) = x # xs"
  shows "\<exists>m' k'. mesg_recv i m k = Done (int (length x), m', k') \<and> take (length x) (mesg_data m') = x \<and>
     length (mesg_data m') = MAXMESGDATA \<and> mesg_type m' = t \<and> mux_queue_ok i k' \<and>
     length x \<le> MAXMESGDATA \<and> (t = 1 \<longrightarrow> length x < MAXMESGDATA) \<and>
     mux_queued i k' = (if t = 1 then (xs, snd (mux_queued i k)) else (fst (mux_queued i k), xs))"
proof -
  obtain q where q: "msg_qs k i = Some q" "\<forall>m \<in> set q. (fst m = 1 \<or> fst m = 2) \<and> length (snd m) \<le> MAXMESGDATA \<and>
        (fst m = 1 \<longrightarrow> length (snd m) < MAXMESGDATA)" using assms(1) by (auto simp: mux_queue_ok_def)
  have x: "of_type t q = x # xs" using assms(3,5) q(1) by (auto simp: mux_queued_def split: if_splits)
  then have "\<exists>m \<in> set q. fst m = t" by (induction q) (auto split: if_splits)
  then obtain ys y zs where e: "List.extract (\<lambda>m. fst m = t) q = Some (ys, y, zs)"
    using extract_None_iff [of "\<lambda>m. fst m = t" q] by (cases "List.extract (\<lambda>m. fst m = t) q") auto
  then have s: "q = ys @ y # zs" "fst y = t" "\<forall>m \<in> set ys. fst m \<noteq> t" by (auto simp: extract_Some_iff)
  have "of_type t ys = []" using s(3) by (induction ys) auto
  then have y: "snd y = x" "of_type t zs = xs" using x s by simp_all
  have l: "length x \<le> MAXMESGDATA" "t = 1 \<longrightarrow> length x < MAXMESGDATA" using q(2) s y by auto
  have "0 < mesg_type m" using assms(2,3) by auto
  then have r: "mesg_recv i m k = Done (int (length x),
      m\<lparr>mesg_len := int (length x), mesg_data := poke (mesg_data m) 0 x, mesg_type := t\<rparr>,
      k\<lparr>msg_qs := (msg_qs k)(i \<mapsto> ys @ zs)\<rparr>)"
    using e q(1) y l s(2) assms(2)
    by (simp add: mesg_recv_def msgrcv_def msg_pick_def split: prod.split) (metis prod.collapse prod.inject)
  have "of_type t' q = (if t' = t then x # of_type t' (ys @ zs) else of_type t' (ys @ zs))" for t'
    using s y \<open>of_type t ys = []\<close> by auto
  then have u: "mux_queued i (k\<lparr>msg_qs := (msg_qs k)(i \<mapsto> ys @ zs)\<rparr>) =
      (if t = 1 then (xs, snd (mux_queued i k)) else (fst (mux_queued i k), xs))"
    using assms(3) y \<open>of_type t ys = []\<close> q(1) by (auto simp: mux_queued_def)
  have "mux_queue_ok i (k\<lparr>msg_qs := (msg_qs k)(i \<mapsto> ys @ zs)\<rparr>)"
    using q s by (auto simp: mux_queue_ok_def)
  then show ?thesis using r u l assms(4) by (simp add: buffer_simps)
qed

lemma mux_recv_none:
  assumes "mux_queue_ok i k" "mesg_type m = t" "t = 1 \<or> t = 2"
    "(if t = 1 then fst (mux_queued i k) else snd (mux_queued i k)) = []"
  shows "mesg_recv i m k = Sleep"
proof -
  obtain q where q: "msg_qs k i = Some q" using assms(1) by (auto simp: mux_queue_ok_def)
  have "of_type t q = []" using assms(3,4) q by (auto simp: mux_queued_def split: if_splits)
  then have "\<not> (\<exists>m \<in> set q. fst m = t)" by (induction q) (auto split: if_splits)
  then have "List.extract (\<lambda>m. fst m = t) q = None" using extract_None_iff by blast
  then show ?thesis using q assms(2,3) by (auto simp: mesg_recv_def msgrcv_def msg_pick_def)
qed

section \<open>The programs implement the conversation\<close>

lemma mux_client_dead_ok:
  assumes "mux_ok i \<sigma>"
  shows "mux_ok i (mux_client_dead \<sigma>) \<and>
     ipc_conv (mux_queued i) (mux_client_dead \<sigma>) = (ipc_conv (mux_queued i) \<sigma>)\<lparr>asker := Gone\<rparr>"
  using assms by (simp add: mux_ok_def bufs_ok_def mux_client_dead_def ipc_conv_def)

lemma mux_server_dead_ok:
  assumes "mux_ok i \<sigma>"
  shows "mux_ok i (mux_server_dead \<sigma>) \<and>
     ipc_conv (mux_queued i) (mux_server_dead \<sigma>) = (ipc_conv (mux_queued i) \<sigma>)\<lparr>answerer := Lost\<rparr>"
  using assms by (simp add: mux_ok_def bufs_ok_def mux_server_dead_def ipc_conv_def)

lemma mux_client_ok_Ifill:
  assumes "mux_ok i \<sigma>"
    and Ifill: "cst \<sigma> = Ifill"
  shows "mux_ok i (mux_client i \<sigma>) \<and>
     ipc_conv (mux_queued i) (mux_client i \<sigma>) = ask_step mux_room False (ipc_conv (mux_queued i) \<sigma>)"
proof -
  show ?thesis
  proof (cases "rest (tin \<sigma>) = []")
    case True
    then show ?thesis
      using Ifill mux_client_dead_ok [OF assms(1)] assms(1)
      by (simp add: mux_client_def ask_step_def ipc_conv_def fgets_def)
  next
    case False
    let ?l = "take_line (MAXMESGDATA - 1) (rest (tin \<sigma>))"
    have "length ?l \<le> MAXMESGDATA - 1" by (rule length_take_line)
    then have l: "length ?l < MAXMESGDATA" by (simp add: MAXMESGDATA_def)
    have d: "length (mesg_data (cmesg \<sigma>)) = MAXMESGDATA" using assms(1) by (simp add: mux_ok_def bufs_ok_def)
    define d' where "d' = poke (mesg_data (cmesg \<sigma>)) 0 (?l @ [NUL])"
    define n where "n = (if 0 < strlen d' \<and> d' ! (strlen d' - 1) = NL then strlen d' - 1 else strlen d')"
    note r = client_request [OF l d, folded d'_def, folded n_def]
    have b: "body \<lparr>mesg_len = int n, mesg_data = d'[n := NUL], mesg_type = 1\<rparr> = request ?l"
      using r(1) by (simp add: body_def)
    have "mux_client i \<sigma> =
        \<sigma>\<lparr>tin := (tin \<sigma>)\<lparr>rest := drop (length ?l) (rest (tin \<sigma>))\<rparr>,
          cmesg := \<lparr>mesg_len = int n, mesg_data = d'[n := NUL], mesg_type = 1\<rparr>, cst := Isend\<rparr>"
      using Ifill False by (simp add: mux_client_def fgets_def Let_def d'_def n_def del: One_nat_def)
    then show ?thesis
      using assms(1) Ifill False r(2,3) b
      by (simp add: ask_step_def ipc_conv_def fgets_def mux_ok_def bufs_ok_def mesg_ok_def Let_def del: One_nat_def)
  qed
qed

lemma mux_client_ok_Isend:
  assumes "mux_ok i \<sigma>"
    and Isend: "cst \<sigma> = Isend"
  shows "mux_ok i (mux_client i \<sigma>) \<and>
     ipc_conv (mux_queued i) (mux_client i \<sigma>) = ask_step mux_room False (ipc_conv (mux_queued i) \<sigma>)"
proof -
  note Isend
  then have m: "mux_queue_ok i (ipc_kern \<sigma>)" "mesg_ok (cmesg \<sigma>)" "mesg_len (cmesg \<sigma>) < int MAXMESGDATA" "mesg_type (cmesg \<sigma>) = 1"
    using assms(1) by (auto simp: mux_ok_def bufs_ok_def)
  let ?Q = "mux_queued i (ipc_kern \<sigma>)"
  show ?thesis
  proof (cases "msg_fits (fst ?Q @ snd ?Q) (body (cmesg \<sigma>))")
    case True
    then obtain k where "mesg_send i (cmesg \<sigma>) (ipc_kern \<sigma>) = Done k" "mux_queue_ok i k"
      "mux_queued i k = (fst ?Q @ [body (cmesg \<sigma>)], snd ?Q)"
      using mux_send [OF m(1,2,4)] m(3) by auto
    then show ?thesis
      using Isend True assms(1) by (simp add: mux_client_def ask_step_def ipc_conv_def mux_ok_def bufs_ok_def mux_room_def)
  next
    case False
    then have "mesg_send i (cmesg \<sigma>) (ipc_kern \<sigma>) = Sleep" using mux_send [OF m(1,2,4)] m(3) by auto
    then show ?thesis
      using Isend False assms(1) by (simp add: mux_client_def ask_step_def ipc_conv_def mux_room_def)
  qed
qed

lemma mux_client_ok_Irecv:
  assumes "mux_ok i \<sigma>"
    and Irecv: "cst \<sigma> = Irecv"
  shows "mux_ok i (mux_client i \<sigma>) \<and>
     ipc_conv (mux_queued i) (mux_client i \<sigma>) = ask_step mux_room False (ipc_conv (mux_queued i) \<sigma>)"
proof -
  note Irecv
  then have m: "mux_queue_ok i (ipc_kern \<sigma>)" "mesg_type (cmesg \<sigma>) = 2" "length (mesg_data (cmesg \<sigma>)) = MAXMESGDATA"
    using assms(1) by (auto simp: mux_ok_def bufs_ok_def)
  show ?thesis
  proof (cases "snd (mux_queued i (ipc_kern \<sigma>))")
    case Nil
    then show ?thesis
      using mux_recv_none [OF m(1,2)] Irecv assms(1) by (simp add: mux_client_def ask_step_def ipc_conv_def)
  next
    case (Cons x xs)
    then obtain m' k where "mesg_recv i (cmesg \<sigma>) (ipc_kern \<sigma>) = Done (int (length x), m', k)"
      "take (length x) (mesg_data m') = x" "length (mesg_data m') = MAXMESGDATA" "mesg_type m' = 2"
      "mux_queue_ok i k" "length x \<le> MAXMESGDATA" "mux_queued i k = (fst (mux_queued i (ipc_kern \<sigma>)), xs)"
      using mux_recv [OF m(1,2) _ m(3), of x xs] by auto
    then show ?thesis
      using Irecv assms(1) Cons
      by (cases "x = []") (simp_all add: mux_client_def ask_step_def ipc_conv_def mux_ok_def bufs_ok_def)
  qed
qed

lemma mux_client_ok_Iwrite:
  assumes "mux_ok i \<sigma>"
    and Iwrite: "cst \<sigma> = Iwrite n"
  shows "mux_ok i (mux_client i \<sigma>) \<and>
     ipc_conv (mux_queued i) (mux_client i \<sigma>) = ask_step mux_room False (ipc_conv (mux_queued i) \<sigma>)"
proof -
  note Iwrite
  then have n: "0 < n" "n \<le> int MAXMESGDATA" "length (mesg_data (cmesg \<sigma>)) = MAXMESGDATA" "mesg_type (cmesg \<sigma>) = 2"
    using assms(1) by (auto simp: mux_ok_def bufs_ok_def)
  obtain r out where w: "sys_write (tout \<sigma>) (take (nat n) (mesg_data (cmesg \<sigma>))) = (r, out)" by fastforce
  have o: "mux_ok i (\<sigma>\<lparr>tout := out\<rparr>)" using assms(1) by (simp add: mux_ok_def bufs_ok_def)
  have "mux_ok i (\<sigma>\<lparr>tout := out, cst := Irecv\<rparr>)" using assms(1) n(4) by (simp add: mux_ok_def bufs_ok_def)
  then show ?thesis
    using Iwrite n mux_client_dead_ok [OF o] w
    by (auto simp: mux_client_def ask_step_def ipc_conv_def split: sum.splits)
qed

lemma mux_client_ok:
  assumes "mux_ok i \<sigma>"
  shows "mux_ok i (mux_client i \<sigma>) \<and>
     ipc_conv (mux_queued i) (mux_client i \<sigma>) = ask_step mux_room False (ipc_conv (mux_queued i) \<sigma>)"
proof (cases "cst \<sigma>")
  case Ifill
  then show ?thesis by (rule mux_client_ok_Ifill [OF assms])
next
  case Isend
  then show ?thesis by (rule mux_client_ok_Isend [OF assms])
next
  case Irecv
  then show ?thesis by (rule mux_client_ok_Irecv [OF assms])
next
  case (Iwrite n)
  then show ?thesis by (rule mux_client_ok_Iwrite [OF assms])
next
  case Ireturned
  then show ?thesis using assms by (simp add: mux_client_def ask_step_def ipc_conv_def)
next
  case Idead
  then show ?thesis using assms by (simp add: mux_client_def ask_step_def ipc_conv_def)
qed

lemma mux_server_posts:
  assumes "mux_ok i \<sigma>" "mesg_ok m" "mesg_type m = 2" "server_buf s m" "abs_answerer s m = t"
  defines "\<tau> \<equiv> (case mesg_send i m (ipc_kern \<sigma>) of
       Done k \<Rightarrow> \<sigma>\<lparr>ipc_kern := k, smesg := m, sst := s\<rparr> | Sleep \<Rightarrow> \<sigma> | Fail e \<Rightarrow> mux_server_dead \<sigma>)"
  shows "mux_ok i \<tau> \<and> ipc_conv (mux_queued i) \<tau> = post mux_room False (body m) t (ipc_conv (mux_queued i) \<sigma>)"
proof -
  let ?Q = "mux_queued i (ipc_kern \<sigma>)"
  have q: "mux_queue_ok i (ipc_kern \<sigma>)" using assms(1) by (simp add: mux_ok_def)
  show ?thesis
  proof (cases "msg_fits (fst ?Q @ snd ?Q) (body m)")
    case True
    then obtain k where "mesg_send i m (ipc_kern \<sigma>) = Done k" "mux_queue_ok i k"
      "mux_queued i k = (fst ?Q, snd ?Q @ [body m])"
      using mux_send [OF q assms(2,3)] by auto
    then show ?thesis
      using True assms(1-5)
      by (simp add: \<tau>_def post_def ipc_conv_def mux_ok_def bufs_ok_def mux_room_def mesg_ok_def)
  next
    case False
    then have "mesg_send i m (ipc_kern \<sigma>) = Sleep" using mux_send [OF q assms(2,3)] by auto
    then show ?thesis
      using False assms(1) by (simp add: \<tau>_def post_def ipc_conv_def mux_room_def)
  qed
qed

lemmas mux_server_posts_same = mux_server_posts [of i \<sigma> "smesg \<sigma>" for i \<sigma>, folded same_smesg]

lemma mux_server_opens:
  assumes "mux_ok i \<sigma>" "sst \<sigma> = Jopen n" "texts_ok sys_errlist"
  shows "mux_ok i (mux_server open_file sys_errlist i \<sigma>) \<and>
     ipc_conv (mux_queued i) (mux_server open_file sys_errlist i \<sigma>) =
       answer_step mux_room False (mux_look open_file sys_errlist) (ipc_conv (mux_queued i) \<sigma>)"
proof -
  let ?C = "ipc_conv (mux_queued i)"
  have n: "0 < n" "n < int MAXMESGDATA" "length (mesg_data (smesg \<sigma>)) = MAXMESGDATA"
    using assms(1,2) by (auto simp: mux_ok_def bufs_ok_def)
  define d where "d = (mesg_data (smesg \<sigma>))[nat n := NUL]"
  have d: "cstr d = cstr (take (nat n) (mesg_data (smesg \<sigma>)))" "length d = MAXMESGDATA"
    using cstr_cut(1) [of "nat n" "mesg_data (smesg \<sigma>)"] n by (simp_all add: d_def)
  show ?thesis
  proof (cases "open_file (cstr d)")
    case (Inl e)
    let ?t = "mux_errmesg sys_errlist e"
    have nul: "NUL \<notin> set ?t"
      using assms(3) by (auto simp: mux_errmesg_def sys_err_str_def texts_ok_def)
    show ?thesis
    proof (cases "256 \<le> length ?t \<or> MAXMESGDATA \<le> length (cstr d @ ?t)")
      case True
      then have "mux_server open_file sys_errlist i \<sigma> = mux_server_dead \<sigma>"
        using assms(2) n Inl by (simp add: mux_server_def d_def [symmetric] Let_def)
      moreover have "answer_step mux_room False (mux_look open_file sys_errlist) (?C \<sigma>) = (?C \<sigma>)\<lparr>answerer := Lost\<rparr>"
        using True assms(2) Inl by (simp add: answer_step_def ipc_conv_def mux_look_def d [symmetric])
      ultimately show ?thesis using mux_server_dead_ok [OF assms(1)] by simp
    next
      case False
      define d' where "d' = poke d (strlen d) (?t @ [NUL])"
      have s: "mux_server open_file sys_errlist i \<sigma> =
          \<sigma>\<lparr>smesg := \<lparr>mesg_len = int (strlen d'), mesg_data = d', mesg_type = 2\<rparr>, sst := Jerr\<rparr>"
        using assms(2) n Inl False by (simp add: mux_server_def d_def [symmetric] d'_def Let_def)
      have t: "take (length (cstr d @ ?t)) d' = cstr d @ ?t" "strlen d' = length (cstr d @ ?t)" "length d' = MAXMESGDATA"
        using strcat_text [of d ?t] False nul d(2) by (simp_all add: d'_def)
      have "answer_step mux_room False (mux_look open_file sys_errlist) (?C \<sigma>) = (?C \<sigma>)\<lparr>answerer := Telling (cstr d @ ?t)\<rparr>"
        using False assms(2) Inl by (simp add: answer_step_def ipc_conv_def mux_look_def d [symmetric])
      then show ?thesis
        using assms(1,2) t False by (simp add: s ipc_conv_def mux_ok_def bufs_ok_def mesg_ok_def body_def nat_int_add)
    qed
  next
    case (Inr f)
    then have s: "mux_server open_file sys_errlist i \<sigma> =
        \<sigma>\<lparr>smesg := (smesg \<sigma>)\<lparr>mesg_data := d, mesg_type := 2\<rparr>, sfile := f, sst := Jread\<rparr>"
      using assms(2) n by (simp add: mux_server_def d_def [symmetric] Let_def)
    have a: "answer_step mux_room False (mux_look open_file sys_errlist) (?C \<sigma>) = (?C \<sigma>)\<lparr>answerer := Reading, disk := f\<rparr>"
      using assms(2) Inr by (simp add: answer_step_def ipc_conv_def mux_look_def d [symmetric])
    show ?thesis using assms(1,2) d(2) by (simp add: s a) (simp add: ipc_conv_def mux_ok_def bufs_ok_def)
  qed
qed

lemma mux_server_ok_Jrecv:
  assumes "mux_ok i \<sigma>" "texts_ok sys_errlist"
    and Jrecv: "sst \<sigma> = Jrecv"
  shows "mux_ok i (mux_server open_file sys_errlist i \<sigma>) \<and>
     ipc_conv (mux_queued i) (mux_server open_file sys_errlist i \<sigma>) =
       answer_step mux_room False (mux_look open_file sys_errlist) (ipc_conv (mux_queued i) \<sigma>)"
proof -
  let ?m = "(smesg \<sigma>)\<lparr>mesg_type := 1\<rparr>"
  have m: "mux_queue_ok i (ipc_kern \<sigma>)" "mesg_type ?m = 1" "length (mesg_data ?m) = MAXMESGDATA"
    using assms(1-2) Jrecv by (auto simp: mux_ok_def bufs_ok_def)
  show ?thesis
  proof (cases "fst (mux_queued i (ipc_kern \<sigma>))")
    case Nil
    then have "mesg_recv i ?m (ipc_kern \<sigma>) = Sleep" using mux_recv_none [OF m(1,2)] by simp
    then show ?thesis using Jrecv Nil assms(1) by (simp add: mux_server_def answer_step_def ipc_conv_def)
  next
    case (Cons x xs)
    then obtain m' k where r: "mesg_recv i ?m (ipc_kern \<sigma>) = Done (int (length x), m', k)"
      "take (length x) (mesg_data m') = x" "length (mesg_data m') = MAXMESGDATA" "mesg_type m' = 1"
      "mux_queue_ok i k" "length x < MAXMESGDATA" "mux_queued i k = (xs, snd (mux_queued i (ipc_kern \<sigma>)))"
      using mux_recv [OF m(1,2) _ m(3), of x xs] by auto
    have o: "mux_ok i (\<sigma>\<lparr>ipc_kern := k, smesg := m'\<rparr>)" using assms(1) Jrecv r by (simp add: mux_ok_def bufs_ok_def)
    show ?thesis
    proof (cases "x = []")
      case True
      then show ?thesis
        using mux_server_dead_ok [OF o] Jrecv r Cons by (simp add: mux_server_def answer_step_def ipc_conv_def)
    next
      case False
      then show ?thesis
        using assms(1) Jrecv r Cons by (simp add: mux_server_def answer_step_def ipc_conv_def mux_ok_def bufs_ok_def)
    qed
  qed
qed

lemma mux_server_ok_Jread:
  assumes "mux_ok i \<sigma>" "texts_ok sys_errlist"
    and Jread: "sst \<sigma> = Jread"
  shows "mux_ok i (mux_server open_file sys_errlist i \<sigma>) \<and>
     ipc_conv (mux_queued i) (mux_server open_file sys_errlist i \<sigma>) =
       answer_step mux_room False (mux_look open_file sys_errlist) (ipc_conv (mux_queued i) \<sigma>)"
proof -
  obtain r f where r: "sys_read (sfile \<sigma>) MAXMESGDATA = (r, f)" by fastforce
  have o: "mux_ok i (\<sigma>\<lparr>sfile := f\<rparr>)" using assms(1) by (simp add: mux_ok_def bufs_ok_def)
  show ?thesis
  proof (cases r)
    case (Inl e)
    then show ?thesis
      using Jread r mux_server_dead_ok [OF o] by (simp add: mux_server_def answer_step_def ipc_conv_def)
  next
    case (Inr xs)
    have x: "length xs \<le> MAXMESGDATA" using sys_read_length r Inr by blast
    show ?thesis
      using Jread r Inr x assms(1)
      by (auto simp: mux_server_def answer_step_def ipc_conv_def mux_ok_def bufs_ok_def mesg_ok_def body_def buffer_simps)
  qed
qed

lemma mux_server_ok_Jend:
  assumes "mux_ok i \<sigma>" "texts_ok sys_errlist"
    and Jend: "sst \<sigma> = Jend"
  shows "mux_ok i (mux_server open_file sys_errlist i \<sigma>) \<and>
     ipc_conv (mux_queued i) (mux_server open_file sys_errlist i \<sigma>) =
       answer_step mux_room False (mux_look open_file sys_errlist) (ipc_conv (mux_queued i) \<sigma>)"
proof -
  let ?m = "(smesg \<sigma>)\<lparr>mesg_len := 0\<rparr>"
  have m: "mesg_ok ?m" "mesg_type ?m = 2" "body ?m = []"
    using assms(1) Jend by (auto simp: mux_ok_def bufs_ok_def mesg_ok_def body_def)
  have "answer_step mux_room False (mux_look open_file sys_errlist) (ipc_conv (mux_queued i) \<sigma>) =
      post mux_room False (body ?m) Finished (ipc_conv (mux_queued i) \<sigma>)"
    using Jend by (simp add: answer_step_def ipc_conv_def m(3))
  then show ?thesis
    using mux_server_posts [OF assms(1) m(1,2), of Jreturned Finished] Jend by (simp add: mux_server_def)
qed

lemma mux_server_ok:
  assumes "mux_ok i \<sigma>" "texts_ok sys_errlist"
  shows "mux_ok i (mux_server open_file sys_errlist i \<sigma>) \<and>
     ipc_conv (mux_queued i) (mux_server open_file sys_errlist i \<sigma>) =
       answer_step mux_room False (mux_look open_file sys_errlist) (ipc_conv (mux_queued i) \<sigma>)"
proof (cases "sst \<sigma>")
  case Jrecv
  then show ?thesis by (rule mux_server_ok_Jrecv [OF assms])
next
  case (Jopen n)
  then show ?thesis using mux_server_opens [OF assms(1) _ assms(2)] by blast
next
  case Jerr
  then have m: "mesg_ok (smesg \<sigma>)" "mesg_type (smesg \<sigma>) = 2" using assms(1) by (auto simp: mux_ok_def bufs_ok_def)
  have "answer_step mux_room False (mux_look open_file sys_errlist) (ipc_conv (mux_queued i) \<sigma>) =
      post mux_room False (body (smesg \<sigma>)) Closing (ipc_conv (mux_queued i) \<sigma>)"
    using Jerr by (simp add: answer_step_def ipc_conv_def)
  then show ?thesis
    using mux_server_posts_same [OF assms(1) m, of Jend Closing] Jerr by (simp add: mux_server_def)
next
  case Jread
  then show ?thesis by (rule mux_server_ok_Jread [OF assms])
next
  case Jsend
  then have m: "mesg_ok (smesg \<sigma>)" "mesg_type (smesg \<sigma>) = 2" using assms(1) by (auto simp: mux_ok_def bufs_ok_def)
  have "answer_step mux_room False (mux_look open_file sys_errlist) (ipc_conv (mux_queued i) \<sigma>) =
      post mux_room False (body (smesg \<sigma>)) Reading (ipc_conv (mux_queued i) \<sigma>)"
    using Jsend by (simp add: answer_step_def ipc_conv_def)
  then show ?thesis
    using mux_server_posts_same [OF assms(1) m, of Jread Reading] Jsend by (simp add: mux_server_def)
next
  case Jend
  then show ?thesis by (rule mux_server_ok_Jend [OF assms])
next
  case Jreturned
  then show ?thesis using assms by (simp add: mux_server_def answer_step_def ipc_conv_def)
next
  case Jdead
  then show ?thesis using assms by (simp add: mux_server_def answer_step_def ipc_conv_def)
qed

interpretation mux: conversation "mux_step open_file sys_errlist i" "ipc_conv (mux_queued i)"
    "\<lambda>\<sigma>. texts_ok sys_errlist \<and> mux_ok i \<sigma>" mux_room False "mux_look open_file sys_errlist"
    for open_file sys_errlist i
proof (unfold_locales, goal_cases)
  case (1 \<sigma> who)
  then show ?case using mux_client_ok mux_server_ok by (simp add: mux_step_def)
next
  case (2 \<sigma> who)
  then show ?case using mux_client_ok mux_server_ok by (simp add: mux_step_def conv_step_def)
next
  case 3
  show ?case by (simp add: roomy_def mux_room_def msg_fits_def MAXMESGDATA_le(2)) (simp add: msg_qbytes_def)
qed

section \<open>The main programs\<close>

definition mux_client_main :: "mq_prog \<Rightarrow> mq_prog" where
  "mux_client_main \<pi> =
     (let k = ipc_kern (qtalk \<pi>); i = fst (qcid \<pi>)
      in case qcm \<pi> of
           Qget1 \<Rightarrow>
             (case msgget MKEY1 False k of
                (Inr i, k) \<Rightarrow> (with_kern k \<pi>)\<lparr>qcid := (i, i), qcm := Qtalk\<rparr>
              | (Inl e, k) \<Rightarrow> \<pi>\<lparr>qcm := Qexit EXIT_FAILURE\<rparr>)
         | Qtalk \<Rightarrow>
             (let \<sigma> = mux_client i (qtalk \<pi>)
              in \<pi>\<lparr>qtalk := \<sigma>, qcm := (if cst \<sigma> = Ireturned then Qrm1
                                        else if cst \<sigma> = Idead then Qexit EXIT_FAILURE else Qtalk)\<rparr>)
         | Qrm1 \<Rightarrow>
             (case msgctl_rmid i k of
                Inr k \<Rightarrow> (with_kern k \<pi>)\<lparr>qcm := Qexit EXIT_SUCCESS\<rparr>
              | Inl e \<Rightarrow> \<pi>\<lparr>qcm := Qexit EXIT_FAILURE\<rparr>)
         | _ \<Rightarrow> \<pi>)"

definition mux_server_main :: "(byte list \<Rightarrow> errno + source) \<Rightarrow> (errno \<Rightarrow> byte list) \<Rightarrow> mq_prog \<Rightarrow> mq_prog" where
  "mux_server_main open_file sys_errlist \<pi> =
     (let k = ipc_kern (qtalk \<pi>); i = fst (qsid \<pi>)
      in case qsm \<pi> of
           Qget1 \<Rightarrow>
             (case msgget MKEY1 True k of
                (Inr i, k) \<Rightarrow> (with_kern k \<pi>)\<lparr>qsid := (i, i), qsm := Qtalk\<rparr>
              | (Inl e, k) \<Rightarrow> \<pi>\<lparr>qsm := Qexit EXIT_FAILURE\<rparr>)
         | Qtalk \<Rightarrow>
             (let \<sigma> = mux_server open_file sys_errlist i (qtalk \<pi>)
              in \<pi>\<lparr>qtalk := \<sigma>, qsm := (if sst \<sigma> = Jreturned then Qexit EXIT_SUCCESS
                                        else if sst \<sigma> = Jdead then Qexit EXIT_FAILURE else Qtalk)\<rparr>)
         | _ \<Rightarrow> \<pi>)"

lemma mux_startup:
  fixes op :: "byte list \<Rightarrow> errno + source" and errs :: "errno \<Rightarrow> byte list"
  assumes "mq_clean n l \<pi>"
  defines "\<pi>' \<equiv> mux_client_main (mux_server_main op errs \<pi>)"
  shows "qcm \<pi>' = Qtalk \<and> qsm \<pi>' = Qtalk \<and> fst (qcid \<pi>') = n \<and> fst (qsid \<pi>') = n \<and> mux_ok n (qtalk \<pi>') \<and>
     conv_inv l a (ipc_conv (mux_queued n) (qtalk \<pi>')) \<and> conv_left a (ipc_conv (mux_queued n) (qtalk \<pi>')) = 11 + 4 * length a"
  using assms
  by (auto simp: mq_clean_def mux_server_main_def mux_client_main_def with_kern_def msgget_def Let_def MKEY1_def
        mux_ok_def mux_queue_ok_def bufs_ok_def conv_inv_def conv_left_def ipc_conv_def mux_queued_def split: prod.splits)

text \<open>C13: client and server of \<open>8_multiplexing_messages\<close> on their single queue, from the point where
  both main programs have found it: the two directions never mix.  In every interleaving the client
  has printed a beginning of the answer, neither process fails, a client that has returned has
  printed all of it after the server has finished, and at most \<open>11 + 4 * length\<close> more steps,
  suitably scheduled, bring it there.\<close>
theorem multiplexed_queue_delivers_the_file:
  fixes op :: "byte list \<Rightarrow> errno + source"
  assumes "mq_clean n l \<pi>" "texts_ok errs" "answers (mux_look op errs) (request l) a" "request l \<noteq> []"
  defines "\<sigma> \<equiv> qtalk (mux_client_main (mux_server_main op errs \<pi>))"
  defines "run \<equiv> \<lambda>sched. fold (mux_step op errs n) sched \<sigma>"
  shows "(\<exists>t. written (tout (run sched)) @ t = a) \<and> cst (run sched) \<noteq> Idead \<and> sst (run sched) \<noteq> Jdead \<and>
     (cst (run sched) = Ireturned \<longrightarrow> sst (run sched) = Jreturned \<and> written (tout (run sched)) = a) \<and>
     (\<exists>sched'. length sched' \<le> 11 + 4 * length a \<and> cst (run (sched @ sched')) = Ireturned)"
proof -
  note s = mux_startup [OF assms(1), of op errs a, folded \<sigma>_def]
  have l: "length (request l) < MAXMESGDATA" using assms(1) length_request by (simp add: mq_clean_def)
  have o: "texts_ok errs \<and> mux_ok n \<sigma>" using s assms(2) by simp
  have i: "conv_inv l a (ipc_conv (mux_queued n) \<sigma>)" "conv_left a (ipc_conv (mux_queued n) \<sigma>) = 11 + 4 * length a"
    using s by simp_all
  show ?thesis
    using mux.delivers [OF o i(1) assms(3,4) l, of sched] i(2) by (simp add: run_def ipc_conv_def)
qed

theorem multiplexed_queue_delivers_the_file_witness:
  "\<exists>\<sigma> sched. written (tout (fold (mux_step (\<lambda>_. Inl ENOENT) (\<lambda>_. ''none'') 4) sched \<sigma>)) = ''notes: can't open (none)'' @ [NL]"
proof -
  let ?op = "\<lambda>_ :: byte list. (Inl ENOENT :: errno + source)"
  let ?m = "\<lparr>mesg_len = 0, mesg_data = replicate MAXMESGDATA NUL, mesg_type = 0\<rparr>"
  let ?p = "\<lparr>qtalk = \<lparr>ipc_kern = \<lparr>msg_ids = Map.empty, msg_qs = Map.empty, next_msqid = 4\<rparr>,
      cmesg = ?m, smesg = ?m, tin = \<lparr>rest = ''notes'' @ [NL], read_error = False\<rparr>,
      tout = \<lparr>written = [], grants = []\<rparr>, sfile = [], cst = Ifill, sst = Jrecv\<rparr>,
    qcm = Qget1, qsm = Qget1, qcid = (0, 0), qsid = (0, 0)\<rparr>"
  let ?a = "''notes: can't open (none)'' @ [NL]"
  let ?s = "qtalk (mux_client_main (mux_server_main ?op (\<lambda>_. ''none'') ?p))"
  have l: "take_line (MAXMESGDATA - 1) (''notes'' @ [NL]) = ''notes'' @ [NL]"
    using take_line_exact [of "''notes''" "MAXMESGDATA - 1" "[]"] by (simp add: MAXMESGDATA_def)
  have c: "mq_clean 4 (''notes'' @ [NL]) ?p" by (simp add: mq_clean_def l [simplified])
  have q: "request (''notes'' @ [NL]) = ''notes''" by (simp add: request_def cstr_def)
  have a: "answers (mux_look ?op (\<lambda>_. ''none'')) (request (''notes'' @ [NL])) ?a"
    unfolding q by (simp add: answers_def mux_look_def mux_errmesg_def sys_err_str_def cstr_def MAXMESGDATA_def)
  have t: "texts_ok (\<lambda>_. ''none'')" "request (''notes'' @ [NL]) \<noteq> []" unfolding q by (simp_all add: texts_ok_def)
  obtain s where s: "cst (fold (mux_step ?op (\<lambda>_. ''none'') 4) ([] @ s) ?s) = Ireturned"
    using multiplexed_queue_delivers_the_file [OF c t(1) a t(2), of "[]"] by blast
  then have "written (tout (fold (mux_step ?op (\<lambda>_. ''none'') 4) s ?s)) = ?a"
    using multiplexed_queue_delivers_the_file [OF c t(1) a t(2), of s] by simp
  then show ?thesis by blast
qed

end
