(* ===== verification/Byte_Pipe.thy ===== *)
theory Byte_Pipe
  imports Messages
begin

text \<open>
  Pipes as the kernel keeps them (FIFOs are pipes with a name): the bytes under way, and which of
  two processes holds the reading and the writing end, \<open>True\<close> for the client or parent, \<open>False\<close> for
  the server or child.  Every write of the programs has at most \<open>PIPE_BUF\<close> bytes, so it is atomic:
  it waits until all of it fits.  A read returns what is there, waits while a writer may still
  come, and reports the end-of-file when none can.
\<close>

section \<open>The kernel\<close>

record byte_pipe =
  pdata :: "byte list"
  rd_open :: "bool \<Rightarrow> bool"
  wr_open :: "bool \<Rightarrow> bool"

definition PIPE_SIZE :: nat where "PIPE_SIZE = 65536"

definition no_readers :: "byte_pipe \<Rightarrow> bool" where "no_readers p \<longleftrightarrow> \<not> rd_open p True \<and> \<not> rd_open p False"
definition no_writers :: "byte_pipe \<Rightarrow> bool" where "no_writers p \<longleftrightarrow> \<not> wr_open p True \<and> \<not> wr_open p False"

definition pipe_read :: "nat \<Rightarrow> byte_pipe \<Rightarrow> (byte list \<times> byte_pipe) sem_verdict" where
  "pipe_read n p =
     (if pdata p \<noteq> [] then Done (take n (pdata p), p\<lparr>pdata := drop n (pdata p)\<rparr>)
      else if no_writers p then Done ([], p) else Sleep)"

text \<open>A write of no bytes does nothing; without readers the writer gets \<open>SIGPIPE\<close>.\<close>

definition pipe_write :: "byte list \<Rightarrow> byte_pipe \<Rightarrow> (nat \<times> byte_pipe) sem_verdict" where
  "pipe_write xs p =
     (if xs = [] then Done (0, p)
      else if no_readers p then Fail EPIPE
      else if length (pdata p) + length xs \<le> PIPE_SIZE then Done (length xs, p\<lparr>pdata := pdata p @ xs\<rparr>)
      else Sleep)"

definition close_rd :: "bool \<Rightarrow> byte_pipe \<Rightarrow> byte_pipe" where
  "close_rd who p = p\<lparr>rd_open := (rd_open p)(who := False)\<rparr>"

definition close_wr :: "bool \<Rightarrow> byte_pipe \<Rightarrow> byte_pipe" where
  "close_wr who p = p\<lparr>wr_open := (wr_open p)(who := False)\<rparr>"

lemma pipe_access [simp]:
  "pdata (close_rd who p) = pdata p" "rd_open (close_rd who p) = (rd_open p)(who := False)"
  "wr_open (close_rd who p) = wr_open p"
  "pdata (close_wr who p) = pdata p" "wr_open (close_wr who p) = (wr_open p)(who := False)"
  "rd_open (close_wr who p) = rd_open p"
  by (simp_all add: close_rd_def close_wr_def)

section \<open>\<open>2_pipe/pipe.c\<close>\<close>

text \<open>A process that writes a line into its own pipe and reads it back; the two descriptors are \<open>3\<close>
  and \<open>4\<close> in a fresh process.  Its output is what it printed and then wrote.\<close>

definition pipe_main :: "byte_pipe option \<Rightarrow> byte list outcome" where
  "pipe_main made =
     (case made of
        None \<Rightarrow> Exited EXIT_FAILURE
      | Some p \<Rightarrow>
          (case pipe_write (''hello world'' @ [NL]) p of
             Done (w, p) \<Rightarrow>
               if w \<noteq> 12 then Exited EXIT_FAILURE
               else (case pipe_read 100 p of
                       Done (xs, p) \<Rightarrow>
                         if xs = [] then Exited EXIT_FAILURE
                         else Returned (xs @ ''read fd = 3, write fd = 4'')
                     | Sleep \<Rightarrow> Running
                     | Fail e \<Rightarrow> Exited EXIT_FAILURE)
           | Sleep \<Rightarrow> Running
           | Fail e \<Rightarrow> Exited EXIT_FAILURE))"

lemma pipe_main_prints:
  "pdata p = [] \<Longrightarrow> rd_open p True \<Longrightarrow>
     pipe_main (Some p) = Returned (''hello world'' @ [NL] @ ''read fd = 3, write fd = 4'')"
  by (simp add: pipe_main_def pipe_write_def pipe_read_def no_readers_def PIPE_SIZE_def)

end
