(* ===== verification/Stream_Messages.thy ===== *)
theory Stream_Messages
  imports Byte_Pipe
begin

text \<open>
  \<open>6_stream_messages\<close>: messages over pipes.  \<open>mesg_send\<close> writes the bytes of the structure, a
  header of 16 bytes and the data; \<open>mesg_recv\<close> reads the header and then the data it announces.
  Both FIFOs together are a channel for the client and the server.
\<close>

section \<open>The bytes of a message\<close>

text \<open>The header: \<open>int mesg_len\<close>, four bytes of padding, \<open>long mesg_type\<close>.\<close>

definition header :: "typed_mesg \<Rightarrow> byte list" where
  "header m = le_bytes 4 (nat (mesg_len m mod 2 ^ 32)) @ replicate 4 NUL @ le_bytes 8 (nat (mesg_type m mod 2 ^ 64))"

definition header_len :: "byte list \<Rightarrow> int" where
  "header_len h = signed_of 32 (le_val (take 4 h))"

definition header_type :: "byte list \<Rightarrow> int" where
  "header_type h = signed_of 64 (le_val (take 8 (drop 8 h)))"

section \<open>\<open>msg.c\<close>\<close>

type_synonym pipes = "nat \<Rightarrow> byte_pipe"

definition fd_mesg_send :: "nat \<Rightarrow> typed_mesg \<Rightarrow> pipes \<Rightarrow> pipes sem_verdict" where
  "fd_mesg_send fd m k =
     (let n = int MESGHDRSIZE + mesg_len m
      in case pipe_write (take (nat n) (header m @ mesg_data m)) (k fd) of
           Done (w, p) \<Rightarrow> if int w \<noteq> n then Fail EIO else Done (k(fd := p))
         | Sleep \<Rightarrow> Sleep
         | Fail e \<Rightarrow> Fail e)"

text \<open>One call of \<open>mesg_recv\<close> is one step: only the caller reads from the pipe, so the two reads can be
  taken together; if the second has to wait, the step is taken when both can be done.\<close>

definition fd_mesg_recv :: "nat \<Rightarrow> typed_mesg \<Rightarrow> pipes \<Rightarrow> (int \<times> typed_mesg \<times> pipes) sem_verdict" where
  "fd_mesg_recv fd m k =
     (case pipe_read MESGHDRSIZE (k fd) of
        Done (h, p) \<Rightarrow>
          if h = [] then Done (0, m, k(fd := p))
          else if length h \<noteq> MESGHDRSIZE then Fail EIO
          else
            (let n = header_len h; m = m\<lparr>mesg_len := n, mesg_type := header_type h\<rparr>
             in if 0 < n
                then (case pipe_read (nat n) p of
                        Done (xs, p) \<Rightarrow>
                          if int (length xs) \<noteq> n then Fail EIO
                          else Done (n, m\<lparr>mesg_data := poke (mesg_data m) 0 xs\<rparr>, k(fd := p))
                      | Sleep \<Rightarrow> Sleep
                      | Fail e \<Rightarrow> Fail e)
                else Done (n, m, k(fd := p)))
      | Sleep \<Rightarrow> Sleep
      | Fail e \<Rightarrow> Fail e)"

text \<open>A process that ends closes its ends of both pipes.\<close>

definition fd_leave :: "bool \<Rightarrow> pipes \<Rightarrow> pipes" where
  "fd_leave who k = (\<lambda>fd. close_rd who (close_wr who (k fd)))"

section \<open>Encoding and decoding\<close>

lemma length_header [simp]: "length (header m) = 16"
  by (simp add: header_def)

lemma header_not_Nil [simp]: "header m \<noteq> []"
  by (metis length_header list.size(3) zero_neq_numeral)

lemma MESGHDRSIZE_eq: "MESGHDRSIZE = 16"
  by (simp add: MESGHDRSIZE_def MAXMESGDATA_def)

lemma header_len_header:
  assumes "0 \<le> mesg_len m" "mesg_len m < 2 ^ 31"
  shows "header_len (header m @ xs) = mesg_len m"
proof -
  have "le_val (le_bytes 4 (nat (mesg_len m))) = nat (mesg_len m)"
    using assms by (intro le_val_bytes) (simp add: nat_less_iff)
  moreover have "nat (mesg_len m) < 2 ^ 31" using assms by (simp add: nat_less_iff)
  ultimately show ?thesis
    using assms by (simp add: header_len_def header_def signed_of_def nat_less_iff)
qed

lemma header_type_header:
  assumes "mesg_type m = 1"
  shows "header_type (header m @ xs) = 1"
proof -
  have "le_val (le_bytes 8 1) = 1" by (intro le_val_bytes) simp
  then show ?thesis using assms by (simp add: header_type_def header_def signed_of_def)
qed

text \<open>The bytes of a queue of messages, and the messages in a run of bytes.\<close>

definition frame :: "byte list \<Rightarrow> byte list" where
  "frame x = header \<lparr>mesg_len = int (length x), mesg_data = [], mesg_type = 1\<rparr> @ x"

function unframe :: "byte list \<Rightarrow> byte list list" where
  "unframe bs = (if length bs < 16 then []
                 else take (nat (header_len bs)) (drop 16 bs) # unframe (drop (16 + nat (header_len bs)) bs))"
  by auto
termination by (relation "measure length") auto

declare unframe.simps [simp del]

definition small :: "byte list \<Rightarrow> bool" where
  "small x \<longleftrightarrow> length x \<le> MAXMESGDATA"

lemma small_2_31: "small x \<Longrightarrow> int (length x) < 2 ^ 31"
  by (simp add: small_def MAXMESGDATA_def)

lemma length_frame [simp]: "length (frame x) = 16 + length x"
  by (simp add: frame_def)

lemma header_len_frame: "small x \<Longrightarrow> header_len (frame x @ bs) = int (length x)"
  using header_len_header [of "\<lparr>mesg_len = int (length x), mesg_data = [], mesg_type = 1\<rparr>" "x @ bs"] small_2_31 [of x]
  by (simp add: frame_def)

lemma header_frame:
  "mesg_ok m \<Longrightarrow> mesg_type m = 1 \<Longrightarrow> take (nat (int MESGHDRSIZE + mesg_len m)) (header m @ mesg_data m) = frame (body m)"
proof -
  assume m: "mesg_ok m" "mesg_type m = 1"
  have "header m = header \<lparr>mesg_len = int (length (body m)), mesg_data = [], mesg_type = 1\<rparr>"
    using m body_length [OF m(1)] by (simp add: header_def mesg_ok_def)
  moreover have "nat (int MESGHDRSIZE + mesg_len m) = 16 + nat (mesg_len m)"
    using m(1) by (simp add: MESGHDRSIZE_eq mesg_ok_def nat_add_distrib)
  ultimately show ?thesis by (simp add: frame_def body_def)
qed

lemma unframe_frame: "small x \<Longrightarrow> unframe (frame x @ bs) = x # unframe bs"
  using header_len_frame [of x bs]
  by (subst unframe.simps) (simp add: frame_def)

lemma unframe_frames: "\<forall>x \<in> set xs. small x \<Longrightarrow> unframe (concat (map frame xs)) = xs"
proof (induction xs)
  case Nil
  show ?case by (subst unframe.simps) simp
next
  case (Cons x xs)
  then show ?case by (simp add: unframe_frame)
qed

section \<open>Two pipes make a channel\<close>

abbreviation frames :: "byte list list \<Rightarrow> byte list" where "frames xs \<equiv> concat (map frame xs)"

definition fd_queued :: "nat \<Rightarrow> nat \<Rightarrow> pipes \<Rightarrow> byte list list \<times> byte list list" where
  "fd_queued req rep k = (unframe (pdata (k req)), unframe (pdata (k rep)))"

text \<open>The client holds the writing end of the first pipe and the reading end of the second, the server
  the other two, until it ends.\<close>

definition fd_ends :: "nat \<Rightarrow> nat \<Rightarrow> pipes \<Rightarrow> bool" where
  "fd_ends req rep k \<longleftrightarrow> req \<noteq> rep \<and>
     \<not> rd_open (k req) True \<and> \<not> wr_open (k req) False \<and> \<not> wr_open (k rep) True \<and> \<not> rd_open (k rep) False \<and>
     (rd_open (k req) False \<longleftrightarrow> wr_open (k rep) False) \<and> (rd_open (k rep) True \<longleftrightarrow> wr_open (k req) True)"

definition fd_ok :: "nat \<Rightarrow> nat \<Rightarrow> pipes \<Rightarrow> bool" where
  "fd_ok req rep k \<longleftrightarrow> fd_ends req rep k \<and>
     (\<exists>rq rp. pdata (k req) = frames rq \<and> pdata (k rep) = frames rp \<and>
        (\<forall>x \<in> set rq. length x < MAXMESGDATA) \<and> (\<forall>x \<in> set rp. length x \<le> MAXMESGDATA))"

definition fd_alive :: "nat \<Rightarrow> nat \<Rightarrow> pipes \<Rightarrow> bool \<Rightarrow> bool" where
  "fd_alive req rep k p \<longleftrightarrow> (if p then wr_open (k req) True else wr_open (k rep) False)"

definition fd_room :: rooms where
  "fd_room who rq rp m \<longleftrightarrow> length (frames (if who then rq else rp)) + 16 + length m \<le> PIPE_SIZE"

lemma fd_okE:
  assumes "fd_ok req rep k"
  obtains rq rp where "fd_ends req rep k" "pdata (k req) = frames rq" "pdata (k rep) = frames rp"
    "\<forall>x \<in> set rq. length x < MAXMESGDATA" "\<forall>x \<in> set rp. length x \<le> MAXMESGDATA" "fd_queued req rep k = (rq, rp)"
proof -
  obtain rq rp where r: "pdata (k req) = frames rq" "pdata (k rep) = frames rp"
    "\<forall>x \<in> set rq. length x < MAXMESGDATA" "\<forall>x \<in> set rp. length x \<le> MAXMESGDATA"
    using assms by (auto simp: fd_ok_def)
  then have "fd_queued req rep k = (rq, rp)"
    by (simp add: fd_queued_def unframe_frames small_def less_imp_le)
  then show ?thesis using that r assms by (simp add: fd_ok_def)
qed

lemma fd_send:
  assumes "mesg_ok m" "mesg_type m = 1" "pdata (k fd) = frames q"
  shows "fd_mesg_send fd m k =
     (if no_readers (k fd) then Fail EPIPE
      else if length (frames q) + 16 + length (body m) \<le> PIPE_SIZE
      then Done (k(fd := (k fd)\<lparr>pdata := frames (q @ [body m])\<rparr>)) else Sleep)"
proof -
  have f: "frame (body m) \<noteq> []" by (metis length_frame list.size(3) add_is_0 zero_neq_numeral)
  have l: "int (length (frame (body m))) = int MESGHDRSIZE + mesg_len m"
    using assms(1) body_length [OF assms(1)] by (simp add: MESGHDRSIZE_eq mesg_ok_def)
  show ?thesis
    unfolding fd_mesg_send_def Let_def header_frame [OF assms(1,2)] pipe_write_def
    using f l assms(3) by (simp add: add.assoc)
qed

lemma fd_recv:
  assumes "pdata (k fd) = frames (x # xs)" "length x \<le> MAXMESGDATA" "length (mesg_data m) = MAXMESGDATA"
  shows "\<exists>m'. fd_mesg_recv fd m k = Done (int (length x), m', k(fd := (k fd)\<lparr>pdata := frames xs\<rparr>)) \<and>
     take (length x) (mesg_data m') = x \<and> length (mesg_data m') = MAXMESGDATA \<and> mesg_type m' = 1"
proof -
  let ?h = "header \<lparr>mesg_len = int (length x), mesg_data = [], mesg_type = 1\<rparr>"
  have h: "header_len ?h = int (length x)" "header_type ?h = 1"
    using header_len_header [of "\<lparr>mesg_len = int (length x), mesg_data = [], mesg_type = 1\<rparr>" "[]"]
      header_type_header [of "\<lparr>mesg_len = int (length x), mesg_data = [], mesg_type = 1\<rparr>" "[]"]
      small_2_31 [of x] assms(2) by (simp_all add: small_def)
  have d: "pdata (k fd) = ?h @ x @ frames xs" using assms(1) by (simp add: frame_def)
  have "?h \<noteq> []" using length_header by (metis list.size(3) zero_neq_numeral)
  then have r: "pipe_read MESGHDRSIZE (k fd) = Done (?h, (k fd)\<lparr>pdata := x @ frames xs\<rparr>)"
    by (simp add: pipe_read_def d MESGHDRSIZE_eq)
  show ?thesis
  proof (cases "x = []")
    case True
    then show ?thesis
      unfolding fd_mesg_recv_def r using h \<open>?h \<noteq> []\<close> assms(3) by (simp add: MESGHDRSIZE_eq Let_def)
  next
    case False
    then have "pipe_read (length x) ((k fd)\<lparr>pdata := x @ frames xs\<rparr>) = Done (x, (k fd)\<lparr>pdata := frames xs\<rparr>)"
      by (simp add: pipe_read_def)
    then show ?thesis
      unfolding fd_mesg_recv_def r using h \<open>?h \<noteq> []\<close> assms(2,3) False by (simp add: MESGHDRSIZE_eq Let_def buffer_simps)
  qed
qed

lemma fd_recv_none:
  "pdata (k fd) = [] \<Longrightarrow> fd_mesg_recv fd m k = (if no_writers (k fd) then Done (0, m, k) else Sleep)"
  by (simp add: fd_mesg_recv_def pipe_read_def)

lemma fd_alive_data [simp]: "fd_alive req rep (k(fd := (k fd)\<lparr>pdata := xs\<rparr>)) = fd_alive req rep k"
  by (auto simp: fd_alive_def fun_eq_iff)

lemma fd_ends_alive:
  assumes "fd_ends req rep k"
  shows "no_readers (k req) \<longleftrightarrow> \<not> fd_alive req rep k False" "no_readers (k rep) \<longleftrightarrow> \<not> fd_alive req rep k True"
    "no_writers (k req) \<longleftrightarrow> \<not> fd_alive req rep k True" "no_writers (k rep) \<longleftrightarrow> \<not> fd_alive req rep k False"
  using assms by (auto simp: fd_ends_def fd_alive_def no_readers_def no_writers_def)

lemma fd_okI:
  "fd_ends req rep k \<Longrightarrow> pdata (k req) = frames rq \<Longrightarrow> pdata (k rep) = frames rp \<Longrightarrow>
     \<forall>x \<in> set rq. length x < MAXMESGDATA \<Longrightarrow> \<forall>x \<in> set rp. length x \<le> MAXMESGDATA \<Longrightarrow>
     fd_ok req rep k \<and> fd_queued req rep k = (rq, rp)"
  by (auto simp: fd_ok_def fd_queued_def unframe_frames small_def less_imp_le)

interpretation fifo: msg_channel fd_mesg_send fd_mesg_recv fd_leave req rep "fd_queued req rep" "fd_ok req rep"
    "fd_alive req rep" fd_room True for req rep
proof (unfold_locales, goal_cases)
  case (1 k m)
  then obtain rq rp where q: "fd_ends req rep k" "pdata (k req) = frames rq" "pdata (k rep) = frames rp"
    "\<forall>x \<in> set rq. length x < MAXMESGDATA" "\<forall>x \<in> set rp. length x \<le> MAXMESGDATA" "fd_queued req rep k = (rq, rp)"
    by (elim fd_okE)
  let ?k = "k(req := (k req)\<lparr>pdata := frames (rq @ [body m])\<rparr>)"
  have "length (body m) < MAXMESGDATA" using 1 body_length [of m] by (auto simp: mesg_ok_def nat_less_iff)
  then have "fd_ok req rep ?k \<and> fd_queued req rep ?k = (rq @ [body m], rp)"
    using q by (intro fd_okI) (auto simp: fd_ends_def)
  then show ?case
    using fd_send [of m k req rq, OF 1(2,4) q(2)] q(1,6)
    by (simp add: fd_room_def fd_ends_alive)
next
  case (2 k m)
  then obtain rq rp where q: "fd_ends req rep k" "pdata (k req) = frames rq" "pdata (k rep) = frames rp"
    "\<forall>x \<in> set rq. length x < MAXMESGDATA" "\<forall>x \<in> set rp. length x \<le> MAXMESGDATA" "fd_queued req rep k = (rq, rp)"
    by (elim fd_okE)
  let ?k = "k(rep := (k rep)\<lparr>pdata := frames (rp @ [body m])\<rparr>)"
  have "length (body m) \<le> MAXMESGDATA" using 2 body_length [of m] by (auto simp: mesg_ok_def)
  then have "fd_ok req rep ?k \<and> fd_queued req rep ?k = (rq, rp @ [body m])"
    using q by (intro fd_okI) (auto simp: fd_ends_def)
  then show ?case
    using fd_send [of m k rep rp, OF 2(2,3) q(3)] q(1,6)
    by (simp add: fd_room_def fd_ends_alive)
next
  case (3 k m)
  then obtain rq rp where q: "fd_ends req rep k" "pdata (k req) = frames rq" "pdata (k rep) = frames rp"
    "fd_queued req rep k = (rq, rp)"
    by (elim fd_okE)
  then show ?case
    using fd_recv_none [of k req m] fd_recv_none [of k rep m]
    by (simp add: fd_ends_alive)
next
  case (4 k m x xs)
  then obtain rp where q: "fd_ends req rep k" "pdata (k req) = frames (x # xs)" "pdata (k rep) = frames rp"
    "\<forall>x \<in> set (x # xs). length x < MAXMESGDATA" "\<forall>x \<in> set rp. length x \<le> MAXMESGDATA" "fd_queued req rep k = (x # xs, rp)"
    by (elim fd_okE) auto
  have "length x \<le> MAXMESGDATA" using q(4) by simp
  from fd_recv [of k req x xs m, OF q(2) this 4(3)] obtain m' where
    "fd_mesg_recv req m k = Done (int (length x), m', k(req := (k req)\<lparr>pdata := frames xs\<rparr>))"
    "take (length x) (mesg_data m') = x" "length (mesg_data m') = MAXMESGDATA" "mesg_type m' = 1" by blast
  moreover have "fd_ok req rep (k(req := (k req)\<lparr>pdata := frames xs\<rparr>)) \<and>
      fd_queued req rep (k(req := (k req)\<lparr>pdata := frames xs\<rparr>)) = (xs, rp)"
    using q by (intro fd_okI) (auto simp: fd_ends_def)
  ultimately show ?case using q(6)
    by (intro exI [of _ m'] exI [of _ "k(req := (k req)\<lparr>pdata := frames xs\<rparr>)"]) simp
next
  case (5 k m x xs)
  then obtain rq where q: "fd_ends req rep k" "pdata (k req) = frames rq" "pdata (k rep) = frames (x # xs)"
    "\<forall>x \<in> set rq. length x < MAXMESGDATA" "\<forall>x \<in> set (x # xs). length x \<le> MAXMESGDATA" "fd_queued req rep k = (rq, x # xs)"
    by (elim fd_okE) auto
  have "length x \<le> MAXMESGDATA" using q(5) by simp
  from fd_recv [of k rep x xs m, OF q(3) this 5(3)] obtain m' where
    "fd_mesg_recv rep m k = Done (int (length x), m', k(rep := (k rep)\<lparr>pdata := frames xs\<rparr>))"
    "take (length x) (mesg_data m') = x" "length (mesg_data m') = MAXMESGDATA" "mesg_type m' = 1" by blast
  moreover have "fd_ok req rep (k(rep := (k rep)\<lparr>pdata := frames xs\<rparr>)) \<and>
      fd_queued req rep (k(rep := (k rep)\<lparr>pdata := frames xs\<rparr>)) = (rq, xs)"
    using q by (intro fd_okI) (auto simp: fd_ends_def)
  ultimately show ?case using q(6)
    by (intro exI [of _ m'] exI [of _ "k(rep := (k rep)\<lparr>pdata := frames xs\<rparr>)"]) simp
next
  case (6 k p)
  then obtain rq rp where q: "fd_ends req rep k" "pdata (k req) = frames rq" "pdata (k rep) = frames rp"
    "\<forall>x \<in> set rq. length x < MAXMESGDATA" "\<forall>x \<in> set rp. length x \<le> MAXMESGDATA" "fd_queued req rep k = (rq, rp)"
    by (elim fd_okE)
  have "fd_ok req rep (fd_leave p k) \<and> fd_queued req rep (fd_leave p k) = (rq, rp)"
    using q by (intro fd_okI) (auto simp: fd_ends_def fd_leave_def)
  then show ?case using q(6) by (auto simp: fd_alive_def fd_leave_def fun_eq_iff)
next
  case (7 k)
  then obtain rq rp where "\<forall>x \<in> set rq. length x < MAXMESGDATA" "\<forall>x \<in> set rp. length x \<le> MAXMESGDATA" "fd_queued req rep k = (rq, rp)"
    by (elim fd_okE)
  then show ?case by simp
next
  case 8
  show ?case by (simp add: roomy_def fd_room_def PIPE_SIZE_def MAXMESGDATA_def)
qed

section \<open>Client and server over the pipes\<close>

definition stream_client :: "nat \<Rightarrow> nat \<Rightarrow> pipes ipc \<Rightarrow> pipes ipc" where
  "stream_client readfd writefd = ipc_client fd_mesg_send fd_mesg_recv fd_leave readfd writefd"

definition stream_server ::
  "opener \<Rightarrow> (errno \<Rightarrow> byte list) \<Rightarrow> nat \<Rightarrow> nat \<Rightarrow> pipes ipc \<Rightarrow> pipes ipc"
where
  "stream_server open_file sys_errlist readfd writefd =
     ipc_server fd_mesg_send fd_mesg_recv fd_leave open_file sys_errlist readfd writefd"

definition stream_step :: "opener \<Rightarrow> (errno \<Rightarrow> byte list) \<Rightarrow> nat \<Rightarrow> nat \<Rightarrow> bool \<Rightarrow> pipes ipc \<Rightarrow> pipes ipc" where
  "stream_step open_file sys_errlist req rep who \<sigma> =
     (if who then stream_client rep req \<sigma> else stream_server open_file sys_errlist req rep \<sigma>)"

lemma stream_step_eq: "stream_step op errs req rep = ipc_step fd_mesg_send fd_mesg_recv fd_leave op errs req rep"
  by (auto simp: fun_eq_iff stream_step_def ipc_step_def stream_client_def stream_server_def)

text \<open>Both processes have their ends of two empty pipes and nothing else has happened.\<close>

definition stream_fresh :: "nat \<Rightarrow> nat \<Rightarrow> byte list \<Rightarrow> pipes ipc \<Rightarrow> bool" where
  "stream_fresh req rep l \<sigma> \<longleftrightarrow>
     fd_ends req rep (ipc_kern \<sigma>) \<and> pdata (ipc_kern \<sigma> req) = [] \<and> pdata (ipc_kern \<sigma> rep) = [] \<and>
     wr_open (ipc_kern \<sigma> req) True \<and> wr_open (ipc_kern \<sigma> rep) False \<and>
     cst \<sigma> = Ifill \<and> sst \<sigma> = Jrecv \<and>
     length (mesg_data (cmesg \<sigma>)) = MAXMESGDATA \<and> length (mesg_data (smesg \<sigma>)) = MAXMESGDATA \<and>
     rest (tin \<sigma>) \<noteq> [] \<and> l = take_line (MAXMESGDATA - 1) (rest (tin \<sigma>)) \<and>
     tout \<sigma> = \<lparr>written = [], grants = []\<rparr>"

lemma unframe_Nil [simp]: "unframe [] = []"
  by (subst unframe.simps) simp

lemma stream_fresh_ok:
  assumes "stream_fresh req rep l \<sigma>"
  shows "fifo.ipc_ok req rep \<sigma>" "conv_inv l a (ipc_conv (fd_queued req rep) \<sigma>)"
    "conv_left a (ipc_conv (fd_queued req rep) \<sigma>) = 11 + 4 * length a"
  using assms fd_okI [of req rep "ipc_kern \<sigma>" "[]" "[]"]
  by (auto simp: stream_fresh_def fifo.ipc_ok_def bufs_ok_def fd_alive_def fun_eq_iff conv_inv_def conv_left_def
        ipc_conv_def fd_queued_def)

lemma body_stored:
  "length xs = nat n \<Longrightarrow> body (m\<lparr>mesg_len := n, mesg_type := t, mesg_data := xs @ ys\<rparr>) = xs"
  by (simp add: body_def)

text \<open>C24: a message written by \<open>mesg_send\<close> into an empty pipe and read by \<open>mesg_recv\<close> is the message
  that was sent: its length (also 0), its type (any \<open>long\<close>) and its data come back, the pipe is
  empty again, and nothing of it waits or fails, up to the largest message, whose header and data
  fill \<open>PIPE_BUF\<close>.\<close>
theorem stream_message_round_trip:
  assumes "mesg_ok m" "- (2 ^ 63) \<le> mesg_type m" "mesg_type m < 2 ^ 63"
    "pdata (k fd) = []" "\<not> no_readers (k fd)" "length (mesg_data m') = MAXMESGDATA"
  shows "\<exists>k1 m1. fd_mesg_send fd m k = Done k1 \<and> fd_mesg_recv fd m' k1 = Done (mesg_len m, m1, k) \<and>
     mesg_len m1 = mesg_len m \<and> mesg_type m1 = mesg_type m \<and> body m1 = body m"
proof -
  have l: "0 \<le> mesg_len m" "mesg_len m < 2 ^ 31" "length (body m) = nat (mesg_len m)" "length (body m) \<le> MAXMESGDATA"
    using assms(1) body_length [OF assms(1)] by (auto simp: mesg_ok_def MAXMESGDATA_def)
  have t: "take (nat (int MESGHDRSIZE + mesg_len m)) (header m @ mesg_data m) = header m @ body m"
    using l(1) by (simp add: MESGHDRSIZE_eq body_def nat_add_distrib)
  have ne: "header m @ body m \<noteq> []" "header m \<noteq> []" by simp_all
  define k1 where "k1 = k(fd := (k fd)\<lparr>pdata := header m @ body m\<rparr>)"
  have s: "fd_mesg_send fd m k = Done k1"
    unfolding fd_mesg_send_def Let_def t pipe_write_def
    using ne assms(4,5) l by (simp add: k1_def MESGHDRSIZE_eq PIPE_SIZE_def MAXMESGDATA_def)
  have h: "header_len (header m) = mesg_len m" "header_type (header m) = mesg_type m"
    using header_len_header [OF l(1,2), of "[]"] le_signed [of 8 "mesg_type m"] assms(2,3) by (simp_all add: header_type_def header_def)
  have r: "pipe_read MESGHDRSIZE (k1 fd) = Done (header m, (k fd)\<lparr>pdata := body m\<rparr>)"
    using ne by (simp add: pipe_read_def k1_def MESGHDRSIZE_eq)
  have e: "k1(fd := (k fd)\<lparr>pdata := []\<rparr>) = k" using assms(4) by (auto simp: k1_def fun_eq_iff)
  show ?thesis
  proof (cases "mesg_len m = 0")
    case True
    then have "body m = []" using l(3) by simp
    then show ?thesis
      using s h r e ne True unfolding fd_mesg_recv_def
      by (simp add: Let_def MESGHDRSIZE_eq body_def)
  next
    case False
    then have "body m \<noteq> []" using l by auto
    then have "pipe_read (nat (mesg_len m)) ((k fd)\<lparr>pdata := body m\<rparr>) = Done (body m, (k fd)\<lparr>pdata := []\<rparr>)"
      using l(3) by (simp add: pipe_read_def)
    then show ?thesis
      using s h r e ne False l assms(6) unfolding fd_mesg_recv_def
      by (simp add: Let_def MESGHDRSIZE_eq body_stored buffer_simps)
  qed
qed

theorem stream_message_round_trip_witness:
  "\<exists>k1 m1. fd_mesg_send 3 \<lparr>mesg_len = 2, mesg_data = ''ok'' @ replicate (MAXMESGDATA - 2) NUL, mesg_type = - 7\<rparr>
       (\<lambda>_. \<lparr>pdata = [], rd_open = (\<lambda>p. \<not> p), wr_open = (\<lambda>p. p)\<rparr>) = Done k1 \<and> mesg_type m1 = - 7 \<and> body m1 = ''ok''"
  using stream_message_round_trip [of "\<lparr>mesg_len = 2, mesg_data = ''ok'' @ replicate (MAXMESGDATA - 2) NUL, mesg_type = - 7\<rparr>"
      "\<lambda>_. \<lparr>pdata = [], rd_open = (\<lambda>p. \<not> p), wr_open = (\<lambda>p. p)\<rparr>" 3
      "\<lparr>mesg_len = 0, mesg_data = replicate MAXMESGDATA NUL, mesg_type = 0\<rparr>"]
  by (auto simp: mesg_ok_def MAXMESGDATA_def no_readers_def body_def)

text \<open>C12: client and server of \<open>6_stream_messages\<close> on two pipes, in every interleaving: the client has
  printed a beginning of the answer, neither process fails, a client that has returned has printed
  all of it, and at most \<open>11 + 4 * length\<close> more steps, suitably scheduled, bring it there.\<close>
theorem stream_messages_deliver_the_file:
  fixes op :: opener
  assumes "stream_fresh req rep l \<sigma>" "texts_ok errs" "answers (ipc_look op errs) (request l) a" "request l \<noteq> []"
  defines "run \<equiv> \<lambda>sched. fold (stream_step op errs req rep) sched \<sigma>"
  shows "(\<exists>t. written (tout (run sched)) @ t = a) \<and> cst (run sched) \<noteq> Idead \<and> sst (run sched) \<noteq> Jdead \<and>
     (cst (run sched) = Ireturned \<longrightarrow> sst (run sched) = Jreturned \<and> written (tout (run sched)) = a) \<and>
     (\<exists>sched'. length sched' \<le> 11 + 4 * length a \<and> cst (run (sched @ sched')) = Ireturned)"
proof -
  have l: "length (request l) < MAXMESGDATA" using assms(1) length_request by (simp add: stream_fresh_def)
  have o: "texts_ok errs \<and> fifo.ipc_ok req rep \<sigma>" using stream_fresh_ok(1) [OF assms(1)] assms(2) by simp
  note f = stream_fresh_ok(2,3) [OF assms(1), of a]
  show ?thesis
    using fifo.delivers [OF o f(1) assms(3,4) l, of sched] f(2) by (simp add: run_def stream_step_eq ipc_conv_def)
qed

theorem stream_messages_deliver_the_file_witness:
  "\<exists>\<sigma> sched. written (tout (fold (stream_step (\<lambda>_. Inr (Inr 0x81A4, [Data ''hello''])) (\<lambda>_. ''none'') 3 4) sched \<sigma>)) = ''hello''"
proof -
  let ?op = "\<lambda>_. Inr (Inr 0x81A4, [Data ''hello''])"
  let ?m = "\<lparr>mesg_len = 0, mesg_data = replicate MAXMESGDATA NUL, mesg_type = 0\<rparr>"
  let ?s = "\<lparr>ipc_kern = (\<lambda>i. if i = 3 then \<lparr>pdata = [], rd_open = (\<lambda>p. \<not> p), wr_open = (\<lambda>p. p)\<rparr>
        else \<lparr>pdata = [], rd_open = (\<lambda>p. p), wr_open = (\<lambda>p. \<not> p)\<rparr>),
      cmesg = ?m, smesg = ?m, tin = \<lparr>rest = ''notes'' @ [NL], read_error = False\<rparr>,
      tout = \<lparr>written = [], grants = []\<rparr>, sfile = [], cst = Ifill, sst = Jrecv\<rparr>"
  have l: "take_line (MAXMESGDATA - 1) (''notes'' @ [NL]) = ''notes'' @ [NL]"
    using take_line_exact [of "''notes''" "MAXMESGDATA - 1" "[]"] by (simp add: MAXMESGDATA_def)
  have c: "stream_fresh 3 4 (''notes'' @ [NL]) ?s" by (simp add: stream_fresh_def fd_ends_def l [simplified])
  have q: "request (''notes'' @ [NL]) = ''notes''" by (simp add: request_def cstr_def)
  have a: "answers (ipc_look ?op (\<lambda>_. ''none'')) (request (''notes'' @ [NL])) ''hello''"
    unfolding q by (simp add: answers_def ipc_look_def S_IFMT_def S_IFDIR_def)
  have t: "texts_ok (\<lambda>_. ''none'')" "request (''notes'' @ [NL]) \<noteq> []" unfolding q by (simp_all add: texts_ok_def)
  obtain s where s: "cst (fold (stream_step ?op (\<lambda>_. ''none'') 3 4) ([] @ s) ?s) = Ireturned"
    using stream_messages_deliver_the_file [OF c t(1) a t(2), of "[]"] by blast
  then have "written (tout (fold (stream_step ?op (\<lambda>_. ''none'') 3 4) s ?s)) = ''hello''"
    using stream_messages_deliver_the_file [OF c t(1) a t(2), of s] by simp
  then show ?thesis by blast
qed

end
