(* ===== verification/Inetd.thy ===== *)
theory Inetd
  imports C_Library
begin

text \<open>
  \<open>12.inetd/inetd.c\<close>: a super server for four services, two over streams and two over datagrams.
  The theory holds the table of services and the loop that creates their sockets, the way into the
  background, the child that becomes a server program, and the \<open>select\<close> loop with the handler of
  \<open>SIGCHLD\<close>, which may run between any two steps of the loop.
\<close>

section \<open>The table of services\<close>

record services =
  sock_type :: int        \<comment> \<open>0 for stream, 1 for datagram\<close>
  port_number :: int
  service :: "byte list"
  sockfd :: nat
  child_pid :: int

definition init_services :: "services list" where
  "init_services =
     [\<lparr>sock_type = 0, port_number = 6969, service = ''str_echo'', sockfd = 0, child_pid = - 1\<rparr>,
      \<lparr>sock_type = 1, port_number = 6969, service = ''dg_echo'', sockfd = 0, child_pid = 0\<rparr>,
      \<lparr>sock_type = 0, port_number = 6970, service = ''str_dis'', sockfd = 0, child_pid = - 1\<rparr>,
      \<lparr>sock_type = 1, port_number = 6970, service = ''dg_dis'', sockfd = 0, child_pid = 0\<rparr>]"

definition PATH_LEN :: nat where "PATH_LEN = 512"

text \<open>\<open>cwd\<close> with a slash behind it; \<open>getcwd\<close> delivers at most \<open>PATH_LEN - 1\<close> bytes.\<close>

definition cwd_slash :: "byte list \<Rightarrow> byte list" where
  "cwd_slash cwd = cwd @ ''/''"

text \<open>\<open>exec_path\<close> after \<open>strlcpy\<close> of the directory and \<open>strlcat\<close> of the name, in \<open>PATH_LEN + 1\<close> bytes.\<close>

definition exec_path :: "byte list \<Rightarrow> byte list \<Rightarrow> byte list" where
  "exec_path cwd name = take PATH_LEN (take PATH_LEN (cwd_slash cwd) @ name)"

section \<open>The sockets\<close>

type_synonym fd_set = "nat \<Rightarrow> bool"

text \<open>The kernel: descriptors are given out in order below a limit, and a port of a type is bound once.\<close>

record inet_kern =
  next_fd :: nat
  fd_limit :: nat
  bound :: "(int \<times> int) list"
  listening :: "nat list"

definition sys_socket :: "inet_kern \<Rightarrow> nat option \<times> inet_kern" where
  "sys_socket k = (if next_fd k < fd_limit k then (Some (next_fd k), k\<lparr>next_fd := next_fd k + 1\<rparr>) else (None, k))"

definition sys_bind :: "int \<Rightarrow> int \<Rightarrow> inet_kern \<Rightarrow> bool \<times> inet_kern" where
  "sys_bind ty port k =
     (if (ty, port) \<in> set (bound k) then (False, k) else (True, k\<lparr>bound := (ty, port) # bound k\<rparr>))"

definition sys_listen :: "nat \<Rightarrow> inet_kern \<Rightarrow> inet_kern" where
  "sys_listen fd k = k\<lparr>listening := fd # listening k\<rparr>"

fun setup_sockets ::
  "services list \<Rightarrow> nat \<Rightarrow> fd_set \<Rightarrow> inet_kern \<Rightarrow> (services list \<times> nat \<times> fd_set \<times> inet_kern) outcome"
where
  "setup_sockets [] max_sockfd read_sockfds k = Returned ([], max_sockfd, read_sockfds, k)"
| "setup_sockets (s # ss) max_sockfd read_sockfds k =
     (if sock_type s = 0 \<or> sock_type s = 1
      then (case sys_socket k of
              (None, k) \<Rightarrow> Exited EXIT_FAILURE
            | (Some fd, k) \<Rightarrow>
                (case sys_bind (sock_type s) (port_number s) k of
                   (False, k) \<Rightarrow> Exited EXIT_FAILURE
                 | (True, k) \<Rightarrow>
                     (case setup_sockets ss (if max_sockfd < fd then fd else max_sockfd) (read_sockfds(fd := True))
                             (if sock_type s = 0 then sys_listen fd k else k) of
                        Returned (ss, m, r, k) \<Rightarrow> Returned (s\<lparr>sockfd := fd\<rparr> # ss, m, r, k)
                      | Exited c \<Rightarrow> Exited c
                      | Aborted \<Rightarrow> Aborted
                      | Running \<Rightarrow> Running)))
      else Exited EXIT_FAILURE)"

lemma sys_listen_simps [simp]:
  "next_fd (sys_listen fd k) = next_fd k" "fd_limit (sys_listen fd k) = fd_limit k" "bound (sys_listen fd k) = bound k"
  by (simp_all add: sys_listen_def)

lemma setup_sockets_ok:
  assumes "\<forall>s \<in> set ss. sock_type s = 0 \<or> sock_type s = 1"
    and "distinct (map (\<lambda>s. (sock_type s, port_number s)) ss)"
    and "\<forall>s \<in> set ss. (sock_type s, port_number s) \<notin> set (bound k)"
    and "next_fd k + length ss \<le> fd_limit k"
  shows "\<exists>k'. setup_sockets ss m r k =
      Returned (map2 (\<lambda>s i. s\<lparr>sockfd := i\<rparr>) ss [next_fd k..<next_fd k + length ss],
        (if ss = [] then m else max m (next_fd k + length ss - 1)),
        (\<lambda>fd. r fd \<or> next_fd k \<le> fd \<and> fd < next_fd k + length ss), k')"
  using assms
proof (induction ss arbitrary: m r k)
  case Nil
  then show ?case by auto
next
  case (Cons s ss)
  let ?k1 = "k\<lparr>next_fd := next_fd k + 1, bound := (sock_type s, port_number s) # bound k\<rparr>"
  let ?k2 = "if sock_type s = 0 then sys_listen (next_fd k) ?k1 else ?k1"
  have k2: "next_fd ?k2 = next_fd k + 1" "fd_limit ?k2 = fd_limit k" "set (bound ?k2) = insert (sock_type s, port_number s) (set (bound k))"
    by (auto simp: sys_listen_def)
  have "\<exists>k'. setup_sockets ss (max m (next_fd k)) (r(next_fd k := True)) ?k2 =
      Returned (map2 (\<lambda>s i. s\<lparr>sockfd := i\<rparr>) ss [next_fd ?k2..<next_fd ?k2 + length ss],
        (if ss = [] then max m (next_fd k) else max (max m (next_fd k)) (next_fd ?k2 + length ss - 1)),
        (\<lambda>fd. (r(next_fd k := True)) fd \<or> next_fd ?k2 \<le> fd \<and> fd < next_fd ?k2 + length ss), k')"
    using Cons.prems by (intro Cons.IH) (auto simp: k2 image_iff)
  then obtain k' where k': "setup_sockets ss (max m (next_fd k)) (r(next_fd k := True)) ?k2 =
      Returned (map2 (\<lambda>s i. s\<lparr>sockfd := i\<rparr>) ss [next_fd ?k2..<next_fd ?k2 + length ss],
        (if ss = [] then max m (next_fd k) else max (max m (next_fd k)) (next_fd ?k2 + length ss - 1)),
        (\<lambda>fd. (r(next_fd k := True)) fd \<or> next_fd ?k2 \<le> fd \<and> fd < next_fd ?k2 + length ss), k')" by blast
  have z: "[next_fd k..<next_fd k + length (s # ss)] = next_fd k # [next_fd k + 1..<next_fd k + 1 + length ss]"
    by (subst upt_conv_Cons) simp_all
  have mx: "(if m < next_fd k then next_fd k else m) = max m (next_fd k)" by (simp add: max_def)
  show ?case
    using Cons.prems k' unfolding z
    by (auto simp: sys_socket_def sys_bind_def mx k2 fun_eq_iff max_def simp del: upt_Suc)
qed

text \<open>The socket set-up of \<open>inetd\<close> on a system where its ports are free and descriptors are left:
  the four services get consecutive descriptors of their own, the set handed to \<open>select\<close> holds
  exactly them and \<open>max_sockfd\<close> is the largest, so \<open>max_sockfd + 1\<close> covers the set.  A port in use
  ends the daemon.\<close>
theorem inetd_sets_up_its_sockets:
  assumes "\<forall>ty port. (ty, port) \<in> set (bound k) \<longrightarrow> port \<noteq> 6969 \<and> port \<noteq> 6970"
    and "next_fd k + 4 \<le> fd_limit k" "0 < next_fd k"
  shows "\<exists>ss k'. setup_sockets init_services 0 (\<lambda>_. False) k =
       Returned (ss, next_fd k + 3, (\<lambda>fd. next_fd k \<le> fd \<and> fd \<le> next_fd k + 3), k') \<and>
     map sockfd ss = [next_fd k, next_fd k + 1, next_fd k + 2, next_fd k + 3] \<and>
     map sock_type ss = [0, 1, 0, 1] \<and> map child_pid ss = [- 1, 0, - 1, 0] \<and>
     setup_sockets init_services 0 (\<lambda>_. False) (k\<lparr>bound := (1, 6970) # bound k\<rparr>) = Exited EXIT_FAILURE"
proof -
  have u: "[next_fd k..<next_fd k + 4] = [next_fd k, next_fd k + 1, next_fd k + 2, next_fd k + 3]"
    by (simp add: upt_rec numeral_eq_Suc)
  obtain k' where k': "setup_sockets init_services 0 (\<lambda>_. False) k =
      Returned (map2 (\<lambda>s i. s\<lparr>sockfd := i\<rparr>) init_services [next_fd k..<next_fd k + length init_services],
        (if init_services = [] then 0 else max 0 (next_fd k + length init_services - 1)),
        (\<lambda>fd. False \<or> next_fd k \<le> fd \<and> fd < next_fd k + length init_services), k')"
    using setup_sockets_ok [of init_services k 0 "\<lambda>_. False"] assms(1,2) by (auto simp: init_services_def)
  have "setup_sockets init_services 0 (\<lambda>_. False) (k\<lparr>bound := (1, 6970) # bound k\<rparr>) = Exited EXIT_FAILURE"
    using assms(1,2) by (auto simp: init_services_def sys_socket_def sys_bind_def sys_listen_def)
  then show ?thesis
    using k' assms(3) by (simp add: init_services_def u fun_eq_iff less_Suc_eq_le numeral_eq_Suc)
qed

theorem inetd_sets_up_its_sockets_witness:
  "\<exists>ss k'. setup_sockets init_services 0 (\<lambda>_. False) \<lparr>next_fd = 4, fd_limit = 64, bound = [(0, 22)], listening = []\<rparr> =
       Returned (ss, 7, (\<lambda>fd. 4 \<le> fd \<and> fd \<le> 7), k') \<and> map sockfd ss = [4, 5, 6, 7]"
  using inetd_sets_up_its_sockets [of "\<lparr>next_fd = 4, fd_limit = 64, bound = [(0, 22)], listening = []\<rparr>"]
  by auto

section \<open>Into the background\<close>

datatype signal = SIGTTOU | SIGTTIN | SIGTSTP | SIGCHLD

datatype disposition = Default | Ignored | Handler

datatype open_file = Terminal | Dev_null | Log_file | Socket nat | Other nat

record process =
  proc_id :: int
  parent_id :: int
  pgrp :: int
  disp :: "signal \<Rightarrow> disposition"
  files :: "nat \<Rightarrow> open_file option"
  tty :: bool
  work_dir :: "byte list"
  mask :: nat

definition close_all :: "nat \<Rightarrow> (nat \<Rightarrow> open_file option) \<Rightarrow> nat \<Rightarrow> open_file option" where
  "close_all nofile f = (\<lambda>i. if i < nofile then None else f i)"

text \<open>The part from the label \<open>out\<close> on; \<open>null_ok\<close> tells whether \<open>/dev/null\<close> can be opened.\<close>

definition daemon_out :: "nat \<Rightarrow> bool \<Rightarrow> bool \<Rightarrow> process \<Rightarrow> process outcome" where
  "daemon_out nofile null_ok ignore_sig_child p =
     (let p = p\<lparr>files := close_all nofile (files p), work_dir := ''/'', mask := 0\<rparr>;
          p = (if ignore_sig_child then p\<lparr>disp := (disp p)(SIGCHLD := Handler)\<rparr> else p)
      in case (if null_ok then lowest_free nofile (files p) else None) of
           Some fd \<Rightarrow>
             (if fd = 0 then Returned (p\<lparr>files := (files p)(0 := Some Dev_null, 1 := Some Dev_null, 2 := Some Dev_null)\<rparr>)
              else Exited EXIT_FAILURE)
         | None \<Rightarrow> Exited EXIT_FAILURE)"

text \<open>\<open>forked\<close> is the result of \<open>fork\<close> in this process: negative, 0 in the child, the child in the
  parent.  \<open>grp_ok\<close> is whether \<open>setpgid\<close> succeeds; \<open>/dev/tty\<close> opens when there is a terminal.\<close>

definition daemon_start :: "nat \<Rightarrow> bool \<Rightarrow> int \<Rightarrow> bool \<Rightarrow> bool \<Rightarrow> process \<Rightarrow> process outcome" where
  "daemon_start nofile null_ok forked grp_ok ignore_sig_child p =
     (if parent_id p = 1 then daemon_out nofile null_ok ignore_sig_child p
      else
        (let p = p\<lparr>disp := (disp p)(SIGTTOU := Ignored, SIGTTIN := Ignored, SIGTSTP := Ignored)\<rparr>
         in if forked < 0 then Returned p
            else if 0 < forked then Exited 0
            else if \<not> grp_ok then Returned p
            else daemon_out nofile null_ok ignore_sig_child (p\<lparr>pgrp := proc_id p, tty := False\<rparr>)))"

section \<open>The child that becomes a server\<close>

text \<open>All descriptors but \<open>fd\<close> are closed, \<open>fd\<close> is copied to 0, 1 and 2 and closed.\<close>

definition dup2 :: "nat \<Rightarrow> nat \<Rightarrow> (nat \<Rightarrow> open_file option) \<Rightarrow> nat \<Rightarrow> open_file option" where
  "dup2 fd to f = (case f fd of None \<Rightarrow> f | Some x \<Rightarrow> f(to := Some x))"

definition child_files :: "nat \<Rightarrow> nat \<Rightarrow> (nat \<Rightarrow> open_file option) \<Rightarrow> nat \<Rightarrow> open_file option" where
  "child_files nofile fd f =
     (let f = (\<lambda>i. if i < nofile \<and> i \<noteq> fd then None else f i)
      in (dup2 fd 2 (dup2 fd 1 (dup2 fd 0 f)))(fd := None))"

text \<open>The way of \<open>inetd\<close> into the background and of a request into its server.  Started from a
  shell, the parent exits and the child is left with \<open>/dev/null\<close> on 0, 1 and 2 and no other
  descriptor below \<open>NOFILE\<close>, its own process group, no terminal, \<open>/\<close> as directory, mask 0 and the
  handler for \<open>SIGCHLD\<close>; from then on every descriptor it gets is above 2, and so the child it
  forks for the descriptor \<open>fd\<close> runs the server with exactly that socket on 0, 1 and 2.\<close>
theorem inetd_hands_over_the_socket:
  assumes "2 < nofile" "parent_id p \<noteq> 1"
    and "daemon_start nofile null_ok 0 True True p = Returned q"
    and "f 0 = Some Dev_null" "f 1 = Some Dev_null" "f 2 = Some Dev_null" "f fd = Some (Socket s)"
  shows "daemon_start nofile null_ok 1 True True p = Exited 0 \<and>
     (\<forall>i < nofile. files q i = (if i \<le> 2 then Some Dev_null else None)) \<and>
     pgrp q = proc_id p \<and> \<not> tty q \<and> work_dir q = ''/'' \<and> mask q = 0 \<and> disp q SIGCHLD = Handler \<and>
     (\<forall>i < nofile. child_files nofile fd f i = (if i \<le> 2 then Some (Socket s) else None))"
proof -
  have "fd \<noteq> 0" "fd \<noteq> 1" "fd \<noteq> 2" using assms(4-7) by (metis open_file.distinct option.inject)+
  then have "2 < fd" by linarith
  then have c: "child_files nofile fd f i = (if i \<le> 2 then Some (Socket s) else None)" if "i < nofile" for i
    using that assms(7) by (auto simp: child_files_def dup2_def Let_def)
  have "lowest_free nofile (close_all nofile (files p)) = Some 0"
    using assms(1) by (cases nofile) (simp_all add: lowest_free_def close_all_def upt_conv_Cons del: upt_Suc)
  then have q: "q = p\<lparr>disp := (disp p)(SIGTTOU := Ignored, SIGTTIN := Ignored, SIGTSTP := Ignored, SIGCHLD := Handler),
      pgrp := proc_id p, tty := False, work_dir := ''/'', mask := 0,
      files := (close_all nofile (files p))(0 := Some Dev_null, 1 := Some Dev_null, 2 := Some Dev_null)\<rparr>"
    using assms(2,3) by (auto simp: daemon_start_def daemon_out_def Let_def split: if_splits)
  have "files q i = (if i \<le> 2 then Some Dev_null else None)" if "i < nofile" for i
    using that by (auto simp: q close_all_def)
  then show ?thesis using c assms(2) by (simp add: q) (simp add: daemon_start_def Let_def)
qed

theorem inetd_hands_over_the_socket_witness:
  "child_files 64 7 ((\<lambda>i. if i < 3 then Some Dev_null else Some Log_file)(7 := Some (Socket 5))) 1 = Some (Socket 5)"
proof -
  let ?p = "\<lparr>proc_id = 100, parent_id = 50, pgrp = 50, disp = (\<lambda>_. Default), files = (\<lambda>_. Some Terminal), tty = True,
    work_dir = ''/home'', mask = 18\<rparr>"
  have "\<exists>q. daemon_start 64 True 0 True True ?p = Returned q"
    by (simp add: daemon_start_def daemon_out_def Let_def lowest_free_def close_all_def upt_rec)
  then obtain q where "daemon_start 64 True 0 True True ?p = Returned q" ..
  from inetd_hands_over_the_socket [OF _ _ this, of "(\<lambda>i. if i < 3 then Some Dev_null else Some Log_file)(7 := Some (Socket 5))" 7 5]
  show ?thesis by simp
qed

end
