(* ===== verification/Inetd_Loop.thy ===== *)
theory Inetd_Loop
  imports Inetd
begin

text \<open>
  The \<open>select\<close> loop of \<open>inetd\<close> and its handler of \<open>SIGCHLD\<close>, as a machine: one system call or
  table update of the loop per step, and between any two steps clients may connect, children may
  read their sockets or end, and a pending signal may be handled.
\<close>

section \<open>State\<close>

datatype inetd_pc =
    L_select | L_scan nat | L_accept nat | L_fork nat nat | L_close nat
  | L_store nat int | L_count | L_reset | L_clear nat | L_clr nat | L_exit int

text \<open>A child: which service it runs, on which socket, and the program it executes.\<close>

record kid =
  kid_pid :: int
  kid_service :: nat
  kid_sock :: nat
  kid_path :: "byte list"

record inetd =
  serv_arr :: "services list"
  read_sockfds :: fd_set
  udp_select_conn :: int
  lpc :: inetd_pc
  cwd :: "byte list"
  logged :: "byte list list"
  waiting :: "nat \<Rightarrow> nat"      \<comment> \<open>connection requests and datagrams at a descriptor\<close>
  kids :: "kid list"
  zombies :: "int list"
  sigchld :: bool             \<comment> \<open>a pending signal; signals do not queue\<close>
  next_pid :: int             \<comment> \<open>where the kernel looks for the next free identifier\<close>
  next_conn :: nat

section \<open>The handler\<close>

text \<open>\<open>waitpid(-1, &status, WNOHANG)\<close> takes one child that has ended; the loop around it ends with a
  \<open>break\<close> after the first.\<close>

definition slot_of :: "int \<Rightarrow> services list \<Rightarrow> nat option" where
  "slot_of pid ss = List.find (\<lambda>i. child_pid (ss ! i) = pid) [0..<length ss]"

definition sig_child :: "inetd \<Rightarrow> inetd" where
  "sig_child \<sigma> =
     (case zombies \<sigma> of
        [] \<Rightarrow> \<sigma>
      | pid # zs \<Rightarrow>
          (case slot_of pid (serv_arr \<sigma>) of
             None \<Rightarrow> \<sigma>\<lparr>zombies := zs\<rparr>
           | Some i \<Rightarrow>
               \<sigma>\<lparr>zombies := zs,
                 read_sockfds := (read_sockfds \<sigma>)(sockfd (serv_arr \<sigma> ! i) := True),
                 udp_select_conn := udp_select_conn \<sigma> - 1,
                 serv_arr := (serv_arr \<sigma>)[i := (serv_arr \<sigma> ! i)\<lparr>child_pid := 0\<rparr>]\<rparr>))"

section \<open>The loop\<close>

definition give_up :: "byte list \<Rightarrow> inetd \<Rightarrow> inetd" where
  "give_up msg \<sigma> = \<sigma>\<lparr>logged := logged \<sigma> @ [msg], lpc := L_exit EXIT_FAILURE\<rparr>"

text \<open>\<open>fail\<close> is the error of the system call of this step, if it fails.  \<open>select\<close> waits until a
  descriptor of the set is ready and leaves the ready ones in it.\<close>

definition select_step :: "errno option \<Rightarrow> inetd \<Rightarrow> inetd" where
  "select_step fail \<sigma> =
     (case fail of
        Some EINTR \<Rightarrow> \<sigma>
      | Some e \<Rightarrow> give_up ''select error: failed to select a socket available for reading'' \<sigma>
      | None \<Rightarrow>
          if \<exists>s \<in> set (serv_arr \<sigma>). read_sockfds \<sigma> (sockfd s) \<and> 0 < waiting \<sigma> (sockfd s)
          then \<sigma>\<lparr>read_sockfds := (\<lambda>fd. read_sockfds \<sigma> fd \<and> 0 < waiting \<sigma> fd), lpc := L_scan 0\<rparr>
          else \<sigma>)"

text \<open>The search for a ready socket; a stream service is accepted, a datagram service forked at once.\<close>

definition scan_step :: "nat \<Rightarrow> inetd \<Rightarrow> inetd" where
  "scan_step i \<sigma> =
     (if i < length (serv_arr \<sigma>)
      then (let s = serv_arr \<sigma> ! i
            in if read_sockfds \<sigma> (sockfd s)
               then (if sock_type s = 0
                     then (if service s = ''str_echo'' \<or> service s = ''str_dis'' then \<sigma>\<lparr>lpc := L_accept i\<rparr>
                           else \<sigma>\<lparr>lpc := L_scan (i + 1)\<rparr>)
                     else (if service s = ''dg_echo'' \<or> service s = ''dg_dis'' then \<sigma>\<lparr>lpc := L_fork i (sockfd s)\<rparr>
                           else \<sigma>\<lparr>lpc := L_scan (i + 1)\<rparr>))
               else \<sigma>\<lparr>lpc := L_scan (i + 1)\<rparr>)
      else \<sigma>\<lparr>lpc := L_reset\<rparr>)"

definition accept_step :: "errno option \<Rightarrow> nat \<Rightarrow> inetd \<Rightarrow> inetd" where
  "accept_step fail i \<sigma> =
     (let fd = sockfd (serv_arr \<sigma> ! i)
      in case fail of
           Some e \<Rightarrow> give_up ''accept error: failed to accept the connection request'' \<sigma>
         | None \<Rightarrow>
             if waiting \<sigma> fd = 0 then \<sigma>
             else \<sigma>\<lparr>waiting := (waiting \<sigma>)(fd := waiting \<sigma> fd - 1), next_conn := next_conn \<sigma> + 1,
                     lpc := L_fork i (next_conn \<sigma>)\<rparr>)"

text \<open>The kernel gives a new process the first identifier from \<open>n\<close> on that no process has, one that has ended and was not
  waited for included.\<close>

definition fresh_pid :: "int list \<Rightarrow> int \<Rightarrow> int" where
  "fresh_pid used n = the (List.find (\<lambda>p. p \<notin> set used) (map (\<lambda>i. n + int i) [0..<Suc (length used)]))"

text \<open>\<open>fork\<close>: the child becomes the server on the socket, the parent goes on.\<close>

definition fork_step :: "errno option \<Rightarrow> nat \<Rightarrow> nat \<Rightarrow> inetd \<Rightarrow> inetd" where
  "fork_step fail i fd \<sigma> =
     (case fail of
        Some e \<Rightarrow> give_up ''fork error: failed to fork the process'' \<sigma>
      | None \<Rightarrow>
          (let s = serv_arr \<sigma> ! i; pid = fresh_pid (map kid_pid (kids \<sigma>) @ zombies \<sigma>) (next_pid \<sigma>)
           in \<sigma>\<lparr>kids := \<lparr>kid_pid = pid, kid_service = i, kid_sock = fd, kid_path = exec_path (cwd \<sigma>) (service s)\<rparr> # kids \<sigma>,
                 next_pid := pid + 1,
                 lpc := (if sock_type s = 0 then L_close fd else L_store i pid)\<rparr>))"

definition store_step :: "nat \<Rightarrow> int \<Rightarrow> inetd \<Rightarrow> inetd" where
  "store_step i pid \<sigma> =
     \<sigma>\<lparr>serv_arr := (serv_arr \<sigma>)[i := (serv_arr \<sigma> ! i)\<lparr>child_pid := pid\<rparr>], lpc := L_count\<rparr>"

text \<open>Setting all sockets again, and clearing those of the running datagram services; the test of a
  service and the \<open>FD_CLR\<close> are two steps.\<close>

definition reset_step :: "inetd \<Rightarrow> inetd" where
  "reset_step \<sigma> =
     (let \<sigma> = \<sigma>\<lparr>read_sockfds := (\<lambda>fd. read_sockfds \<sigma> fd \<or> fd \<in> sockfd ` set (serv_arr \<sigma>))\<rparr>
      in if udp_select_conn \<sigma> \<noteq> 0 then \<sigma>\<lparr>lpc := L_clear 0\<rparr> else \<sigma>\<lparr>lpc := L_select\<rparr>)"

definition clear_step :: "nat \<Rightarrow> inetd \<Rightarrow> inetd" where
  "clear_step k \<sigma> =
     (if k < length (serv_arr \<sigma>)
      then (if sock_type (serv_arr \<sigma> ! k) = 1 \<and> child_pid (serv_arr \<sigma> ! k) \<noteq> 0 then \<sigma>\<lparr>lpc := L_clr k\<rparr>
            else \<sigma>\<lparr>lpc := L_clear (k + 1)\<rparr>)
      else \<sigma>\<lparr>lpc := L_select\<rparr>)"

definition inetd_main :: "errno option \<Rightarrow> inetd \<Rightarrow> inetd" where
  "inetd_main fail \<sigma> =
     (case lpc \<sigma> of
        L_select \<Rightarrow> select_step fail \<sigma>
      | L_scan i \<Rightarrow> scan_step i \<sigma>
      | L_accept i \<Rightarrow> accept_step fail i \<sigma>
      | L_fork i fd \<Rightarrow> fork_step fail i fd \<sigma>
      | L_close fd \<Rightarrow> \<sigma>\<lparr>lpc := L_reset\<rparr>
      | L_store i pid \<Rightarrow> store_step i pid \<sigma>
      | L_count \<Rightarrow> \<sigma>\<lparr>udp_select_conn := udp_select_conn \<sigma> + 1, lpc := L_reset\<rparr>
      | L_reset \<Rightarrow> reset_step \<sigma>
      | L_clear k \<Rightarrow> clear_step k \<sigma>
      | L_clr k \<Rightarrow> \<sigma>\<lparr>read_sockfds := (read_sockfds \<sigma>)(sockfd (serv_arr \<sigma> ! k) := False), lpc := L_clear (k + 1)\<rparr>
      | L_exit status \<Rightarrow> \<sigma>)"

section \<open>The world around it\<close>

text \<open>\<open>Recycle q\<close>: other processes have used up the identifiers, and the kernel looks for the next one from \<open>q\<close> on; so
  the identifiers of children that were waited for are given again.\<close>

datatype event = Loop "errno option" | Signal | Arrives nat | Reads nat | Ends int | Recycle int

definition inetd_event :: "event \<Rightarrow> inetd \<Rightarrow> inetd" where
  "inetd_event ev \<sigma> =
     (case ev of
        Loop fail \<Rightarrow> inetd_main fail \<sigma>
      | Signal \<Rightarrow> if sigchld \<sigma> then sig_child (\<sigma>\<lparr>sigchld := False\<rparr>) else \<sigma>
      | Arrives fd \<Rightarrow> \<sigma>\<lparr>waiting := (waiting \<sigma>)(fd := waiting \<sigma> fd + 1)\<rparr>
      | Reads fd \<Rightarrow> \<sigma>\<lparr>waiting := (waiting \<sigma>)(fd := waiting \<sigma> fd - 1)\<rparr>
      | Ends pid \<Rightarrow>
          if pid \<in> kid_pid ` set (kids \<sigma>)
          then \<sigma>\<lparr>kids := filter (\<lambda>c. kid_pid c \<noteq> pid) (kids \<sigma>), zombies := zombies \<sigma> @ [pid], sigchld := True\<rparr>
          else \<sigma>
      | Recycle q \<Rightarrow> if 0 < q then \<sigma>\<lparr>next_pid := q\<rparr> else \<sigma>)"

section \<open>The invariant\<close>

definition udp :: "services \<Rightarrow> bool" where
  "udp s \<longleftrightarrow> sock_type s = 1"

definition busy :: "services list \<Rightarrow> nat" where
  "busy ss = length (filter (\<lambda>s. udp s \<and> child_pid s \<noteq> 0) ss)"

definition table_ok :: "services list \<Rightarrow> bool" where
  "table_ok ss \<longleftrightarrow> distinct (map sockfd ss) \<and> (\<forall>s \<in> set ss. sock_type s = 0 \<and> child_pid s = - 1 \<or> sock_type s = 1 \<and> 0 \<le> child_pid s)"

definition pids_ok :: "inetd \<Rightarrow> bool" where
  "pids_ok \<sigma> \<longleftrightarrow> distinct (map kid_pid (kids \<sigma>) @ zombies \<sigma>) \<and> 0 < next_pid \<sigma> \<and>
     (\<forall>p \<in> kid_pid ` set (kids \<sigma>) \<union> set (zombies \<sigma>). 0 < p)"

text \<open>Every running datagram server is known to the table, or about to be.\<close>

definition kids_ok :: "inetd \<Rightarrow> bool" where
  "kids_ok \<sigma> \<longleftrightarrow> (\<forall>c \<in> set (kids \<sigma>). kid_service c < length (serv_arr \<sigma>) \<and>
     (udp (serv_arr \<sigma> ! kid_service c) \<longrightarrow>
        child_pid (serv_arr \<sigma> ! kid_service c) = kid_pid c \<or> lpc \<sigma> = L_store (kid_service c) (kid_pid c)))"

text \<open>The sockets below \<open>k\<close> that are in the set have no server running.\<close>

definition free_below :: "nat \<Rightarrow> inetd \<Rightarrow> bool" where
  "free_below k \<sigma> \<longleftrightarrow> (\<forall>i < k. udp (serv_arr \<sigma> ! i) \<and> read_sockfds \<sigma> (sockfd (serv_arr \<sigma> ! i)) \<longrightarrow>
     child_pid (serv_arr \<sigma> ! i) = 0)"

fun pc_ok :: "inetd_pc \<Rightarrow> inetd \<Rightarrow> bool" where
  "pc_ok L_select \<sigma> \<longleftrightarrow> free_below (length (serv_arr \<sigma>)) \<sigma>"
| "pc_ok (L_scan i) \<sigma> \<longleftrightarrow> free_below (length (serv_arr \<sigma>)) \<sigma>"
| "pc_ok (L_accept i) \<sigma> \<longleftrightarrow> free_below (length (serv_arr \<sigma>)) \<sigma> \<and> i < length (serv_arr \<sigma>) \<and> \<not> udp (serv_arr \<sigma> ! i)"
| "pc_ok (L_fork i fd) \<sigma> \<longleftrightarrow> i < length (serv_arr \<sigma>) \<and>
     (udp (serv_arr \<sigma> ! i) \<longrightarrow> fd = sockfd (serv_arr \<sigma> ! i) \<and> child_pid (serv_arr \<sigma> ! i) = 0)"
| "pc_ok (L_store i p) \<sigma> \<longleftrightarrow> i < length (serv_arr \<sigma>) \<and> udp (serv_arr \<sigma> ! i) \<and> child_pid (serv_arr \<sigma> ! i) = 0 \<and>
     0 < p"
| "pc_ok (L_clear k) \<sigma> \<longleftrightarrow> k \<le> length (serv_arr \<sigma>) \<and> free_below k \<sigma>"
| "pc_ok (L_clr k) \<sigma> \<longleftrightarrow> k < length (serv_arr \<sigma>) \<and> free_below k \<sigma>"
| "pc_ok pc \<sigma> \<longleftrightarrow> True"

definition inetd_inv :: "inetd \<Rightarrow> bool" where
  "inetd_inv \<sigma> \<longleftrightarrow> table_ok (serv_arr \<sigma>) \<and> pids_ok \<sigma> \<and> kids_ok \<sigma> \<and> pc_ok (lpc \<sigma>) \<sigma> \<and>
     udp_select_conn \<sigma> + (if lpc \<sigma> = L_count then 1 else 0) = int (busy (serv_arr \<sigma>))"

lemma fresh_pid_exists:
  "\<exists>p. List.find (\<lambda>p. p \<notin> set used) (map (\<lambda>i. n + int i) [0..<Suc (length used)]) = Some p"
proof (rule ccontr)
  assume "\<not> ?thesis"
  then have "(\<lambda>i. n + int i) ` {0..<Suc (length used)} \<subseteq> set used"
    by (fastforce simp: find_None_iff simp del: upt_Suc)
  then have "card ((\<lambda>i. n + int i) ` {0..<Suc (length used)}) \<le> card (set used)" by (intro card_mono) simp_all
  moreover have "card ((\<lambda>i. n + int i) ` {0..<Suc (length used)}) = Suc (length used)"
    by (subst card_image) (simp_all add: inj_on_def)
  ultimately show False using card_length [of used] by simp
qed

lemma fresh_pid: "fresh_pid used n \<notin> set used" "n \<le> fresh_pid used n"
proof -
  obtain p where p: "List.find (\<lambda>p. p \<notin> set used) (map (\<lambda>i. n + int i) [0..<Suc (length used)]) = Some p"
    using fresh_pid_exists by blast
  then have "fresh_pid used n = p" by (simp add: fresh_pid_def del: upt_Suc)
  moreover have "p \<notin> set used" "n \<le> p" using p by (auto simp: find_Some_iff simp del: upt_Suc)
  ultimately show "fresh_pid used n \<notin> set used" "n \<le> fresh_pid used n" by simp_all
qed


lemma length_filter_update:
  "i < length xs \<Longrightarrow> length (filter P (xs[i := x])) + (if P (xs ! i) then 1 else 0) =
     length (filter P xs) + (if P x then 1 else 0)"
proof (induction xs arbitrary: i)
  case (Cons y xs)
  then show ?case using Cons.IH [of "i - 1"] by (cases i) auto
qed simp

lemma busy_update:
  assumes "i < length ss" "udp (ss ! i)"
  shows "busy (ss[i := (ss ! i)\<lparr>child_pid := p\<rparr>]) + (if child_pid (ss ! i) \<noteq> 0 then 1 else 0) =
     busy ss + (if p \<noteq> 0 then 1 else 0)"
  using length_filter_update [OF assms(1), of "\<lambda>s. udp s \<and> child_pid s \<noteq> 0" "(ss ! i)\<lparr>child_pid := p\<rparr>"] assms(2)
  by (simp add: busy_def udp_def)

lemma busy_0: "busy ss = 0 \<longleftrightarrow> (\<forall>s \<in> set ss. udp s \<longrightarrow> child_pid s = 0)"
  by (auto simp: busy_def filter_empty_conv)

lemma table_update:
  assumes "table_ok ss" "i < length ss" "udp (ss ! i)" "0 \<le> p"
  shows "table_ok (ss[i := (ss ! i)\<lparr>child_pid := p\<rparr>])"
proof -
  have "map sockfd (ss[i := (ss ! i)\<lparr>child_pid := p\<rparr>]) = map sockfd ss"
    using assms(2) by (intro nth_equalityI) (simp_all add: nth_list_update)
  then show ?thesis
    using assms by (auto simp: table_ok_def udp_def dest!: set_update_subset_insert [THEN subsetD])
qed

lemma nth_child: "(ss[i := (ss ! i)\<lparr>child_pid := p\<rparr>]) ! j =
   (if i = j \<and> i < length ss then (ss ! i)\<lparr>child_pid := p\<rparr> else ss ! j)"
  by (cases "i < length ss") (simp_all add: nth_list_update list_update_beyond)

lemma udp_child [simp]: "udp (s\<lparr>child_pid := p\<rparr>) = udp s" "sockfd (s\<lparr>child_pid := p\<rparr>) = sockfd s"
  "service (s\<lparr>child_pid := p\<rparr>) = service s" "sock_type (s\<lparr>child_pid := p\<rparr>) = sock_type s"
  by (simp_all add: udp_def)

lemma sockfd_inj:
  assumes "table_ok ss" "i < length ss" "j < length ss" "sockfd (ss ! i) = sockfd (ss ! j)"
  shows "i = j"
  using assms nth_eq_iff_index_eq [of "map sockfd ss" i j] by (simp add: table_ok_def)

lemma slot_of_Some:
  "slot_of p ss = Some i \<Longrightarrow> i < length ss \<and> child_pid (ss ! i) = p"
  by (auto simp: slot_of_def find_Some_iff)

section \<open>The handler keeps it\<close>

lemma sig_child_inv:
  assumes "inetd_inv \<sigma>"
  shows "inetd_inv (sig_child \<sigma>)"
proof (cases "zombies \<sigma>")
  case Nil
  then show ?thesis using assms by (simp add: sig_child_def)
next
  case (Cons p zs)
  have p: "0 < p" using assms Cons by (auto simp: inetd_inv_def pids_ok_def)
  show ?thesis
  proof (cases "slot_of p (serv_arr \<sigma>)")
    case None
    have "pc_ok (lpc \<sigma>) (\<sigma>\<lparr>zombies := zs\<rparr>) = pc_ok (lpc \<sigma>) \<sigma>" by (cases "lpc \<sigma>") (simp_all add: free_below_def)
    then show ?thesis
      using assms Cons None by (auto simp: sig_child_def inetd_inv_def pids_ok_def kids_ok_def)
  next
    case (Some i)
    then have i: "i < length (serv_arr \<sigma>)" "child_pid (serv_arr \<sigma> ! i) = p" using slot_of_Some by blast+
    have t: "table_ok (serv_arr \<sigma>)" using assms by (simp add: inetd_inv_def)
    then have u: "udp (serv_arr \<sigma> ! i)"
      using i p by (auto simp: table_ok_def udp_def dest!: bspec [OF _ nth_mem [OF i(1)]])
    define \<tau> where "\<tau> = \<sigma>\<lparr>zombies := zs, read_sockfds := (read_sockfds \<sigma>)(sockfd (serv_arr \<sigma> ! i) := True),
                 udp_select_conn := udp_select_conn \<sigma> - 1,
                 serv_arr := (serv_arr \<sigma>)[i := (serv_arr \<sigma> ! i)\<lparr>child_pid := 0\<rparr>]\<rparr>"
    have s: "sig_child \<sigma> = \<tau>" using Cons Some by (simp add: sig_child_def \<tau>_def)
    have fb: "free_below k \<tau>" if "free_below k \<sigma>" "k \<le> length (serv_arr \<sigma>)" for k
    proof -
      have "j = i" if "j < k" "sockfd (serv_arr \<sigma> ! j) = sockfd (serv_arr \<sigma> ! i)" for j
        using sockfd_inj [OF t _ i(1) that(2)] that(1) \<open>k \<le> length (serv_arr \<sigma>)\<close> by simp
      then show ?thesis using that(1) i(1) by (auto simp: free_below_def \<tau>_def nth_child)
    qed
    have "pc_ok (lpc \<sigma>) \<sigma>" using assms by (simp add: inetd_inv_def)
    then have pc: "pc_ok (lpc \<sigma>) \<tau>"
      using fb by (cases "lpc \<sigma>") (auto simp: \<tau>_def nth_child)
    have b: "busy (serv_arr \<tau>) + 1 = busy (serv_arr \<sigma>)"
      using busy_update [OF i(1) u, of 0] i(2) p by (simp add: \<tau>_def)
    have k: "kids_ok \<tau>"
      using assms i p Cons by (auto simp: kids_ok_def \<tau>_def nth_child inetd_inv_def pids_ok_def)
    have "inetd_inv \<tau>"
      using assms pc b k table_update [OF t i(1) u] Cons by (auto simp: inetd_inv_def pids_ok_def \<tau>_def)
    then show ?thesis by (simp add: s)
  qed
qed

section \<open>The loop keeps it\<close>

lemma pc_ok_irrelevant [simp]:
  "pc_ok pc (\<sigma>\<lparr>lpc := x\<rparr>) = pc_ok pc \<sigma>" "pc_ok pc (\<sigma>\<lparr>logged := y\<rparr>) = pc_ok pc \<sigma>"
  "pc_ok pc (\<sigma>\<lparr>waiting := w\<rparr>) = pc_ok pc \<sigma>" "pc_ok pc (\<sigma>\<lparr>next_conn := c\<rparr>) = pc_ok pc \<sigma>"
  "pc_ok pc (\<sigma>\<lparr>sigchld := b\<rparr>) = pc_ok pc \<sigma>" "pc_ok pc (\<sigma>\<lparr>kids := ks\<rparr>) = pc_ok pc \<sigma>"
  "pc_ok pc (\<sigma>\<lparr>zombies := zs\<rparr>) = pc_ok pc \<sigma>" "pc_ok pc (\<sigma>\<lparr>next_pid := n\<rparr>) = pc_ok pc \<sigma>"
  by (cases pc; simp add: free_below_def)+

lemma inv_goto:
  assumes "inetd_inv \<sigma>" "\<And>i p. lpc \<sigma> \<noteq> L_store i p" "lpc \<sigma> \<noteq> L_count" "pc \<noteq> L_count" "pc_ok pc \<sigma>"
  shows "inetd_inv (\<sigma>\<lparr>lpc := pc\<rparr>)"
  using assms by (auto simp: inetd_inv_def pids_ok_def kids_ok_def)

lemma inv_env:
  assumes "inetd_inv \<sigma>"
  shows "inetd_inv (\<sigma>\<lparr>logged := y\<rparr>)" "inetd_inv (\<sigma>\<lparr>waiting := w\<rparr>)" "inetd_inv (\<sigma>\<lparr>next_conn := c\<rparr>)"
    "inetd_inv (\<sigma>\<lparr>sigchld := b\<rparr>)"
  using assms by (simp_all add: inetd_inv_def pids_ok_def kids_ok_def)

lemma give_up_inv:
  assumes "inetd_inv \<sigma>" "\<And>i p. lpc \<sigma> \<noteq> L_store i p" "lpc \<sigma> \<noteq> L_count"
  shows "inetd_inv (give_up msg \<sigma>)"
  using inv_goto [OF inv_env(1) [OF assms(1), of "logged \<sigma> @ [msg]"], of "L_exit EXIT_FAILURE"] assms(2,3)
  by (simp add: give_up_def)

lemma select_inv:
  assumes "inetd_inv \<sigma>" "lpc \<sigma> = L_select"
  shows "inetd_inv (select_step fail \<sigma>)"
proof -
  have "inetd_inv (give_up msg \<sigma>)" for msg using give_up_inv [OF assms(1)] assms(2) by simp
  moreover have "inetd_inv (\<sigma>\<lparr>read_sockfds := (\<lambda>fd. read_sockfds \<sigma> fd \<and> 0 < waiting \<sigma> fd), lpc := L_scan 0\<rparr>)"
    using assms by (auto simp: inetd_inv_def pids_ok_def kids_ok_def free_below_def)
  ultimately show ?thesis
    using assms(1) by (auto simp: select_step_def split: option.split errno.split)
qed

lemma scan_inv:
  assumes "inetd_inv \<sigma>" "lpc \<sigma> = L_scan i"
  shows "inetd_inv (scan_step i \<sigma>)"
proof -
  have f: "free_below (length (serv_arr \<sigma>)) \<sigma>" using assms by (simp add: inetd_inv_def)
  note g = inv_goto [OF assms(1)]
  have "inetd_inv (\<sigma>\<lparr>lpc := L_scan j\<rparr>)" "inetd_inv (\<sigma>\<lparr>lpc := L_reset\<rparr>)" for j
    using g assms(2) f by simp_all
  moreover have "inetd_inv (\<sigma>\<lparr>lpc := L_accept i\<rparr>)" if "i < length (serv_arr \<sigma>)" "sock_type (serv_arr \<sigma> ! i) = 0"
    using g assms(2) f that by (simp add: udp_def)
  moreover have "inetd_inv (\<sigma>\<lparr>lpc := L_fork i (sockfd (serv_arr \<sigma> ! i))\<rparr>)"
    if "i < length (serv_arr \<sigma>)" "read_sockfds \<sigma> (sockfd (serv_arr \<sigma> ! i))"
    using g assms(2) f that by (simp add: free_below_def)
  ultimately show ?thesis by (simp add: scan_step_def Let_def)
qed

lemma accept_inv:
  assumes "inetd_inv \<sigma>" "lpc \<sigma> = L_accept i"
  shows "inetd_inv (accept_step fail i \<sigma>)"
proof -
  have a: "i < length (serv_arr \<sigma>)" "\<not> udp (serv_arr \<sigma> ! i)" using assms by (simp_all add: inetd_inv_def)
  have "inetd_inv (give_up msg \<sigma>)" for msg using give_up_inv [OF assms(1)] assms(2) by simp
  moreover have "inetd_inv (\<sigma>\<lparr>waiting := w, next_conn := n, lpc := L_fork i fd\<rparr>)" for w n fd
    using inv_goto [OF inv_env(3) [OF inv_env(2) [OF assms(1), of w], of n], of "L_fork i fd"] assms(2) a by simp
  ultimately show ?thesis using assms(1) by (simp add: accept_step_def Let_def split: option.split)
qed

lemma fork_inv:
  assumes "inetd_inv \<sigma>" "lpc \<sigma> = L_fork i fd"
  shows "inetd_inv (fork_step fail i fd \<sigma>)"
proof -
  have a: "i < length (serv_arr \<sigma>)"
    "udp (serv_arr \<sigma> ! i) \<Longrightarrow> fd = sockfd (serv_arr \<sigma> ! i) \<and> child_pid (serv_arr \<sigma> ! i) = 0"
    using assms by (simp_all add: inetd_inv_def)
  have "inetd_inv (give_up msg \<sigma>)" for msg using give_up_inv [OF assms(1)] assms(2) by simp
  moreover have "inetd_inv (fork_step None i fd \<sigma>)"
  proof -
    have t: "sock_type (serv_arr \<sigma> ! i) = 0 \<longleftrightarrow> \<not> udp (serv_arr \<sigma> ! i)"
      using assms(1) a(1) by (auto simp: inetd_inv_def table_ok_def udp_def dest!: bspec [OF _ nth_mem [OF a(1)]])
    let ?p = "fresh_pid (map kid_pid (kids \<sigma>) @ zombies \<sigma>) (next_pid \<sigma>)"
    have n: "0 < next_pid \<sigma>" using assms(1) by (simp add: inetd_inv_def pids_ok_def)
    have p: "?p \<notin> kid_pid ` set (kids \<sigma>) \<union> set (zombies \<sigma>)" "0 < ?p"
      using fresh_pid(1) [of "map kid_pid (kids \<sigma>) @ zombies \<sigma>" "next_pid \<sigma>"]
        fresh_pid(2) [of "next_pid \<sigma>" "map kid_pid (kids \<sigma>) @ zombies \<sigma>"] n by simp_all
    then have "pids_ok (fork_step None i fd \<sigma>)"
      using assms(1) by (auto simp: inetd_inv_def pids_ok_def fork_step_def Let_def)
    moreover have "kids_ok (fork_step None i fd \<sigma>)"
      using assms a t by (auto simp: inetd_inv_def kids_ok_def fork_step_def Let_def)
    ultimately show ?thesis
      using assms a p t by (auto simp: inetd_inv_def fork_step_def Let_def)
  qed
  ultimately show ?thesis by (cases fail) (simp_all add: fork_step_def)
qed

lemma store_inv:
  assumes "inetd_inv \<sigma>" "lpc \<sigma> = L_store i p"
  shows "inetd_inv (store_step i p \<sigma>)"
proof -
  have a: "i < length (serv_arr \<sigma>)" "udp (serv_arr \<sigma> ! i)" "child_pid (serv_arr \<sigma> ! i) = 0" "0 < p"
    using assms by (simp_all add: inetd_inv_def)
  have b: "busy (serv_arr (store_step i p \<sigma>)) = busy (serv_arr \<sigma>) + 1"
    using busy_update [OF a(1,2), of p] a(3,4) by (simp add: store_step_def)
  have t: "table_ok (serv_arr (store_step i p \<sigma>))"
    using table_update [OF _ a(1,2)] assms(1) a(4) by (simp add: store_step_def inetd_inv_def)
  have pos: "kid_pid c \<noteq> 0" if "c \<in> set (kids \<sigma>)" for c
    using that assms(1) by (auto simp: inetd_inv_def pids_ok_def)
  have k: "kids_ok (store_step i p \<sigma>)"
    using assms a pos by (auto simp: inetd_inv_def kids_ok_def store_step_def nth_child)
  show ?thesis
    using assms b t k by (auto simp: inetd_inv_def pids_ok_def store_step_def)
qed

lemma clear_inv:
  assumes "inetd_inv \<sigma>"
  shows "lpc \<sigma> = L_reset \<Longrightarrow> inetd_inv (reset_step \<sigma>)"
    and "lpc \<sigma> = L_clear k \<Longrightarrow> inetd_inv (clear_step k \<sigma>)"
    and "lpc \<sigma> = L_clr k \<Longrightarrow> inetd_inv (\<sigma>\<lparr>read_sockfds := (read_sockfds \<sigma>)(sockfd (serv_arr \<sigma> ! k) := False), lpc := L_clear (k + 1)\<rparr>)"
proof -
  show "inetd_inv (reset_step \<sigma>)" if "lpc \<sigma> = L_reset"
  proof (cases "udp_select_conn \<sigma> = 0")
    case True
    then have "busy (serv_arr \<sigma>) = 0" using that assms by (simp add: inetd_inv_def)
    then have "free_below (length (serv_arr \<sigma>)) (\<sigma>\<lparr>read_sockfds := r\<rparr>)" for r
      by (simp add: busy_0 free_below_def)
    then show ?thesis
      using that assms True by (auto simp: reset_step_def Let_def inetd_inv_def pids_ok_def kids_ok_def)
  next
    case False
    then show ?thesis
      using that assms by (auto simp: reset_step_def Let_def inetd_inv_def pids_ok_def kids_ok_def free_below_def)
  qed
  show "inetd_inv (clear_step k \<sigma>)" if "lpc \<sigma> = L_clear k"
  proof -
    have f: "k \<le> length (serv_arr \<sigma>)" "free_below k \<sigma>" using that assms by (simp_all add: inetd_inv_def)
    note g = inv_goto [OF assms]
    have "inetd_inv (\<sigma>\<lparr>lpc := L_clr k\<rparr>)" if "k < length (serv_arr \<sigma>)"
      using g \<open>lpc \<sigma> = L_clear k\<close> f that by simp
    moreover have "inetd_inv (\<sigma>\<lparr>lpc := L_clear (k + 1)\<rparr>)"
      if "k < length (serv_arr \<sigma>)" "\<not> (sock_type (serv_arr \<sigma> ! k) = 1 \<and> child_pid (serv_arr \<sigma> ! k) \<noteq> 0)"
      using g \<open>lpc \<sigma> = L_clear k\<close> f that by (auto simp: free_below_def udp_def less_Suc_eq)
    moreover have "inetd_inv (\<sigma>\<lparr>lpc := L_select\<rparr>)" if "\<not> k < length (serv_arr \<sigma>)"
      using g \<open>lpc \<sigma> = L_clear k\<close> f that by simp
    ultimately show ?thesis by (simp add: clear_step_def)
  qed
  show "inetd_inv (\<sigma>\<lparr>read_sockfds := (read_sockfds \<sigma>)(sockfd (serv_arr \<sigma> ! k) := False), lpc := L_clear (k + 1)\<rparr>)"
    if "lpc \<sigma> = L_clr k"
    using that assms by (auto simp: inetd_inv_def pids_ok_def kids_ok_def free_below_def less_Suc_eq split: if_splits)
qed

lemma inetd_main_inv:
  assumes "inetd_inv \<sigma>"
  shows "inetd_inv (inetd_main fail \<sigma>)"
proof (cases "lpc \<sigma>")
  case L_count
  then show ?thesis using assms by (auto simp: inetd_main_def inetd_inv_def pids_ok_def kids_ok_def)
next
  case (L_close fd)
  then show ?thesis using inv_goto [OF assms, of L_reset] by (simp add: inetd_main_def)
qed (use assms select_inv scan_inv accept_inv fork_inv store_inv clear_inv in \<open>simp_all add: inetd_main_def\<close>)

lemma inetd_event_inv:
  assumes "inetd_inv \<sigma>"
  shows "inetd_inv (inetd_event ev \<sigma>)"
proof (cases ev)
  case (Ends pid)
  have "inetd_inv (\<sigma>\<lparr>kids := filter (\<lambda>c. kid_pid c \<noteq> pid) (kids \<sigma>), zombies := zombies \<sigma> @ [pid], sigchld := True\<rparr>)"
    if "pid \<in> kid_pid ` set (kids \<sigma>)"
  proof -
    have "distinct (map kid_pid (filter (\<lambda>c. kid_pid c \<noteq> pid) (kids \<sigma>)) @ zombies \<sigma> @ [pid])"
      using assms that by (auto simp: inetd_inv_def pids_ok_def distinct_map intro: inj_on_subset)
    then show ?thesis using assms that by (auto simp: inetd_inv_def pids_ok_def kids_ok_def)
  qed
  then show ?thesis using assms Ends by (simp add: inetd_event_def)
next
  case (Recycle q)
  then show ?thesis using assms by (simp add: inetd_event_def inetd_inv_def pids_ok_def kids_ok_def)
qed (use assms inetd_main_inv sig_child_inv inv_env in \<open>simp_all add: inetd_event_def\<close>)

lemma inetd_run_inv: "inetd_inv \<sigma> \<Longrightarrow> inetd_inv (fold inetd_event evs \<sigma>)"
  by (induction evs arbitrary: \<sigma>) (simp_all add: inetd_event_inv)

section \<open>What the clients can rely on\<close>

text \<open>The daemon enters its loop with the sockets the set-up made.\<close>

definition inetd_started :: "inet_kern \<Rightarrow> inetd \<Rightarrow> bool" where
  "inetd_started k \<sigma> \<longleftrightarrow>
     (\<exists>m k'. setup_sockets init_services 0 (\<lambda>_. False) k = Returned (serv_arr \<sigma>, m, read_sockfds \<sigma>, k')) \<and>
     udp_select_conn \<sigma> = 0 \<and> lpc \<sigma> = L_select \<and> kids \<sigma> = [] \<and> zombies \<sigma> = [] \<and> 0 < next_pid \<sigma>"

lemma setup_sockets_returns:
  "setup_sockets ss m r k = Returned (ss', m', r', k') \<Longrightarrow>
     map sockfd ss' = [next_fd k..<next_fd k + length ss] \<and> map (\<lambda>s. s\<lparr>sockfd := 0\<rparr>) ss' = map (\<lambda>s. s\<lparr>sockfd := 0\<rparr>) ss"
proof (induction ss arbitrary: m r k ss')
  case (Cons s ss)
  let ?k = "k\<lparr>next_fd := next_fd k + 1, bound := (sock_type s, port_number s) # bound k\<rparr>"
  from Cons.prems obtain tt where t: "ss' = s\<lparr>sockfd := next_fd k\<rparr> # tt"
    "setup_sockets ss (if m < next_fd k then next_fd k else m) (r(next_fd k := True))
       (if sock_type s = 0 then sys_listen (next_fd k) ?k else ?k) = Returned (tt, m', r', k')"
    by (auto simp: sys_socket_def sys_bind_def split: if_splits outcome.splits prod.splits)
  have "[next_fd k..<next_fd k + length (s # ss)] = next_fd k # [next_fd k + 1..<next_fd k + 1 + length ss]"
    by (subst upt_conv_Cons) simp_all
  then show ?case using Cons.IH [OF t(2)] t(1) by (simp split: if_splits)
qed simp

lemma started_inv:
  assumes "inetd_started k \<sigma>"
  shows "inetd_inv \<sigma>"
proof -
  obtain m k' where r: "setup_sockets init_services 0 (\<lambda>_. False) k = Returned (serv_arr \<sigma>, m, read_sockfds \<sigma>, k')"
    using assms by (auto simp: inetd_started_def)
  note s = setup_sockets_returns [OF r]
  have "\<forall>s' \<in> set (serv_arr \<sigma>). \<exists>s \<in> set init_services. sock_type s' = sock_type s \<and> child_pid s' = child_pid s"
  proof
    fix s' assume "s' \<in> set (serv_arr \<sigma>)"
    then have "s'\<lparr>sockfd := 0\<rparr> \<in> set (map (\<lambda>s. s\<lparr>sockfd := 0\<rparr>) init_services)" using s by (metis image_eqI list.set_map)
    then obtain s where s: "s \<in> set init_services" "s'\<lparr>sockfd := 0\<rparr> = s\<lparr>sockfd := 0\<rparr>" by auto
    then show "\<exists>s \<in> set init_services. sock_type s' = sock_type s \<and> child_pid s' = child_pid s"
      by (metis services.select_convs(1,5) services.surjective services.update_convs(4))
  qed
  then have t: "\<forall>s \<in> set (serv_arr \<sigma>). sock_type s = 0 \<and> child_pid s = - 1 \<or> sock_type s = 1 \<and> child_pid s = 0"
    by (auto simp: init_services_def)
  have "distinct (map sockfd (serv_arr \<sigma>))" using s by simp
  then have "table_ok (serv_arr \<sigma>)" using t by (auto simp: table_ok_def)
  moreover have "busy (serv_arr \<sigma>) = 0" using t by (auto simp: busy_0 udp_def)
  ultimately show ?thesis
    using assms by (auto simp: inetd_inv_def inetd_started_def pids_ok_def kids_ok_def busy_0 free_below_def)
qed

text \<open>C2: whatever connects, ends, fails or is signalled between any two steps of \<open>inetd\<close>'s loop, no
  datagram service ever has two servers running on its socket, and the counter
  \<open>udp_select_conn\<close> is the number of services whose server the table holds (one less between the
  storing of a process identifier and the counting).\<close>
theorem inetd_runs_one_datagram_server:
  fixes evs :: "event list"
  assumes "inetd_started k \<sigma>"
  defines "\<tau> \<equiv> fold inetd_event evs \<sigma>"
  shows "(\<forall>c \<in> set (kids \<tau>). \<forall>c' \<in> set (kids \<tau>).
       kid_service c = kid_service c' \<and> sock_type (serv_arr \<tau> ! kid_service c) = 1 \<longrightarrow> c = c') \<and>
     udp_select_conn \<tau> = int (length (filter (\<lambda>s. sock_type s = 1 \<and> child_pid s \<noteq> 0) (serv_arr \<tau>)))
       - (if lpc \<tau> = L_count then 1 else 0)"
proof -
  have i: "inetd_inv \<tau>" unfolding \<tau>_def by (rule inetd_run_inv [OF started_inv [OF assms(1)]])
  have "c = c'" if c: "c \<in> set (kids \<tau>)" "c' \<in> set (kids \<tau>)" "kid_service c = kid_service c'" "udp (serv_arr \<tau> ! kid_service c)" for c c'
  proof -
    have "0 < kid_pid c" "0 < kid_pid c'" using i c(1,2) by (auto simp: inetd_inv_def pids_ok_def)
    moreover have "child_pid (serv_arr \<tau> ! kid_service c) = 0" if "lpc \<tau> = L_store (kid_service c) p" for p
      using i that by (simp add: inetd_inv_def)
    moreover have "child_pid (serv_arr \<tau> ! kid_service c) = kid_pid c \<or> lpc \<tau> = L_store (kid_service c) (kid_pid c)"
      "child_pid (serv_arr \<tau> ! kid_service c) = kid_pid c' \<or> lpc \<tau> = L_store (kid_service c) (kid_pid c')"
      using i c by (auto simp: inetd_inv_def kids_ok_def)
    ultimately have "kid_pid c = kid_pid c'" by (elim disjE) auto
    then show ?thesis using i c(1,2) by (auto simp: inetd_inv_def pids_ok_def distinct_map dest: inj_onD)
  qed
  then show ?thesis using i by (auto simp: udp_def inetd_inv_def busy_def)
qed

text \<open>A run for the witnesses: sockets 4 to 7, a datagram at the echo service, its server forked.\<close>

definition demo :: inetd where
  "demo = \<lparr>serv_arr = map2 (\<lambda>s i. s\<lparr>sockfd := i\<rparr>) init_services [4, 5, 6, 7], read_sockfds = (\<lambda>fd. 4 \<le> fd \<and> fd \<le> 7),
     udp_select_conn = 0, lpc = L_select, cwd = ''/srv'', logged = [], waiting = (\<lambda>_. 0), kids = [], zombies = [],
     sigchld = False, next_pid = 100, next_conn = 8\<rparr>"

lemma demo_started: "inetd_started \<lparr>next_fd = 4, fd_limit = 64, bound = [], listening = []\<rparr> demo"
  by (simp add: inetd_started_def demo_def init_services_def sys_socket_def sys_bind_def sys_listen_def fun_eq_iff)

lemmas demo_run = demo_def init_services_def inetd_event_def inetd_main_def select_step_def scan_step_def fork_step_def
  store_step_def Let_def numeral_eq_Suc sig_child_def slot_of_def fresh_pid_def

theorem inetd_runs_one_datagram_server_witness:
  "udp_select_conn (fold inetd_event [Arrives 5, Loop None, Loop None, Loop None, Loop None, Loop None] demo) = 0"
  using inetd_runs_one_datagram_server [OF demo_started, of "[Arrives 5, Loop None, Loop None, Loop None, Loop None, Loop None]"]
  by (simp add: demo_run)

definition lost :: "nat \<Rightarrow> int \<Rightarrow> inetd \<Rightarrow> bool" where
  "lost i p \<sigma> \<longleftrightarrow> p \<notin> kid_pid ` set (kids \<sigma>) \<union> set (zombies \<sigma>) \<and> 0 < p \<and>
     i < length (serv_arr \<sigma>) \<and> udp (serv_arr \<sigma> ! i) \<and> (child_pid (serv_arr \<sigma> ! i) = p \<or> lpc \<sigma> = L_store i p)"

lemma lost_no_kid:
  assumes "inetd_inv \<sigma>" "lost i p \<sigma>" "c \<in> set (kids \<sigma>)"
  shows "kid_service c \<noteq> i"
proof
  assume s: "kid_service c = i"
  have "0 < kid_pid c" "kid_pid c \<noteq> p" using assms by (auto simp: inetd_inv_def pids_ok_def lost_def)
  moreover have "child_pid (serv_arr \<sigma> ! i) = kid_pid c \<or> lpc \<sigma> = L_store i (kid_pid c)"
    using assms s by (auto simp: inetd_inv_def kids_ok_def lost_def)
  moreover have "child_pid (serv_arr \<sigma> ! i) = 0" if "lpc \<sigma> = L_store i q" for q
    using assms(1) that by (simp add: inetd_inv_def)
  ultimately show False using assms(2) by (auto simp: lost_def)
qed

lemma lost_main:
  assumes "inetd_inv \<sigma>" "lost i p \<sigma>" "p \<notin> kid_pid ` set (kids (inetd_main fail \<sigma>))"
  shows "lost i p (inetd_main fail \<sigma>)"
proof (cases "lpc \<sigma>")
  case (L_store j q)
  then have "child_pid (serv_arr \<sigma> ! j) = 0" using assms(1) by (simp add: inetd_inv_def)
  then show ?thesis
    using assms(2) L_store by (auto simp: inetd_main_def store_step_def lost_def nth_child)
next
  case (L_fork j fd)
  then show ?thesis
    using assms(2,3) by (auto simp: inetd_main_def fork_step_def give_up_def lost_def Let_def split: option.splits)
qed (use assms(2) in \<open>auto simp: inetd_main_def select_step_def scan_step_def accept_step_def reset_step_def
       clear_step_def give_up_def lost_def Let_def split: option.split errno.split\<close>)

lemma lost_signal:
  assumes "lost i p \<sigma>"
  shows "lost i p (sig_child \<sigma>)"
proof (cases "zombies \<sigma>")
  case (Cons q zs)
  show ?thesis
  proof (cases "slot_of q (serv_arr \<sigma>)")
    case (Some j)
    then have "child_pid (serv_arr \<sigma> ! j) = q" "q \<noteq> p" using slot_of_Some assms Cons by (auto simp: lost_def)
    then show ?thesis using assms Cons Some by (auto simp: sig_child_def lost_def nth_child)
  qed (use assms Cons in \<open>auto simp: sig_child_def lost_def\<close>)
qed (use assms in \<open>simp add: sig_child_def\<close>)

lemma lost_event:
  assumes "inetd_inv \<sigma>" "lost i p \<sigma>" "p \<notin> kid_pid ` set (kids (inetd_event ev \<sigma>))"
  shows "lost i p (inetd_event ev \<sigma>)"
proof (cases ev)
  case Signal
  have "lost i p (\<sigma>\<lparr>sigchld := False\<rparr>)" using assms(2) by (simp add: lost_def)
  then show ?thesis using Signal lost_signal assms(2) by (simp add: inetd_event_def)
next
  case (Loop fail)
  then show ?thesis using lost_main [OF assms(1,2), of fail] assms(3) by (simp add: inetd_event_def)
qed (use assms(2) in \<open>auto simp: inetd_event_def lost_def\<close>)

text \<open>No child has the identifier \<open>p\<close> at any time of a run.\<close>

fun unused :: "int \<Rightarrow> event list \<Rightarrow> inetd \<Rightarrow> bool" where
  "unused p [] \<sigma> \<longleftrightarrow> p \<notin> kid_pid ` set (kids \<sigma>)"
| "unused p (ev # evs) \<sigma> \<longleftrightarrow> p \<notin> kid_pid ` set (kids \<sigma>) \<and> unused p evs (inetd_event ev \<sigma>)"

lemma unused_now: "unused p evs \<sigma> \<Longrightarrow> p \<notin> kid_pid ` set (kids \<sigma>)"
  by (cases evs) simp_all

lemma lost_run:
  "inetd_inv \<sigma> \<Longrightarrow> lost i p \<sigma> \<Longrightarrow> unused p evs \<sigma> \<Longrightarrow> lost i p (fold inetd_event evs \<sigma>)"
proof (induction evs arbitrary: \<sigma>)
  case (Cons ev evs)
  have "p \<notin> kid_pid ` set (kids (inetd_event ev \<sigma>))" using Cons.prems(3) unused_now [of p evs] by simp
  then show ?case using Cons.IH [OF inetd_event_inv lost_event] Cons.prems by simp
qed simp

text \<open>An identifier that is given a second time can bring the service back: the handler takes the child that has
  ended for the lost server.\<close>

lemma sig_child_stale:
  "lost i p \<sigma> \<Longrightarrow> slot_of p (serv_arr \<sigma>) = Some i \<Longrightarrow>
     child_pid (serv_arr (sig_child (\<sigma>\<lparr>zombies := [p]\<rparr>)) ! i) = 0 \<and>
     read_sockfds (sig_child (\<sigma>\<lparr>zombies := [p]\<rparr>)) (sockfd (serv_arr \<sigma> ! i))"
  by (simp add: sig_child_def lost_def)

text \<open>C35: a datagram service can be lost: if its server ends, and the signal is handled, before the loop has
  stored the server's process identifier, the identifier that is stored later belongs to no process.  From then on,
  whatever connects, ends, fails or is signalled, the service has no server, as long as the kernel does not give that same
  identifier to a later child of \<open>inetd\<close>.\<close>
theorem inetd_can_lose_a_datagram_service:
  fixes evs' :: "event list"
  assumes "inetd_started k \<sigma>0" "\<sigma> = fold inetd_event evs \<sigma>0" "lpc \<sigma> = L_store i p" "zombies \<sigma> = []"
    and "p \<in> kid_pid ` set (kids \<sigma>)" "unused p evs' (fold inetd_event [Ends p, Signal] \<sigma>)"
  shows "\<forall>c \<in> set (kids (fold inetd_event ([Ends p, Signal] @ evs') \<sigma>)). kid_service c \<noteq> i"
proof -
  have i: "inetd_inv \<sigma>" using inetd_run_inv [OF started_inv [OF assms(1)]] assms(2) by simp
  have s: "i < length (serv_arr \<sigma>)" "udp (serv_arr \<sigma> ! i)" "child_pid (serv_arr \<sigma> ! i) = 0" "0 < p"
    using i assms(3) by (simp_all add: inetd_inv_def)
  let ?\<tau> = "fold inetd_event [Ends p, Signal] \<sigma>"
  have "lost i p ?\<tau>"
  proof (cases "slot_of p (serv_arr \<sigma>)")
    case None
    then show ?thesis using assms(3-5) s by (auto simp: inetd_event_def sig_child_def lost_def)
  next
    case (Some j)
    then have "j \<noteq> i" using slot_of_Some s(3,4) by force
    then show ?thesis using Some assms(3-5) s by (auto simp: inetd_event_def sig_child_def lost_def nth_child)
  qed
  moreover have "inetd_inv ?\<tau>" by (rule inetd_run_inv [OF i])
  ultimately have "lost i p (fold inetd_event evs' ?\<tau>)" "inetd_inv (fold inetd_event evs' ?\<tau>)"
    using lost_run assms(6) inetd_run_inv by blast+
  then show ?thesis using lost_no_kid by fastforce
qed

theorem inetd_can_lose_a_datagram_service_witness:
  "kids (fold inetd_event ([Ends 100, Signal] @ replicate 20 (Loop None)) (fold inetd_event (Arrives 5 # replicate 4 (Loop None)) demo)) = [] \<and>
   waiting (fold inetd_event (Arrives 5 # replicate 4 (Loop None)) demo) 5 = 1"
proof -
  let ?\<sigma> = "fold inetd_event (Arrives 5 # replicate 4 (Loop None)) demo"
  have s: "lpc ?\<sigma> = L_store 1 100" "zombies ?\<sigma> = []" "100 \<in> kid_pid ` set (kids ?\<sigma>)" "waiting ?\<sigma> 5 = 1"
    by (simp_all add: demo_run)
  have "\<forall>c \<in> set (kids (fold inetd_event ([Ends 100, Signal] @ replicate 20 (Loop None)) ?\<sigma>)). kid_service c \<noteq> 1"
    by (rule inetd_can_lose_a_datagram_service [OF demo_started refl s(1-3)])
      (simp add: demo_run reset_step_def clear_step_def)
  moreover have "kids (fold inetd_event ([Ends 100, Signal] @ replicate 20 (Loop None)) ?\<sigma>) = []"
    by (simp add: demo_run reset_step_def clear_step_def)
  ultimately show ?thesis using s(4) by blast
qed













end
