(* ===== verification/Err_Routine.thy ===== *)
theory Err_Routine
  imports C_Library
begin

text \<open>
  The error routines \<open>err_routine.c\<close>.  The version of the programs of chapter 3 builds the text of
  the system error in the array \<open>emesgstr\<close> and never prints it; the version of
  \<open>7.passing_file_descriptor\<close>, compiled for a client, prints it.  The formatted message and the
  table of error texts are arguments.
\<close>

text \<open>\<open>sys_err_str\<close>; \<open>errlist\<close> is \<open>sys_errlist\<close>, with a text
  for the numbers from 1 below \<open>sys_nerr\<close>; no text fills the 200 bytes of \<open>msgstr\<close>.\<close>

definition sys_err_str :: "(int \<Rightarrow> byte list option) \<Rightarrow> int \<Rightarrow> byte list" where
  "sys_err_str errlist errno =
     (if errno \<noteq> 0
      then (case (if 0 < errno then errlist errno else None) of
              Some s \<Rightarrow> ''('' @ s @ '')''
            | None \<Rightarrow> ''(errno = '' @ show_int errno @ '')'')
      else [])"

definition err_prefix :: "byte list option \<Rightarrow> byte list" where
  "err_prefix pname = (case pname of None \<Rightarrow> [] | Some p \<Rightarrow> p @ '': '')"

section \<open>Chapter 3\<close>

record err_state =
  pname :: "byte list option"
  stderr_out :: "byte list"
  emesgstr :: "byte list"       \<comment> \<open>255 bytes\<close>

definition err_sys :: "byte list \<Rightarrow> err_state \<Rightarrow> int outcome \<times> err_state" where
  "err_sys msg \<sigma> = (Exited EXIT_FAILURE, \<sigma>\<lparr>stderr_out := stderr_out \<sigma> @ err_prefix (pname \<sigma>) @ msg\<rparr>)"

text \<open>\<open>sprintf\<close> behind the text already there; \<open>None\<close> when it would write past the array.\<close>

definition my_perror :: "(int \<Rightarrow> byte list option) \<Rightarrow> int \<Rightarrow> err_state \<Rightarrow> err_state option" where
  "my_perror errlist errno \<sigma> =
     (let len = strlen (emesgstr \<sigma>); s = '' '' @ sys_err_str errlist errno
      in if len + length s < length (emesgstr \<sigma>)
         then Some (\<sigma>\<lparr>emesgstr := poke (emesgstr \<sigma>) len (s @ [NUL])\<rparr>) else None)"

definition err_ret :: "(int \<Rightarrow> byte list option) \<Rightarrow> int \<Rightarrow> byte list \<Rightarrow> err_state \<Rightarrow> err_state option" where
  "err_ret errlist errno msg \<sigma> =
     my_perror errlist errno (\<sigma>\<lparr>stderr_out := stderr_out \<sigma> @ err_prefix (pname \<sigma>) @ msg\<rparr>)"

definition err_dump :: "(int \<Rightarrow> byte list option) \<Rightarrow> int \<Rightarrow> byte list \<Rightarrow> err_state \<Rightarrow> (int outcome \<times> err_state) option" where
  "err_dump errlist errno msg \<sigma> =
     (case my_perror errlist errno (\<sigma>\<lparr>stderr_out := stderr_out \<sigma> @ err_prefix (pname \<sigma>) @ msg\<rparr>) of
        None \<Rightarrow> None
      | Some \<sigma> \<Rightarrow> Some (Aborted, \<sigma>))"

text \<open>A run of \<open>err_ret\<close> calls.\<close>

fun err_rets :: "(int \<Rightarrow> byte list option) \<Rightarrow> (int \<times> byte list) list \<Rightarrow> err_state \<Rightarrow> err_state option" where
  "err_rets errlist [] \<sigma> = Some \<sigma>"
| "err_rets errlist ((e, msg) # es) \<sigma> =
     (case err_ret errlist e msg \<sigma> of None \<Rightarrow> None | Some \<sigma> \<Rightarrow> err_rets errlist es \<sigma>)"

definition err_text :: "(int \<Rightarrow> byte list option) \<Rightarrow> (int \<times> byte list) list \<Rightarrow> byte list" where
  "err_text errlist es = concat (map (\<lambda>(e, msg). '' '' @ sys_err_str errlist e) es)"

lemma sys_err_str_no_NUL:
  assumes "\<forall>i s. errlist i = Some s \<longrightarrow> NUL \<notin> set s"
  shows "NUL \<notin> set (sys_err_str errlist e)"
proof -
  have d: "NUL \<notin> set (show_nat n)" for n
    using show_nat_digits [of NUL n] by (auto simp: is_digit_def)
  have "NUL \<notin> set (show_int e)" using d by (auto simp: show_int_def)
  moreover have "NUL \<notin> set s" if "(if 0 < e then errlist e else None) = Some s" for s
    using assms that by (auto split: if_splits)
  ultimately show ?thesis by (auto simp: sys_err_str_def split: option.split)
qed

lemma err_rets_text:
  assumes "\<forall>i s. errlist i = Some s \<longrightarrow> NUL \<notin> set s"
    and "NUL \<notin> set t" "emesgstr \<sigma> = t @ NUL # junk" "length (emesgstr \<sigma>) = 255"
  shows "(case err_rets errlist es \<sigma> of
       None \<Rightarrow> 255 \<le> length t + length (err_text errlist es)
     | Some \<tau> \<Rightarrow> length t + length (err_text errlist es) < 255 \<and> cstr (emesgstr \<tau>) = t @ err_text errlist es \<and>
         pname \<tau> = pname \<sigma> \<and> stderr_out \<tau> = stderr_out \<sigma> @ concat (map (\<lambda>(e, msg). err_prefix (pname \<sigma>) @ msg) es))"
  using assms(2-4)
proof (induction es arbitrary: \<sigma> t junk)
  case Nil
  then show ?case by (simp add: err_text_def)
next
  case (Cons em es)
  obtain e msg where em: "em = (e, msg)" by (cases em)
  define s where "s = '' '' @ sys_err_str errlist e"
  have s: "NUL \<notin> set s" using sys_err_str_no_NUL [OF assms(1)] by (simp add: s_def)
  have tx: "err_text errlist (em # es) = s @ err_text errlist es" by (simp add: err_text_def em s_def)
  show ?case
  proof (cases "length t + length s < 255")
    case True
    define \<tau> where "\<tau> = \<sigma>\<lparr>stderr_out := stderr_out \<sigma> @ err_prefix (pname \<sigma>) @ msg, emesgstr := (t @ s) @ NUL # drop (length s) junk\<rparr>"
    have "poke (emesgstr \<sigma>) (length t) (s @ [NUL]) = (t @ s) @ NUL # drop (length s) junk"
      using True Cons.prems by (simp add: poke_eq)
    then have r: "err_ret errlist e msg \<sigma> = Some \<tau>"
      using True Cons.prems by (simp add: err_ret_def my_perror_def Let_def \<tau>_def s_def)
    have l: "length (emesgstr \<tau>) = 255" using True Cons.prems by (simp add: \<tau>_def)
    have e: "emesgstr \<tau> = (t @ s) @ NUL # drop (length s) junk" "pname \<tau> = pname \<sigma>"
      "stderr_out \<tau> = stderr_out \<sigma> @ err_prefix (pname \<sigma>) @ msg" by (simp_all add: \<tau>_def)
    have n: "NUL \<notin> set (t @ s)" using s Cons.prems(1) by simp
    have q: "err_rets errlist (em # es) \<sigma> = err_rets errlist es \<tau>" by (simp add: em r)
    show ?thesis
      using Cons.IH [OF n e(1) l] unfolding q tx by (cases "err_rets errlist es \<tau>") (simp_all add: e em)
  next
    case False
    then have "err_ret errlist e msg \<sigma> = None"
      using Cons.prems by (simp add: err_ret_def my_perror_def Let_def s_def)
    then show ?thesis using False unfolding tx by (simp add: em)
  qed
qed

text \<open>What the error routines of chapter 3 do with the reason of a failure: a run of \<open>err_ret\<close> calls
  prints the messages alone, the texts of the system errors are only collected in \<open>emesgstr\<close>,
  which nothing clears, and exactly when their total reaches the 255 bytes of that array a call
  writes past its end.\<close>
theorem err_ret_never_reports_the_reason:
  assumes "\<forall>i s. errlist i = Some s \<longrightarrow> NUL \<notin> set s"
    and "emesgstr \<sigma> = replicate 255 NUL"
  shows "(err_rets errlist es \<sigma> = None \<longleftrightarrow> 255 \<le> length (concat (map (\<lambda>(e, msg). '' '' @ sys_err_str errlist e) es))) \<and>
     (\<forall>\<tau>. err_rets errlist es \<sigma> = Some \<tau> \<longrightarrow>
        stderr_out \<tau> = stderr_out \<sigma> @ concat (map (\<lambda>(e, msg). err_prefix (pname \<sigma>) @ msg) es) \<and>
        cstr (emesgstr \<tau>) = concat (map (\<lambda>(e, msg). '' '' @ sys_err_str errlist e) es))"
proof -
  have "emesgstr \<sigma> = [] @ NUL # replicate 254 NUL"
    unfolding assms(2) append_Nil by (simp only: replicate_Suc [symmetric] eval_nat_numeral BitM.simps)
  from err_rets_text [of errlist "[]" \<sigma> "replicate 254 NUL" es, OF assms(1) _ this] assms(2)
  show ?thesis by (simp add: err_text_def split: option.splits)
qed

theorem err_ret_never_reports_the_reason_witness:
  "err_rets (\<lambda>i. if i = 2 then Some ''No such file or directory'' else None) (replicate 10 (2, ''can't open''))
     \<lparr>pname = Some ''./a.out'', stderr_out = [], emesgstr = replicate 255 NUL\<rparr> = None"
proof -
  let ?l = "\<lambda>i. if i = 2 then Some ''No such file or directory'' else None"
  have "\<forall>i s. ?l i = Some s \<longrightarrow> NUL \<notin> set s" by (auto split: if_splits)
  moreover have "sys_err_str ?l 2 = ''(No such file or directory)''" by (simp add: sys_err_str_def)
  ultimately show ?thesis
    using err_ret_never_reports_the_reason [of ?l "\<lparr>pname = Some ''./a.out'', stderr_out = [], emesgstr = replicate 255 NUL\<rparr>"
        "replicate 10 (2, ''can't open'')"]
    by (simp add: length_concat sum_list_replicate)
qed

end
