(* ===== verification/Pass_Fd.thy ===== *)
theory Pass_Fd
  imports Err_Routine
begin

text \<open>
  \<open>7.passing_file_descriptor\<close>: \<open>mycat\<close> opens its files through \<open>my_open\<close>, which starts the program
  \<open>openfile\<close> in a child; the child opens the file and passes the descriptor back over a socket pair
  as the control part of a message without data.  The parent waits for the child before it reads
  the message, so the calls form one sequence.
\<close>

section \<open>The system\<close>

text \<open>What a descriptor refers to: an open file (an index of the table of open files), an end of the
  socket pair, the standard output.\<close>

datatype obj = Desc nat | End bool | Std_out

text \<open>An open file: the bytes from its offset on, and the error that reading ends in, if any.\<close>

record open_file =
  left :: "byte list"
  fault :: "int option"

text \<open>The choices of the environment.  \<open>opens\<close> is the result of opening a path, with \<open>errno\<close> on the
  left; \<open>carries_empty\<close> tells whether the system delivers the control part of a message without data.\<close>

record world =
  opens :: "byte list \<Rightarrow> int \<Rightarrow> int + open_file"
  errlist :: "int \<Rightarrow> byte list option"
  fork_err :: "int option"
  exec_err :: "int option"
  killed :: int                 \<comment> \<open>the low 8 bits of the status of the child, 0 when it exits\<close>
  carries_empty :: bool
  send_err :: "int option"
  recv_err :: "int option"

record sys =
  table :: "nat \<Rightarrow> obj option"   \<comment> \<open>of the process \<open>mycat\<close>\<close>
  nofile :: nat
  open_files :: "nat \<Rightarrow> open_file"
  next_file :: nat
  errnum :: int                 \<comment> \<open>its \<open>errno\<close>\<close>
  room :: "nat option"          \<comment> \<open>what the standard output still takes\<close>
  out :: "byte list"
  err :: "byte list"

definition EBADF_no :: int where "EBADF_no = 9"
definition EMFILE_no :: int where "EMFILE_no = 24"
definition ENOTSOCK_no :: int where "ENOTSOCK_no = 88"

text \<open>\<open>socketpair\<close>: two descriptors, the lowest free ones.\<close>

definition s_pipe :: "sys \<Rightarrow> (nat \<times> nat) option \<times> sys" where
  "s_pipe \<sigma> =
     (case lowest_free (nofile \<sigma>) (table \<sigma>) of
        None \<Rightarrow> (None, \<sigma>\<lparr>errnum := EMFILE_no\<rparr>)
      | Some a \<Rightarrow>
          (case lowest_free (nofile \<sigma>) ((table \<sigma>)(a := Some (End False))) of
             None \<Rightarrow> (None, \<sigma>\<lparr>errnum := EMFILE_no\<rparr>)
           | Some b \<Rightarrow> (Some (a, b), \<sigma>\<lparr>table := (table \<sigma>)(a := Some (End False), b := Some (End True))\<rparr>)))"

section \<open>Passing a descriptor\<close>

text \<open>In the child: its table, and the open files under way in the socket pair.  An error number that
  is not positive becomes 255.\<close>

definition errno_status :: "int \<Rightarrow> int" where
  "errno_status e = (if 0 < e then e else 255)"

definition my_sendfile :: "world \<Rightarrow> nat \<Rightarrow> nat \<Rightarrow> (nat \<Rightarrow> obj option) \<Rightarrow> obj list \<Rightarrow> int \<times> obj list" where
  "my_sendfile w sockfd fd tab queue =
     (case send_err w of
        Some e \<Rightarrow> (errno_status e, queue)
      | None \<Rightarrow>
          (case (tab sockfd, tab fd) of
             (Some (End _), Some x) \<Rightarrow> (0, if carries_empty w then queue @ [x] else queue)
           | (Some _, Some _) \<Rightarrow> (ENOTSOCK_no, queue)
           | _ \<Rightarrow> (EBADF_no, queue)))"

text \<open>In the parent, when the other end is closed: the control part is missing if nothing was passed
  (or no descriptor is free).\<close>

definition my_recvfile :: "world \<Rightarrow> obj list \<Rightarrow> sys \<Rightarrow> int outcome \<times> sys" where
  "my_recvfile w queue \<sigma> =
     (case recv_err w of
        Some e \<Rightarrow> (Returned (errno_status e), \<sigma>\<lparr>errnum := e\<rparr>)
      | None \<Rightarrow>
          (case (queue, lowest_free (nofile \<sigma>) (table \<sigma>)) of
             (x # _, Some fd) \<Rightarrow> (Returned (int fd), \<sigma>\<lparr>table := (table \<sigma>)(fd := Some x)\<rparr>)
           | _ \<Rightarrow> (Exited EXIT_FAILURE, \<sigma>\<lparr>err := err \<sigma> @ ''Invalid control messsage''\<rparr>)))"

text \<open>\<open>atoi\<close>, and \<open>snprintf\<close> with \<open>%d\<close> into 10 bytes.\<close>

definition atoi :: "byte list \<Rightarrow> int" where
  "atoi s = (case scan_d s of None \<Rightarrow> 0 | Some i \<Rightarrow> i)"

definition arg_int :: "int \<Rightarrow> byte list" where
  "arg_int i = take 9 (show_int i)"

text \<open>What the child leaves behind: its exit status, what it sent, the file it opened, what it wrote on
  standard error.\<close>

record leavings =
  status :: int
  queue :: "obj list"
  opened :: "open_file option"
  said :: "byte list"

text \<open>The program \<open>openfile\<close>.  The open file becomes number \<open>k\<close> of the system's table.\<close>

definition openfile_main :: "world \<Rightarrow> byte list list \<Rightarrow> nat \<Rightarrow> nat \<Rightarrow> (nat \<Rightarrow> obj option) \<Rightarrow> leavings" where
  "openfile_main w argv n k tab =
     (if length argv \<noteq> 4
      then \<lparr>status = 1, queue = [], opened = None,
             said = err_prefix (Some (hd argv)) @ ''./openfile <sockfd#> <filename> <mode>'' @ [NL]\<rparr>
      else (case opens w (argv ! 2) (atoi (argv ! 3)) of
              Inl e \<Rightarrow> \<lparr>status = errno_status e, queue = [], opened = None, said = []\<rparr>
            | Inr f \<Rightarrow>
                (case lowest_free n tab of
                   None \<Rightarrow> \<lparr>status = EMFILE_no, queue = [], opened = None, said = []\<rparr>
                 | Some fd \<Rightarrow>
                     (case my_sendfile w (nat (atoi (argv ! 1))) fd (tab(fd := Some (Desc k))) [] of
                        (s, q) \<Rightarrow> \<lparr>status = s, queue = q, opened = Some f, said = []\<rparr>))))"

text \<open>The messages of \<open>err_sys\<close>, \<open>err_dump\<close> and \<open>err_ret\<close> of a client, which print the reason.\<close>

definition err_msg :: "world \<Rightarrow> byte list \<Rightarrow> byte list \<Rightarrow> int \<Rightarrow> byte list" where
  "err_msg w prog msg e = err_prefix (Some prog) @ msg @ '' '' @ sys_err_str (errlist w) e @ [NL]"

definition err_print :: "world \<Rightarrow> byte list \<Rightarrow> byte list \<Rightarrow> sys \<Rightarrow> sys" where
  "err_print w prog msg \<sigma> = \<sigma>\<lparr>err := err \<sigma> @ err_msg w prog msg (errnum \<sigma>)\<rparr>"

text \<open>The child from \<open>fork\<close> to its end.\<close>

definition open_child :: "world \<Rightarrow> byte list \<Rightarrow> byte list \<Rightarrow> int \<Rightarrow> nat \<Rightarrow> nat \<Rightarrow> sys \<Rightarrow> leavings" where
  "open_child w prog filename mode a b \<sigma> =
     (case exec_err w of
        None \<Rightarrow> openfile_main w [''./openfile'', arg_int (int b), filename, arg_int mode] (nofile \<sigma>) (next_file \<sigma>)
                  ((table \<sigma>)(a := None))
      | Some e \<Rightarrow> \<lparr>status = 1, queue = [], opened = None, said = err_msg w prog ''can't execl'' e\<rparr>)"

definition my_open :: "world \<Rightarrow> byte list \<Rightarrow> byte list \<Rightarrow> int \<Rightarrow> sys \<Rightarrow> int outcome \<times> sys" where
  "my_open w prog filename mode \<sigma> =
     (case s_pipe \<sigma> of
        (None, \<sigma>) \<Rightarrow> (Returned (- 1), \<sigma>)
      | (Some (a, b), \<sigma>) \<Rightarrow>
          (case fork_err w of
             Some e \<Rightarrow> (Exited 1, err_print w prog ''can't fork'' (\<sigma>\<lparr>errnum := e\<rparr>))
           | None \<Rightarrow>
               (let c = open_child w prog filename mode a b \<sigma>;
                    \<sigma> = \<sigma>\<lparr>table := (table \<sigma>)(b := None), err := err \<sigma> @ said c\<rparr>;
                    \<sigma> = (case opened c of None \<Rightarrow> \<sigma>
                         | Some x \<Rightarrow> \<sigma>\<lparr>open_files := (open_files \<sigma>)(next_file \<sigma> := x), next_file := next_file \<sigma> + 1\<rparr>);
                    st = (if killed w = 0 then status c mod 256 * 256 else killed w)
                in if st mod 256 \<noteq> 0 then (Aborted, err_print w prog ''child did not exist'' \<sigma>)
                   else if st div 256 mod 256 = 0
                   then (case my_recvfile w (queue c) \<sigma> of
                           (Returned fd, \<sigma>) \<Rightarrow> (Returned fd, \<sigma>\<lparr>table := (table \<sigma>)(a := None)\<rparr>)
                         | r \<Rightarrow> r)
                   else (Returned (- 1), \<sigma>\<lparr>errnum := st div 256 mod 256, table := (table \<sigma>)(a := None)\<rparr>))))"

section \<open>mycat\<close>

definition BUFFSIZE :: nat where "BUFFSIZE = 4096"

definition sys_read :: "nat \<Rightarrow> nat \<Rightarrow> sys \<Rightarrow> byte list option \<times> sys" where
  "sys_read fd n \<sigma> =
     (case table \<sigma> fd of
        Some (Desc d) \<Rightarrow>
          (let f = open_files \<sigma> d
           in if left f = [] then (case fault f of None \<Rightarrow> (Some [], \<sigma>) | Some e \<Rightarrow> (None, \<sigma>\<lparr>errnum := e\<rparr>))
              else (Some (take n (left f)), \<sigma>\<lparr>open_files := (open_files \<sigma>)(d := f\<lparr>left := drop n (left f)\<rparr>)\<rparr>))
      | _ \<Rightarrow> (None, \<sigma>\<lparr>errnum := EBADF_no\<rparr>))"

definition sys_write :: "nat \<Rightarrow> byte list \<Rightarrow> sys \<Rightarrow> int \<times> sys" where
  "sys_write fd xs \<sigma> =
     (if table \<sigma> fd = Some Std_out
      then (case room \<sigma> of
              None \<Rightarrow> (int (length xs), \<sigma>\<lparr>out := out \<sigma> @ xs\<rparr>)
            | Some m \<Rightarrow> (int (min m (length xs)), \<sigma>\<lparr>out := out \<sigma> @ take m xs, room := Some (m - length xs)\<rparr>))
      else (- 1, \<sigma>\<lparr>errnum := EBADF_no\<rparr>))"

definition pending :: "nat \<Rightarrow> sys \<Rightarrow> nat" where
  "pending fd \<sigma> = (case table \<sigma> fd of Some (Desc d) \<Rightarrow> length (left (open_files \<sigma> d)) | _ \<Rightarrow> 0)"

function copy_fd :: "world \<Rightarrow> byte list \<Rightarrow> nat \<Rightarrow> sys \<Rightarrow> unit outcome \<times> sys" where
  "copy_fd w prog fd \<sigma> =
     (case sys_read fd BUFFSIZE \<sigma> of
        (None, \<sigma>') \<Rightarrow> (Exited 1, err_print w prog (''read error'' @ [NL]) \<sigma>')
      | (Some buff, \<sigma>') \<Rightarrow>
          if buff = [] then (Returned (), \<sigma>')
          else (case sys_write 1 buff \<sigma>' of
                  (n, \<sigma>'') \<Rightarrow>
                    if n \<noteq> int (length buff) then (Exited 1, err_print w prog (''write error'' @ [NL]) \<sigma>'')
                    else copy_fd w prog fd \<sigma>''))"
  by pat_completeness auto

lemma sys_write_same [simp]:
  "table (snd (sys_write fd xs \<sigma>)) = table \<sigma>" "open_files (snd (sys_write fd xs \<sigma>)) = open_files \<sigma>"
  by (simp_all add: sys_write_def split: option.split)

lemma sys_read_shrinks:
  assumes "sys_read fd BUFFSIZE \<sigma> = (Some buff, \<sigma>')" "buff \<noteq> []"
  shows "pending fd \<sigma>' < pending fd \<sigma>"
  using assms by (auto simp: sys_read_def pending_def BUFFSIZE_def Let_def split: option.splits obj.splits if_splits)

lemma sys_write_pending: "sys_write fd' xs \<sigma> = (n, \<sigma>') \<Longrightarrow> pending fd \<sigma>' = pending fd \<sigma>"
  using sys_write_same [of fd' xs \<sigma>] by (simp only: pending_def snd_conv)

termination copy_fd
  by (relation "measure (\<lambda>(w, p, fd, \<sigma>). pending fd \<sigma>)")
    (simp_all add: sys_write_pending [OF sym] sys_read_shrinks [OF sym])

declare copy_fd.simps [simp del]

fun mycat_files :: "world \<Rightarrow> byte list \<Rightarrow> byte list list \<Rightarrow> sys \<Rightarrow> unit outcome \<times> sys" where
  "mycat_files w prog [] \<sigma> = (Returned (), \<sigma>)"
| "mycat_files w prog (f # fs) \<sigma> =
     (case my_open w prog f 0 \<sigma> of
        (Returned fd, \<sigma>) \<Rightarrow>
          if fd < 0 then mycat_files w prog fs (err_print w prog (''can't open '' @ f @ [NL]) \<sigma>)
          else (case copy_fd w prog (nat fd) \<sigma> of
                  (Returned _, \<sigma>) \<Rightarrow> mycat_files w prog fs \<sigma>
                | r \<Rightarrow> r)
      | (Exited c, \<sigma>) \<Rightarrow> (Exited c, \<sigma>)
      | (Aborted, \<sigma>) \<Rightarrow> (Aborted, \<sigma>)
      | (Running, \<sigma>) \<Rightarrow> (Running, \<sigma>))"

definition mycat_main :: "world \<Rightarrow> byte list list \<Rightarrow> sys \<Rightarrow> unit outcome \<times> sys" where
  "mycat_main w argv \<sigma> =
     (case (if tl argv = [] then copy_fd w (hd argv) 0 \<sigma> else mycat_files w (hd argv) (tl argv) \<sigma>) of
        (Returned _, \<sigma>) \<Rightarrow> (Exited EXIT_SUCCESS, \<sigma>)
      | r \<Rightarrow> r)"

section \<open>What my_open does\<close>

lemma arg_int_atoi:
  assumes "0 \<le> i" "i < 10 ^ 9"
  shows "atoi (arg_int i) = i"
proof -
  have "length (show_nat (nat i)) \<le> 9" using length_show_nat [of "nat i" 9] assms by (simp add: nat_less_iff)
  then have "arg_int i = show_nat (nat i)" using assms(1) by (simp add: arg_int_def show_int_def)
  moreover have "scan_d (show_nat (nat i) @ []) = Some (int (digits_val (show_nat (nat i))))"
    by (rule scan_d_digits) (auto dest: show_nat_digits)
  ultimately show ?thesis using assms(1) by (simp add: atoi_def)
qed

text \<open>The two lowest free descriptors.\<close>

definition free_pair :: "nat \<Rightarrow> nat \<Rightarrow> sys \<Rightarrow> bool" where
  "free_pair a b \<sigma> \<longleftrightarrow> a < b \<and> b < nofile \<sigma> \<and> table \<sigma> a = None \<and> table \<sigma> b = None \<and>
     (\<forall>i < b. i \<noteq> a \<longrightarrow> table \<sigma> i \<noteq> None)"

lemma s_pipe_pair:
  assumes "free_pair a b \<sigma>"
  shows "s_pipe \<sigma> = (Some (a, b), \<sigma>\<lparr>table := (table \<sigma>)(a := Some (End False), b := Some (End True))\<rparr>)"
proof -
  have "lowest_free (nofile \<sigma>) (table \<sigma>) = Some a"
    "lowest_free (nofile \<sigma>) ((table \<sigma>)(a := Some (End False))) = Some b"
    using assms by (auto simp: lowest_free_Some free_pair_def)
  then show ?thesis by (simp add: s_pipe_def)
qed

text \<open>Opening a file in the process itself, on a descriptor given.\<close>

definition open_at :: "world \<Rightarrow> byte list \<Rightarrow> int \<Rightarrow> nat \<Rightarrow> sys \<Rightarrow> int outcome \<times> sys" where
  "open_at w filename mode fd \<sigma> =
     (case opens w filename mode of
        Inl e \<Rightarrow> (Returned (- 1), \<sigma>\<lparr>errnum := e\<rparr>)
      | Inr f \<Rightarrow> (Returned (int fd), \<sigma>\<lparr>table := (table \<sigma>)(fd := Some (Desc (next_file \<sigma>))),
                   open_files := (open_files \<sigma>)(next_file \<sigma> := f), next_file := next_file \<sigma> + 1\<rparr>))"

text \<open>A system on which nothing fails but, perhaps, the opening of files.\<close>

definition smooth :: "world \<Rightarrow> bool" where
  "smooth w \<longleftrightarrow> fork_err w = None \<and> exec_err w = None \<and> killed w = 0 \<and> carries_empty w \<and>
     send_err w = None \<and> recv_err w = None \<and> (\<forall>f m e. opens w f m = Inl e \<longrightarrow> 0 < e \<and> e < 256)"

lemma openfile_runs:
  assumes "free_pair a b \<sigma>" "int b < 10 ^ 9" "0 \<le> mode" "mode < 10 ^ 9" "exec_err w = None" "send_err w = None"
  shows "open_child w prog filename mode a b (\<sigma>\<lparr>table := (table \<sigma>)(a := Some (End False), b := Some (End True))\<rparr>) =
     (case opens w filename mode of
        Inl e \<Rightarrow> \<lparr>status = errno_status e, queue = [], opened = None, said = []\<rparr>
      | Inr f \<Rightarrow> \<lparr>status = 0, queue = (if carries_empty w then [Desc (next_file \<sigma>)] else []), opened = Some f, said = []\<rparr>)"
proof -
  let ?t = "(table \<sigma>)(b := Some (End True), a := None)"
  have e: "((table \<sigma>)(a := Some (End False), b := Some (End True)))(a := None) = ?t"
    using assms(1) by (auto simp: free_pair_def fun_eq_iff)
  have "lowest_free (nofile \<sigma>) ?t = Some a" using assms(1) by (auto simp: lowest_free_Some free_pair_def)
  moreover have "nat (atoi (arg_int (int b))) = b" "atoi (arg_int mode) = mode"
    using assms(2-4) by (simp_all add: arg_int_atoi)
  moreover have "a \<noteq> b" using assms(1) by (simp add: free_pair_def)
  ultimately show ?thesis
    using assms(5,6) by (simp add: open_child_def openfile_main_def e my_sendfile_def numeral_2_eq_2 numeral_3_eq_3 split: sum.split)
qed

lemma my_open_steps:
  assumes "free_pair a b \<sigma>" "int b < 10 ^ 9" "0 \<le> mode" "mode < 10 ^ 9" "smooth w"
  shows "my_open w prog filename mode \<sigma> = open_at w filename mode b \<sigma>"
proof -
  have w: "fork_err w = None" "exec_err w = None" "killed w = 0" "carries_empty w" "send_err w = None" "recv_err w = None"
    "\<And>e. opens w filename mode = Inl e \<Longrightarrow> 0 < e \<and> e < 256"
    using assms(5) by (auto simp: smooth_def)
  have ab: "a \<noteq> b" "table \<sigma> a = None" "table \<sigma> b = None" using assms(1) by (auto simp: free_pair_def)
  have t: "(table \<sigma>)(a := Some (End False), b := None) = (table \<sigma>)(a := Some (End False))"
    "(table \<sigma>)(a := Some (End False), b := None, a := None) = table \<sigma>"
    "(table \<sigma>)(a := None) = table \<sigma>" "(table \<sigma>)(b := None) = table \<sigma>"
    "\<And>x. (table \<sigma>)(a := Some (End False), b := x, a := None) = (table \<sigma>)(b := x)"
    using ab by (auto simp: fun_eq_iff)
  have l: "lowest_free (nofile \<sigma>) ((table \<sigma>)(a := Some (End False))) = Some b"
    using assms(1) by (auto simp: lowest_free_Some free_pair_def)
  note c = openfile_runs [OF assms(1-4) w(2,5), of prog filename]
  show ?thesis
  proof (cases "opens w filename mode")
    case (Inl e)
    then have "errno_status e = e" "e mod 256 = e" using w(7) by (auto simp: errno_status_def)
    then show ?thesis
      using c w Inl by (simp add: my_open_def s_pipe_pair [OF assms(1)] open_at_def Let_def t)
  next
    case (Inr f)
    then show ?thesis
      using c w by (simp add: my_open_def s_pipe_pair [OF assms(1)] open_at_def Let_def my_recvfile_def t l)
  qed
qed

section \<open>Properties\<close>

text \<open>C10: \<open>my_open\<close> is \<open>open\<close>: on a system that delivers the control part of an empty message, for a
  mode of at most nine digits, opening a file through the child has the same result, the same
  \<open>errno\<close> and leaves the same state as opening it in the process itself, on the second lowest free
  descriptor, whose number also fits the argument of the child.\<close>
theorem my_open_is_open:
  assumes "free_pair a b \<sigma>" "int b < 10 ^ 9" "0 \<le> mode" "mode < 10 ^ 9" "smooth w"
  shows "my_open w prog filename mode \<sigma> =
     (case opens w filename mode of
        Inl e \<Rightarrow> (Returned (- 1), \<sigma>\<lparr>errnum := e\<rparr>)
      | Inr f \<Rightarrow> (Returned (int b), \<sigma>\<lparr>table := (table \<sigma>)(b := Some (Desc (next_file \<sigma>))),
                   open_files := (open_files \<sigma>)(next_file \<sigma> := f), next_file := next_file \<sigma> + 1\<rparr>))"
  using my_open_steps [OF assms] by (simp add: open_at_def)

text \<open>A small system: three descriptors are in use, the files are \<open>a\<close> and \<open>b\<close>.\<close>

definition shell_files :: "byte list \<Rightarrow> int \<Rightarrow> int + open_file" where
  "shell_files f m = (if f = ''a'' then Inr \<lparr>left = ''one'', fault = None\<rparr>
     else if f = ''b'' then Inr \<lparr>left = ''two'', fault = None\<rparr> else Inl 2)"

definition shell_world :: world where
  "shell_world = \<lparr>opens = shell_files, errlist = (\<lambda>_. None), fork_err = None, exec_err = None, killed = 0,
     carries_empty = True, send_err = None, recv_err = None\<rparr>"

definition shell_sys :: "nat \<Rightarrow> sys" where
  "shell_sys n = \<lparr>table = (\<lambda>i. if i = 0 then Some (Desc 0) else if i = 1 \<or> i = 2 then Some Std_out else None), nofile = n,
     open_files = (\<lambda>_. \<lparr>left = [], fault = None\<rparr>), next_file = 1, errnum = 0, room = None, out = [], err = []\<rparr>"

lemma shell_smooth: "smooth shell_world"
  by (auto simp: smooth_def shell_world_def shell_files_def split: if_splits)

theorem my_open_is_open_witness:
  "fst (my_open shell_world ''./mycat'' ''b'' 0 (shell_sys 20)) = Returned 4"
  using my_open_is_open [of 3 4 "shell_sys 20" 0 shell_world "''./mycat''" "''b''"] shell_smooth
  by (auto simp: free_pair_def shell_sys_def shell_world_def shell_files_def less_Suc_eq numeral_eq_Suc)

lemma copy_fd_copies:
  assumes "table \<sigma> fd = Some (Desc d)" "table \<sigma> 1 = Some Std_out" "room \<sigma> = None" "fault (open_files \<sigma> d) = None"
  shows "copy_fd w prog fd \<sigma> = (Returned (), \<sigma>\<lparr>out := out \<sigma> @ left (open_files \<sigma> d),
     open_files := (open_files \<sigma>)(d := (open_files \<sigma> d)\<lparr>left := []\<rparr>)\<rparr>)"
  using assms
proof (induction "length (left (open_files \<sigma> d))" arbitrary: \<sigma> rule: less_induct)
  case less
  let ?f = "open_files \<sigma> d"
  show ?case
  proof (cases "left ?f = []")
    case True
    then have f: "?f\<lparr>left := []\<rparr> = ?f" by simp
    have "\<sigma>\<lparr>out := out \<sigma>, open_files := open_files \<sigma>\<rparr> = \<sigma>" by simp
    then show ?thesis
      using less.prems True unfolding f fun_upd_triv by (subst copy_fd.simps) (simp add: sys_read_def Let_def)
  next
    case False
    define \<sigma>1 where "\<sigma>1 = \<sigma>\<lparr>open_files := (open_files \<sigma>)(d := ?f\<lparr>left := drop BUFFSIZE (left ?f)\<rparr>),
      out := out \<sigma> @ take BUFFSIZE (left ?f)\<rparr>"
    have B: "0 < BUFFSIZE" by (simp add: BUFFSIZE_def)
    have "copy_fd w prog fd \<sigma> = copy_fd w prog fd \<sigma>1"
      using less.prems False B by (subst copy_fd.simps) (simp add: sys_read_def sys_write_def Let_def \<sigma>1_def)
    also have "\<dots> = (Returned (), \<sigma>1\<lparr>out := out \<sigma>1 @ left (open_files \<sigma>1 d),
       open_files := (open_files \<sigma>1)(d := (open_files \<sigma>1 d)\<lparr>left := []\<rparr>)\<rparr>)"
      using less.prems False B by (intro less.hyps) (simp_all add: \<sigma>1_def)
    finally show ?thesis by (simp add: \<sigma>1_def)
  qed
qed

text \<open>The contents of the files that can be opened.\<close>

definition readable :: "world \<Rightarrow> byte list list \<Rightarrow> byte list list" where
  "readable w files = List.map_filter (\<lambda>f. case opens w f 0 of Inl e \<Rightarrow> None | Inr x \<Rightarrow> Some (left x)) files"

text \<open>After \<open>k\<close> files: their descriptors are never closed.\<close>

definition leaked :: "nat \<Rightarrow> sys \<Rightarrow> bool" where
  "leaked k \<sigma> \<longleftrightarrow> table \<sigma> 1 = Some Std_out \<and> room \<sigma> = None \<and> 4 + k \<le> nofile \<sigma> \<and> int (nofile \<sigma>) \<le> 10 ^ 9 \<and>
     (\<forall>i. table \<sigma> i = None \<longleftrightarrow> i = 3 \<or> 4 + k \<le> i)"

lemma leaked_free: "leaked k \<sigma> \<Longrightarrow> table \<sigma> i = None \<longleftrightarrow> i = 3 \<or> 4 + k \<le> i"
  unfolding leaked_def by (elim conjE) (erule spec)

lemma leaked_irrelevant [simp]:
  "leaked k (err_print w prog msg \<sigma>) = leaked k \<sigma>" "leaked k (\<sigma>\<lparr>errnum := e\<rparr>) = leaked k \<sigma>"
  "out (err_print w prog msg \<sigma>) = out \<sigma>" "nofile (err_print w prog msg \<sigma>) = nofile \<sigma>"
  by (simp_all add: leaked_def err_print_def)

lemma leaked_full:
  assumes "leaked k \<sigma>" "nofile \<sigma> = 4 + k"
  shows "my_open w prog f 0 \<sigma> = (Returned (- 1), \<sigma>\<lparr>errnum := EMFILE_no\<rparr>)"
proof -
  have "lowest_free (nofile \<sigma>) (table \<sigma>) = Some 3"
    "lowest_free (nofile \<sigma>) ((table \<sigma>)(3 := Some (End False))) = None"
    using assms by (auto simp: leaked_def lowest_free_Some lowest_free_None)
  then show ?thesis by (simp add: my_open_def s_pipe_def)
qed

lemma mycat_prints_one:
  assumes "smooth w" "\<forall>f x. opens w f 0 = Inr x \<longrightarrow> fault x = None" and Inr: "opens w f 0 = Inr x"
    and "leaked k \<sigma>" "nofile \<sigma> \<noteq> 4 + k"
  shows "\<exists>\<sigma>2. mycat_files w prog (f # files) \<sigma> = mycat_files w prog files \<sigma>2 \<and> leaked (Suc k) \<sigma>2 \<and>
     nofile \<sigma>2 = nofile \<sigma> \<and> out \<sigma>2 = out \<sigma> @ left x"
proof -
  have p: "free_pair 3 (4 + k) \<sigma>" "int (4 + k) < 10 ^ 9" "4 + k < nofile \<sigma>"
    using assms(4,5) by (auto simp: leaked_def free_pair_def)
  note o = my_open_steps [OF p(1,2) _ _ assms(1), of 0 prog f]
  define \<sigma>1 where "\<sigma>1 = \<sigma>\<lparr>table := (table \<sigma>)(4 + k := Some (Desc (next_file \<sigma>))),
               open_files := (open_files \<sigma>)(next_file \<sigma> := x), next_file := next_file \<sigma> + 1\<rparr>"
  define \<sigma>2 where "\<sigma>2 = \<sigma>1\<lparr>out := out \<sigma>1 @ left x, open_files := (open_files \<sigma>1)(next_file \<sigma> := x\<lparr>left := []\<rparr>)\<rparr>"
  have t1: "table \<sigma> 1 = Some Std_out" "room \<sigma> = None" "fault x = None"
    using assms(4) assms(2) Inr by (auto simp: leaked_def)
  have "copy_fd w prog (4 + k) \<sigma>1 = (Returned (), \<sigma>2)"
    using copy_fd_copies [of \<sigma>1 "4 + k" "next_file \<sigma>" w prog] t1 by (simp add: \<sigma>1_def \<sigma>2_def)
  moreover have "leaked (Suc k) \<sigma>2"
  proof -
    have "table \<sigma>2 i = None \<longleftrightarrow> i = 3 \<or> 4 + Suc k \<le> i" for i
      using leaked_free [OF assms(4), of i] by (cases "i = 4 + k") (auto simp: \<sigma>2_def \<sigma>1_def)
    then show ?thesis
      using assms(4) p(3) unfolding leaked_def by (simp add: \<sigma>1_def \<sigma>2_def)
  qed
  moreover have "my_open w prog f 0 \<sigma> = (Returned (int (4 + k)), \<sigma>1)"
    using o Inr by (simp add: open_at_def \<sigma>1_def)
  moreover have "nat (int (4 + k)) = 4 + k" by simp
  moreover have "nofile \<sigma>2 = nofile \<sigma>" "out \<sigma>2 = out \<sigma> @ left x" by (simp_all add: \<sigma>1_def \<sigma>2_def)
  ultimately show ?thesis by (intro exI [of _ \<sigma>2]) (simp del: of_nat_add)
qed

lemma mycat_files_prints:
  assumes "smooth w" "\<forall>f x. opens w f 0 = Inr x \<longrightarrow> fault x = None" "leaked k \<sigma>"
  shows "\<exists>\<tau>. mycat_files w prog files \<sigma> = (Returned (), \<tau>) \<and>
     out \<tau> = out \<sigma> @ concat (take (nofile \<sigma> - 4 - k) (readable w files))"
  using assms(3)
proof (induction files arbitrary: k \<sigma>)
  case Nil
  then show ?case by (simp add: readable_def)
next
  case (Cons f files)
  show ?case
  proof (cases "nofile \<sigma> = 4 + k")
    case True
    then show ?thesis
      using Cons.IH [of k "err_print w prog (''can't open '' @ f @ [NL]) (\<sigma>\<lparr>errnum := EMFILE_no\<rparr>)"]
        leaked_full [OF Cons.prems True] Cons.prems by simp
  next
    case False
    then have p: "free_pair 3 (4 + k) \<sigma>" "int (4 + k) < 10 ^ 9" "4 + k < nofile \<sigma>"
      using Cons.prems by (auto simp: leaked_def free_pair_def)
    note o = my_open_steps [OF p(1,2) _ _ assms(1), of 0 prog f]
    show ?thesis
    proof (cases "opens w f 0")
      case (Inl e)
      then show ?thesis
        using Cons.IH [of k "err_print w prog (''can't open '' @ f @ [NL]) (\<sigma>\<lparr>errnum := e\<rparr>)"] o Cons.prems
        by (simp add: open_at_def readable_def map_filter_simps)
    next
      case (Inr x)
      obtain \<sigma>2 where "mycat_files w prog (f # files) \<sigma> = mycat_files w prog files \<sigma>2" "leaked (Suc k) \<sigma>2"
        and s: "nofile \<sigma>2 = nofile \<sigma>" "out \<sigma>2 = out \<sigma> @ left x"
        using mycat_prints_one [OF assms(1,2) Inr Cons.prems False] by blast
      then have "\<exists>\<tau>. mycat_files w prog (f # files) \<sigma> = (Returned (), \<tau>) \<and>
          out \<tau> = out \<sigma>2 @ concat (take (nofile \<sigma>2 - 4 - Suc k) (readable w files))"
        using Cons.IH [of "Suc k" \<sigma>2] by metis
      moreover have "take (nofile \<sigma> - 4 - k) (readable w (f # files)) = left x # take (nofile \<sigma> - 4 - Suc k) (readable w files)"
        using p(3) Inr by (simp add: readable_def map_filter_simps take_Cons')
      ultimately show ?thesis by (simp add: s)
    qed
  qed
qed

text \<open>\<open>mycat\<close> prints the files it can open in the order of its arguments and exits with 0, the
  others are skipped; but it never closes a descriptor it received, so of the files that can be
  opened only the first \<open>NOFILE - 4\<close> are printed.\<close>
theorem mycat_prints_the_first_files:
  assumes "smooth w" "\<forall>f x. opens w f 0 = Inr x \<longrightarrow> fault x = None" "files \<noteq> []"
    and "table \<sigma> 1 = Some Std_out" "\<forall>i. table \<sigma> i = None \<longleftrightarrow> 3 \<le> i" "room \<sigma> = None"
    and "4 \<le> nofile \<sigma>" "int (nofile \<sigma>) \<le> 10 ^ 9"
  shows "\<exists>\<tau>. mycat_main w (prog # files) \<sigma> = (Exited EXIT_SUCCESS, \<tau>) \<and>
     out \<tau> = out \<sigma> @ concat (take (nofile \<sigma> - 4)
       (List.map_filter (\<lambda>f. case opens w f 0 of Inl e \<Rightarrow> None | Inr x \<Rightarrow> Some (left x)) files))"
proof -
  have "table \<sigma> i = None \<longleftrightarrow> i = 3 \<or> 4 + 0 \<le> i" for i
  proof -
    have "table \<sigma> i = None \<longleftrightarrow> 3 \<le> i" using assms(5) by blast
    then show ?thesis by auto
  qed
  then have "leaked 0 \<sigma>" using assms(4,6-8) unfolding leaked_def by simp
  from mycat_files_prints [OF assms(1,2) this, of prog files] assms(3)
  show ?thesis by (auto simp: mycat_main_def readable_def)
qed

theorem mycat_prints_the_first_files_witness:
  "\<exists>\<tau>. mycat_main shell_world [''./mycat'', ''b'', ''none'', ''a'', ''b''] (shell_sys 6) = (Exited 0, \<tau>) \<and> out \<tau> = ''twoone''"
proof -
  let ?s = "shell_sys 6" and ?files = "[''b'', ''none'', ''a'', ''b'']"
  have "table ?s 1 = Some Std_out" "\<forall>i. table ?s i = None \<longleftrightarrow> 3 \<le> i" "room ?s = None" "4 \<le> nofile ?s" "int (nofile ?s) \<le> 10 ^ 9"
    by (auto simp: shell_sys_def)
  moreover have "\<forall>f x. opens shell_world f 0 = Inr x \<longrightarrow> fault x = None"
    by (auto simp: shell_world_def shell_files_def split: if_splits)
  moreover have "nofile ?s = 6" "out ?s = []" by (simp_all add: shell_sys_def)
  moreover have "List.map_filter (\<lambda>f. case opens shell_world f 0 of Inl e \<Rightarrow> None | Inr x \<Rightarrow> Some (left x)) ?files =
      [''two'', ''one'', ''two'']"
    by (simp add: map_filter_simps shell_world_def shell_files_def)
  ultimately show ?thesis
    using mycat_prints_the_first_files [OF shell_smooth, of ?files ?s "''./mycat''"] by simp
qed

text \<open>C40: where the failures of \<open>my_open\<close> end up.  On a system that does not deliver the control part of a
  message without data every successful \<open>open\<close> of the child ends the parent, with status 1; a child
  that cannot execute \<open>openfile\<close> is reported as error number 1 whatever the reason; and when
  \<open>recvmsg\<close> fails the error number itself is returned, as if it were the descriptor.\<close>
theorem my_open_failures:
  assumes "free_pair a b \<sigma>" "int b < 10 ^ 9" "0 \<le> mode" "mode < 10 ^ 9" "fork_err w = None" "killed w = 0"
    and "send_err w = None" "opens w filename mode = Inr f"
  shows "(exec_err w = None \<and> recv_err w = None \<and> \<not> carries_empty w \<longrightarrow>
       fst (my_open w prog filename mode \<sigma>) = Exited EXIT_FAILURE) \<and>
     (exec_err w \<noteq> None \<longrightarrow> fst (my_open w prog filename mode \<sigma>) = Returned (- 1) \<and>
       errnum (snd (my_open w prog filename mode \<sigma>)) = 1) \<and>
     (\<forall>e > 0. exec_err w = None \<and> recv_err w = Some e \<longrightarrow> fst (my_open w prog filename mode \<sigma>) = Returned e)"
proof -
  note s = s_pipe_pair [OF assms(1)]
  show ?thesis
  proof (cases "exec_err w")
    case None
    note c = openfile_runs [OF assms(1-4) None assms(7), of prog filename]
    show ?thesis
      using None s c assms(5,6,8)
      by (cases "recv_err w") (simp_all add: my_open_def Let_def my_recvfile_def errno_status_def)
  next
    case (Some x)
    then show ?thesis
      using s assms(5,6) by (simp add: my_open_def Let_def open_child_def)
  qed
qed

theorem my_open_failures_witness:
  "fst (my_open (shell_world\<lparr>carries_empty := False\<rparr>) ''./mycat'' ''a'' 0 (shell_sys 20)) = Exited 1 \<and>
   fst (my_open (shell_world\<lparr>recv_err := Some 40\<rparr>) ''./mycat'' ''a'' 0 (shell_sys 20)) = Returned 40"
proof -
  have p: "free_pair 3 4 (shell_sys 20)" by (auto simp: free_pair_def shell_sys_def less_Suc_eq numeral_eq_Suc)
  show ?thesis
    using my_open_failures [OF p, of 0 "shell_world\<lparr>carries_empty := False\<rparr>" "''a''" "\<lparr>left = ''one'', fault = None\<rparr>" "''./mycat''"]
      my_open_failures [OF p, of 0 "shell_world\<lparr>recv_err := Some 40\<rparr>" "''a''" "\<lparr>left = ''one'', fault = None\<rparr>" "''./mycat''"]
    by (simp add: shell_world_def shell_files_def)
qed

end
