(* ===== verification/Select_Copy.thy ===== *)
theory Select_Copy
  imports Kernel_IO
begin

text \<open>
  \<open>10.select/stdin_stdout_select.c\<close>: a copy of standard input to standard output that asks
  \<open>select\<close> in turn for the one and the other descriptor.
\<close>

definition BUFFSIZE :: nat where "BUFFSIZE = 4096"

record copier =
  in_read_set :: bool           \<comment> \<open>descriptor 0 in \<open>read_set\<close>\<close>
  in_write_set :: bool          \<comment> \<open>descriptor 1 in \<open>write_set\<close>\<close>
  buffer :: "byte list"         \<comment> \<open>its first \<open>read_bytes\<close> bytes\<close>
  stop_reading :: bool
  inp :: source
  outp :: sink

definition copier_start :: "source \<Rightarrow> sink \<Rightarrow> copier" where
  "copier_start s k = \<lparr>in_read_set = True, in_write_set = True, buffer = [], stop_reading = False, inp = s, outp = k\<rparr>"

text \<open>The reading part of a turn: a value when \<open>main\<close> returns.\<close>

definition read_part :: "copier \<Rightarrow> int option \<times> copier" where
  "read_part \<sigma> =
     (case sys_read (inp \<sigma>) BUFFSIZE of
        (Inl e, s) \<Rightarrow> (Some (- 1), \<sigma>\<lparr>inp := s\<rparr>)
      | (Inr xs, s) \<Rightarrow> if xs = [] then (Some 0, \<sigma>\<lparr>inp := s, buffer := []\<rparr>)
                      else (None, \<sigma>\<lparr>inp := s, buffer := xs, stop_reading := True\<rparr>))"

definition write_part :: "copier \<Rightarrow> int option \<times> copier" where
  "write_part \<sigma> =
     (case sys_write (outp \<sigma>) (buffer \<sigma>) of
        (Inl e, k) \<Rightarrow> (Some (- 1), \<sigma>\<lparr>outp := k\<rparr>)
      | (Inr n, k) \<Rightarrow> if n \<noteq> length (buffer \<sigma>) then (Some (- 1), \<sigma>\<lparr>outp := k\<rparr>)
                     else (None, \<sigma>\<lparr>outp := k, stop_reading := False\<rparr>))"

definition turn_sets :: "copier \<Rightarrow> copier" where
  "turn_sets \<sigma> =
     (if stop_reading \<sigma> then \<sigma>\<lparr>in_read_set := False, in_write_set := True\<rparr>
      else \<sigma>\<lparr>in_write_set := False, in_read_set := True\<rparr>)"

text \<open>One turn of the loop.  \<open>select\<close> reports an error, or is asked when the descriptors are ready as
  \<open>rdy\<close> says and returns if one it asked for is.\<close>

definition copy_turn :: "errno + bool \<times> bool \<Rightarrow> copier \<Rightarrow> int option \<times> copier" where
  "copy_turn ev \<sigma> =
     (case ev of
        Inl e \<Rightarrow> (Some (- 1), \<sigma>)
      | Inr (r, w) \<Rightarrow>
          if \<not> (in_read_set \<sigma> \<and> r) \<and> \<not> (in_write_set \<sigma> \<and> w) then (None, \<sigma>)
          else (let \<sigma> = \<sigma>\<lparr>in_read_set := in_read_set \<sigma> \<and> r, in_write_set := in_write_set \<sigma> \<and> w\<rparr>
                in case (if in_read_set \<sigma> then read_part \<sigma> else (None, \<sigma>)) of
                     (Some v, \<sigma>) \<Rightarrow> (Some v, \<sigma>)
                   | (None, \<sigma>) \<Rightarrow>
                       (case (if in_write_set \<sigma> then write_part \<sigma> else (None, \<sigma>)) of
                          (Some v, \<sigma>) \<Rightarrow> (Some v, \<sigma>)
                        | (None, \<sigma>) \<Rightarrow> (None, turn_sets \<sigma>))))"

fun select_copy :: "(errno + bool \<times> bool) list \<Rightarrow> copier \<Rightarrow> int outcome \<times> copier" where
  "select_copy [] \<sigma> = (Running, \<sigma>)"
| "select_copy (ev # evs) \<sigma> =
     (case copy_turn ev \<sigma> of
        (Some v, \<sigma>) \<Rightarrow> (Returned v, \<sigma>)
      | (None, \<sigma>) \<Rightarrow> select_copy evs \<sigma>)"

section \<open>The copy\<close>

text \<open>What is read and not yet written is in the buffer exactly while \<open>stop_reading\<close> is set.  Before the
  first turn the buffer is empty and both descriptors are asked for.\<close>

definition carried :: "copier \<Rightarrow> byte list" where
  "carried \<sigma> = written (outp \<sigma>) @ (if stop_reading \<sigma> then buffer \<sigma> else []) @ src_pending (inp \<sigma>)"

definition copier_ok :: "copier \<Rightarrow> bool" where
  "copier_ok \<sigma> \<longleftrightarrow> src_broken (inp \<sigma>) = None \<and> grants (outp \<sigma>) = [] \<and>
     (if stop_reading \<sigma> then \<not> in_read_set \<sigma> \<and> in_write_set \<sigma>
      else in_read_set \<sigma> \<and> (in_write_set \<sigma> \<longrightarrow> buffer \<sigma> = []))"

definition to_do :: "copier \<Rightarrow> nat" where
  "to_do \<sigma> = 2 * length (src_pending (inp \<sigma>)) + (if in_write_set \<sigma> then 1 else 0)"

lemma read_part_ok:
  assumes "src_broken (inp \<sigma>) = None"
  shows "(src_pending (inp \<sigma>) = [] \<and> (\<exists>\<tau>. read_part \<sigma> = (Some 0, \<tau>) \<and> outp \<tau> = outp \<sigma> \<and> src_pending (inp \<tau>) = [])) \<or>
     (\<exists>xs s. read_part \<sigma> = (None, \<sigma>\<lparr>inp := s, buffer := xs, stop_reading := True\<rparr>) \<and> xs \<noteq> [] \<and>
        src_pending (inp \<sigma>) = xs @ src_pending s \<and> src_broken s = None)"
proof (cases "src_pending (inp \<sigma>) = []")
  case True
  then show ?thesis
    using file_reader.rd_eof [OF True assms, of BUFFSIZE] by (auto simp: read_part_def BUFFSIZE_def)
next
  case False
  then obtain xs s where x: "sys_read (inp \<sigma>) BUFFSIZE = (Inr xs, s)" "xs \<noteq> []"
    "src_pending (inp \<sigma>) = xs @ src_pending s" "src_broken s = None"
    using file_reader.rd_some [OF False, of BUFFSIZE] assms by (auto simp: BUFFSIZE_def)
  then have "read_part \<sigma> = (None, \<sigma>\<lparr>inp := s, buffer := xs, stop_reading := True\<rparr>)" by (simp add: read_part_def)
  then show ?thesis using x by blast
qed

lemma write_part_ok:
  "grants (outp \<sigma>) = [] \<Longrightarrow>
     write_part \<sigma> = (None, \<sigma>\<lparr>outp := (outp \<sigma>)\<lparr>written := written (outp \<sigma>) @ buffer \<sigma>\<rparr>, stop_reading := False\<rparr>)"
  by (simp add: write_part_def sys_write_def)

lemma copy_turn_ok:
  assumes "copier_ok \<sigma>"
  shows "(\<exists>\<tau>. copy_turn (Inr (r, w)) \<sigma> = (Some 0, \<tau>) \<and> written (outp \<tau>) = carried \<sigma>) \<or>
     (\<exists>\<tau>. copy_turn (Inr (r, w)) \<sigma> = (None, \<tau>) \<and> copier_ok \<tau> \<and> carried \<tau> = carried \<sigma> \<and>
        to_do \<tau> \<le> to_do \<sigma> \<and> (r \<and> w \<longrightarrow> to_do \<tau> < to_do \<sigma>))"
proof -
  note b = assms [unfolded copier_ok_def]
  show ?thesis
  proof (cases "in_read_set \<sigma> \<and> r")
    case False
    show ?thesis
    proof (cases "in_write_set \<sigma> \<and> w")
      case True
      then show ?thesis
        using False b by (cases "stop_reading \<sigma>")
          (auto simp: copy_turn_def Let_def write_part_ok turn_sets_def copier_ok_def carried_def to_do_def)
    qed (use False b assms in \<open>auto simp: copy_turn_def split: if_splits\<close>)
  next
    case True
    then have s: "\<not> stop_reading \<sigma>" using b by auto
    define \<sigma>1 where "\<sigma>1 = \<sigma>\<lparr>in_read_set := True, in_write_set := in_write_set \<sigma> \<and> w\<rparr>"
    have "src_broken (inp \<sigma>1) = None" using b by (simp add: \<sigma>1_def)
    from read_part_ok [OF this] show ?thesis
    proof (elim disjE exE conjE)
      fix \<tau>
      assume "read_part \<sigma>1 = (Some 0, \<tau>)" "outp \<tau> = outp \<sigma>1" "src_pending (inp \<sigma>1) = []"
      then show ?thesis using True s by (simp add: copy_turn_def Let_def \<sigma>1_def [symmetric] carried_def) (simp add: \<sigma>1_def)
    next
      fix xs s'
      assume r: "read_part \<sigma>1 = (None, \<sigma>1\<lparr>inp := s', buffer := xs, stop_reading := True\<rparr>)" "xs \<noteq> []"
        "src_pending (inp \<sigma>1) = xs @ src_pending s'" "src_broken s' = None"
      obtain m where l: "length xs = Suc m" using r(2) by (cases xs) simp_all
      have c: "copy_turn (Inr (r, w)) \<sigma> =
         (case (if in_write_set \<sigma>1 then write_part (\<sigma>1\<lparr>inp := s', buffer := xs, stop_reading := True\<rparr>)
                else (None, \<sigma>1\<lparr>inp := s', buffer := xs, stop_reading := True\<rparr>)) of
            (Some v, \<sigma>) \<Rightarrow> (Some v, \<sigma>) | (None, \<sigma>) \<Rightarrow> (None, turn_sets \<sigma>))"
        using True r(1) by (simp add: copy_turn_def Let_def \<sigma>1_def [symmetric])
      show ?thesis
        unfolding c using r(3,4) b s l
        by (cases "in_write_set \<sigma> \<and> w")
          (auto simp: \<sigma>1_def write_part_ok turn_sets_def copier_ok_def carried_def to_do_def)
    qed
  qed
qed

text \<open>C20: with a working input and output the program copies its input unchanged, however \<open>select\<close>
  reports the descriptors: what it has written at any time, what is in the buffer and what is left
  to read make up the input, it returns 0 and only after all of it is written, and it does return
  once both descriptors were ready in \<open>2 n + 2\<close> turns, \<open>n\<close> being the length of the input.\<close>
theorem select_copy_copies:
  assumes "src_broken s = None" "grants k = []" "evs = map Inr rdy"
  shows "(case select_copy evs (copier_start s k) of
       (Returned v, \<tau>) \<Rightarrow> v = 0 \<and> written (outp \<tau>) = written k @ src_pending s
     | (Running, \<tau>) \<Rightarrow> written (outp \<tau>) @ (if stop_reading \<tau> then buffer \<tau> else []) @ src_pending (inp \<tau>) =
         written k @ src_pending s
     | _ \<Rightarrow> False) \<and>
     (2 * length (src_pending s) + 2 \<le> length (filter (\<lambda>(r, w). r \<and> w) rdy) \<longrightarrow>
        fst (select_copy evs (copier_start s k)) = Returned 0)"
proof -
  have "(case select_copy (map Inr rdy) \<sigma> of
       (Returned v, \<tau>) \<Rightarrow> v = 0 \<and> written (outp \<tau>) = carried \<sigma>
     | (Running, \<tau>) \<Rightarrow> carried \<tau> = carried \<sigma> \<and> length (filter (\<lambda>(r, w). r \<and> w) rdy) \<le> to_do \<sigma>
     | _ \<Rightarrow> False)" if "copier_ok \<sigma>" for \<sigma>
    using that
  proof (induction rdy arbitrary: \<sigma>)
    case (Cons ev rdy)
    obtain r w where ev: "ev = (r, w)" by (cases ev)
    from copy_turn_ok [OF Cons.prems, of r w] show ?case
    proof (elim disjE exE conjE)
      fix \<tau>
      assume t: "copy_turn (Inr (r, w)) \<sigma> = (None, \<tau>)" "copier_ok \<tau>" "carried \<tau> = carried \<sigma>" "to_do \<tau> \<le> to_do \<sigma>"
        "r \<and> w \<longrightarrow> to_do \<tau> < to_do \<sigma>"
      show ?thesis using Cons.IH [OF t(2)] t by (auto simp: ev split: prod.splits outcome.splits)
    qed (simp add: ev)
  qed simp
  moreover have "copier_ok (copier_start s k)" "carried (copier_start s k) = written k @ src_pending s"
    "to_do (copier_start s k) = 2 * length (src_pending s) + 1"
    using assms(1,2) by (simp_all add: copier_ok_def copier_start_def carried_def to_do_def)
  ultimately show ?thesis
    unfolding assms(3) carried_def [symmetric] by (fastforce split: prod.splits outcome.splits)
qed

theorem select_copy_copies_witness:
  "written (outp (snd (select_copy (map Inr [(False, True), (True, True), (False, False), (True, True), (True, True), (True, True)])
     (copier_start [Data ''ab''] \<lparr>written = [], grants = []\<rparr>)))) = ''ab''"
  using select_copy_copies [of "[Data ''ab'']" "\<lparr>written = [], grants = []\<rparr>"
      "map Inr [(False, True), (True, True), (False, False), (True, True), (True, True), (True, True)]"
      "[(False, True), (True, True), (False, False), (True, True), (True, True), (True, True)]"]
  by (simp add: copier_start_def copy_turn_def read_part_def write_part_def turn_sets_def sys_write_def BUFFSIZE_def Let_def)

end
