(* ===== verification/Rounds.thy ===== *)
theory Rounds
  imports Main
begin

text \<open>
  Processes that take turns: if every step that changes something leaves less work, and while the
  work is not over some process can change something, then a schedule in rounds, in each of which
  every process has a turn, ends the work.
\<close>

locale rounds =
  fixes step :: "'p \<Rightarrow> 's \<Rightarrow> 's" and procs :: "'p set" and inv :: "'s \<Rightarrow> bool" and work :: "'s \<Rightarrow> nat" and final :: "'s \<Rightarrow> bool"
  assumes keeps: "inv \<sigma> \<Longrightarrow> inv (step p \<sigma>)"
    and closer: "inv \<sigma> \<Longrightarrow> step p \<sigma> \<noteq> \<sigma> \<Longrightarrow> work (step p \<sigma>) < work \<sigma>"
    and moves: "inv \<sigma> \<Longrightarrow> \<not> final \<sigma> \<Longrightarrow> \<exists>p \<in> procs. step p \<sigma> \<noteq> \<sigma>"
    and stays: "final \<sigma> \<Longrightarrow> step p \<sigma> = \<sigma>"
begin

lemma run_inv: "inv \<sigma> \<Longrightarrow> inv (fold step ps \<sigma>)"
  by (induction ps arbitrary: \<sigma>) (simp_all add: keeps)

lemma run_stays: "final \<sigma> \<Longrightarrow> fold step ps \<sigma> = \<sigma>"
  by (induction ps) (simp_all add: stays)

lemma run_work: "inv \<sigma> \<Longrightarrow> work (fold step ps \<sigma>) \<le> work \<sigma>"
proof (induction ps arbitrary: \<sigma>)
  case (Cons p ps)
  have "work (step p \<sigma>) \<le> work \<sigma>" using closer [OF Cons.prems, of p] by (cases "step p \<sigma> = \<sigma>") auto
  then show ?case using Cons.IH [of "step p \<sigma>", OF keeps [OF Cons.prems]] by simp
qed simp

lemma round_works:
  assumes "inv \<sigma>" "p \<in> set ps" "step p \<sigma> \<noteq> \<sigma>"
  shows "work (fold step ps \<sigma>) < work \<sigma>"
  using assms(2)
proof (induction ps)
  case (Cons q ps)
  show ?case
  proof (cases "step q \<sigma> = \<sigma>")
    case True
    then show ?thesis using Cons assms(3) by auto
  next
    case False
    then show ?thesis
      using closer [OF assms(1) False] run_work [of "step q \<sigma>" ps, OF keeps [OF assms(1)]] by simp
  qed
qed simp

theorem rounds_end:
  assumes "inv \<sigma>" "\<forall>r \<in> set rs. procs \<subseteq> set r" "work \<sigma> \<le> length rs"
  shows "final (fold step (concat rs) \<sigma>)"
  using assms
proof (induction rs arbitrary: \<sigma>)
  case Nil
  show ?case
  proof (rule ccontr)
    assume "\<not> final (fold step (concat []) \<sigma>)"
    then obtain p where "step p \<sigma> \<noteq> \<sigma>" using moves [OF Nil.prems(1)] by auto
    then show False using closer [OF Nil.prems(1)] Nil.prems(3) by fastforce
  qed
next
  case (Cons r rs)
  show ?case
  proof (cases "final \<sigma>")
    case True
    then show ?thesis by (simp only: run_stays)
  next
    case False
    then obtain p where "p \<in> set r" "step p \<sigma> \<noteq> \<sigma>" using moves [OF Cons.prems(1)] Cons.prems(2) by auto
    then have "work (fold step r \<sigma>) < work \<sigma>" by (rule round_works [OF Cons.prems(1)])
    then show ?thesis
      using Cons.IH [OF run_inv [OF Cons.prems(1), of r]] Cons.prems(2,3) by simp
  qed
qed

end

end
