(* ===== verification/Pipe_Server.thy ===== *)
theory Pipe_Server
  imports Byte_Pipe Rounds
begin

text \<open>
  \<open>3_pipes_client_server\<close>: the parent is the client and the child the server of a file, over two
  pipes.  The end of the file is the end of the second pipe, so the result depends on who has closed
  which end; one system call per step, in any order of the two processes.  Interrupted calls are not
  modelled.
\<close>

section \<open>State\<close>

datatype ppc_client =
    P_close1 | P_close2 | P_gets | P_write | P_read | P_out | P_wait | P_close3 | P_close4 | P_exit int | P_killed

datatype ppc_server =
    Q_close1 | Q_close2 | Q_read | Q_open | Q_err | Q_file | Q_data | Q_close3 | Q_close4 | Q_exit int | Q_killed

definition MAXBUFF :: nat where "MAXBUFF = 1024"

record pipes =
  pipe1 :: byte_pipe
  pipe2 :: byte_pipe
  ppc :: ppc_client
  qpc :: ppc_server
  pbuf :: "byte list"         \<comment> \<open>the bytes of \<open>buff\<close> in use\<close>
  qbuf :: "byte list"
  pin :: stream_in
  pout :: sink
  qfile :: source

text \<open>When a process ends, its descriptors are closed.\<close>

definition drop_ends :: "bool \<Rightarrow> pipes \<Rightarrow> pipes" where
  "drop_ends who \<sigma> = \<sigma>\<lparr>pipe1 := close_rd who (close_wr who (pipe1 \<sigma>)), pipe2 := close_rd who (close_wr who (pipe2 \<sigma>))\<rparr>"

definition client_ends :: "ppc_client \<Rightarrow> pipes \<Rightarrow> pipes" where
  "client_ends pc \<sigma> = (drop_ends True \<sigma>)\<lparr>ppc := pc\<rparr>"

definition server_ends :: "ppc_server \<Rightarrow> pipes \<Rightarrow> pipes" where
  "server_ends pc \<sigma> = (drop_ends False \<sigma>)\<lparr>qpc := pc\<rparr>"

text \<open>The name on a line: up to a NUL, without the newline of \<open>fgets\<close>.\<close>

definition asked :: "byte list \<Rightarrow> byte list" where
  "asked l = (let n = strlen l in take (if 0 < n \<and> l ! (n - 1) = NL then n - 1 else n) l)"

section \<open>The client\<close>

definition pipe_client :: "pipes \<Rightarrow> pipes" where
  "pipe_client \<sigma> =
     (case ppc \<sigma> of
        P_gets \<Rightarrow>
          (case fgets MAXBUFF (pin \<sigma>) of
             (None, fp) \<Rightarrow> client_ends (P_exit EXIT_FAILURE) (\<sigma>\<lparr>pin := fp\<rparr>)
           | (Some l, fp) \<Rightarrow> \<sigma>\<lparr>pin := fp, pbuf := asked l, ppc := P_write\<rparr>)
      | P_write \<Rightarrow>
          (case pipe_write (pbuf \<sigma>) (pipe1 \<sigma>) of
             Done (w, p) \<Rightarrow> if w \<noteq> length (pbuf \<sigma>) then client_ends (P_exit EXIT_FAILURE) \<sigma>
                            else \<sigma>\<lparr>pipe1 := p, ppc := P_read\<rparr>
           | Sleep \<Rightarrow> \<sigma>
           | Fail e \<Rightarrow> client_ends P_killed \<sigma>)
      | P_read \<Rightarrow>
          (case pipe_read MAXBUFF (pipe2 \<sigma>) of
             Done (xs, p) \<Rightarrow> if xs = [] then \<sigma>\<lparr>pipe2 := p, ppc := P_wait\<rparr>
                             else \<sigma>\<lparr>pipe2 := p, pbuf := xs, ppc := P_out\<rparr>
           | Sleep \<Rightarrow> \<sigma>
           | Fail e \<Rightarrow> client_ends (P_exit EXIT_FAILURE) \<sigma>)
      | P_out \<Rightarrow>
          (case sys_write (pout \<sigma>) (pbuf \<sigma>) of
             (Inr w, k) \<Rightarrow> if w \<noteq> length (pbuf \<sigma>) then client_ends (P_exit EXIT_FAILURE) (\<sigma>\<lparr>pout := k\<rparr>)
                           else \<sigma>\<lparr>pout := k, ppc := P_read\<rparr>
           | (Inl e, k) \<Rightarrow> client_ends (P_exit EXIT_FAILURE) (\<sigma>\<lparr>pout := k\<rparr>))
      | _ \<Rightarrow> \<sigma>)"

section \<open>The server\<close>

definition pipe_errmesg :: "(errno \<Rightarrow> byte list) \<Rightarrow> errno \<Rightarrow> byte list" where
  "pipe_errmesg sys_errlist e = '': can't open, '' @ sys_err_str sys_errlist e @ [NL]"

text \<open>Where the program stores past the end of \<open>buff\<close> or \<open>errmesg\<close> it counts as killed.\<close>

definition pipe_server :: "(byte list \<Rightarrow> errno + source) \<Rightarrow> (errno \<Rightarrow> byte list) \<Rightarrow> pipes \<Rightarrow> pipes" where
  "pipe_server opens sys_errlist \<sigma> =
     (case qpc \<sigma> of
        Q_read \<Rightarrow>
          (case pipe_read MAXBUFF (pipe1 \<sigma>) of
             Done (xs, p) \<Rightarrow> if xs = [] then server_ends (Q_exit EXIT_FAILURE) (\<sigma>\<lparr>pipe1 := p\<rparr>)
                             else if length xs = MAXBUFF then server_ends Q_killed (\<sigma>\<lparr>pipe1 := p\<rparr>)
                             else \<sigma>\<lparr>pipe1 := p, qbuf := xs, qpc := Q_open\<rparr>
           | Sleep \<Rightarrow> \<sigma>
           | Fail e \<Rightarrow> server_ends (Q_exit EXIT_FAILURE) \<sigma>)
      | Q_open \<Rightarrow>
          (case opens (cstr (qbuf \<sigma>)) of
             Inl e \<Rightarrow>
               (let errmesg = pipe_errmesg sys_errlist e; b = cstr (qbuf \<sigma>) @ errmesg
                in if 256 \<le> length errmesg \<or> MAXBUFF \<le> length b then server_ends Q_killed \<sigma>
                   else \<sigma>\<lparr>qbuf := b, qpc := Q_err\<rparr>)
           | Inr f \<Rightarrow> \<sigma>\<lparr>qfile := f, qpc := Q_file\<rparr>)
      | Q_err \<Rightarrow>
          (case pipe_write (qbuf \<sigma>) (pipe2 \<sigma>) of
             Done (w, p) \<Rightarrow> if w \<noteq> length (qbuf \<sigma>) then server_ends (Q_exit EXIT_FAILURE) \<sigma>
                            else \<sigma>\<lparr>pipe2 := p, qpc := Q_close3\<rparr>
           | Sleep \<Rightarrow> \<sigma>
           | Fail e \<Rightarrow> server_ends Q_killed \<sigma>)
      | Q_file \<Rightarrow>
          (case sys_read (qfile \<sigma>) MAXBUFF of
             (Inl e, f) \<Rightarrow> server_ends (Q_exit EXIT_FAILURE) (\<sigma>\<lparr>qfile := f\<rparr>)
           | (Inr xs, f) \<Rightarrow> if xs = [] then \<sigma>\<lparr>qfile := f, qpc := Q_close3\<rparr>
                            else \<sigma>\<lparr>qfile := f, qbuf := xs, qpc := Q_data\<rparr>)
      | Q_data \<Rightarrow>
          (case pipe_write (qbuf \<sigma>) (pipe2 \<sigma>) of
             Done (w, p) \<Rightarrow> if w \<noteq> length (qbuf \<sigma>) then server_ends (Q_exit EXIT_FAILURE) \<sigma>
                            else \<sigma>\<lparr>pipe2 := p, qpc := Q_file\<rparr>
           | Sleep \<Rightarrow> \<sigma>
           | Fail e \<Rightarrow> server_ends Q_killed \<sigma>)
      | _ \<Rightarrow> \<sigma>)"

section \<open>The program\<close>

definition server_gone :: "pipes \<Rightarrow> bool" where
  "server_gone \<sigma> = (case qpc \<sigma> of Q_exit _ \<Rightarrow> True | Q_killed \<Rightarrow> True | _ \<Rightarrow> False)"

text \<open>The parent, from \<open>fork\<close> on: it closes its ends, calls \<open>client\<close>, waits for the child and exits.\<close>

definition parent_step :: "pipes \<Rightarrow> pipes" where
  "parent_step \<sigma> =
     (case ppc \<sigma> of
        P_close1 \<Rightarrow> \<sigma>\<lparr>pipe1 := close_rd True (pipe1 \<sigma>), ppc := P_close2\<rparr>
      | P_close2 \<Rightarrow> \<sigma>\<lparr>pipe2 := close_wr True (pipe2 \<sigma>), ppc := P_gets\<rparr>
      | P_wait \<Rightarrow> if server_gone \<sigma> then \<sigma>\<lparr>ppc := P_close3\<rparr> else \<sigma>
      | P_close3 \<Rightarrow> \<sigma>\<lparr>pipe1 := close_wr True (pipe1 \<sigma>), ppc := P_close4\<rparr>
      | P_close4 \<Rightarrow> client_ends (P_exit EXIT_SUCCESS) (\<sigma>\<lparr>pipe2 := close_rd True (pipe2 \<sigma>)\<rparr>)
      | P_exit _ \<Rightarrow> \<sigma>
      | P_killed \<Rightarrow> \<sigma>
      | _ \<Rightarrow> pipe_client \<sigma>)"

definition child_step :: "(byte list \<Rightarrow> errno + source) \<Rightarrow> (errno \<Rightarrow> byte list) \<Rightarrow> pipes \<Rightarrow> pipes" where
  "child_step opens sys_errlist \<sigma> =
     (case qpc \<sigma> of
        Q_close1 \<Rightarrow> \<sigma>\<lparr>pipe1 := close_wr False (pipe1 \<sigma>), qpc := Q_close2\<rparr>
      | Q_close2 \<Rightarrow> \<sigma>\<lparr>pipe2 := close_rd False (pipe2 \<sigma>), qpc := Q_read\<rparr>
      | Q_close3 \<Rightarrow> \<sigma>\<lparr>pipe1 := close_rd False (pipe1 \<sigma>), qpc := Q_close4\<rparr>
      | Q_close4 \<Rightarrow> server_ends (Q_exit EXIT_SUCCESS) (\<sigma>\<lparr>pipe2 := close_wr False (pipe2 \<sigma>)\<rparr>)
      | Q_exit _ \<Rightarrow> \<sigma>
      | Q_killed \<Rightarrow> \<sigma>
      | _ \<Rightarrow> pipe_server opens sys_errlist \<sigma>)"

text \<open>\<open>True\<close> is a turn of the parent.\<close>

definition pipes_step :: "(byte list \<Rightarrow> errno + source) \<Rightarrow> (errno \<Rightarrow> byte list) \<Rightarrow> bool \<Rightarrow> pipes \<Rightarrow> pipes" where
  "pipes_step opens sys_errlist who \<sigma> = (if who then parent_step \<sigma> else child_step opens sys_errlist \<sigma>)"

definition fresh_pipe :: byte_pipe where
  "fresh_pipe = \<lparr>pdata = [], rd_open = (\<lambda>_. True), wr_open = (\<lambda>_. True)\<rparr>"

definition pipes_start :: "stream_in \<Rightarrow> sink \<Rightarrow> pipes" where
  "pipes_start fp k = \<lparr>pipe1 = fresh_pipe, pipe2 = fresh_pipe, ppc = P_close1, qpc = Q_close1, pbuf = [], qbuf = [],
     pin = fp, pout = k, qfile = []\<rparr>"

text \<open>\<open>main\<close> before the processes run: both pipes, then \<open>fork\<close>.\<close>

definition pipes_main :: "bool \<Rightarrow> bool \<Rightarrow> bool \<Rightarrow> stream_in \<Rightarrow> sink \<Rightarrow> pipes outcome" where
  "pipes_main pipe1_ok pipe2_ok fork_ok fp k =
     (if \<not> pipe1_ok \<or> \<not> pipe2_ok \<or> \<not> fork_ok then Exited EXIT_FAILURE else Returned (pipes_start fp k))"

section \<open>The invariant\<close>

definition early :: "ppc_client \<Rightarrow> bool" where
  "early pc \<longleftrightarrow> pc \<in> {P_close1, P_close2, P_gets, P_write}"

definition listening :: "ppc_server \<Rightarrow> bool" where
  "listening pc \<longleftrightarrow> pc \<in> {Q_close1, Q_close2, Q_read}"

text \<open>Which ends are open follows from the positions of the two processes.\<close>

definition ends_ok :: "pipes \<Rightarrow> bool" where
  "ends_ok \<sigma> \<longleftrightarrow>
     (rd_open (pipe1 \<sigma>) False \<longleftrightarrow> qpc \<sigma> \<noteq> Q_close4 \<and> qpc \<sigma> \<noteq> Q_exit 0) \<and>
     (wr_open (pipe1 \<sigma>) True \<longleftrightarrow> ppc \<sigma> \<noteq> P_close4 \<and> ppc \<sigma> \<noteq> P_exit 0) \<and>
     (rd_open (pipe2 \<sigma>) True \<longleftrightarrow> ppc \<sigma> \<noteq> P_exit 0) \<and>
     (wr_open (pipe2 \<sigma>) True \<longleftrightarrow> ppc \<sigma> = P_close1 \<or> ppc \<sigma> = P_close2) \<and>
     (wr_open (pipe2 \<sigma>) False \<longleftrightarrow> qpc \<sigma> \<noteq> Q_exit 0)"

definition rest_of :: "byte list \<Rightarrow> pipes \<Rightarrow> byte list" where
  "rest_of reply \<sigma> =
     (if listening (qpc \<sigma>) \<or> qpc \<sigma> = Q_open then reply
      else if qpc \<sigma> = Q_file \<or> qpc \<sigma> = Q_data then src_pending (qfile \<sigma>) else [])"

definition under_way :: "byte list \<Rightarrow> pipes \<Rightarrow> byte list" where
  "under_way reply \<sigma> = (if ppc \<sigma> = P_out then pbuf \<sigma> else []) @ pdata (pipe2 \<sigma>) @
     (if qpc \<sigma> = Q_err \<or> qpc \<sigma> = Q_data then qbuf \<sigma> else []) @ rest_of reply \<sigma>"

definition request_ok :: "byte list \<Rightarrow> pipes \<Rightarrow> bool" where
  "request_ok name \<sigma> \<longleftrightarrow>
     pdata (pipe1 \<sigma>) = (if listening (qpc \<sigma>) \<and> \<not> early (ppc \<sigma>) then name else []) \<and>
     (ppc \<sigma> = P_write \<longrightarrow> pbuf \<sigma> = name) \<and> (qpc \<sigma> = Q_open \<longrightarrow> qbuf \<sigma> = name) \<and>
     (early (ppc \<sigma>) \<longrightarrow> listening (qpc \<sigma>)) \<and>
     (early (ppc \<sigma>) \<and> ppc \<sigma> \<noteq> P_write \<longrightarrow> rest (pin \<sigma>) \<noteq> [] \<and> asked (take_line (MAXBUFF - 1) (rest (pin \<sigma>))) = name)"

definition places_ok :: "pipes \<Rightarrow> bool" where
  "places_ok \<sigma> \<longleftrightarrow> ppc \<sigma> \<noteq> P_killed \<and> qpc \<sigma> \<noteq> Q_killed \<and> (\<forall>s. ppc \<sigma> = P_exit s \<longrightarrow> s = 0) \<and> (\<forall>s. qpc \<sigma> = Q_exit s \<longrightarrow> s = 0) \<and>
     (ppc \<sigma> \<in> {P_wait, P_close3, P_close4, P_exit 0} \<longrightarrow> qpc \<sigma> = Q_exit 0 \<and> pdata (pipe2 \<sigma>) = []) \<and>
     (qpc \<sigma> = Q_file \<or> qpc \<sigma> = Q_data \<longrightarrow> src_broken (qfile \<sigma>) = None) \<and>
     (qpc \<sigma> = Q_err \<or> qpc \<sigma> = Q_data \<longrightarrow> qbuf \<sigma> \<noteq> [] \<and> length (qbuf \<sigma>) \<le> MAXBUFF) \<and>
     (ppc \<sigma> = P_out \<longrightarrow> pbuf \<sigma> \<noteq> []) \<and> grants (pout \<sigma>) = []"

definition pipes_inv :: "byte list \<Rightarrow> byte list \<Rightarrow> byte list \<Rightarrow> pipes \<Rightarrow> bool" where
  "pipes_inv name reply given \<sigma> \<longleftrightarrow> ends_ok \<sigma> \<and> request_ok name \<sigma> \<and> places_ok \<sigma> \<and>
     written (pout \<sigma>) @ under_way reply \<sigma> = given @ reply"

text \<open>The server can answer: the name is not empty and fits, and the answer is the file or the text of
  the error, which fits behind the name.\<close>

definition can_answer :: "(byte list \<Rightarrow> errno + source) \<Rightarrow> (errno \<Rightarrow> byte list) \<Rightarrow> byte list \<Rightarrow> byte list \<Rightarrow> bool" where
  "can_answer opens sys_errlist name reply \<longleftrightarrow> name \<noteq> [] \<and> NUL \<notin> set name \<and> length name < MAXBUFF \<and>
     (case opens name of
        Inl e \<Rightarrow> reply = name @ pipe_errmesg sys_errlist e \<and> length (pipe_errmesg sys_errlist e) < 256 \<and> length reply < MAXBUFF
      | Inr f \<Rightarrow> src_broken f = None \<and> reply = src_pending f)"

lemmas inv_defs = pipes_inv_def ends_ok_def request_ok_def places_ok_def under_way_def rest_of_def early_def listening_def

lemma pipes_client_writes:
  assumes "pipes_inv name reply given \<sigma>" "ppc \<sigma> = P_write"
  shows "pbuf \<sigma> = name" "pdata (pipe1 \<sigma>) = []" "\<not> no_readers (pipe1 \<sigma>)" "listening (qpc \<sigma>)"
proof -
  show l: "listening (qpc \<sigma>)" using assms by (simp add: pipes_inv_def request_ok_def early_def)
  show "pbuf \<sigma> = name" "pdata (pipe1 \<sigma>) = []" using assms by (simp_all add: pipes_inv_def request_ok_def early_def)
  show "\<not> no_readers (pipe1 \<sigma>)" using assms l by (auto simp: pipes_inv_def ends_ok_def listening_def no_readers_def)
qed

lemma pipes_client_receives:
  assumes "ppc \<sigma> = P_read" "pdata (pipe2 \<sigma>) = x # xs"
  shows "\<exists>b d. parent_step \<sigma> = \<sigma>\<lparr>pipe2 := (pipe2 \<sigma>)\<lparr>pdata := d\<rparr>, pbuf := b, ppc := P_out\<rparr> \<and> pdata (pipe2 \<sigma>) = b @ d \<and> b \<noteq> []"
  using assms
  by (intro exI [of _ "take MAXBUFF (x # xs)"] exI [of _ "drop MAXBUFF (x # xs)"])
    (simp add: parent_step_def pipe_client_def pipe_read_def MAXBUFF_def)

lemma parent_inv_P_read:
  assumes "pipes_inv name reply given \<sigma>" "can_answer opens sys_errlist name reply"
    and P_read: "ppc \<sigma> = P_read"
  shows "pipes_inv name reply given (parent_step \<sigma>)"
proof -
  show ?thesis
  proof (cases "pdata (pipe2 \<sigma>) = [] \<and> \<not> no_writers (pipe2 \<sigma>)")
    case True
    then have "parent_step \<sigma> = \<sigma>" using P_read by (simp add: parent_step_def pipe_client_def pipe_read_def)
    then show ?thesis using assms(1) by simp
  next
    case False
    show ?thesis
    proof (cases "pdata (pipe2 \<sigma>)")
      case Nil
      then have w: "no_writers (pipe2 \<sigma>)" using False by simp
      then have q: "qpc \<sigma> = Q_exit 0" using assms(1) by (simp add: pipes_inv_def ends_ok_def no_writers_def)
      have p: "parent_step \<sigma> = \<sigma>\<lparr>ppc := P_wait\<rparr>" using Nil w P_read by (simp add: parent_step_def pipe_client_def pipe_read_def)
      show ?thesis using assms(1) P_read Nil q unfolding p by (simp add: inv_defs)
    next
      case (Cons x xs)
      obtain b d where p: "parent_step \<sigma> = \<sigma>\<lparr>pipe2 := (pipe2 \<sigma>)\<lparr>pdata := d\<rparr>, pbuf := b, ppc := P_out\<rparr>"
        "pdata (pipe2 \<sigma>) = b @ d" "b \<noteq> []" using pipes_client_receives P_read Cons by blast
      have "under_way reply (parent_step \<sigma>) = under_way reply \<sigma>"
        using p(2) P_read by (simp add: p(1) under_way_def rest_of_def)
      then show ?thesis
        using assms(1) P_read p(3) unfolding pipes_inv_def p(1)
        by (simp add: ends_ok_def request_ok_def places_ok_def early_def)
    qed
  qed
qed

lemma parent_inv_P_out:
  assumes "pipes_inv name reply given \<sigma>" "can_answer opens sys_errlist name reply"
    and P_out: "ppc \<sigma> = P_out"
  shows "pipes_inv name reply given (parent_step \<sigma>)"
proof -
  note P_out
  then have "grants (pout \<sigma>) = []" using assms(1) by (simp add: pipes_inv_def places_ok_def)
  then have p: "parent_step \<sigma> = \<sigma>\<lparr>pout := (pout \<sigma>)\<lparr>written := written (pout \<sigma>) @ pbuf \<sigma>\<rparr>, ppc := P_read\<rparr>"
    using P_out by (simp add: parent_step_def pipe_client_def sys_write_def)
  have "under_way reply \<sigma> = pbuf \<sigma> @ under_way reply (parent_step \<sigma>)"
    using P_out by (simp add: p under_way_def rest_of_def)
  then show ?thesis
    using assms(1) P_out unfolding pipes_inv_def p
    by (simp add: ends_ok_def request_ok_def places_ok_def early_def)
qed

lemma parent_inv:
  assumes "pipes_inv name reply given \<sigma>" "can_answer opens sys_errlist name reply"
  shows "pipes_inv name reply given (parent_step \<sigma>)"
proof (cases "ppc \<sigma>")
  case P_gets
  then have "rest (pin \<sigma>) \<noteq> []" "asked (take_line (MAXBUFF - 1) (rest (pin \<sigma>))) = name"
    using assms(1) by (simp_all add: inv_defs)
  then obtain fp where fp: "parent_step \<sigma> = \<sigma>\<lparr>pin := fp, pbuf := name, ppc := P_write\<rparr>"
    using P_gets by (simp add: parent_step_def pipe_client_def fgets_def Let_def)
  show ?thesis
    using assms(1) P_gets unfolding fp by (simp add: inv_defs, elim conjE disjE, simp_all)
next
  case P_write
  have n: "name \<noteq> []" "length name \<le> PIPE_SIZE" using assms(2) by (auto simp: can_answer_def MAXBUFF_def PIPE_SIZE_def)
  have p: "parent_step \<sigma> = \<sigma>\<lparr>pipe1 := (pipe1 \<sigma>)\<lparr>pdata := name\<rparr>, ppc := P_read\<rparr>"
    using P_write n pipes_client_writes [OF assms(1) P_write] by (simp add: parent_step_def pipe_client_def pipe_write_def)
  show ?thesis
    using assms(1) P_write unfolding p by (simp add: inv_defs, elim conjE disjE, simp_all)
next
  case P_read
  then show ?thesis by (rule parent_inv_P_read [OF assms])
next
  case P_out
  then show ?thesis by (rule parent_inv_P_out [OF assms])
next
  case P_wait
  then show ?thesis using assms(1) by (auto simp: inv_defs parent_step_def server_gone_def)
next
  case P_close1
  then have "under_way reply (parent_step \<sigma>) = under_way reply \<sigma>"
    by (simp add: parent_step_def under_way_def rest_of_def)
  then show ?thesis
    using assms(1) P_close1 by (simp add: pipes_inv_def ends_ok_def request_ok_def places_ok_def early_def parent_step_def)
next
  case P_close2
  then have "under_way reply (parent_step \<sigma>) = under_way reply \<sigma>"
    by (simp add: parent_step_def under_way_def rest_of_def)
  then show ?thesis
    using assms(1) P_close2 by (simp add: pipes_inv_def ends_ok_def request_ok_def places_ok_def early_def parent_step_def)
next
  case P_close3
  then have "under_way reply (parent_step \<sigma>) = under_way reply \<sigma>"
    by (simp add: parent_step_def under_way_def rest_of_def)
  then show ?thesis
    using assms(1) P_close3 by (simp add: pipes_inv_def ends_ok_def request_ok_def places_ok_def early_def parent_step_def)
next
  case P_close4
  then have "under_way reply (parent_step \<sigma>) = under_way reply \<sigma>"
    by (simp add: parent_step_def under_way_def rest_of_def client_ends_def drop_ends_def)
  then show ?thesis
    using assms(1) P_close4 by (simp add: pipes_inv_def ends_ok_def request_ok_def places_ok_def early_def parent_step_def client_ends_def drop_ends_def)
qed (use assms(1) in \<open>simp_all add: parent_step_def\<close>)

text \<open>While the server is there, the client has not seen the end.\<close>

lemma waits_for_end:
  assumes "pipes_inv name reply given \<sigma>" "qpc \<sigma> \<noteq> Q_exit 0"
  shows "ppc \<sigma> \<notin> {P_wait, P_close3, P_close4, P_exit 0}"
  using assms by (auto simp: pipes_inv_def places_ok_def)

text \<open>A write of the server waits or stores all of its buffer.\<close>

lemma server_sends:
  assumes "pipes_inv name reply given \<sigma>" "child_step opens sys_errlist \<sigma> \<noteq> \<sigma>"
  shows "qpc \<sigma> = Q_err \<Longrightarrow>
      child_step opens sys_errlist \<sigma> = \<sigma>\<lparr>pipe2 := (pipe2 \<sigma>)\<lparr>pdata := pdata (pipe2 \<sigma>) @ qbuf \<sigma>\<rparr>, qpc := Q_close3\<rparr>"
    and "qpc \<sigma> = Q_data \<Longrightarrow>
      child_step opens sys_errlist \<sigma> = \<sigma>\<lparr>pipe2 := (pipe2 \<sigma>)\<lparr>pdata := pdata (pipe2 \<sigma>) @ qbuf \<sigma>\<rparr>, qpc := Q_file\<rparr>"
proof -
  have "rd_open (pipe2 \<sigma>) True" "qbuf \<sigma> \<noteq> []" if "qpc \<sigma> = Q_err \<or> qpc \<sigma> = Q_data"
  proof -
    have "ppc \<sigma> \<noteq> P_exit 0" using waits_for_end [OF assms(1)] that by auto
    then show "rd_open (pipe2 \<sigma>) True" "qbuf \<sigma> \<noteq> []" using assms(1) that by (auto simp: pipes_inv_def ends_ok_def places_ok_def)
  qed
  then show "qpc \<sigma> = Q_err \<Longrightarrow>
      child_step opens sys_errlist \<sigma> = \<sigma>\<lparr>pipe2 := (pipe2 \<sigma>)\<lparr>pdata := pdata (pipe2 \<sigma>) @ qbuf \<sigma>\<rparr>, qpc := Q_close3\<rparr>"
    "qpc \<sigma> = Q_data \<Longrightarrow>
      child_step opens sys_errlist \<sigma> = \<sigma>\<lparr>pipe2 := (pipe2 \<sigma>)\<lparr>pdata := pdata (pipe2 \<sigma>) @ qbuf \<sigma>\<rparr>, qpc := Q_file\<rparr>"
    using assms(2) by (auto simp: child_step_def pipe_server_def pipe_write_def no_readers_def split: if_splits)
qed

lemma child_inv_Q_read:
  assumes "pipes_inv name reply given \<sigma>" "can_answer opens sys_errlist name reply"
    and Q_read: "qpc \<sigma> = Q_read"
  shows "pipes_inv name reply given (child_step opens sys_errlist \<sigma>)"
proof -
  have n: "name \<noteq> []" "length name < MAXBUFF" using assms(2) by (auto simp: can_answer_def)
  show ?thesis
  proof (cases "early (ppc \<sigma>)")
    case True
    then have "ppc \<sigma> \<noteq> P_close4" "ppc \<sigma> \<noteq> P_exit 0" by (auto simp: early_def)
    then have "pdata (pipe1 \<sigma>) = []" "wr_open (pipe1 \<sigma>) True"
      using assms(1) True by (simp_all add: pipes_inv_def request_ok_def ends_ok_def)
    then have "child_step opens sys_errlist \<sigma> = \<sigma>"
      using Q_read by (simp add: child_step_def pipe_server_def pipe_read_def no_writers_def)
    then show ?thesis using assms(1) by simp
  next
    case False
    then have "pdata (pipe1 \<sigma>) = name"
      using assms(1) Q_read by (simp add: pipes_inv_def request_ok_def listening_def)
    then have p: "child_step opens sys_errlist \<sigma> = \<sigma>\<lparr>pipe1 := (pipe1 \<sigma>)\<lparr>pdata := []\<rparr>, qbuf := name, qpc := Q_open\<rparr>"
      using Q_read n by (simp add: child_step_def pipe_server_def pipe_read_def)
    have "under_way reply (child_step opens sys_errlist \<sigma>) = under_way reply \<sigma>"
      using Q_read by (simp add: p under_way_def rest_of_def listening_def)
    then show ?thesis
      using assms(1) Q_read False unfolding pipes_inv_def p
      by (simp add: ends_ok_def request_ok_def places_ok_def listening_def)
  qed
qed

lemma child_inv_Q_open:
  assumes "pipes_inv name reply given \<sigma>" "can_answer opens sys_errlist name reply"
    and Q_open: "qpc \<sigma> = Q_open"
  shows "pipes_inv name reply given (child_step opens sys_errlist \<sigma>)"
proof -
  note Q_open
  then have n: "cstr (qbuf \<sigma>) = name" using assms(1-2) by (auto simp: pipes_inv_def request_ok_def can_answer_def cstr_no_NUL)
  show ?thesis
  proof (cases "opens name")
    case (Inl e)
    then have r: "reply = name @ pipe_errmesg sys_errlist e" "length (pipe_errmesg sys_errlist e) < 256" "length reply < MAXBUFF"
      "reply \<noteq> []"
      using assms(2) by (auto simp: can_answer_def)
    then have p: "child_step opens sys_errlist \<sigma> = \<sigma>\<lparr>qbuf := reply, qpc := Q_err\<rparr>"
      using Q_open n Inl by (simp add: child_step_def pipe_server_def Let_def)
    have "under_way reply (child_step opens sys_errlist \<sigma>) = under_way reply \<sigma>"
      using Q_open by (simp add: p under_way_def rest_of_def listening_def)
    then show ?thesis
      using assms(1) Q_open r(3,4) unfolding pipes_inv_def p
      by (simp add: ends_ok_def request_ok_def places_ok_def listening_def)
  next
    case (Inr f)
    then have p: "child_step opens sys_errlist \<sigma> = \<sigma>\<lparr>qfile := f, qpc := Q_file\<rparr>"
      using Q_open n by (simp add: child_step_def pipe_server_def)
    have r: "src_broken f = None" "reply = src_pending f" using assms(2) Inr by (auto simp: can_answer_def)
    have "under_way reply (child_step opens sys_errlist \<sigma>) = under_way reply \<sigma>"
      using Q_open r(2) by (simp add: p under_way_def rest_of_def listening_def)
    then show ?thesis
      using assms(1) Q_open r(1) unfolding pipes_inv_def p
      by (simp add: ends_ok_def request_ok_def places_ok_def listening_def)
  qed
qed

lemma child_inv_Q_err:
  assumes "pipes_inv name reply given \<sigma>" "can_answer opens sys_errlist name reply"
    and Q_err: "qpc \<sigma> = Q_err"
  shows "pipes_inv name reply given (child_step opens sys_errlist \<sigma>)"
proof -
  show ?thesis
  proof (cases "child_step opens sys_errlist \<sigma> = \<sigma>")
    case False
    then have p: "child_step opens sys_errlist \<sigma> = \<sigma>\<lparr>pipe2 := (pipe2 \<sigma>)\<lparr>pdata := pdata (pipe2 \<sigma>) @ qbuf \<sigma>\<rparr>, qpc := Q_close3\<rparr>"
      using server_sends [OF assms(1)] Q_err by blast
    have "under_way reply (child_step opens sys_errlist \<sigma>) = under_way reply \<sigma>"
      using Q_err by (simp add: p under_way_def rest_of_def listening_def)
    then show ?thesis
      using assms(1) Q_err waits_for_end [OF assms(1)] unfolding pipes_inv_def p
      by (simp add: ends_ok_def request_ok_def places_ok_def listening_def)
  qed (use assms(1) in simp)
qed

lemma child_inv_Q_file:
  assumes "pipes_inv name reply given \<sigma>" "can_answer opens sys_errlist name reply"
    and Q_file: "qpc \<sigma> = Q_file"
  shows "pipes_inv name reply given (child_step opens sys_errlist \<sigma>)"
proof -
  note Q_file
  then have b: "src_broken (qfile \<sigma>) = None" using assms(1) by (simp add: pipes_inv_def places_ok_def)
  show ?thesis
  proof (cases "src_pending (qfile \<sigma>) = []")
    case True
    then obtain f where "sys_read (qfile \<sigma>) MAXBUFF = (Inr [], f)"
      using file_reader.rd_eof [OF True b, of MAXBUFF] by (auto simp: MAXBUFF_def)
    then have p: "child_step opens sys_errlist \<sigma> = \<sigma>\<lparr>qfile := f, qpc := Q_close3\<rparr>"
      using Q_file by (simp add: child_step_def pipe_server_def)
    have "under_way reply (child_step opens sys_errlist \<sigma>) = under_way reply \<sigma>"
      using Q_file True by (simp add: p under_way_def rest_of_def listening_def)
    then show ?thesis
      using assms(1) Q_file unfolding pipes_inv_def p
      by (simp add: ends_ok_def request_ok_def places_ok_def listening_def)
  next
    case False
    then obtain xs f where r: "sys_read (qfile \<sigma>) MAXBUFF = (Inr xs, f)" "xs \<noteq> []" "length xs \<le> MAXBUFF"
      "src_pending (qfile \<sigma>) = xs @ src_pending f" "src_broken f = None"
      using file_reader.rd_some [OF False, of MAXBUFF] b by (auto simp: MAXBUFF_def)
    then have p: "child_step opens sys_errlist \<sigma> = \<sigma>\<lparr>qfile := f, qbuf := xs, qpc := Q_data\<rparr>"
      using Q_file by (simp add: child_step_def pipe_server_def)
    have "under_way reply (child_step opens sys_errlist \<sigma>) = under_way reply \<sigma>"
      using Q_file r(4) by (simp add: p under_way_def rest_of_def listening_def)
    then show ?thesis
      using assms(1) Q_file r unfolding pipes_inv_def p
      by (simp add: ends_ok_def request_ok_def places_ok_def listening_def)
  qed
qed

lemma child_inv_Q_data:
  assumes "pipes_inv name reply given \<sigma>" "can_answer opens sys_errlist name reply"
    and Q_data: "qpc \<sigma> = Q_data"
  shows "pipes_inv name reply given (child_step opens sys_errlist \<sigma>)"
proof -
  show ?thesis
  proof (cases "child_step opens sys_errlist \<sigma> = \<sigma>")
    case False
    then have p: "child_step opens sys_errlist \<sigma> = \<sigma>\<lparr>pipe2 := (pipe2 \<sigma>)\<lparr>pdata := pdata (pipe2 \<sigma>) @ qbuf \<sigma>\<rparr>, qpc := Q_file\<rparr>"
      using server_sends [OF assms(1)] Q_data by blast
    have "under_way reply (child_step opens sys_errlist \<sigma>) = under_way reply \<sigma>"
      using Q_data by (simp add: p under_way_def rest_of_def listening_def)
    then show ?thesis
      using assms(1) Q_data waits_for_end [OF assms(1)] unfolding pipes_inv_def p
      by (simp add: ends_ok_def request_ok_def places_ok_def listening_def)
  qed (use assms(1) in simp)
qed

lemma child_inv:
  assumes "pipes_inv name reply given \<sigma>" "can_answer opens sys_errlist name reply"
  shows "pipes_inv name reply given (child_step opens sys_errlist \<sigma>)"
proof (cases "qpc \<sigma>")
  case Q_read
  then show ?thesis by (rule child_inv_Q_read [OF assms])
next
  case Q_open
  then show ?thesis by (rule child_inv_Q_open [OF assms])
next
  case Q_err
  then show ?thesis by (rule child_inv_Q_err [OF assms])
next
  case Q_file
  then show ?thesis by (rule child_inv_Q_file [OF assms])
next
  case Q_data
  then show ?thesis by (rule child_inv_Q_data [OF assms])
next
  case Q_close1
  then have "under_way reply (child_step opens sys_errlist \<sigma>) = under_way reply \<sigma>"
    by (simp add: child_step_def under_way_def rest_of_def listening_def)
  then show ?thesis
    using assms(1) Q_close1 by (simp add: pipes_inv_def ends_ok_def request_ok_def places_ok_def listening_def child_step_def)
next
  case Q_close2
  then have "under_way reply (child_step opens sys_errlist \<sigma>) = under_way reply \<sigma>"
    by (simp add: child_step_def under_way_def rest_of_def listening_def)
  then show ?thesis
    using assms(1) Q_close2 by (simp add: pipes_inv_def ends_ok_def request_ok_def places_ok_def listening_def child_step_def)
next
  case Q_close3
  then have "under_way reply (child_step opens sys_errlist \<sigma>) = under_way reply \<sigma>"
    by (simp add: child_step_def under_way_def rest_of_def listening_def)
  then show ?thesis
    using assms(1) Q_close3 by (simp add: pipes_inv_def ends_ok_def request_ok_def places_ok_def listening_def child_step_def)
next
  case Q_close4
  then have "under_way reply (child_step opens sys_errlist \<sigma>) = under_way reply \<sigma>"
    by (simp add: child_step_def under_way_def rest_of_def listening_def server_ends_def drop_ends_def)
  then show ?thesis
    using assms(1) Q_close4 waits_for_end [OF assms(1)]
    by (simp add: pipes_inv_def ends_ok_def request_ok_def places_ok_def listening_def child_step_def server_ends_def drop_ends_def)
qed (use assms(1) in \<open>simp_all add: child_step_def\<close>)

section \<open>Progress\<close>

fun client_rank :: "ppc_client \<Rightarrow> nat" where
  "client_rank P_close1 = 8" | "client_rank P_close2 = 7" | "client_rank P_gets = 6" | "client_rank P_write = 5"
| "client_rank P_read = 4" | "client_rank P_out = 4" | "client_rank P_wait = 3" | "client_rank P_close3 = 2"
| "client_rank P_close4 = 1" | "client_rank _ = 0"

fun server_rank :: "ppc_server \<Rightarrow> nat" where
  "server_rank Q_close1 = 7" | "server_rank Q_close2 = 6" | "server_rank Q_read = 5" | "server_rank Q_open = 4"
| "server_rank Q_err = 3" | "server_rank Q_file = 3" | "server_rank Q_data = 3" | "server_rank Q_close3 = 2"
| "server_rank Q_close4 = 1" | "server_rank _ = 0"

text \<open>Every byte of the answer is read, sent, received and printed.\<close>

definition pipes_work :: "byte list \<Rightarrow> pipes \<Rightarrow> nat" where
  "pipes_work reply \<sigma> = 4 * length (rest_of reply \<sigma>) +
     3 * (if qpc \<sigma> = Q_err \<or> qpc \<sigma> = Q_data then length (qbuf \<sigma>) else 0) +
     2 * length (pdata (pipe2 \<sigma>)) + (if ppc \<sigma> = P_out then length (pbuf \<sigma>) else 0) +
     client_rank (ppc \<sigma>) + server_rank (qpc \<sigma>)"

definition pipes_final :: "pipes \<Rightarrow> bool" where
  "pipes_final \<sigma> \<longleftrightarrow> ppc \<sigma> = P_exit 0 \<and> qpc \<sigma> = Q_exit 0"


lemmas work_defs = pipes_work_def rest_of_def listening_def

lemma parent_closer:
  assumes "pipes_inv name reply given \<sigma>" "parent_step \<sigma> \<noteq> \<sigma>"
  shows "pipes_work reply (parent_step \<sigma>) < pipes_work reply \<sigma>"
proof (cases "ppc \<sigma>")
  case P_gets
  have "rest (pin \<sigma>) \<noteq> []" using P_gets assms(1) by (simp add: inv_defs)
  then show ?thesis
    using P_gets by (simp add: work_defs parent_step_def pipe_client_def fgets_def Let_def)
next
  case P_write
  show ?thesis
    using pipes_client_writes [OF assms(1) P_write] P_write assms(2) by (auto simp: work_defs parent_step_def pipe_client_def pipe_write_def split: if_splits)
next
  case P_read
  show ?thesis
  proof (cases "pdata (pipe2 \<sigma>)")
    case Nil
    then show ?thesis
      using P_read assms(2) by (cases "no_writers (pipe2 \<sigma>)") (simp_all add: work_defs parent_step_def pipe_client_def pipe_read_def)
  next
    case (Cons x xs)
    then obtain b d where p: "parent_step \<sigma> = \<sigma>\<lparr>pipe2 := (pipe2 \<sigma>)\<lparr>pdata := d\<rparr>, pbuf := b, ppc := P_out\<rparr>"
      "pdata (pipe2 \<sigma>) = b @ d" "b \<noteq> []" using pipes_client_receives P_read by blast
    then show ?thesis using P_read unfolding p(1) by (cases b) (simp_all add: work_defs)
  qed
next
  case P_out
  have "grants (pout \<sigma>) = []" "pbuf \<sigma> \<noteq> []" using assms(1) P_out by (auto simp: inv_defs)
  then show ?thesis
    using P_out by (simp add: work_defs parent_step_def pipe_client_def sys_write_def)
next
  case P_wait
  then show ?thesis
    using assms by (simp add: work_defs parent_step_def split: if_splits)
next
  case P_close4
  then show ?thesis
    by (simp add: work_defs parent_step_def client_ends_def drop_ends_def)
qed (use assms(2) in \<open>simp_all add: work_defs parent_step_def\<close>)


lemma child_closer_Q_read:
  assumes "pipes_inv name reply given \<sigma>" "can_answer opens sys_errlist name reply" "child_step opens sys_errlist \<sigma> \<noteq> \<sigma>"
    and Q_read: "qpc \<sigma> = Q_read"
  shows "pipes_work reply (child_step opens sys_errlist \<sigma>) < pipes_work reply \<sigma>"
proof -
  show ?thesis
  proof (cases "pdata (pipe1 \<sigma>) = []")
    case True
    then have "no_writers (pipe1 \<sigma>)"
      using assms(3) Q_read by (cases "no_writers (pipe1 \<sigma>)") (simp_all add: child_step_def pipe_server_def pipe_read_def)
    then have "ppc \<sigma> = P_close4 \<or> ppc \<sigma> = P_exit 0" using assms(1) by (simp add: no_writers_def pipes_inv_def ends_ok_def)
    then have "\<not> early (ppc \<sigma>)" by (auto simp: early_def)
    then have "name = []" using True assms(1) Q_read by (simp add: pipes_inv_def request_ok_def listening_def)
    then show ?thesis using assms(2) by (simp add: can_answer_def)
  next
    case False
    then have "pdata (pipe1 \<sigma>) = name" "name \<noteq> []" "length name < MAXBUFF"
      using assms(1,2) by (auto simp: pipes_inv_def request_ok_def can_answer_def split: if_splits)
    then show ?thesis
      using Q_read by (simp add: child_step_def pipe_server_def pipe_read_def work_defs)
  qed
qed

lemma child_closer_Q_open:
  assumes "pipes_inv name reply given \<sigma>" "can_answer opens sys_errlist name reply" "child_step opens sys_errlist \<sigma> \<noteq> \<sigma>"
    and Q_open: "qpc \<sigma> = Q_open"
  shows "pipes_work reply (child_step opens sys_errlist \<sigma>) < pipes_work reply \<sigma>"
proof -
  note Q_open
  then have n: "cstr (qbuf \<sigma>) = name" using assms(1-3) by (auto simp: pipes_inv_def request_ok_def can_answer_def cstr_no_NUL)
  show ?thesis
  proof (cases "opens name")
    case (Inl e)
    then have r: "reply = name @ pipe_errmesg sys_errlist e" "length (pipe_errmesg sys_errlist e) < 256" "length reply < MAXBUFF"
      using assms(2) by (auto simp: can_answer_def)
    then have p: "child_step opens sys_errlist \<sigma> = \<sigma>\<lparr>qbuf := reply, qpc := Q_err\<rparr>"
      using Q_open n Inl by (simp add: child_step_def pipe_server_def Let_def)
    show ?thesis using Q_open unfolding p by (simp add: work_defs)
  next
    case (Inr f)
    then have p: "child_step opens sys_errlist \<sigma> = \<sigma>\<lparr>qfile := f, qpc := Q_file\<rparr>"
      using Q_open n by (simp add: child_step_def pipe_server_def)
    have "reply = src_pending f" using assms(2) Inr by (auto simp: can_answer_def)
    then show ?thesis using Q_open unfolding p by (simp add: work_defs)
  qed
qed

lemma child_closer_Q_file:
  assumes "pipes_inv name reply given \<sigma>" "can_answer opens sys_errlist name reply" "child_step opens sys_errlist \<sigma> \<noteq> \<sigma>"
    and Q_file: "qpc \<sigma> = Q_file"
  shows "pipes_work reply (child_step opens sys_errlist \<sigma>) < pipes_work reply \<sigma>"
proof -
  note Q_file
  then have b: "src_broken (qfile \<sigma>) = None" using assms(1) by (simp add: pipes_inv_def places_ok_def)
  show ?thesis
  proof (cases "src_pending (qfile \<sigma>) = []")
    case True
    then obtain f where "sys_read (qfile \<sigma>) MAXBUFF = (Inr [], f)"
      using file_reader.rd_eof [OF True b, of MAXBUFF] by (auto simp: MAXBUFF_def)
    then show ?thesis using Q_file by (simp add: child_step_def pipe_server_def work_defs)
  next
    case False
    then obtain xs f where "sys_read (qfile \<sigma>) MAXBUFF = (Inr xs, f)" "xs \<noteq> []" "src_pending (qfile \<sigma>) = xs @ src_pending f"
      using file_reader.rd_some [OF False, of MAXBUFF] b by (auto simp: MAXBUFF_def)
    then show ?thesis
      using Q_file by (cases xs) (simp_all add: child_step_def pipe_server_def work_defs)
  qed
qed

lemma child_closer:
  assumes "pipes_inv name reply given \<sigma>" "can_answer opens sys_errlist name reply" "child_step opens sys_errlist \<sigma> \<noteq> \<sigma>"
  shows "pipes_work reply (child_step opens sys_errlist \<sigma>) < pipes_work reply \<sigma>"
proof (cases "qpc \<sigma>")
  case Q_read
  then show ?thesis by (rule child_closer_Q_read [OF assms])
next
  case Q_open
  then show ?thesis by (rule child_closer_Q_open [OF assms])
next
  case Q_err
  then show ?thesis
    using server_sends(1) [OF assms(1,3)] by (simp add: work_defs)
next
  case Q_data
  have "qbuf \<sigma> \<noteq> []" using Q_data assms(1) by (simp add: pipes_inv_def places_ok_def)
  then show ?thesis
    using Q_data server_sends(2) [OF assms(1,3)] by (cases "qbuf \<sigma>") (simp_all add: work_defs)
next
  case Q_file
  then show ?thesis by (rule child_closer_Q_file [OF assms])
next
  case Q_close4
  then show ?thesis by (simp add: child_step_def work_defs server_ends_def drop_ends_def)
qed (use assms(3) in \<open>simp_all add: child_step_def work_defs\<close>)

lemma reader_or_child_moves:
  assumes "pipes_inv name reply given \<sigma>" "can_answer opens sys_errlist name reply" and P_read: "ppc \<sigma> = P_read"
    and pc: "ppc (parent_step \<sigma>) = ppc \<sigma>" "qpc (child_step opens sys_errlist \<sigma>) = qpc \<sigma>"
  shows False
proof -
  have ok: "ends_ok \<sigma>" "request_ok name \<sigma>" "places_ok \<sigma>" using assms(1) by (simp_all add: pipes_inv_def)
  have n: "name \<noteq> []" "length name \<le> PIPE_SIZE" "length name < MAXBUFF" using assms(2) by (auto simp: can_answer_def MAXBUFF_def PIPE_SIZE_def)
  have d: "pdata (pipe2 \<sigma>) = []" "\<not> no_writers (pipe2 \<sigma>)"
    using pc(1) P_read by (auto simp: parent_step_def pipe_client_def pipe_read_def MAXBUFF_def split: if_splits)
  have r: "rd_open (pipe2 \<sigma>) True" using ok(1) P_read by (simp add: ends_ok_def)
  have q: "length (qbuf \<sigma>) \<le> PIPE_SIZE" if "qpc \<sigma> = Q_err \<or> qpc \<sigma> = Q_data"
    using ok(3) that by (auto simp: places_ok_def MAXBUFF_def PIPE_SIZE_def)
  show False
  proof (cases "qpc \<sigma>")
    case Q_read
    then have "pdata (pipe1 \<sigma>) = name" using ok(2) P_read by (simp add: request_ok_def listening_def early_def)
    then show False using pc(2) n Q_read by (simp add: child_step_def pipe_server_def pipe_read_def server_ends_def)
  next
    case Q_open
    then show False using pc(2)
      by (cases "opens (cstr (qbuf \<sigma>))") (simp_all add: child_step_def pipe_server_def Let_def server_ends_def split: if_splits)
  next
    case Q_err
    then show False using pc(2) d r q by (cases "qbuf \<sigma> = []") (simp_all add: child_step_def pipe_server_def pipe_write_def no_readers_def)
  next
    case Q_data
    then show False using pc(2) d r q by (cases "qbuf \<sigma> = []") (simp_all add: child_step_def pipe_server_def pipe_write_def no_readers_def)
  next
    case Q_file
    then show False using pc(2)
      by (auto simp: child_step_def pipe_server_def server_ends_def split: sum.splits if_splits prod.splits)
  next
    case (Q_exit s)
    then show False using d(2) ok(1,3) P_read by (simp add: ends_ok_def places_ok_def no_writers_def)
  next
    case Q_killed
    then show False using ok(3) by (simp add: places_ok_def)
  qed (use pc(2) in \<open>simp_all add: child_step_def server_ends_def\<close>)
qed

lemma pipes_moves:
  assumes "pipes_inv name reply given \<sigma>" "can_answer opens sys_errlist name reply" "\<not> pipes_final \<sigma>"
  shows "parent_step \<sigma> \<noteq> \<sigma> \<or> child_step opens sys_errlist \<sigma> \<noteq> \<sigma>"
proof (rule ccontr)
  assume "\<not> ?thesis"
  then have stuck: "parent_step \<sigma> = \<sigma>" "child_step opens sys_errlist \<sigma> = \<sigma>" by simp_all
  have pc: "ppc (parent_step \<sigma>) = ppc \<sigma>" "qpc (child_step opens sys_errlist \<sigma>) = qpc \<sigma>" using stuck by simp_all
  have ok: "ends_ok \<sigma>" "request_ok name \<sigma>" "places_ok \<sigma>" using assms(1) by (simp_all add: pipes_inv_def)
  have n: "name \<noteq> []" "length name \<le> PIPE_SIZE" "length name < MAXBUFF" using assms(2) by (auto simp: can_answer_def MAXBUFF_def PIPE_SIZE_def)
  show False
  proof (cases "ppc \<sigma>")
    case P_write
    then show False
      using pc(1) n pipes_client_writes [OF assms(1) P_write] by (simp add: parent_step_def pipe_client_def pipe_write_def)
  next
    case P_gets
    then show False
      using pc(1) ok(2) by (simp add: parent_step_def pipe_client_def request_ok_def early_def fgets_def Let_def)
  next
    case P_out
    then show False using pc(1) ok(3) by (simp add: parent_step_def pipe_client_def places_ok_def sys_write_def)
  next
    case P_wait
    then show False using pc(1) ok(3) by (simp add: parent_step_def places_ok_def server_gone_def)
  next
    case P_read
    then show False by (rule reader_or_child_moves [OF assms(1,2) _ pc])
  next
    case (P_exit s)
    then show False using ok(3) assms(3) by (simp add: places_ok_def pipes_final_def)
  next
    case P_killed
    then show False using ok(3) by (simp add: places_ok_def)
  qed (use pc(1) in \<open>simp_all add: parent_step_def client_ends_def\<close>)
qed

interpretation pipes: rounds "pipes_step opens sys_errlist" UNIV
  "\<lambda>\<sigma>. pipes_inv name reply given \<sigma> \<and> can_answer opens sys_errlist name reply" "pipes_work reply" pipes_final
  for opens sys_errlist name reply given
proof unfold_locales
  fix \<sigma> :: pipes and p :: bool
  assume i: "pipes_inv name reply given \<sigma> \<and> can_answer opens sys_errlist name reply"
  note j = conjunct1 [OF i] conjunct2 [OF i]
  show "pipes_inv name reply given (pipes_step opens sys_errlist p \<sigma>) \<and> can_answer opens sys_errlist name reply"
    using parent_inv [OF j] child_inv [OF j] j(2) by (simp add: pipes_step_def)
  show "pipes_step opens sys_errlist p \<sigma> \<noteq> \<sigma> \<Longrightarrow> pipes_work reply (pipes_step opens sys_errlist p \<sigma>) < pipes_work reply \<sigma>"
    using parent_closer [OF j(1)] child_closer [OF j] by (simp add: pipes_step_def split: if_splits)
  show "\<not> pipes_final \<sigma> \<Longrightarrow> \<exists>p \<in> UNIV. pipes_step opens sys_errlist p \<sigma> \<noteq> \<sigma>"
    using pipes_moves [OF j] by (metis UNIV_I pipes_step_def)
next
  fix \<sigma> :: pipes and p :: bool
  show "pipes_final \<sigma> \<Longrightarrow> pipes_step opens sys_errlist p \<sigma> = \<sigma>"
    by (simp add: pipes_final_def pipes_step_def parent_step_def child_step_def)
qed

lemma start_inv:
  assumes "can_answer opens sys_errlist name reply" "rest fp \<noteq> []" "asked (take_line (MAXBUFF - 1) (rest fp)) = name" "grants k = []"
  shows "pipes_inv name reply (written k) (pipes_start fp k)"
  using assms(2-4)
  by (simp add: pipes_inv_def ends_ok_def request_ok_def places_ok_def under_way_def rest_of_def early_def listening_def
    pipes_start_def fresh_pipe_def)

lemma inv_output:
  assumes "pipes_inv name reply given \<sigma>"
  shows "\<exists>more. written (pout \<sigma>) @ more = given @ reply" "ppc \<sigma> \<noteq> P_killed" "qpc \<sigma> \<noteq> Q_killed"
    "ppc \<sigma> = P_exit s \<Longrightarrow> s = 0 \<and> written (pout \<sigma>) = given @ reply" "qpc \<sigma> = Q_exit s \<Longrightarrow> s = 0"
proof -
  have i: "places_ok \<sigma>" "written (pout \<sigma>) @ under_way reply \<sigma> = given @ reply" using assms by (simp_all add: pipes_inv_def)
  then show "\<exists>more. written (pout \<sigma>) @ more = given @ reply" by blast
  show "ppc \<sigma> \<noteq> P_killed" "qpc \<sigma> \<noteq> Q_killed" "qpc \<sigma> = Q_exit s \<Longrightarrow> s = 0" using i(1) by (simp_all add: places_ok_def)
  assume p: "ppc \<sigma> = P_exit s"
  then have "s = 0" using i(1) by (simp add: places_ok_def)
  moreover have "qpc \<sigma> = Q_exit 0" "pdata (pipe2 \<sigma>) = []" using i(1) p \<open>s = 0\<close> by (simp_all add: places_ok_def)
  then have "under_way reply \<sigma> = []" using p by (simp add: under_way_def rest_of_def listening_def)
  ultimately show "s = 0 \<and> written (pout \<sigma>) = given @ reply" using i(2) by simp
qed

section \<open>Properties\<close>

text \<open>C7: the file server over two pipes.  Whatever the order of the two processes, what the client has
  printed is the beginning of the answer, none of them fails, and a client that exits has printed all
  of it: the file, or the name with the text of the error.  And they do end, with status 0: after
  \<open>4 n + 15\<close> rounds in which each has a turn, \<open>n\<close> being the length of the answer, because each closes
  the ends it does not use before it reads.\<close>
theorem pipes_deliver_the_file:
  fixes opens sys_errlist
  assumes "can_answer opens sys_errlist (asked (take_line (MAXBUFF - 1) (rest fp))) reply" "rest fp \<noteq> []" "grants k = []"
  shows "(\<exists>more. written (pout (fold (pipes_step opens sys_errlist) turns (pipes_start fp k))) @ more = written k @ reply) \<and>
     (\<forall>s. ppc (fold (pipes_step opens sys_errlist) turns (pipes_start fp k)) = P_exit s \<longrightarrow> s = 0 \<and>
        written (pout (fold (pipes_step opens sys_errlist) turns (pipes_start fp k))) = written k @ reply) \<and>
     ((\<forall>r \<in> set rs. set r = UNIV) \<and> 4 * length reply + 15 \<le> length rs \<longrightarrow>
        ppc (fold (pipes_step opens sys_errlist) (concat rs) (pipes_start fp k)) = P_exit 0 \<and>
        qpc (fold (pipes_step opens sys_errlist) (concat rs) (pipes_start fp k)) = Q_exit 0)"
proof -
  define name where "name = asked (take_line (MAXBUFF - 1) (rest fp))"
  have a: "can_answer opens sys_errlist name reply" using assms(1) by (simp add: name_def)
  have i: "pipes_inv name reply (written k) (pipes_start fp k)"
    by (rule start_inv [OF a assms(2) name_def [symmetric] assms(3)])
  have r: "pipes_inv name reply (written k) (fold (pipes_step opens sys_errlist) ts (pipes_start fp k))" for ts
    using pipes.run_inv [OF conjI [OF i a]] by blast
  have w: "pipes_work reply (pipes_start fp k) = 4 * length reply + 15"
    by (simp add: work_defs pipes_start_def fresh_pipe_def)
  have "pipes_final (fold (pipes_step opens sys_errlist) (concat rs) (pipes_start fp k))"
    if "\<forall>r \<in> set rs. set r = UNIV" "4 * length reply + 15 \<le> length rs"
    using pipes.rounds_end [OF conjI [OF i a], of rs] that w by auto
  then show ?thesis using inv_output [OF r] by (auto simp: pipes_final_def)
qed

theorem pipes_deliver_the_file_witness:
  "written (pout (fold (pipes_step (\<lambda>f. if f = ''f'' then Inr [Data ''ab''] else Inl ENOENT) (\<lambda>_. ''No such file''))
     (concat (replicate 23 [True, False])) (pipes_start \<lparr>rest = ''f'' @ [NL], read_error = False\<rparr> \<lparr>written = [], grants = []\<rparr>))) = ''ab''"
proof -
  let ?o = "\<lambda>f. if f = ''f'' then Inr [Data ''ab''] else Inl ENOENT" and ?e = "\<lambda>_ :: errno. ''No such file''"
  let ?fp = "\<lparr>rest = ''f'' @ [NL], read_error = False\<rparr>" and ?k = "\<lparr>written = [], grants = []\<rparr>"
  have n: "asked (take_line (MAXBUFF - 1) (rest ?fp)) = ''f''"
    by (simp add: MAXBUFF_def asked_def strlen_def cstr_def)
  have "can_answer ?o ?e (asked (take_line (MAXBUFF - 1) (rest ?fp))) ''ab''"
    unfolding n by (simp add: can_answer_def MAXBUFF_def)
  moreover have "\<forall>r \<in> set (replicate 23 [True, False]). set r = UNIV" by auto
  ultimately show ?thesis
    using pipes_deliver_the_file [of ?o ?e ?fp "''ab''" ?k "concat (replicate 23 [True, False])" "replicate 23 [True, False]"] by simp
qed

text \<open>The empty name: a write of no bytes leaves the server asleep.\<close>

definition starved :: "byte list \<Rightarrow> pipes \<Rightarrow> bool" where
  "starved given \<sigma> \<longleftrightarrow> pdata (pipe1 \<sigma>) = [] \<and> pdata (pipe2 \<sigma>) = [] \<and> wr_open (pipe1 \<sigma>) True \<and> wr_open (pipe2 \<sigma>) False \<and>
     listening (qpc \<sigma>) \<and> (early (ppc \<sigma>) \<or> ppc \<sigma> = P_read) \<and> (ppc \<sigma> = P_write \<longrightarrow> pbuf \<sigma> = []) \<and>
     (early (ppc \<sigma>) \<and> ppc \<sigma> \<noteq> P_write \<longrightarrow> rest (pin \<sigma>) \<noteq> [] \<and> asked (take_line (MAXBUFF - 1) (rest (pin \<sigma>))) = []) \<and>
     written (pout \<sigma>) = given"

lemma starved_step:
  assumes "starved given \<sigma>"
  shows "starved given (pipes_step opens sys_errlist who \<sigma>)"
proof -
  have "starved given (parent_step \<sigma>)"
  proof (cases "ppc \<sigma>")
    case P_read
    then have "parent_step \<sigma> = \<sigma>"
      using assms by (simp add: starved_def parent_step_def pipe_client_def pipe_read_def no_writers_def)
    then show ?thesis using assms by simp
  qed (use assms in \<open>simp_all add: starved_def early_def parent_step_def pipe_client_def pipe_write_def fgets_def Let_def\<close>)
  moreover have "starved given (child_step opens sys_errlist \<sigma>)"
    using assms by (cases "qpc \<sigma>")
      (simp_all add: starved_def listening_def child_step_def pipe_server_def pipe_read_def no_writers_def)
  ultimately show ?thesis by (simp add: pipes_step_def)
qed

text \<open>An empty line hangs the program.  The client writes no byte and waits for the answer, the
  server goes on waiting for a name: in no order of steps does either of them exit, and nothing is
  printed.\<close>
theorem empty_line_hangs_the_pipes:
  assumes "rest fp \<noteq> []" "asked (take_line (MAXBUFF - 1) (rest fp)) = []"
  shows "(\<forall>s. ppc (fold (pipes_step opens sys_errlist) turns (pipes_start fp k)) \<noteq> P_exit s \<and>
        qpc (fold (pipes_step opens sys_errlist) turns (pipes_start fp k)) \<noteq> Q_exit s) \<and>
     written (pout (fold (pipes_step opens sys_errlist) turns (pipes_start fp k))) = written k"
proof -
  have "starved given \<sigma> \<Longrightarrow> starved given (fold (pipes_step opens sys_errlist) turns \<sigma>)" for given \<sigma>
    by (induction turns arbitrary: \<sigma>) (simp_all add: starved_step)
  moreover have "starved (written k) (pipes_start fp k)"
    using assms by (simp add: starved_def pipes_start_def fresh_pipe_def listening_def early_def)
  ultimately have "starved (written k) (fold (pipes_step opens sys_errlist) turns (pipes_start fp k))" by blast
  then show ?thesis by (auto simp: starved_def listening_def early_def)
qed

theorem empty_line_hangs_the_pipes_witness:
  "written (pout (fold (pipes_step (\<lambda>_. Inl ENOENT) (\<lambda>_. ''No such file'')) (concat (replicate 100 [True, False]))
     (pipes_start \<lparr>rest = [NL], read_error = False\<rparr> \<lparr>written = [], grants = []\<rparr>))) = []"
  using empty_line_hangs_the_pipes [of "\<lparr>rest = [NL], read_error = False\<rparr>" "\<lambda>_. Inl ENOENT" "\<lambda>_. ''No such file''"
      "concat (replicate 100 [True, False])" "\<lparr>written = [], grants = []\<rparr>"]
  by (simp add: MAXBUFF_def asked_def strlen_def cstr_def)

end
