(* ===== verification/Async_IO.thy ===== *)
theory Async_IO
  imports Kernel_IO
begin

unbundle bit_operations_syntax

text \<open>
  \<open>9.async_io/async_io.c\<close>: a copy of standard input to standard output that sleeps in \<open>sigsuspend\<close>
  until \<open>SIGIO\<close> reports input.  The signal may come between any two steps of the loop; it is blocked
  except while the process sleeps and at the end of a turn, and signals that wait do not queue.  The
  input is a terminal, which gives a reader one line at a time, or a stream, of which one \<open>read\<close>
  returns all that there is; never more than \<open>BUFFSIZE\<close> bytes.
\<close>

definition BUFFSIZE :: nat where "BUFFSIZE = 4096"

section \<open>Setting up\<close>

text \<open>The flags of descriptor 0 in the end, when no call fails: \<open>getfl\<close> is what \<open>F_GETFL\<close> returned.\<close>

definition async_setup :: "32 word \<Rightarrow> bool \<Rightarrow> 32 word option \<Rightarrow> bool \<Rightarrow> (int, 32 word) sum" where
  "async_setup fasync setown_ok getfl setfl_ok =
     (if \<not> setown_ok then Inl (- 1)
      else case getfl of
             None \<Rightarrow> Inl (- 1)
           | Some flags \<Rightarrow>
               if flags AND fasync \<noteq> 0 then Inr flags
               else if setfl_ok then Inr (flags OR fasync) else Inl (- 1))"

section \<open>The loop\<close>

datatype async_pc = A_block | A_test | A_suspend | A_read | A_write | A_clear | A_unblock | A_return int

record async =
  apc :: async_pc
  sigflag :: bool
  blocked :: bool               \<comment> \<open>\<open>SIGIO\<close> is in the mask of the process\<close>
  prev_set :: bool              \<comment> \<open>it was before the call of \<open>sigprocmask\<close>\<close>
  sigio :: bool                 \<comment> \<open>a signal waits\<close>
  buff :: "byte list"
  by_line :: bool               \<comment> \<open>the input is a terminal in canonical mode\<close>
  queued :: "byte list list"    \<comment> \<open>what can be read, as it arrived: the lines of a terminal\<close>
  ended :: bool                 \<comment> \<open>the input is closed\<close>
  aout :: sink

definition sigio_func :: "async \<Rightarrow> async" where
  "sigio_func \<sigma> = \<sigma>\<lparr>sigflag := True\<rparr>"

text \<open>A signal that is not blocked runs its handler at once.\<close>

definition raise_sigio :: "async \<Rightarrow> async" where
  "raise_sigio \<sigma> = (if blocked \<sigma> then \<sigma>\<lparr>sigio := True\<rparr> else sigio_func \<sigma>)"

definition set_mask :: "bool \<Rightarrow> async \<Rightarrow> async" where
  "set_mask b \<sigma> = (if sigio \<sigma> \<and> \<not> b then sigio_func (\<sigma>\<lparr>blocked := b, sigio := False\<rparr>) else \<sigma>\<lparr>blocked := b\<rparr>)"

text \<open>What can be read, and what one \<open>read\<close> takes of it and leaves.\<close>

definition avail :: "async \<Rightarrow> byte list" where
  "avail \<sigma> = concat (queued \<sigma>)"

definition leave :: "byte list \<Rightarrow> byte list list \<Rightarrow> byte list list" where
  "leave xs ps = (if xs = [] then ps else xs # ps)"

definition read_piece :: "bool \<Rightarrow> byte list list \<Rightarrow> byte list \<times> byte list list" where
  "read_piece line q =
     (case q of
        [] \<Rightarrow> ([], [])
      | p # ps \<Rightarrow> if line then (take BUFFSIZE p, leave (drop BUFFSIZE p) ps)
                  else (take BUFFSIZE (concat q), leave (drop BUFFSIZE (concat q)) []))"

definition one_read :: "async \<Rightarrow> byte list" where
  "one_read \<sigma> = fst (read_piece (by_line \<sigma>) (queued \<sigma>))"

definition unread :: "async \<Rightarrow> byte list list" where
  "unread \<sigma> = snd (read_piece (by_line \<sigma>) (queued \<sigma>))"

definition async_main :: "async \<Rightarrow> async" where
  "async_main \<sigma> =
     (case apc \<sigma> of
        A_block \<Rightarrow> \<sigma>\<lparr>prev_set := blocked \<sigma>, blocked := True, apc := A_test\<rparr>
      | A_test \<Rightarrow> if \<not> sigflag \<sigma> then \<sigma>\<lparr>apc := A_suspend\<rparr> else \<sigma>\<lparr>apc := A_read\<rparr>
      | A_suspend \<Rightarrow> if sigio \<sigma> then sigio_func (\<sigma>\<lparr>sigio := False, apc := A_test\<rparr>) else \<sigma>
      | A_read \<Rightarrow>
          if avail \<sigma> \<noteq> [] then \<sigma>\<lparr>buff := one_read \<sigma>, queued := unread \<sigma>, apc := A_write\<rparr>
          else if ended \<sigma> then \<sigma>\<lparr>apc := A_return 0\<rparr> else \<sigma>
      | A_write \<Rightarrow>
          (case sys_write (aout \<sigma>) (buff \<sigma>) of
             (Inr n, k) \<Rightarrow> if n \<noteq> length (buff \<sigma>) then \<sigma>\<lparr>aout := k, apc := A_return (- 1)\<rparr>
                           else \<sigma>\<lparr>aout := k, apc := A_clear\<rparr>
           | (Inl e, k) \<Rightarrow> \<sigma>\<lparr>aout := k, apc := A_return (- 1)\<rparr>)
      | A_clear \<Rightarrow> \<sigma>\<lparr>sigflag := False, apc := A_unblock\<rparr>
      | A_unblock \<Rightarrow> set_mask (prev_set \<sigma>) (\<sigma>\<lparr>apc := A_block\<rparr>)
      | A_return v \<Rightarrow> \<sigma>)"

text \<open>Input becomes readable (at a terminal, a line of it) or its writer closes it; both raise the signal.\<close>

datatype async_event = Turn | Arrive "byte list" | Close_input

definition async_event :: "async_event \<Rightarrow> async \<Rightarrow> async" where
  "async_event ev \<sigma> =
     (case ev of
        Turn \<Rightarrow> async_main \<sigma>
      | Arrive xs \<Rightarrow> if xs = [] \<or> ended \<sigma> then \<sigma> else raise_sigio (\<sigma>\<lparr>queued := queued \<sigma> @ [xs]\<rparr>)
      | Close_input \<Rightarrow> raise_sigio (\<sigma>\<lparr>ended := True\<rparr>))"

definition async_start :: "bool \<Rightarrow> sink \<Rightarrow> async" where
  "async_start line k = \<lparr>apc = A_block, sigflag = False, blocked = False, prev_set = False, sigio = False, buff = [],
     by_line = line, queued = [], ended = False, aout = k\<rparr>"

fun arrived :: "async_event list \<Rightarrow> byte list" where
  "arrived [] = []"
| "arrived (Arrive xs # evs) = xs @ arrived evs"
| "arrived (Close_input # evs) = []"
| "arrived (Turn # evs) = arrived evs"

section \<open>No input is forgotten\<close>

definition held :: "async \<Rightarrow> byte list" where
  "held \<sigma> = written (aout \<sigma>) @ (if apc \<sigma> = A_write then buff \<sigma> else []) @ avail \<sigma>"

definition mask_ok :: "async \<Rightarrow> bool" where
  "mask_ok \<sigma> \<longleftrightarrow> (if apc \<sigma> = A_block then \<not> blocked \<sigma> \<and> \<not> sigio \<sigma> else blocked \<sigma> \<and> \<not> prev_set \<sigma>)"

definition places :: "async \<Rightarrow> bool" where
  "places \<sigma> \<longleftrightarrow> grants (aout \<sigma>) = [] \<and> (apc \<sigma> = A_read \<longrightarrow> sigflag \<sigma>) \<and> (apc \<sigma> = A_unblock \<or> apc \<sigma> = A_suspend \<longrightarrow> \<not> sigflag \<sigma>) \<and>
     (\<forall>v. apc \<sigma> = A_return v \<longrightarrow> v = 0 \<and> avail \<sigma> = [] \<and> ended \<sigma>)"

text \<open>While input is there and no read is under way, the flag is set or a signal waits.\<close>

definition awake :: "async \<Rightarrow> bool" where
  "awake \<sigma> \<longleftrightarrow> (avail \<sigma> \<noteq> [] \<longrightarrow> sigio \<sigma> \<or> (sigflag \<sigma> \<and> apc \<sigma> \<noteq> A_write \<and> apc \<sigma> \<noteq> A_clear))"

definition async_inv :: "async \<Rightarrow> bool" where
  "async_inv \<sigma> \<longleftrightarrow> mask_ok \<sigma> \<and> places \<sigma>"

lemmas async_defs = async_inv_def mask_ok_def places_def

lemma concat_leave [simp]: "concat (leave xs ps) = xs @ concat ps"
  by (simp add: leave_def)

lemma read_piece_splits: "fst (read_piece b q) @ concat (snd (read_piece b q)) = concat q"
proof (cases q)
  case (Cons p ps)
  then show ?thesis
  proof (cases b)
    case True
    then show ?thesis using Cons by (simp add: read_piece_def)
  next
    case False
    have "take BUFFSIZE (concat q) @ drop BUFFSIZE (concat q) = concat q" by (rule append_take_drop_id)
    then show ?thesis using Cons False by (simp add: read_piece_def)
  qed
qed (simp add: read_piece_def)

lemma read_splits: "one_read \<sigma> @ concat (unread \<sigma>) = avail \<sigma>"
  using read_piece_splits [of "by_line \<sigma>" "queued \<sigma>"] by (simp add: one_read_def unread_def avail_def)

lemma avail_simps [simp]:
  "avail (\<sigma>\<lparr>apc := a\<rparr>) = avail \<sigma>" "avail (\<sigma>\<lparr>sigflag := b\<rparr>) = avail \<sigma>" "avail (\<sigma>\<lparr>blocked := b\<rparr>) = avail \<sigma>"
  "avail (\<sigma>\<lparr>prev_set := b\<rparr>) = avail \<sigma>" "avail (\<sigma>\<lparr>sigio := b\<rparr>) = avail \<sigma>" "avail (\<sigma>\<lparr>ended := b\<rparr>) = avail \<sigma>"
  "avail (\<sigma>\<lparr>aout := k\<rparr>) = avail \<sigma>" "avail (\<sigma>\<lparr>buff := x\<rparr>) = avail \<sigma>" "avail (\<sigma>\<lparr>queued := q\<rparr>) = concat q"
  by (simp_all add: avail_def)

lemma async_main_inv:
  assumes "async_inv \<sigma>"
  shows "async_inv (async_main \<sigma>) \<and> held (async_main \<sigma>) = held \<sigma>"
  using assms read_splits [of \<sigma>]
  by (cases "apc \<sigma>") (auto simp: async_defs held_def async_main_def sigio_func_def set_mask_def sys_write_def)

lemma async_event_inv:
  assumes "async_inv \<sigma>"
  shows "async_inv (async_event ev \<sigma>)"
proof (cases ev)
  case Turn
  then show ?thesis using async_main_inv [OF assms] by (simp add: async_event_def)
next
  case (Arrive xs)
  then show ?thesis
    using assms by (auto simp: async_defs async_event_def raise_sigio_def sigio_func_def split: if_splits)
next
  case Close_input
  then show ?thesis
    using assms by (auto simp: async_defs async_event_def raise_sigio_def sigio_func_def split: if_splits)
qed

lemma event_held:
  "async_inv \<sigma> \<Longrightarrow> held (async_event ev \<sigma>) =
     held \<sigma> @ (case ev of Arrive xs \<Rightarrow> if ended \<sigma> then [] else xs | _ \<Rightarrow> [])"
  using async_main_inv [of \<sigma>]
  by (cases ev) (auto simp: async_event_def raise_sigio_def sigio_func_def held_def avail_def)

lemma event_ended: "ended (async_event ev \<sigma>) \<longleftrightarrow> ended \<sigma> \<or> ev = Close_input"
  by (cases ev; cases "apc \<sigma>")
    (auto simp: async_event_def raise_sigio_def sigio_func_def async_main_def set_mask_def split: sum.splits prod.splits)

lemma events_held:
  assumes "async_inv \<sigma>"
  shows "async_inv (fold async_event evs \<sigma>) \<and>
     held (fold async_event evs \<sigma>) = held \<sigma> @ (if ended \<sigma> then [] else arrived evs)"
  using assms
proof (induction evs arbitrary: \<sigma>)
  case (Cons ev evs)
  have "held (async_event ev \<sigma>) @ (if ended (async_event ev \<sigma>) then [] else arrived evs) =
      held \<sigma> @ (if ended \<sigma> then [] else arrived (ev # evs))"
    unfolding event_held [OF Cons.prems] event_ended by (cases ev) auto
  then show ?case using Cons.IH [OF async_event_inv [OF Cons.prems]] by simp
qed simp

text \<open>A run in which one \<open>read\<close> would always take all that is unread.\<close>

definition fits :: "async \<Rightarrow> bool" where
  "fits \<sigma> \<longleftrightarrow> one_read \<sigma> = avail \<sigma>"

fun calm :: "async_event list \<Rightarrow> async \<Rightarrow> bool" where
  "calm [] \<sigma> \<longleftrightarrow> fits \<sigma>"
| "calm (ev # evs) \<sigma> \<longleftrightarrow> fits \<sigma> \<and> calm evs (async_event ev \<sigma>)"

lemma fits_unread: "fits \<sigma> \<Longrightarrow> concat (unread \<sigma>) = []"
  using read_splits [of \<sigma>] unfolding fits_def by (metis append_self_conv)

lemma main_queued: "queued (async_main \<sigma>) = queued \<sigma> \<or> avail \<sigma> \<noteq> [] \<and> queued (async_main \<sigma>) = unread \<sigma>"
  by (cases "apc \<sigma>") (auto simp: async_main_def sigio_func_def set_mask_def split: sum.splits prod.splits)

lemma main_by_line [simp]: "by_line (async_main \<sigma>) = by_line \<sigma>"
  by (cases "apc \<sigma>") (auto simp: async_main_def sigio_func_def set_mask_def split: sum.splits prod.splits)

lemma main_fits: "fits \<sigma> \<Longrightarrow> fits (async_main \<sigma>)"
proof (cases "queued (async_main \<sigma>) = queued \<sigma>")
  case False
  assume "fits \<sigma>"
  then have "avail (async_main \<sigma>) = []" using False main_queued [of \<sigma>] fits_unread by (auto simp: avail_def)
  then show ?thesis using read_splits [of "async_main \<sigma>"] by (simp add: fits_def)
qed (simp add: fits_def one_read_def avail_def)

lemma awake_main: "async_inv \<sigma> \<Longrightarrow> awake \<sigma> \<Longrightarrow> fits \<sigma> \<Longrightarrow> awake (async_main \<sigma>)"
  using fits_unread [of \<sigma>]
  by (cases "apc \<sigma>") (auto simp: async_defs awake_def async_main_def sigio_func_def set_mask_def sys_write_def)

lemma awake_event: "async_inv \<sigma> \<Longrightarrow> awake \<sigma> \<Longrightarrow> fits \<sigma> \<Longrightarrow> awake (async_event ev \<sigma>)"
  using awake_main [of \<sigma>]
  by (cases ev) (auto simp: async_defs awake_def async_event_def raise_sigio_def sigio_func_def split: if_splits)

lemma calm_awake:
  "async_inv \<sigma> \<Longrightarrow> awake \<sigma> \<Longrightarrow> calm evs \<sigma> \<Longrightarrow> awake (fold async_event evs \<sigma>) \<and> fits (fold async_event evs \<sigma>)"
  by (induction evs arbitrary: \<sigma>) (simp_all add: async_event_inv awake_event)

text \<open>Left alone, the process writes all of the input in at most seven steps.\<close>

definition quiet :: "async \<Rightarrow> bool" where
  "quiet \<sigma> \<longleftrightarrow> avail \<sigma> = [] \<and> apc \<sigma> \<noteq> A_write"

definition steps_left :: "async \<Rightarrow> nat" where
  "steps_left \<sigma> =
     (if quiet \<sigma> then 0 else if avail \<sigma> = [] then 1
      else (case apc \<sigma> of A_write \<Rightarrow> 7 | A_clear \<Rightarrow> 6 | A_unblock \<Rightarrow> 5 | A_block \<Rightarrow> 4 | A_suspend \<Rightarrow> 4
            | A_test \<Rightarrow> (if sigflag \<sigma> then 3 else 5) | A_read \<Rightarrow> 2 | A_return v \<Rightarrow> 0))"

lemma main_quiet: "quiet \<sigma> \<Longrightarrow> quiet (async_main \<sigma>)"
  by (cases "apc \<sigma>") (auto simp: quiet_def async_main_def sigio_func_def set_mask_def)

lemma main_sooner:
  assumes "async_inv \<sigma>" "awake \<sigma>" "fits \<sigma>" "\<not> quiet \<sigma>"
  shows "steps_left (async_main \<sigma>) < steps_left \<sigma>"
proof (cases "avail \<sigma> = []")
  case True
  then have "apc \<sigma> = A_write" using assms(4) by (simp add: quiet_def)
  then show ?thesis
    using True assms(1) by (simp add: async_inv_def places_def quiet_def steps_left_def async_main_def sys_write_def)
next
  case False
  then show ?thesis
    using assms fits_unread [OF assms(3)]
    by (cases "apc \<sigma>"; cases "sigio \<sigma>"; cases "sigflag \<sigma>")
      (simp_all add: async_defs awake_def quiet_def steps_left_def async_main_def sigio_func_def set_mask_def sys_write_def)
qed

lemma turns_quiet:
  assumes "async_inv \<sigma>" "awake \<sigma>" "fits \<sigma>" "steps_left \<sigma> \<le> n"
  shows "quiet ((async_main ^^ n) \<sigma>) \<and> held ((async_main ^^ n) \<sigma>) = held \<sigma>"
  using assms
proof (induction n arbitrary: \<sigma>)
  case 0
  then have "quiet \<sigma>" using main_sooner by fastforce
  then show ?case by simp
next
  case (Suc n)
  have i: "async_inv (async_main \<sigma>)" "held (async_main \<sigma>) = held \<sigma>" using async_main_inv [OF Suc.prems(1)] by simp_all
  have "steps_left (async_main \<sigma>) \<le> n"
  proof (cases "quiet \<sigma>")
    case True
    then show ?thesis using main_quiet [OF True] by (simp add: steps_left_def)
  qed (use main_sooner [OF Suc.prems(1-3)] Suc.prems(4) in simp)
  then show ?case
    using Suc.IH [OF i(1) awake_main [OF Suc.prems(1-3)] main_fits [OF Suc.prems(3)]] i(2) by (simp add: funpow_swap1)
qed

lemma turn_event: "async_event Turn = async_main"
  by (simp add: async_event_def fun_eq_iff)

section \<open>Properties\<close>

text \<open>C21: no input is lost, and while each \<open>read\<close> can take all there is, none is forgotten.  In every run,
  whenever the signals come, what is written, in the buffer and unread is all that arrived, in order.
  The program reads once for each signal it sees and signals do not queue; so what it still writes
  depends on how much is unread.  If there was never more unread than one \<open>read\<close> returns (of a terminal
  one line, of any input at most \<open>BUFFSIZE\<close> bytes), seven more steps of the program write the rest;
  two lines that arrive at a terminal before a \<open>read\<close> are outside this condition, and there the second
  stays unread until the next signal (\<open>async_io_leaves_a_line\<close>).\<close>
theorem async_io_copies_what_arrives:
  assumes "grants k = []"
  shows "written (aout (fold async_event evs (async_start line k))) @
       (if apc (fold async_event evs (async_start line k)) = A_write then buff (fold async_event evs (async_start line k)) else []) @
       avail (fold async_event evs (async_start line k)) = written k @ arrived evs \<and>
     (calm evs (async_start line k) \<and> 7 \<le> n \<longrightarrow>
       written (aout (fold async_event (evs @ replicate n Turn) (async_start line k))) = written k @ arrived evs)"
proof -
  let ?s = "async_start line k" let ?\<sigma> = "fold async_event evs ?s"
  have i: "async_inv ?s" using assms by (simp add: async_defs async_start_def)
  have a: "awake ?s" by (simp add: awake_def avail_def async_start_def)
  from events_held [OF i, of evs]
  have r: "async_inv ?\<sigma>" "held ?\<sigma> = written k @ arrived evs" by (simp_all add: held_def avail_def async_start_def)
  have "written (aout ((async_main ^^ n) ?\<sigma>)) = written k @ arrived evs" if c: "calm evs ?s" "7 \<le> n"
  proof -
    have "steps_left ?\<sigma> \<le> n" using c(2) by (auto simp: steps_left_def split: async_pc.split)
    then have "quiet ((async_main ^^ n) ?\<sigma>)" "held ((async_main ^^ n) ?\<sigma>) = written k @ arrived evs"
      using turns_quiet [OF r(1)] calm_awake [OF i a c(1)] r(2) by simp_all
    then show ?thesis by (simp add: held_def quiet_def)
  qed
  then show ?thesis using r(2) by (simp add: turn_event held_def)
qed

text \<open>At a terminal: a line is read, and the next arrives while the first is written.\<close>

theorem async_io_copies_what_arrives_witness:
  "written (aout (fold async_event ([Turn, Arrive ''ab'', Turn, Turn, Turn, Turn, Arrive ''c'', Turn] @ replicate 7 Turn)
     (async_start True \<lparr>written = [], grants = []\<rparr>))) = ''abc''"
proof -
  let ?k = "\<lparr>written = [], grants = []\<rparr>" and ?evs = "[Turn, Arrive ''ab'', Turn, Turn, Turn, Turn, Arrive ''c'', Turn]"
  have "calm ?evs (async_start True ?k)"
    by (simp add: async_start_def async_event_def async_main_def raise_sigio_def sigio_func_def set_mask_def BUFFSIZE_def sys_write_def
        fits_def one_read_def unread_def read_piece_def leave_def avail_def)
  then have "written (aout (fold async_event (?evs @ replicate 7 Turn) (async_start True ?k))) = written ?k @ arrived ?evs"
    using async_io_copies_what_arrives [of ?k ?evs True 7] by (metis order_refl sink.select_convs(2))
  then show ?thesis by (rule trans) simp
qed

text \<open>The last signal has come and gone: of what is queued the program reads once, and no more.\<close>

definition deaf :: "byte list \<Rightarrow> byte list list \<Rightarrow> async \<Rightarrow> bool" where
  "deaf given q \<sigma> \<longleftrightarrow> \<not> sigio \<sigma> \<and> grants (aout \<sigma>) = [] \<and>
     (apc \<sigma> \<in> {A_block, A_test, A_read} \<and> sigflag \<sigma> \<and> queued \<sigma> = q \<and> concat q \<noteq> [] \<and> written (aout \<sigma>) = given \<or>
      queued \<sigma> = snd (read_piece (by_line \<sigma>) q) \<and>
      (apc \<sigma> = A_write \<and> buff \<sigma> = fst (read_piece (by_line \<sigma>) q) \<and> written (aout \<sigma>) = given \<or>
       apc \<sigma> = A_clear \<and> written (aout \<sigma>) = given @ fst (read_piece (by_line \<sigma>) q) \<or>
       apc \<sigma> \<in> {A_unblock, A_block, A_test, A_suspend} \<and> \<not> sigflag \<sigma> \<and> written (aout \<sigma>) = given @ fst (read_piece (by_line \<sigma>) q)))"

lemma deaf_main: "deaf given q \<sigma> \<Longrightarrow> deaf given q (async_main \<sigma>)"
  by (cases "apc \<sigma>")
    (auto simp: deaf_def async_main_def set_mask_def sys_write_def one_read_def unread_def avail_def)

lemma deaf_turns: "deaf given q \<sigma> \<Longrightarrow> deaf given q ((async_main ^^ n) \<sigma>) \<and> by_line ((async_main ^^ n) \<sigma>) = by_line \<sigma>"
  by (induction n) (simp_all add: deaf_main)

lemma deaf_ends:
  "deaf given q \<sigma> \<Longrightarrow> (\<forall>v. apc \<sigma> \<noteq> A_return v) \<and> (written (aout \<sigma>) = given \<or> written (aout \<sigma>) = given @ fst (read_piece (by_line \<sigma>) q))"
  by (auto simp: deaf_def)

text \<open>Signals do not queue, and the program reads once for each it sees.  If input is followed by its
  end before the program has read, the two signals are one to it: it prints the first \<open>BUFFSIZE\<close> bytes
  of the input at most, never sees the end and never returns.\<close>
theorem async_io_misses_the_end:
  assumes "xs \<noteq> []" "grants k = []"
  shows "(\<forall>v. apc (fold async_event ([Arrive xs, Close_input] @ replicate n Turn) (async_start line k)) \<noteq> A_return v) \<and>
     (\<exists>m. written (aout (fold async_event ([Arrive xs, Close_input] @ replicate n Turn) (async_start line k))) =
        written k @ take (min m BUFFSIZE) xs)"
proof -
  let ?s = "fold async_event [Arrive xs, Close_input] (async_start line k)"
  have "deaf (written k) [xs] ?s"
    using assms by (simp add: deaf_def async_event_def raise_sigio_def sigio_func_def async_start_def)
  then have "deaf (written k) [xs] ((async_main ^^ n) ?s)" using deaf_turns by blast
  moreover have "fst (read_piece b [xs]) = take BUFFSIZE xs" for b by (simp add: read_piece_def)
  ultimately have "(\<forall>v. apc ((async_main ^^ n) ?s) \<noteq> A_return v) \<and>
     (written (aout ((async_main ^^ n) ?s)) = written k @ take (min 0 BUFFSIZE) xs \<or>
      written (aout ((async_main ^^ n) ?s)) = written k @ take (min BUFFSIZE BUFFSIZE) xs)"
    using deaf_ends by fastforce
  moreover have "fold async_event ([Arrive xs, Close_input] @ replicate n Turn) (async_start line k) = (async_main ^^ n) ?s"
    by (simp add: turn_event)
  ultimately show ?thesis by metis
qed

theorem async_io_misses_the_end_witness:
  "apc (fold async_event ([Arrive ''a'', Close_input] @ replicate 1000 Turn) (async_start False \<lparr>written = [], grants = []\<rparr>)) \<noteq> A_return 0"
  using async_io_misses_the_end [of "''a''" "\<lparr>written = [], grants = []\<rparr>" 1000 False] by simp

text \<open>Two lines arrive at a terminal before the program has read.  It writes the first at most, and goes
  to sleep on the second: \<open>n\<close> turns, for every \<open>n\<close>, do not write it.\<close>
theorem async_io_leaves_a_line:
  assumes "xs \<noteq> []" "grants k = []" "length xs \<le> BUFFSIZE"
  shows "written (aout (fold async_event ([Arrive xs, Arrive ys] @ replicate n Turn) (async_start True k))) \<in>
     {written k, written k @ xs}"
proof -
  let ?s = "fold async_event [Arrive xs, Arrive ys] (async_start True k)" and ?q = "xs # leave ys []"
  have "deaf (written k) ?q ?s" "by_line ?s"
    using assms by (simp_all add: deaf_def leave_def async_event_def raise_sigio_def sigio_func_def async_start_def)
  then have "deaf (written k) ?q ((async_main ^^ n) ?s)" "by_line ((async_main ^^ n) ?s)"
    using deaf_turns by metis+
  then have "written (aout ((async_main ^^ n) ?s)) \<in> {written k, written k @ xs}"
    using deaf_ends [of "written k" ?q "(async_main ^^ n) ?s"] assms(3) by (simp add: read_piece_def)
  then show ?thesis by (simp add: turn_event)
qed

theorem async_io_leaves_a_line_witness:
  "written (aout (fold async_event ([Arrive ''a'', Arrive ''b''] @ replicate 1000 Turn) (async_start True \<lparr>written = [], grants = []\<rparr>))) \<in> {[], ''a''}"
  using async_io_leaves_a_line [of "''a''" "\<lparr>written = [], grants = []\<rparr>" "''b''" 1000] by (simp add: BUFFSIZE_def)

text \<open>Setting the flag keeps the other flags.\<close>

lemma async_setup_keeps_flags:
  "async_setup fasync True (Some f) True = Inr g \<Longrightarrow> (\<forall>i. bit f i \<longrightarrow> bit g i) \<and> (\<forall>i. bit g i \<longrightarrow> bit f i \<or> bit fasync i)"
  by (auto simp: async_setup_def bit_simps split: if_splits)

end
