(* ===== verification/Tcp_Daemon.thy ===== *)
theory Tcp_Daemon
  imports Inetd Echo
begin

text \<open>
  \<open>16_daemon/daemon.c\<close> of chapter 2, the way into the background, and \<open>11.tcp_daemon/tcp_daemon.c\<close>, an
  echo server that goes the same way and forks a child for every connection.  The process and its
  descriptors are those of the theory \<open>Inetd\<close>, the child runs the echo of the theory \<open>Echo\<close>.
\<close>

section \<open>Into the background\<close>

text \<open>From the label \<open>out\<close> on.\<close>

definition close_up :: "nat \<Rightarrow> bool \<Rightarrow> process \<Rightarrow> process" where
  "close_up nofile ignore_sig_child p =
     (let p = p\<lparr>files := close_all nofile (files p), work_dir := ''/'', mask := 0\<rparr>
      in if ignore_sig_child then p\<lparr>disp := (disp p)(SIGCHLD := Handler)\<rparr> else p)"

text \<open>\<open>forked\<close> is the result of \<open>fork\<close> in this process and \<open>grp_ok\<close> whether \<open>setpgid\<close> succeeds; \<open>failed\<close> is
  what the program does when one of them fails: it returns.\<close>

definition detach :: "process outcome \<Rightarrow> nat \<Rightarrow> int \<Rightarrow> bool \<Rightarrow> bool \<Rightarrow> process \<Rightarrow> process outcome" where
  "detach failed nofile forked grp_ok ignore_sig_child p =
     (if parent_id p = 1 then Returned (close_up nofile ignore_sig_child p)
      else
        (let p = p\<lparr>disp := (disp p)(SIGTTOU := Ignored, SIGTTIN := Ignored, SIGTSTP := Ignored)\<rparr>
         in if forked < 0 then failed
            else if 0 < forked then Exited 0
            else if \<not> grp_ok then failed
            else Returned (close_up nofile ignore_sig_child (p\<lparr>pgrp := proc_id p, tty := False\<rparr>))))"

text \<open>The daemon of chapter 2 has its own \<open>err_sys\<close>, which writes to descriptor 2 and returns: the program goes on, in the
  process that could not fork as well.  The second component is what it has written.\<close>

definition daemon_c_start :: "nat \<Rightarrow> int \<Rightarrow> bool \<Rightarrow> bool \<Rightarrow> process \<Rightarrow> process outcome \<times> byte list" where
  "daemon_c_start nofile forked grp_ok ignore_sig_child p =
     (if parent_id p = 1 then (Returned (close_up nofile ignore_sig_child p), [])
      else
        (let p = p\<lparr>disp := (disp p)(SIGTTOU := Ignored, SIGTTIN := Ignored, SIGTSTP := Ignored)\<rparr>;
             err = (if forked < 0 then ''can't fork first child.'' else [])
         in if 0 < forked then (Exited 0, err)
            else
              (let err = err @ (if grp_ok then [] else ''can't change process group.'');
                   p = (if grp_ok then p\<lparr>pgrp := proc_id p\<rparr> else p)
               in (Returned (close_up nofile ignore_sig_child (p\<lparr>tty := False\<rparr>)), err))))"

text \<open>The handler of \<open>SIGCHLD\<close> of both reaps all children that have ended, with their number.\<close>

fun reap_all :: "int list \<Rightarrow> nat \<times> int list" where
  "reap_all [] = (0, [])"
| "reap_all (pid # zombies) = (let (n, zs) = reap_all zombies in (n + 1, zs))"

section \<open>The echo server\<close>

record tcpd =
  daemon :: process
  new_log_fd :: nat
  listen_fd :: nat
  lport :: int
  logged :: "byte list list"
  children :: "((nat \<Rightarrow> open_file option) \<times> source \<times> sink) list"

text \<open>The log, its copy, and the socket.  \<open>bind\<close> may fail without consequence: \<open>listen\<close> then gives the
  socket a port of the system's choice, \<open>port\<close>.  Where \<open>daemon_start\<close> returns, \<open>main\<close> returns 0.\<close>

definition tcp_listen :: "nat \<Rightarrow> bool \<Rightarrow> bool \<Rightarrow> int \<Rightarrow> inet_kern \<Rightarrow> process \<Rightarrow> tcpd outcome" where
  "tcp_listen nofile log_ok sock_ok port k p =
     (case (if log_ok then lowest_free nofile (files p) else None) of
        None \<Rightarrow> Exited 0
      | Some log_fd \<Rightarrow>
          (let f = (files p)(log_fd := Some Log_file)
           in case lowest_free nofile f of
                None \<Rightarrow> Exited 0
              | Some d \<Rightarrow>
                  (let f = f(d := Some Log_file)
                   in case (if sock_ok then lowest_free nofile f else None) of
                        None \<Rightarrow> Exited 0
                      | Some s \<Rightarrow>
                          Returned \<lparr>daemon = p\<lparr>files := f(s := Some (Socket 0))\<rparr>, new_log_fd = d, listen_fd = s,
                            lport = (if fst (sys_bind 0 6969 k) then 6969 else port), logged = [], children = []\<rparr>)))"

text \<open>What \<open>accept\<close> and \<open>fork\<close> do: a connection comes, with the result of the \<open>fork\<close>, or \<open>accept\<close> fails.
  A handler installed with \<open>signal\<close> restarts a call of \<open>accept\<close> that it interrupts.\<close>

datatype accepted = Connects "source \<times> sink" bool | Accept_fails

fun tcp_serve :: "nat \<Rightarrow> accepted list \<Rightarrow> tcpd \<Rightarrow> unit outcome \<times> tcpd" where
  "tcp_serve nofile [] \<sigma> = (Running, \<sigma>)"
| "tcp_serve nofile (Accept_fails # as) \<sigma> =
     (Returned (), \<sigma>\<lparr>logged := logged \<sigma> @ [''accept error: failed to accept any connection'' @ [NL]]\<rparr>)"
| "tcp_serve nofile (Connects c forks # as) \<sigma> =
     (case lowest_free nofile (files (daemon \<sigma>)) of
        None \<Rightarrow> (Returned (), \<sigma>\<lparr>logged := logged \<sigma> @ [''accept error: failed to accept any connection'' @ [NL]]\<rparr>)
      | Some fd \<Rightarrow>
          (let f = (files (daemon \<sigma>))(fd := Some (Socket (length (children \<sigma>) + 1)))
           in if \<not> forks
              then (Returned (), \<sigma>\<lparr>daemon := (daemon \<sigma>)\<lparr>files := f\<rparr>,
                      logged := logged \<sigma> @ [''fork error: failed to fork a child process to handle the client'' @ [NL]]\<rparr>)
              else tcp_serve nofile as
                     (\<sigma>\<lparr>children := children \<sigma> @ [(f(listen_fd \<sigma> := None), c)], daemon := (daemon \<sigma>)\<lparr>files := f(fd := None)\<rparr>\<rparr>)))"


definition tcp_main ::
  "nat \<Rightarrow> int \<Rightarrow> bool \<Rightarrow> bool \<Rightarrow> bool \<Rightarrow> int \<Rightarrow> inet_kern \<Rightarrow> accepted list \<Rightarrow> process \<Rightarrow> (int outcome \<times> tcpd) option"
where
  "tcp_main nofile forked grp_ok log_ok sock_ok port k as p =
     (case detach (Exited 0) nofile forked grp_ok True p of
        Returned p \<Rightarrow>
          (case tcp_listen nofile log_ok sock_ok port k p of
             Returned \<sigma> \<Rightarrow>
               Some (case tcp_serve nofile as \<sigma> of
                       (Returned _, \<sigma>) \<Rightarrow> (Exited 0, \<sigma>)
                     | (_, \<sigma>) \<Rightarrow> (Running, \<sigma>))
           | _ \<Rightarrow> None)
      | _ \<Rightarrow> None)"

section \<open>What it does\<close>

lemma close_all_free: "i < nofile \<Longrightarrow> close_all nofile f i = None"
  by (simp add: close_all_def)

lemma tcp_listen_ok:
  assumes "\<forall>i < nofile. files p i = None" "3 < nofile"
  shows "tcp_listen nofile True True port k p =
     Returned \<lparr>daemon = p\<lparr>files := (files p)(0 := Some Log_file, 1 := Some Log_file, 2 := Some (Socket 0))\<rparr>, new_log_fd = 1,
       listen_fd = 2, lport = (if fst (sys_bind 0 6969 k) then 6969 else port), logged = [], children = []\<rparr>"
proof -
  have "lowest_free nofile (files p) = Some 0"
    "lowest_free nofile ((files p)(0 := Some Log_file)) = Some 1"
    "lowest_free nofile ((files p)(0 := Some Log_file, 1 := Some Log_file)) = Some 2"
    using assms by (auto simp: lowest_free_Some less_Suc_eq numeral_2_eq_2)
  then show ?thesis by (simp add: tcp_listen_def)
qed

text \<open>The descriptors of the daemon between two connections, and of a child.\<close>

definition daemon_files :: "(nat \<Rightarrow> open_file option) \<Rightarrow> nat \<Rightarrow> open_file option" where
  "daemon_files f = f(0 := Some Log_file, 1 := Some Log_file, 2 := Some (Socket 0))"

definition conn_files :: "(nat \<Rightarrow> open_file option) \<Rightarrow> nat \<Rightarrow> nat \<Rightarrow> open_file option" where
  "conn_files f n = (daemon_files f)(2 := None, 3 := Some (Socket n))"

lemma tcp_serve_ok:
  assumes "files (daemon \<sigma>) = daemon_files f" "\<forall>i < nofile. f i = None" "3 < nofile" "listen_fd \<sigma> = 2"
  shows "\<exists>\<tau>. (\<forall>later. tcp_serve nofile (map (\<lambda>c. Connects c True) cs @ later) \<sigma> = tcp_serve nofile later \<tau>) \<and> daemon \<tau> = daemon \<sigma> \<and> logged \<tau> = logged \<sigma> \<and>
     lport \<tau> = lport \<sigma> \<and> new_log_fd \<tau> = new_log_fd \<sigma> \<and>
     children \<tau> = children \<sigma> @ map2 (\<lambda>n c. (conn_files f n, c))
       [length (children \<sigma>) + 1..<length (children \<sigma>) + 1 + length cs] cs"
  using assms
proof (induction cs arbitrary: \<sigma>)
  case Nil
  then show ?case by (intro exI [of _ \<sigma>]) simp
next
  case (Cons c cs)
  let ?n = "length (children \<sigma>) + 1"
  have l: "lowest_free nofile (daemon_files f) = Some 3"
    using Cons.prems(2,3) by (auto simp: lowest_free_Some daemon_files_def less_Suc_eq numeral_3_eq_3 numeral_2_eq_2)
  have f3: "(daemon_files f)(3 := None) = daemon_files f"
    using Cons.prems(2,3) by (auto simp: daemon_files_def fun_eq_iff)
  have d: "(daemon \<sigma>)\<lparr>files := daemon_files f\<rparr> = daemon \<sigma>" using Cons.prems(1) by (metis process.surjective process.update_convs(5))
  define \<sigma>1 where "\<sigma>1 = \<sigma>\<lparr>children := children \<sigma> @ [(conn_files f ?n, c)],
    daemon := (daemon \<sigma>)\<lparr>files := daemon_files f\<rparr>\<rparr>"
  have s: "tcp_serve nofile (map (\<lambda>c. Connects c True) (c # cs) @ later) \<sigma> =
      tcp_serve nofile (map (\<lambda>c. Connects c True) cs @ later) \<sigma>1" for later
    using Cons.prems(1,4) l f3 by (simp add: Let_def \<sigma>1_def fun_upd_twist conn_files_def)
  have "files (daemon \<sigma>1) = daemon_files f" "listen_fd \<sigma>1 = 2" using Cons.prems by (simp_all add: \<sigma>1_def)
  from Cons.IH [OF this(1) Cons.prems(2,3) this(2)] show ?case
    unfolding s by (auto simp: \<sigma>1_def d upt_conv_Cons simp del: upt_Suc)
qed


text \<open>After the first connections, whatever comes later.\<close>

lemma tcp_main_runs:
  assumes "parent_id p \<noteq> 1" "3 < nofile" "\<forall>i \<ge> nofile. files p i = None"
  shows "\<exists>\<sigma>. (\<forall>later. tcp_main nofile 0 True True True port k (map (\<lambda>c. Connects c True) cs @ later) p =
         Some (case tcp_serve nofile later \<sigma> of (Returned _, \<tau>) \<Rightarrow> (Exited 0, \<tau>) | (_, \<tau>) \<Rightarrow> (Running, \<tau>))) \<and>
     files (daemon \<sigma>) = daemon_files (\<lambda>_. None) \<and> \<not> tty (daemon \<sigma>) \<and> work_dir (daemon \<sigma>) = ''/'' \<and>
     lport \<sigma> = (if fst (sys_bind 0 6969 k) then 6969 else port) \<and>
     children \<sigma> = map2 (\<lambda>n c. (conn_files (\<lambda>_. None) n, c)) [1..<1 + length cs] cs"
proof -
  define q where "q = close_up nofile True (p\<lparr>disp := (disp p)(SIGTTOU := Ignored, SIGTTIN := Ignored, SIGTSTP := Ignored),
    pgrp := proc_id p, tty := False\<rparr>)"
  have d: "detach (Exited 0) nofile 0 True True p = Returned q" using assms(1) by (simp add: detach_def Let_def q_def)
  have e: "files q = (\<lambda>_. None)" "\<not> tty q" "work_dir q = ''/''"
    using assms(3) by (auto simp: q_def close_up_def Let_def close_all_def fun_eq_iff not_less)
  let ?l = "\<lparr>daemon = q\<lparr>files := (files q)(0 := Some Log_file, 1 := Some Log_file, 2 := Some (Socket 0))\<rparr>, new_log_fd = 1,
       listen_fd = 2, lport = (if fst (sys_bind 0 6969 k) then 6969 else port), logged = [], children = []\<rparr>"
  have l: "tcp_listen nofile True True port k q = Returned ?l" by (rule tcp_listen_ok) (use e(1) assms(2) in simp_all)
  have f: "files (daemon ?l) = daemon_files (files q)" "\<forall>i < nofile. files q i = None" "listen_fd ?l = 2" "children ?l = []"
    using e(1) by (simp_all add: daemon_files_def)
  from tcp_serve_ok [OF f(1,2) assms(2) f(3), of cs] obtain \<sigma> where
    \<sigma>: "\<forall>later. tcp_serve nofile (map (\<lambda>c. Connects c True) cs @ later) ?l = tcp_serve nofile later \<sigma>"
    "daemon \<sigma> = daemon ?l" "lport \<sigma> = lport ?l" "children \<sigma> = map2 (\<lambda>n c. (conn_files (files q) n, c)) [1..<1 + length cs] cs"
    unfolding f(4) list.size(3) add_0_left append_Nil by blast
  then have "\<forall>later. tcp_main nofile 0 True True True port k (map (\<lambda>c. Connects c True) cs @ later) p =
         Some (case tcp_serve nofile later \<sigma> of (Returned _, \<tau>) \<Rightarrow> (Exited 0, \<tau>) | (_, \<tau>) \<Rightarrow> (Running, \<tau>))"
    by (simp add: tcp_main_def d l)
  moreover have "files (daemon \<sigma>) = daemon_files (\<lambda>_. None)" "\<not> tty (daemon \<sigma>)" "work_dir (daemon \<sigma>) = ''/''"
    using \<sigma>(2) e by (simp_all add: daemon_files_def)
  moreover have "lport \<sigma> = (if fst (sys_bind 0 6969 k) then 6969 else port)" using \<sigma>(3) by simp
  moreover have "children \<sigma> = map2 (\<lambda>n c. (conn_files (\<lambda>_. None) n, c)) [1..<1 + length cs] cs"
    using \<sigma>(4) unfolding e(1) .
  ultimately show ?thesis by blast
qed



text \<open>What the daemon does not notice.  When its port is taken it goes on and serves on whatever port
  \<open>listen\<close> gives the unbound socket; when one \<open>fork\<close> fails it closes nothing and ends with status 0,
  whatever connections would still come; and when it cannot even go into the background it ends with
  status 0 as well, without having served anyone.\<close>
theorem tcp_daemon_failures:
  assumes "parent_id p \<noteq> 1" "3 < nofile" "\<forall>i \<ge> nofile. files p i = None"
  shows "((0, 6969) \<in> set (bound k) \<longrightarrow>
       (\<exists>\<sigma>. tcp_main nofile 0 True True True port k (map (\<lambda>c. Connects c True) cs) p = Some (Running, \<sigma>) \<and> lport \<sigma> = port)) \<and>
     (\<exists>\<sigma>. tcp_main nofile 0 True True True port k (map (\<lambda>c. Connects c True) cs @ Connects c False # later) p = Some (Exited 0, \<sigma>) \<and>
        length (children \<sigma>) = length cs) \<and>
     detach (Exited 0) nofile (- 1) True True p = Exited 0 \<and> detach (Exited 0) nofile 0 False True p = Exited 0"
proof -
  obtain \<sigma> where \<sigma>: "\<forall>later. tcp_main nofile 0 True True True port k (map (\<lambda>c. Connects c True) cs @ later) p =
         Some (case tcp_serve nofile later \<sigma> of (Returned _, \<tau>) \<Rightarrow> (Exited 0, \<tau>) | (_, \<tau>) \<Rightarrow> (Running, \<tau>))"
    "files (daemon \<sigma>) = daemon_files (\<lambda>_. None)" "lport \<sigma> = (if fst (sys_bind 0 6969 k) then 6969 else port)"
    "children \<sigma> = map2 (\<lambda>n c. (conn_files (\<lambda>_. None) n, c)) [1..<1 + length cs] cs"
    using tcp_main_runs [OF assms, of port k cs] by blast
  have n: "length (children \<sigma>) = length cs" by (simp add: \<sigma>(4) del: upt_Suc)
  have "lowest_free nofile (files (daemon \<sigma>)) = Some 3"
    using assms(2) by (auto simp: \<sigma>(2) daemon_files_def lowest_free_Some less_Suc_eq numeral_3_eq_3 numeral_2_eq_2)
  then obtain \<tau> where "tcp_serve nofile (Connects c False # later) \<sigma> = (Returned (), \<tau>)" "children \<tau> = children \<sigma>"
    by (simp add: Let_def)
  then have "tcp_main nofile 0 True True True port k (map (\<lambda>c. Connects c True) cs @ Connects c False # later) p = Some (Exited 0, \<tau>)"
    "length (children \<tau>) = length cs"
    using \<sigma>(1) n by simp_all
  moreover have "tcp_main nofile 0 True True True port k (map (\<lambda>c. Connects c True) cs) p = Some (Running, \<sigma>)"
    using \<sigma>(1) [rule_format, of "[]"] by simp
  moreover have "lport \<sigma> = port" if "(0, 6969) \<in> set (bound k)" using that by (simp add: \<sigma>(3) sys_bind_def)
  moreover have "detach (Exited 0) nofile (- 1) True True p = Exited 0" "detach (Exited 0) nofile 0 False True p = Exited 0"
    using assms(1) by (simp_all add: detach_def Let_def)
  ultimately show ?thesis by blast
qed

theorem tcp_daemon_failures_witness:
  "\<exists>\<sigma>. tcp_main 256 0 True True True 50000 \<lparr>next_fd = 0, fd_limit = 64, bound = [(0, 6969)], listening = []\<rparr> []
       \<lparr>proc_id = 100, parent_id = 50, pgrp = 50, disp = (\<lambda>_. Default), files = (\<lambda>i. if i < 3 then Some Terminal else None),
         tty = True, work_dir = ''/home'', mask = 18\<rparr> = Some (Running, \<sigma>) \<and> lport \<sigma> = 50000"
  using tcp_daemon_failures [of "\<lparr>proc_id = 100, parent_id = 50, pgrp = 50, disp = (\<lambda>_. Default),
      files = (\<lambda>i. if i < 3 then Some Terminal else None), tty = True, work_dir = ''/home'', mask = 18\<rparr>" 256
    "\<lparr>next_fd = 0, fd_limit = 64, bound = [(0, 6969)], listening = []\<rparr>" 50000 "[]"]
  by auto

end
