(* ===== verification/Stream_Mains.thy ===== *)
theory Stream_Mains
  imports Inetd Datagram
begin

text \<open>
  The main programs around the echo routines: the concurrent servers of \<open>1.tcp\<close> and
  \<open>5.unix/1.stream\<close>, the iterative one of \<open>3.spp\<close>, the datagram servers and all their clients.  A name is
  bound once, and a path stays in the file system when the process that bound it ends.
\<close>

section \<open>Names\<close>

datatype sock_name = Port int | Path "byte list"

type_synonym names = "sock_name \<Rightarrow> bool"

definition bind_name :: "sock_name \<Rightarrow> names \<Rightarrow> bool \<times> names" where
  "bind_name n taken = (if taken n then (False, taken) else (True, taken(n := True)))"

definition SERV_PORT :: int where "SERV_PORT = 6969"
definition SERV_SPP_PORT :: int where "SERV_SPP_PORT = 6001"
definition UNIXSTR_PATH :: "byte list" where "UNIXSTR_PATH = ''./s.unixstr''"
definition UNIXDG_PATH :: "byte list" where "UNIXDG_PATH = ''./s.unixdg''"

section \<open>Stream servers\<close>

type_synonym conn = "source \<times> sink"

text \<open>A child that has ended stays in the table of processes until its parent waits for it.\<close>

datatype proc_state = Alive | Zombie

record conn_server =
  sfiles :: "nat \<Rightarrow> open_file option"
  sock_fd :: nat
  served :: "((nat \<Rightarrow> open_file option) \<times> conn) list"  \<comment> \<open>the children, with their descriptors\<close>
  turned_away :: "conn list"                            \<comment> \<open>closed without a child\<close>
  procs :: "proc_state list"                            \<comment> \<open>the children in the table of processes\<close>

text \<open>\<open>socket\<close>, \<open>bind\<close> and \<open>listen\<close>; the result of \<open>listen\<close> is not looked at.\<close>

definition stream_listen ::
  "nat \<Rightarrow> bool \<Rightarrow> sock_name \<Rightarrow> names \<Rightarrow> (nat \<Rightarrow> open_file option) \<Rightarrow> (conn_server \<times> names) outcome"
where
  "stream_listen nofile sock_ok name taken f =
     (case (if sock_ok then lowest_free nofile f else None) of
        None \<Rightarrow> Exited EXIT_FAILURE
      | Some s \<Rightarrow>
          (case bind_name name taken of
             (False, taken) \<Rightarrow> Exited EXIT_FAILURE
           | (True, taken) \<Rightarrow>
               Returned (\<lparr>sfiles = f(s := Some (Socket 0)), sock_fd = s, served = [], turned_away = [], procs = []\<rparr>, taken)))"

text \<open>The table has room for \<open>child_max\<close> children of the server.\<close>

definition fork_proc :: "nat \<Rightarrow> proc_state list \<Rightarrow> proc_state list option" where
  "fork_proc child_max t = (if length t < child_max then Some (t @ [Alive]) else None)"

text \<open>What \<open>accept\<close> delivers next; a child may end at any time.\<close>

datatype client_ev = Client conn | Accept_error | Child_exits nat


fun unix_server_loop :: "nat \<Rightarrow> nat \<Rightarrow> client_ev list \<Rightarrow> conn_server \<Rightarrow> int outcome \<times> conn_server" where
  "unix_server_loop nofile child_max [] \<sigma> = (Running, \<sigma>)"
| "unix_server_loop nofile child_max (Accept_error # evs) \<sigma> = (Exited EXIT_FAILURE, \<sigma>)"
| "unix_server_loop nofile child_max (Child_exits i # evs) \<sigma> =
     unix_server_loop nofile child_max evs (\<sigma>\<lparr>procs := (procs \<sigma>)[i := Zombie]\<rparr>)"
| "unix_server_loop nofile child_max (Client c # evs) \<sigma> =
     (case lowest_free nofile (sfiles \<sigma>) of
        None \<Rightarrow> (Exited EXIT_FAILURE, \<sigma>)
      | Some newsockfd \<Rightarrow>
          (let f = (sfiles \<sigma>)(newsockfd := Some (Socket (length (served \<sigma>) + 1)))
           in case fork_proc child_max (procs \<sigma>) of
                Some t \<Rightarrow>
                  unix_server_loop nofile child_max evs
                    (\<sigma>\<lparr>sfiles := f(newsockfd := None), procs := t, served := served \<sigma> @ [(f(sock_fd \<sigma> := None), c)]\<rparr>)
              | None \<Rightarrow> (Exited EXIT_FAILURE, \<sigma>\<lparr>sfiles := f\<rparr>)))"


text \<open>The server of \<open>3.spp\<close> calls \<open>str_echo\<close> itself and has no children; \<open>handled\<close> are the connections it has finished.\<close>

fun spp_server_loop :: "nat \<Rightarrow> client_ev list \<Rightarrow> conn list \<Rightarrow> int outcome \<times> conn list" where
  "spp_server_loop fuel [] handled = (Running, handled)"
| "spp_server_loop fuel (Accept_error # evs) handled = (Exited EXIT_FAILURE, handled)"
| "spp_server_loop fuel (Child_exits i # evs) handled = spp_server_loop fuel evs handled"
| "spp_server_loop fuel (Client c # evs) handled =
     (case str_echo fuel sock_read sock_write c (replicate 512 NUL) of
        (Returned _, c) \<Rightarrow> spp_server_loop fuel evs (handled @ [c])
      | (Exited s, c) \<Rightarrow> (Exited s, handled)
      | (Aborted, c) \<Rightarrow> (Aborted, handled)
      | (Running, c) \<Rightarrow> (Running, handled))"


definition unix_server_main ::
  "nat \<Rightarrow> nat \<Rightarrow> bool \<Rightarrow> names \<Rightarrow> client_ev list \<Rightarrow> (nat \<Rightarrow> open_file option) \<Rightarrow> (int outcome \<times> conn_server option \<times> names)"
where
  "unix_server_main nofile child_max sock_ok taken evs f =
     (case stream_listen nofile sock_ok (Path UNIXSTR_PATH) taken f of
        Returned (\<sigma>, taken) \<Rightarrow> (case unix_server_loop nofile child_max evs \<sigma> of (r, \<sigma>) \<Rightarrow> (r, Some \<sigma>, taken))
      | _ \<Rightarrow> (Exited EXIT_FAILURE, None, taken))"

definition spp_server_main ::
  "nat \<Rightarrow> nat \<Rightarrow> bool \<Rightarrow> names \<Rightarrow> client_ev list \<Rightarrow> (nat \<Rightarrow> open_file option) \<Rightarrow> int outcome \<times> conn list"
where
  "spp_server_main nofile fuel sock_ok taken evs f =
     (case stream_listen nofile sock_ok (Port SERV_SPP_PORT) taken f of
        Returned (\<sigma>, taken) \<Rightarrow> spp_server_loop fuel evs []
      | _ \<Rightarrow> (Exited EXIT_FAILURE, []))"

section \<open>Clients and datagram servers\<close>

definition stream_client_main ::
  "bool \<Rightarrow> bool \<Rightarrow> ('c \<Rightarrow> nat \<Rightarrow> (errno + byte list) \<times> 'c) \<Rightarrow> ('c \<Rightarrow> byte list \<Rightarrow> (errno + nat) \<times> 'c) \<Rightarrow>
     stream_in \<Rightarrow> 'c \<Rightarrow> byte list \<Rightarrow> int outcome \<times> byte list"
where
  "stream_client_main sock_ok conn_ok rd wr fp c recvline =
     (if \<not> sock_ok \<or> \<not> conn_ok then (Exited EXIT_FAILURE, [])
      else case str_cli rd wr fp c recvline [] of
             (Returned _, out, c) \<Rightarrow> (Exited EXIT_SUCCESS, out)
           | (Exited s, out, c) \<Rightarrow> (Exited s, out)
           | (Aborted, out, c) \<Rightarrow> (Aborted, out)
           | (Running, out, c) \<Rightarrow> (Running, out))"

definition udp_server_main ::
  "bool \<Rightarrow> names \<Rightarrow> ('k \<Rightarrow> byte list \<Rightarrow> 'a \<Rightarrow> (errno + nat) \<times> 'k) \<Rightarrow> 'a arrival_dg list \<Rightarrow> byte list \<Rightarrow> 'k \<Rightarrow>
     int outcome \<times> 'k \<times> names"
where
  "udp_server_main sock_ok taken sendto evs mesg k =
     (if \<not> sock_ok then (Exited EXIT_FAILURE, k, taken)
      else case bind_name (Port SERV_PORT) taken of
             (False, taken) \<Rightarrow> (Exited EXIT_FAILURE, k, taken)
           | (True, taken) \<Rightarrow>
               (case dg_echo sendto evs mesg k of
                  (Exited s, k) \<Rightarrow> (Exited s, k, taken)
                | (Returned _, k) \<Rightarrow> (Exited EXIT_SUCCESS, k, taken)
                | (_, k) \<Rightarrow> (Running, k, taken)))"

text \<open>The server in the UNIX domain removes its path first.\<close>

definition unix_dg_server_main ::
  "bool \<Rightarrow> names \<Rightarrow> ('k \<Rightarrow> byte list \<Rightarrow> 'a \<Rightarrow> (errno + nat) \<times> 'k) \<Rightarrow> 'a arrival_dg list \<Rightarrow> byte list \<Rightarrow> 'k \<Rightarrow>
     int outcome \<times> 'k \<times> names"
where
  "unix_dg_server_main sock_ok taken sendto evs mesg k =
     (if \<not> sock_ok then (Exited EXIT_FAILURE, k, taken)
      else case bind_name (Path UNIXDG_PATH) (taken(Path UNIXDG_PATH := False)) of
             (False, taken) \<Rightarrow> (Exited EXIT_FAILURE, k, taken)
           | (True, taken) \<Rightarrow>
               (case dg_echo sendto evs mesg k of
                  (Exited s, k) \<Rightarrow> (Exited s, k, taken)
                | (Returned _, k) \<Rightarrow> (Exited EXIT_SUCCESS, k, taken)
                | (_, k) \<Rightarrow> (Running, k, taken)))"

text \<open>The internet client lets the system choose its port: \<open>bind_ok\<close> whether there is one.\<close>

definition udp_client_main ::
  "bool \<Rightarrow> bool \<Rightarrow> ('k \<Rightarrow> byte list \<Rightarrow> 'a \<Rightarrow> (errno + nat) \<times> 'k) \<Rightarrow> ('k \<Rightarrow> nat \<Rightarrow> (errno + byte list) option \<times> 'k) \<Rightarrow>
     stream_in \<Rightarrow> 'a \<Rightarrow> 'k \<Rightarrow> byte list \<Rightarrow> int outcome \<times> byte list \<times> 'k"
where
  "udp_client_main sock_ok bind_ok sendto recvfrom fp serv_addr k recvline =
     (if \<not> sock_ok \<or> \<not> bind_ok then (Exited EXIT_FAILURE, [], k)
      else case dg_cli sendto recvfrom fp serv_addr k recvline [] of
             (Returned _, out, k) \<Rightarrow> (Exited EXIT_SUCCESS, out, k)
           | (Exited s, out, k) \<Rightarrow> (Exited s, out, k)
           | (_, out, k) \<Rightarrow> (Running, out, k))"

text \<open>The client in the UNIX domain binds a path made by \<open>mktemp\<close>, and removes it when \<open>dg_cli\<close> returns.\<close>

definition unix_dg_client_main ::
  "bool \<Rightarrow> byte list \<Rightarrow> names \<Rightarrow> ('k \<Rightarrow> byte list \<Rightarrow> 'a \<Rightarrow> (errno + nat) \<times> 'k) \<Rightarrow>
     ('k \<Rightarrow> nat \<Rightarrow> (errno + byte list) option \<times> 'k) \<Rightarrow> stream_in \<Rightarrow> 'a \<Rightarrow> 'k \<Rightarrow> byte list \<Rightarrow>
     int outcome \<times> byte list \<times> 'k \<times> names"
where
  "unix_dg_client_main sock_ok temp taken sendto recvfrom fp serv_addr k recvline =
     (if \<not> sock_ok then (Exited EXIT_FAILURE, [], k, taken)
      else case bind_name (Path temp) taken of
             (False, taken) \<Rightarrow> (Exited EXIT_FAILURE, [], k, taken)
           | (True, taken) \<Rightarrow>
               (case dg_cli sendto recvfrom fp serv_addr k recvline [] of
                  (Returned _, out, k) \<Rightarrow> (Exited EXIT_SUCCESS, out, k, taken(Path temp := False))
                | (Exited s, out, k) \<Rightarrow> (Exited s, out, k, taken)
                | (_, out, k) \<Rightarrow> (Running, out, k, taken)))"

section \<open>Children without end\<close>

fun clients :: "client_ev list \<Rightarrow> conn list" where
  "clients [] = []"
| "clients (Client c # evs) = c # clients evs"
| "clients (Accept_error # evs) = clients evs"
| "clients (Child_exits i # evs) = clients evs"

text \<open>What the list of children becomes when connections come in at descriptor \<open>fd\<close>.\<close>

definition child_entry :: "nat \<Rightarrow> conn_server \<Rightarrow> nat \<Rightarrow> conn \<Rightarrow> (nat \<Rightarrow> open_file option) \<times> conn" where
  "child_entry fd \<sigma> n c = ((sfiles \<sigma>)(fd := Some (Socket n), sock_fd \<sigma> := None), c)"

definition child_entries :: "nat \<Rightarrow> conn_server \<Rightarrow> conn list \<Rightarrow> ((nat \<Rightarrow> open_file option) \<times> conn) list" where
  "child_entries fd \<sigma> cs = map2 (child_entry fd \<sigma>) [length (served \<sigma>) + 1..<length (served \<sigma>) + 1 + length cs] cs"

lemma child_entries_simps [simp]:
  "child_entries fd \<sigma> [] = []" "length (child_entries fd \<sigma> cs) = length cs" "map snd (child_entries fd \<sigma> cs) = cs"
proof -
  show "map snd (child_entries fd \<sigma> cs) = cs"
    by (rule nth_equalityI) (simp_all add: child_entries_def child_entry_def del: upt_Suc)
qed (simp_all add: child_entries_def del: upt_Suc)



lemma accepted_files:
  assumes "lowest_free nofile f = Some fd"
  shows "f(fd := Some x, fd := None) = f"
  using assms by (auto simp: lowest_free_Some fun_eq_iff)


lemma unix_loop_full:
  assumes "lowest_free nofile (sfiles \<sigma>) = Some fd" "length (procs \<sigma>) = length (served \<sigma>)" "Accept_error \<notin> set evs"
    and "length (served \<sigma>) \<le> child_max" "child_max < length (served \<sigma>) + length (clients evs)"
  shows "\<exists>\<sigma>'. unix_server_loop nofile child_max evs \<sigma> = (Exited EXIT_FAILURE, \<sigma>') \<and> sfiles \<sigma>' fd \<noteq> None \<and>
     map snd (served \<sigma>') = map snd (served \<sigma>) @ take (child_max - length (served \<sigma>)) (clients evs)"
  using assms
proof (induction evs arbitrary: \<sigma>)
  case (Cons ev evs)
  show ?case
  proof (cases ev)
    case (Client c)
    show ?thesis
    proof (cases "length (served \<sigma>) < child_max")
      case True
      let ?s = "\<sigma>\<lparr>procs := procs \<sigma> @ [Alive], served := served \<sigma> @ [child_entry fd \<sigma> (length (served \<sigma>) + 1) c]\<rparr>"
      have "unix_server_loop nofile child_max (ev # evs) \<sigma> = unix_server_loop nofile child_max evs ?s"
        using Cons.prems True Client accepted_files [OF Cons.prems(1)]
        by (simp add: Let_def fork_proc_def child_entry_def)
      moreover obtain m where "child_max - length (served \<sigma>) = Suc m" "child_max - length (served ?s) = m"
        using True by (cases "child_max - length (served \<sigma>)") auto
      ultimately show ?thesis using Cons.IH [of ?s] Cons.prems Client True by (simp add: child_entry_def)
    qed (use Cons.prems Client in \<open>simp add: Let_def fork_proc_def\<close>)
  next
    case (Child_exits i)
    then show ?thesis using Cons.IH [of "\<sigma>\<lparr>procs := (procs \<sigma>)[i := Zombie]\<rparr>"] Cons.prems by simp
  qed (use Cons.prems in simp)
qed simp

text \<open>A process started from a shell: the terminal on 0, 1 and 2.\<close>

definition shell_files :: "nat \<Rightarrow> open_file option" where
  "shell_files i = (if i < 3 then Some Terminal else None)"

lemma shell_free:
  assumes "4 < nofile"
  shows "lowest_free nofile shell_files = Some 3" "lowest_free nofile (shell_files(3 := Some x)) = Some 4"
  using assms by (auto simp: lowest_free_Some shell_files_def less_Suc_eq numeral_3_eq_3 numeral_eq_Suc)

definition listening_server :: "conn_server" where
  "listening_server = \<lparr>sfiles = shell_files(3 := Some (Socket 0)), sock_fd = 3, served = [], turned_away = [], procs = []\<rparr>"

lemma stream_listen_ok:
  "4 < nofile \<Longrightarrow> \<not> taken n \<Longrightarrow> stream_listen nofile True n taken shell_files = Returned (listening_server, taken(n := True))"
  by (simp add: stream_listen_def bind_name_def shell_free listening_server_def)

lemma listening_free: "4 < nofile \<Longrightarrow> lowest_free nofile (sfiles listening_server) = Some 4"
  by (simp add: listening_server_def shell_free)


section \<open>Properties\<close>



text \<open>The server of \<open>5.unix/1.stream\<close> gives up where that of \<open>1.tcp\<close> goes on: when all \<open>child_max\<close>
  entries are used up it exits with a failure, with the last connection accepted and unanswered.  Its name is
  still in the file system then, so it cannot be started again: \<open>bind\<close> fails and it exits at once.\<close>
theorem unix_stream_server_ends_for_good:
  assumes "4 < nofile" "\<not> taken (Path UNIXSTR_PATH)" "Accept_error \<notin> set evs" "child_max < length (clients evs)"
  shows "\<exists>\<sigma> taken'. unix_server_main nofile child_max True taken evs shell_files = (Exited EXIT_FAILURE, Some \<sigma>, taken') \<and>
     map snd (served \<sigma>) = take child_max (clients evs) \<and> sfiles \<sigma> 4 \<noteq> None \<and>
     (\<forall>n m evs f. unix_server_main n m True taken' evs f = (Exited EXIT_FAILURE, None, taken'))"
proof -
  let ?t = "taken(Path UNIXSTR_PATH := True)"
  obtain \<sigma> where s: "unix_server_loop nofile child_max evs listening_server = (Exited EXIT_FAILURE, \<sigma>)"
    "sfiles \<sigma> 4 \<noteq> None" "map snd (served \<sigma>) = take child_max (clients evs)"
    using unix_loop_full [OF listening_free [OF assms(1)] _ assms(3), of child_max] assms(4)
    by (auto simp: listening_server_def)
  have "unix_server_main nofile child_max True taken evs shell_files = (Exited EXIT_FAILURE, Some \<sigma>, ?t)"
    using stream_listen_ok [OF assms(1), of taken "Path UNIXSTR_PATH"] assms(2) s(1) by (simp add: unix_server_main_def)
  moreover have "unix_server_main n m True ?t evs f = (Exited EXIT_FAILURE, None, ?t)" for n m evs f
    by (simp add: unix_server_main_def stream_listen_def bind_name_def split: option.split)
  ultimately show ?thesis using s(2,3) by blast
qed

theorem unix_stream_server_ends_for_good_witness:
  "\<exists>\<sigma> taken'. unix_server_main 256 0 True (\<lambda>_. False) [Client ([], \<lparr>written = [], grants = []\<rparr>)] shell_files =
       (Exited EXIT_FAILURE, Some \<sigma>, taken') \<and>
     unix_server_main 256 9 True taken' [] shell_files = (Exited EXIT_FAILURE, None, taken')"
  using unix_stream_server_ends_for_good [of 256 "\<lambda>_. False" "[Client ([], \<lparr>written = [], grants = []\<rparr>)]" 0] by auto

text \<open>A connection that breaks ends the process that echoes on it.\<close>

context duplex
begin

lemma str_echo_breaks:
  assumes "512 \<le> length line" "broken c = Some e" "willing c" "length (pending c) < fuel"
  shows "\<exists>c'. str_echo fuel rd wr c line = (Exited EXIT_FAILURE, c')"
  using assms
proof (induction fuel arbitrary: c line)
  case (Suc f)
  let ?l = "take_line 511 (pending c)"
  show ?case
  proof (cases "pending c \<noteq> [] \<and> (terminated ?l \<or> length ?l = 511)")
    case True
    obtain c' line' where "str_echo (Suc f) rd wr c line = str_echo f rd wr c' line'"
      and c': "512 \<le> length line'" "pending c' = drop (length ?l) (pending c)" "broken c' = Some e" "willing c'"
      using str_echo_step [OF Suc.prems(1) _ refl _ Suc.prems(3), of f] True Suc.prems(2) by metis
    moreover have "length (pending c') < f"
      unfolding c'(2) length_drop
      using Suc.prems(4) True drop_take_line_shrinks [of "pending c" 511] by linarith
    ultimately show ?thesis using Suc.IH [OF c'(1,3,4)] by simp
  next
    case False
    then have "readline_ret 512 ?l (broken c) = - 1"
      using Suc.prems(2) by (auto simp: readline_ret_def)
    then obtain c' line' where "readline rd c line 512 = (- 1, line', c')"
      using readline_correct [of 512 line ?l c "- 1"] Suc.prems(1) by auto
    then show ?thesis by simp
  qed
qed simp

end

text \<open>One client can end the iterative server of \<open>3.spp\<close>.  It serves the clients in turn and sends each of
  them back what it has sent; but \<open>str_echo\<close> exits when a connection fails, and there it is the server that
  exits, so no later client is served.\<close>
theorem spp_server_one_bad_client:
  assumes "4 < nofile" "\<not> taken (Port 6001)" "src_broken (fst b) = Some e" "\<forall>c \<in> set (b # cs). sink_willing (snd c)"
    "\<forall>c \<in> set cs. src_broken (fst c) = None" "\<forall>c \<in> set (b # cs). length (src_pending (fst c)) < fuel"
  shows "\<exists>handled. spp_server_main nofile fuel True taken (map Client cs @ Client b # evs) shell_files = (Exited EXIT_FAILURE, handled) \<and>
     map (\<lambda>c. written (snd c)) handled = map (\<lambda>c. written (snd c) @ echo_out (src_pending (fst c))) cs"
proof -
  have "\<exists>more. spp_server_loop fuel (map Client cs @ Client b # evs) handled = (Exited EXIT_FAILURE, handled @ more) \<and>
      map (\<lambda>c. written (snd c)) more = map (\<lambda>c. written (snd c) @ echo_out (src_pending (fst c))) cs" for handled
    using assms(4-6)
  proof (induction cs arbitrary: handled)
    case Nil
    then show ?case using sock.str_echo_breaks [of "replicate 512 NUL" b e fuel] assms(3) by auto
  next
    case (Cons c cs)
    obtain c' where c: "str_echo fuel sock_read sock_write c (replicate 512 NUL) = (Returned (), c')"
      "written (snd c') = written (snd c) @ echo_out (src_pending (fst c))"
      using sock.str_echo_correct [of "replicate 512 NUL" c fuel] Cons.prems by auto
    obtain more where "spp_server_loop fuel (map Client cs @ Client b # evs) (handled @ [c']) = (Exited EXIT_FAILURE, (handled @ [c']) @ more)"
      "map (\<lambda>c. written (snd c)) more = map (\<lambda>c. written (snd c) @ echo_out (src_pending (fst c))) cs"
      using Cons.IH [of "handled @ [c']"] Cons.prems by auto
    then show ?case using c by (intro exI [of _ "c' # more"]) simp
  qed
  from this [of "[]"] show ?thesis
    using stream_listen_ok [OF assms(1), of taken "Port SERV_SPP_PORT"] assms(2) by (simp add: spp_server_main_def SERV_SPP_PORT_def)
qed

theorem spp_server_one_bad_client_witness:
  "\<exists>handled. spp_server_main 256 2 True (\<lambda>_. False)
       (map Client [([Data ''a''], \<lparr>written = [], grants = []\<rparr>)] @ Client ([Fault EIO], \<lparr>written = [], grants = []\<rparr>) # [Accept_error])
       shell_files = (Exited EXIT_FAILURE, handled) \<and> length handled = 1"
proof -
  obtain handled where h: "spp_server_main 256 2 True (\<lambda>_. False)
       (map Client [([Data ''a''], \<lparr>written = [], grants = []\<rparr>)] @ Client ([Fault EIO], \<lparr>written = [], grants = []\<rparr>) # [Accept_error])
       shell_files = (Exited EXIT_FAILURE, handled)"
     "map (\<lambda>c. written (snd c)) handled = map (\<lambda>c. written (snd c) @ echo_out (src_pending (fst c))) [([Data ''a''], \<lparr>written = [], grants = []\<rparr>)]"
    using spp_server_one_bad_client [of 256 "\<lambda>_. False" "([Fault EIO], \<lparr>written = [], grants = []\<rparr>)" EIO
        "[([Data ''a''], \<lparr>written = [], grants = []\<rparr>)]" 2 "[Accept_error]"]
    by (auto simp: sink_willing_def)
  have "length handled = 1" using map_eq_imp_length_eq [OF h(2)] by simp
  with h(1) show ?thesis by blast
qed
text \<open>The clients.  Run against the stream server, the client prints its standard input, when that is
  lines shorter than its arrays, and exits with 0; without a socket or a connection it exits with a failure
  and has printed nothing.  The datagram client of the UNIX domain, when no datagram is lost, does the same for any input without NUL
  bytes, and leaves the file system as it was; its server starts whatever names are taken, a path left from
  an earlier run among them, and answers every datagram.\<close>
theorem echo_clients_exit_well:
  assumes "\<forall>l \<in> set ls. line_ok l" "513 \<le> length recvline" "NUL \<notin> set xs" "length mesg = 2048" "\<not> taken (Path temp)"
    "set (verdicts net) \<subseteq> {None}"
  shows "stream_client_main True True cli_read cli_write \<lparr>rest = concat (map (\<lambda>l. l @ [NL]) ls), read_error = False\<rparr>
        \<lparr>inbox = [], outbox = []\<rparr> recvline = (Exited EXIT_SUCCESS, concat (map (\<lambda>l. l @ [NL]) ls)) \<and>
     stream_client_main sock_ok False rd wr fp c recvline = (Exited EXIT_FAILURE, []) \<and>
     (\<exists>k. unix_dg_client_main True temp taken peer_sendto peer_recvfrom \<lparr>rest = xs, read_error = False\<rparr> a \<lparr>srv_mesg = mesg, fates = [], replies = []\<rparr> recvline =
        (Exited EXIT_SUCCESS, xs, k, taken)) \<and>
     delivered (fst (snd (unix_dg_server_main True any net_sendto evs mesg net))) = delivered net @ concat (map dg_reply (until_fault evs))"
proof -
  obtain c' where c: "str_cli cli_read cli_write \<lparr>rest = concat (map (\<lambda>l. l @ [NL]) ls), read_error = False\<rparr>
      \<lparr>inbox = [], outbox = []\<rparr> recvline [] = (Returned (), concat (map (\<lambda>l. l @ [NL]) ls), c')"
    using str_cli_lines [OF assms(1) _ _ assms(2), of "\<lparr>inbox = [], outbox = []\<rparr>" "\<lparr>rest = concat (map (\<lambda>l. l @ [NL]) ls), read_error = False\<rparr>" "[]"]
    by auto
  obtain k where k: "dg_cli peer_sendto peer_recvfrom \<lparr>rest = xs, read_error = False\<rparr> a \<lparr>srv_mesg = mesg, fates = [], replies = []\<rparr> recvline [] = (Returned (), xs, k)"
    using dg_cli_prints [of "\<lparr>rest = xs, read_error = False\<rparr>" "\<lparr>srv_mesg = mesg, fates = [], replies = []\<rparr>" recvline a "[]"] assms
    by (auto simp: exchanges_def)
  have t: "taken(Path temp := False) = taken" using assms(5) by (auto simp: fun_eq_iff)
  have "delivered (fst (snd (unix_dg_server_main True any net_sendto evs mesg net))) = delivered (snd (dg_echo net_sendto evs mesg net))"
    by (simp add: unix_dg_server_main_def bind_name_def split: prod.split outcome.split)
  then show ?thesis
    using c k assms(5) t net.dg_echo_lossless [OF assms(6,4), of evs]
    by (simp add: stream_client_main_def unix_dg_client_main_def bind_name_def)
qed

theorem echo_clients_exit_well_witness:
  "stream_client_main True True cli_read cli_write \<lparr>rest = concat (map (\<lambda>l. l @ [NL]) [''hi'']), read_error = False\<rparr>
        \<lparr>inbox = [], outbox = []\<rparr> (replicate 513 NUL) = (Exited EXIT_SUCCESS, concat (map (\<lambda>l. l @ [NL]) [''hi'']))"
  by (rule conjunct1 [OF echo_clients_exit_well [where recvline = "replicate 513 NUL" and xs = "''x''" and mesg = "replicate 2048 NUL"
      and taken = "\<lambda>_. False" and temp = "''/tmp/dg.aaaaaa''" and net = "\<lparr>delivered = [], verdicts = []\<rparr> :: nat net" and evs = "[]"]])
    (simp_all add: line_ok_def)

end
