(* ===== verification/Handshake.thy ===== *)
theory Handshake
  imports Echo
begin

text \<open>
  \<open>6.syscalls\<close>: the echo pair of \<open>1.tcp\<close> with a greeting before it.  The client sends a header with its
  version and the name of the protocol, the server answers with two status messages of 128 bytes and
  goes on to \<open>str_echo\<close> only when both are right; the client looks at the two messages and goes on to
  \<open>str_cli\<close>, which prints a prompt.  The server's main loop is that of \<open>1.tcp\<close>.
\<close>

section \<open>The header\<close>

record header_format =
  htype :: int
  version :: int
  protocol_name :: "byte list"      \<comment> \<open>10 bytes\<close>

definition VERSION_ERROR :: "byte list" where "VERSION_ERROR = ''[ERROR] Different Version''"
definition NO_VERSION_ERROR :: "byte list" where "NO_VERSION_ERROR = ''[SUCCESS] Same Version''"
definition PROTO_NAME_ERR :: "byte list" where "PROTO_NAME_ERR = ''[ERROR] Invalid Protocol''"
definition NO_PROTO_NAME_ERR :: "byte list" where "NO_PROTO_NAME_ERR = ''[SUCCESS] Valid Protocol''"

text \<open>The structure in memory: two integers of 32 bits, the name, and two bytes of padding.\<close>

definition header_bytes :: "header_format \<Rightarrow> byte list" where
  "header_bytes h = le_bytes 4 (nat (htype h mod 2 ^ 32)) @ le_bytes 4 (nat (version h mod 2 ^ 32)) @ protocol_name h @ [NUL, NUL]"

definition header_of :: "byte list \<Rightarrow> header_format" where
  "header_of b = \<lparr>htype = signed_of 32 (le_val (take 4 b)), version = signed_of 32 (le_val (take 4 (drop 4 b))),
     protocol_name = take 10 (drop 8 b)\<rparr>"

text \<open>A string constant in an array of 128 bytes.\<close>

definition status_message :: "byte list \<Rightarrow> byte list" where
  "status_message s = s @ replicate (128 - length s) NUL"

section \<open>The client\<close>

definition unp_header :: "header_format" where
  "unp_header = \<lparr>htype = 0, version = 1, protocol_name = ''UNP'' @ replicate 7 NUL\<rparr>"

definition client_hello ::
  "('c \<Rightarrow> byte list \<Rightarrow> (errno + nat) \<times> 'c) \<Rightarrow> header_format \<Rightarrow> 'c \<Rightarrow> unit outcome \<times> 'c"
where
  "client_hello wr h c =
     (case wr c (header_bytes h @ ''Header, I/O vectors!'') of
        (Inl e, c) \<Rightarrow> (Exited EXIT_FAILURE, c)
      | (Inr w, c) \<Rightarrow> (Returned (), c))"

text \<open>The two \<open>recv\<close> calls share one array.\<close>

definition client_check ::
  "('c \<Rightarrow> nat \<Rightarrow> (errno + byte list) \<times> 'c) \<Rightarrow> byte list \<Rightarrow> 'c \<Rightarrow> unit outcome \<times> 'c"
where
  "client_check rd response c =
     (case rd c 128 of
        (Inl e, c) \<Rightarrow> (Exited EXIT_FAILURE, c)
      | (Inr xs, c) \<Rightarrow>
          (let response = poke response 0 xs
           in if strncmp response VERSION_ERROR (length VERSION_ERROR + 1) = 0 then (Exited EXIT_FAILURE, c)
              else case rd c 128 of
                     (Inl e, c) \<Rightarrow> (Exited EXIT_FAILURE, c)
                   | (Inr xs, c) \<Rightarrow>
                       (let response = poke response 0 xs
                        in if strncmp response PROTO_NAME_ERR (length PROTO_NAME_ERR + 1) = 0 then (Exited EXIT_FAILURE, c)
                           else (Returned (), c))))"

text \<open>\<open>str_cli\<close> with its prompt.\<close>

definition prompt :: "byte list" where "prompt = ''echo > ''"

function prompt_str_cli ::
  "('c \<Rightarrow> nat \<Rightarrow> (errno + byte list) \<times> 'c) \<Rightarrow> ('c \<Rightarrow> byte list \<Rightarrow> (errno + nat) \<times> 'c) \<Rightarrow>
    stream_in \<Rightarrow> 'c \<Rightarrow> byte list \<Rightarrow> byte list \<Rightarrow> unit outcome \<times> byte list \<times> 'c"
where
  "prompt_str_cli rd wr fp c recvline out =
     (let out = out @ prompt
      in case fgets 512 fp of
           (None, fp) \<Rightarrow> if ferror fp then (Exited EXIT_FAILURE, out, c) else (Returned (), out, c)
         | (Some sendline, fp) \<Rightarrow>
             let n = int (strlen sendline)
             in case writen wr c sendline n of (w, c) \<Rightarrow>
                  if w \<noteq> n then (Exited EXIT_FAILURE, out, c)
                  else (case readline rd c recvline MAXLINE of (n, recvline, c) \<Rightarrow>
                          if n < 0 then (Exited EXIT_FAILURE, out, c)
                          else let recvline = recvline[nat n := NUL]
                               in prompt_str_cli rd wr fp c recvline (out @ cstr recvline)))"
  by pat_completeness auto
termination
  by (relation "measure (\<lambda>(rd, wr, fp, c, recvline, out). length (rest fp))")
     (auto dest: fgets_shrinks [OF sym])

declare prompt_str_cli.simps [simp del]

text \<open>From the connection on; what is printed before the prompt is left out.\<close>

definition greeting_client ::
  "('c \<Rightarrow> nat \<Rightarrow> (errno + byte list) \<times> 'c) \<Rightarrow> byte list \<Rightarrow> stream_in \<Rightarrow> ('c \<Rightarrow> byte list \<Rightarrow> (errno + nat) \<times> 'c) \<Rightarrow>
     byte list \<Rightarrow> 'c \<Rightarrow> int outcome \<times> byte list"
where
  "greeting_client rd response fp wr recvline c =
     (case client_check rd response c of
        (Returned _, c) \<Rightarrow>
          (case prompt_str_cli rd wr fp c recvline [] of
             (Returned _, out, c) \<Rightarrow> (Exited EXIT_SUCCESS, out)
           | (Exited s, out, c) \<Rightarrow> (Exited s, out)
           | (_, out, c) \<Rightarrow> (Running, out))
      | (Exited s, c) \<Rightarrow> (Exited s, [])
      | (_, c) \<Rightarrow> (Running, []))"

section \<open>The child of the server\<close>

text \<open>\<open>readv\<close> fills the structure and then \<open>dummy_message\<close>; the \<open>old\<close> bytes of the structure stay where
  nothing is read over them.  The name is compared with its NUL.  The result says whether to serve.\<close>

definition server_check ::
  "('c \<Rightarrow> nat \<Rightarrow> (errno + byte list) \<times> 'c) \<Rightarrow> ('c \<Rightarrow> byte list \<Rightarrow> (errno + nat) \<times> 'c) \<Rightarrow> byte list \<Rightarrow> 'c \<Rightarrow> bool outcome \<times> 'c"
where
  "server_check rd wr old c =
     (case rd c (20 + 128) of
        (Inl e, c) \<Rightarrow> (Exited EXIT_FAILURE, c)
      | (Inr xs, c) \<Rightarrow>
          (let h = header_of (poke old 0 (take 20 xs));
               is_valid_version = (version h \<noteq> 1);
               is_valid_protocol = (strncmp (protocol_name h) ''UNP'' 4 \<noteq> 0)
           in case wr c (status_message (if is_valid_version then VERSION_ERROR else NO_VERSION_ERROR)) of
                (Inl e, c) \<Rightarrow> (Exited EXIT_FAILURE, c)
              | (Inr w, c) \<Rightarrow>
                  (case wr c (status_message (if is_valid_protocol then PROTO_NAME_ERR else NO_PROTO_NAME_ERR)) of
                     (Inl e, c) \<Rightarrow> (Exited EXIT_FAILURE, c)
                   | (Inr w, c) \<Rightarrow> (Returned (\<not> (is_valid_version \<or> is_valid_protocol)), c))))"

definition greeting_child ::
  "nat \<Rightarrow> ('c \<Rightarrow> nat \<Rightarrow> (errno + byte list) \<times> 'c) \<Rightarrow> ('c \<Rightarrow> byte list \<Rightarrow> (errno + nat) \<times> 'c) \<Rightarrow> byte list \<Rightarrow> 'c \<Rightarrow> int outcome \<times> 'c"
where
  "greeting_child fuel rd wr old c =
     (case server_check rd wr old c of
        (Returned serve, c) \<Rightarrow>
          if serve
          then (case str_echo fuel rd wr c (replicate 512 NUL) of
                  (Returned _, c) \<Rightarrow> (Exited EXIT_SUCCESS, c)
                | (Exited s, c) \<Rightarrow> (Exited s, c)
                | (_, c) \<Rightarrow> (Running, c))
          else (Exited EXIT_SUCCESS, c)
      | (Exited s, c) \<Rightarrow> (Exited s, c)
      | (_, c) \<Rightarrow> (Running, c))"

section \<open>The session\<close>

text \<open>Client and server over the connection of \<open>str_cli_prints\<close>: the client's greeting, the server's check, and
  then the client with the echoing server behind its reads.\<close>

definition greeting_session :: "header_format \<Rightarrow> byte list \<Rightarrow> byte list \<Rightarrow> byte list \<Rightarrow> stream_in \<Rightarrow> bool outcome \<times> int outcome \<times> byte list"
where
  "greeting_session h old response recvline fp =
     (case client_hello cli_write h \<lparr>inbox = [], outbox = []\<rparr> of
        (_, c) \<Rightarrow> (case server_check srv_read srv_write old c of
                     (r, c) \<Rightarrow> (r, greeting_client cli_read response fp cli_write recvline c)))"

section \<open>The header comes back\<close>

definition header_fits :: "header_format \<Rightarrow> bool" where
  "header_fits h \<longleftrightarrow> - (2 ^ 31) \<le> htype h \<and> htype h < 2 ^ 31 \<and> - (2 ^ 31) \<le> version h \<and> version h < 2 ^ 31 \<and>
     length (protocol_name h) = 10"

lemma length_header_bytes [simp]: "header_fits h \<Longrightarrow> length (header_bytes h) = 20"
  by (simp add: header_bytes_def header_fits_def)

lemma header_of_bytes: "header_fits h \<Longrightarrow> header_of (header_bytes h) = h"
  using le_signed [of 4 "htype h"] le_signed [of 4 "version h"]
  by (simp add: header_of_def header_bytes_def header_fits_def)

definition header_right :: "header_format \<Rightarrow> bool" where
  "header_right h \<longleftrightarrow> version h = 1 \<and> cstr (protocol_name h) = ''UNP''"

lemma name_test: "strncmp s ''UNP'' 4 = 0 \<longleftrightarrow> cstr s = ''UNP''"
proof -
  have "take 4 (cstr s) = ''UNP'' \<longleftrightarrow> cstr s = ''UNP''"
  proof
    assume t: "take 4 (cstr s) = ''UNP''"
    then have "length (take 4 (cstr s)) = 3" by simp
    then have "length (cstr s) \<le> 4" by simp
    then show "cstr s = ''UNP''" using t by simp
  qed simp
  moreover have "take 4 (cstr ''UNP'') = ''UNP''" by (simp add: cstr_def)
  ultimately show ?thesis by (simp add: strncmp_0_iff)
qed

lemmas statuses = VERSION_ERROR_def NO_VERSION_ERROR_def PROTO_NAME_ERR_def NO_PROTO_NAME_ERR_def

lemma length_status [simp]: "length s \<le> 128 \<Longrightarrow> length (status_message s) = 128"
  by (simp add: status_message_def)

lemma cstr_status: "NUL \<notin> set s \<Longrightarrow> length s < 128 \<Longrightarrow> cstr (status_message s) = s"
  by (cases "128 - length s") (simp_all add: status_message_def)

lemma length_statuses [simp]:
  "length VERSION_ERROR = 25" "length NO_VERSION_ERROR = 22" "length PROTO_NAME_ERR = 24" "length NO_PROTO_NAME_ERR = 24"
  by (simp_all add: statuses)

lemma cstr_statuses [simp]:
  "cstr (status_message VERSION_ERROR) = VERSION_ERROR" "cstr (status_message NO_VERSION_ERROR) = NO_VERSION_ERROR"
  "cstr (status_message PROTO_NAME_ERR) = PROTO_NAME_ERR" "cstr (status_message NO_PROTO_NAME_ERR) = NO_PROTO_NAME_ERR"
  by (rule cstr_status, simp_all add: statuses)+

lemma status_tests:
  "strncmp (status_message VERSION_ERROR) VERSION_ERROR (length VERSION_ERROR + 1) = 0"
  "strncmp (status_message NO_VERSION_ERROR) VERSION_ERROR (length VERSION_ERROR + 1) \<noteq> 0"
  "strncmp (status_message PROTO_NAME_ERR) PROTO_NAME_ERR (length PROTO_NAME_ERR + 1) = 0"
  "strncmp (status_message NO_PROTO_NAME_ERR) PROTO_NAME_ERR (length PROTO_NAME_ERR + 1) \<noteq> 0"
  by (simp_all add: strncmp_0_iff) (simp_all add: statuses cstr_def)

lemma poke_all: "length xs = length buf \<Longrightarrow> poke buf 0 xs = xs"
  by (simp add: poke_0_append)

section \<open>The session in steps\<close>

lemma server_check_answers:
  assumes "header_fits h" "length old = 20" "inbox c = header_bytes h @ g" "length g \<le> 128" "outbox c = []"
  shows "server_check srv_read srv_write old c =
     (Returned (header_right h),
      c\<lparr>inbox := [], outbox :=
        status_message (if version h = 1 then NO_VERSION_ERROR else VERSION_ERROR) @
        status_message (if cstr (protocol_name h) = ''UNP'' then NO_PROTO_NAME_ERR else PROTO_NAME_ERR)\<rparr>)"
proof -
  have "poke old 0 (take 20 (take 148 (header_bytes h @ g))) = header_bytes h"
    using assms(1,2) by (simp add: poke_all)
  then have "header_of (poke old 0 (take 20 (take 148 (header_bytes h @ g)))) = h"
    using header_of_bytes [OF assms(1)] by simp
  then show ?thesis
    using assms by (simp add: server_check_def srv_read_def srv_write_def Let_def name_test header_right_def)
qed

lemma client_reads_status:
  assumes "outbox c = status_message s @ ys" "length s \<le> 128"
  shows "cli_read c 128 = (Inr (status_message s), c\<lparr>outbox := ys\<rparr>)"
proof -
  have "status_message s \<noteq> []" using length_status [OF assms(2)] by (metis list.size(3) zero_neq_numeral)
  then show ?thesis using assms by (simp add: cli_read_def srv_turn_def)
qed

lemma client_check_decides:
  assumes "outbox c = status_message (if v then NO_VERSION_ERROR else VERSION_ERROR) @
      status_message (if p then NO_PROTO_NAME_ERR else PROTO_NAME_ERR)" "length response = 128"
  shows "fst (client_check cli_read response c) = (if v \<and> p then Returned () else Exited EXIT_FAILURE)"
    "v \<Longrightarrow> snd (client_check cli_read response c) = c\<lparr>outbox := []\<rparr>"
proof -
  let ?s = "if v then NO_VERSION_ERROR else VERSION_ERROR" and ?t = "if p then NO_PROTO_NAME_ERR else PROTO_NAME_ERR"
  have r: "cli_read c 128 = (Inr (status_message ?s), c\<lparr>outbox := status_message ?t\<rparr>)"
    by (rule client_reads_status [OF assms(1)]) simp
  have r2: "cli_read (c\<lparr>outbox := status_message ?t\<rparr>) 128 = (Inr (status_message ?t), c\<lparr>outbox := []\<rparr>)"
    using client_reads_status [of "c\<lparr>outbox := status_message ?t\<rparr>" ?t "[]"] by simp
  have p1: "poke response 0 (status_message ?s) = status_message ?s" using assms(2) by (intro poke_all) simp
  have p2: "poke (status_message ?s) 0 (status_message ?t) = status_message ?t" by (intro poke_all) simp
  show "fst (client_check cli_read response c) = (if v \<and> p then Returned () else Exited EXIT_FAILURE)"
    unfolding client_check_def r prod.case sum.case Let_def p1 r2 p2 using status_tests by (cases v; cases p) simp_all
  show "snd (client_check cli_read response c) = c\<lparr>outbox := []\<rparr>" if v
    unfolding client_check_def r prod.case sum.case Let_def p1 r2 p2 using status_tests that by (cases p) simp_all
qed

lemma prompt_str_cli_lines:
  assumes "\<forall>l \<in> set ls. line_ok l" "inbox c = []" "outbox c = []" "513 \<le> length recvline"
    and "rest fp = concat (map (\<lambda>l. l @ [NL]) ls)" "\<not> read_error fp"
  shows "\<exists>c'. prompt_str_cli cli_read cli_write fp c recvline out =
     (Returned (), out @ concat (map (\<lambda>l. prompt @ l @ [NL]) ls) @ prompt, c')"
  using assms
proof (induction ls arbitrary: c fp recvline out)
  case Nil
  then show ?case by (simp add: prompt_str_cli.simps fgets_def ferror_def Let_def)
next
  case (Cons l ls)
  let ?ys = "concat (map (\<lambda>l. l @ [NL]) ls)"
  have l: "line_ok l" "rest fp = l @ NL # ?ys" using Cons.prems by simp_all
  obtain c1 c2 recvline' where x: "writen cli_write c (l @ [NL]) (int (strlen (l @ [NL]))) = (int (strlen (l @ [NL])), c1)"
     "readline cli_read c1 recvline 512 = (int (Suc (length l)), recvline', c2)"
     "recvline'[Suc (length l) := NUL] = recvline'" "cstr recvline' = l @ [NL]" "length recvline' = length recvline"
     "inbox c2 = []" "outbox c2 = []"
    using cli_exchange [OF l(1) Cons.prems(2-4)] by blast
  have "prompt_str_cli cli_read cli_write fp c recvline out =
      prompt_str_cli cli_read cli_write (fp\<lparr>rest := ?ys\<rparr>) c2 recvline' ((out @ prompt) @ l @ [NL])"
    unfolding prompt_str_cli.simps [of cli_read cli_write fp] fgets_line [OF l]
    by (simp only: x(1,2) prod.case option.case Let_def nat_int x(3,4)) simp
  then show ?case
    using Cons.IH [of c2 recvline' "fp\<lparr>rest := ?ys\<rparr>" "(out @ prompt) @ l @ [NL]"] Cons.prems x(5-7) by auto
qed

lemma le_val_zeros: "le_val (replicate n NUL) = 0"
  by (induction n) simp_all

section \<open>Properties\<close>

text \<open>C28: the greeting of \<open>6.syscalls\<close>.  For every header that fits its structure, and for a standard input made of terminated
  lines without NUL bytes and shorter than the arrays (less than 511 bytes), client and server come to the same decision when
  the kernel delivers each message whole: with version 1 and the name \<open>UNP\<close> the server serves and the client
  prints this input, with a prompt before each line, and exits with 0; with any other header the
  server serves nothing and the client exits with a failure before it reads its input.  On an input whose last line has no
  newline nothing is promised: there both sides wait for each other.\<close>
theorem greeting_agrees:
  assumes "header_fits h" "length old = 20" "length response = 128" "513 \<le> length recvline" "\<forall>l \<in> set ls. line_ok l"
  shows "greeting_session h old response recvline \<lparr>rest = concat (map (\<lambda>l. l @ [NL]) ls), read_error = False\<rparr> =
     (if version h = 1 \<and> cstr (protocol_name h) = ''UNP''
      then (Returned True, Exited EXIT_SUCCESS, concat (map (\<lambda>l. prompt @ l @ [NL]) ls) @ prompt)
      else (Returned False, Exited EXIT_FAILURE, []))"
proof -
  let ?v = "version h = 1" and ?p = "cstr (protocol_name h) = ''UNP''"
  let ?c1 = "\<lparr>inbox = header_bytes h @ ''Header, I/O vectors!'', outbox = []\<rparr>"
  let ?c2 = "\<lparr>inbox = [], outbox = status_message (if ?v then NO_VERSION_ERROR else VERSION_ERROR) @
      status_message (if ?p then NO_PROTO_NAME_ERR else PROTO_NAME_ERR)\<rparr>"
  have h: "client_hello cli_write h \<lparr>inbox = [], outbox = []\<rparr> = (Returned (), ?c1)"
    by (simp add: client_hello_def cli_write_def)
  have s: "server_check srv_read srv_write old ?c1 = (Returned (header_right h), ?c2)"
    using server_check_answers [OF assms(1,2), of ?c1 "''Header, I/O vectors!''"] by simp
  have d: "outbox ?c2 = status_message (if ?v then NO_VERSION_ERROR else VERSION_ERROR) @
      status_message (if ?p then NO_PROTO_NAME_ERR else PROTO_NAME_ERR)" by simp
  note k = client_check_decides [OF d assms(3)]
  show ?thesis
  proof (cases "?v \<and> ?p")
    case True
    then have "client_check cli_read response ?c2 = (Returned (), \<lparr>inbox = [], outbox = []\<rparr>)"
      using k by (simp add: prod_eq_iff)
    moreover obtain c' where "prompt_str_cli cli_read cli_write \<lparr>rest = concat (map (\<lambda>l. l @ [NL]) ls), read_error = False\<rparr>
        \<lparr>inbox = [], outbox = []\<rparr> recvline [] = (Returned (), concat (map (\<lambda>l. prompt @ l @ [NL]) ls) @ prompt, c')"
      using prompt_str_cli_lines [OF assms(5) _ _ assms(4), of "\<lparr>inbox = [], outbox = []\<rparr>"
          "\<lparr>rest = concat (map (\<lambda>l. l @ [NL]) ls), read_error = False\<rparr>" "[]"] by auto
    ultimately have "greeting_client cli_read response \<lparr>rest = concat (map (\<lambda>l. l @ [NL]) ls), read_error = False\<rparr> cli_write recvline ?c2 =
        (Exited EXIT_SUCCESS, concat (map (\<lambda>l. prompt @ l @ [NL]) ls) @ prompt)"
      unfolding greeting_client_def by simp
    then show ?thesis using True unfolding greeting_session_def h s prod.case by (simp add: header_right_def)
  next
    case False
    then have "fst (client_check cli_read response ?c2) = Exited EXIT_FAILURE" using k(1) by simp
    then have "greeting_client cli_read response \<lparr>rest = concat (map (\<lambda>l. l @ [NL]) ls), read_error = False\<rparr> cli_write recvline ?c2 =
        (Exited EXIT_FAILURE, [])"
      unfolding greeting_client_def by (cases "client_check cli_read response ?c2") simp
    then show ?thesis using False unfolding greeting_session_def h s prod.case header_right_def by (simp only: if_False)
  qed
qed

theorem greeting_agrees_witness:
  "greeting_session unp_header (replicate 20 NUL) (replicate 128 NUL) (replicate 513 NUL) \<lparr>rest = concat (map (\<lambda>l. l @ [NL]) [''hi'']), read_error = False\<rparr> =
     (Returned True, Exited EXIT_SUCCESS, ''echo > hi'' @ NL # ''echo > '')"
  using greeting_agrees [of unp_header "replicate 20 NUL" "replicate 128 NUL" "replicate 513 NUL" "[''hi'']"]
  by (simp add: unp_header_def header_fits_def line_ok_def prompt_def cstr_def)

lemma server_refuses_a_split_header:
  assumes "0 < k" "k \<le> 4" "header_fits h"
  shows "\<exists>c. greeting_child fuel sock_read sock_write (replicate 20 NUL)
       ([Data (take k (header_bytes h)), Data (drop k (header_bytes h))], \<lparr>written = [], grants = []\<rparr>) = (Exited EXIT_SUCCESS, c) \<and>
     written (snd c) = status_message VERSION_ERROR @ status_message PROTO_NAME_ERR"
proof -
  let ?b = "take k (header_bytes h)"
  have "length (header_bytes h) = 20" using assms(3) by simp
  then have b: "length ?b = k" "?b \<noteq> []" using assms(1,2) by auto
  have p: "poke (replicate 20 NUL) 0 (take 20 ?b) = ?b @ replicate (20 - k) NUL"
    using b(1) assms(2) by (simp add: poke_0_append)
  have "drop 4 (?b @ replicate (20 - k) NUL) = replicate 16 NUL" "drop 8 (?b @ replicate (20 - k) NUL) = replicate 12 NUL"
    using b(1) assms(2) by simp_all
  then have "version (header_of (poke (replicate 20 NUL) 0 (take 20 ?b))) = 0"
    "protocol_name (header_of (poke (replicate 20 NUL) 0 (take 20 ?b))) = replicate 10 NUL"
    unfolding p header_of_def by (simp_all add: signed_of_def le_val_zeros)
  moreover have "sock_read ([Data ?b, Data (drop k (header_bytes h))], \<lparr>written = [], grants = []\<rparr>) (20 + 128) =
      (Inr ?b, ([Data (drop k (header_bytes h))], \<lparr>written = [], grants = []\<rparr>))"
    using b assms(2) by (simp add: sock_read_def)
  moreover have "strncmp (replicate 10 NUL) ''UNP'' 4 \<noteq> 0" by (simp add: name_test cstr_def)
  ultimately have "server_check sock_read sock_write (replicate 20 NUL)
      ([Data ?b, Data (drop k (header_bytes h))], \<lparr>written = [], grants = []\<rparr>) =
      (Returned False, ([Data (drop k (header_bytes h))], \<lparr>written = status_message VERSION_ERROR @ status_message PROTO_NAME_ERR, grants = []\<rparr>))"
    by (simp add: server_check_def Let_def sock_write_def sys_write_def)
  then show "\<exists>c. greeting_child fuel sock_read sock_write (replicate 20 NUL)
       ([Data ?b, Data (drop k (header_bytes h))], \<lparr>written = [], grants = []\<rparr>) = (Exited EXIT_SUCCESS, c) \<and>
     written (snd c) = status_message VERSION_ERROR @ status_message PROTO_NAME_ERR"
    by (simp add: greeting_child_def)
qed

lemma client_misreads_a_split_status:
  assumes "22 \<le> j" "j < 128" "length response = 128"
  shows "client_check sock_read response
     (Data (take j (status_message NO_VERSION_ERROR)) # Data (drop j (status_message NO_VERSION_ERROR)) # q, s) = (Returned (), (q, s))"
proof -
  let ?m = "status_message NO_VERSION_ERROR"
  have t: "take j ?m = NO_VERSION_ERROR @ replicate (j - 22) NUL" "drop j ?m = replicate (128 - j) NUL"
    using assms(1,2) by (simp_all add: status_message_def min_def)
  have m: "take j ?m \<noteq> []" "drop j ?m \<noteq> []" "length (take j ?m) \<le> 128" "length (drop j ?m) \<le> 128"
    using assms(1,2) by (simp_all add: t) (simp add: statuses)
  have r1: "sock_read (Data (take j ?m) # Data (drop j ?m) # q, s) 128 = (Inr (take j ?m), (Data (drop j ?m) # q, s))" for q
    using m by (simp add: sock_read_def)
  have r2: "sock_read (Data (drop j ?m) # q, s) 128 = (Inr (drop j ?m), (q, s))" for q
    using m by (simp add: sock_read_def)
  have p1: "poke response 0 (take j ?m) = NO_VERSION_ERROR @ replicate (j - 22) NUL @ drop j response"
    using assms unfolding t(1) by (simp add: poke_0_append)
  have p2: "poke (poke response 0 (take j ?m)) 0 (drop j ?m) = replicate (128 - j) NUL @ drop (128 - j) (poke response 0 (take j ?m))"
    using assms(3) unfolding t(2) by (subst poke_0_append) simp_all
  have "cstr (replicate (128 - j) NUL @ ys) = []" for ys using assms(2) by (cases "128 - j") (simp_all add: cstr_def)
  then have p3: "cstr (poke (poke response 0 (take j ?m)) 0 (drop j ?m)) = []" unfolding p2 .
  have "strncmp (poke response 0 (take j ?m)) VERSION_ERROR (length VERSION_ERROR + 1) \<noteq> 0"
    unfolding p1 strncmp_0_iff by (simp add: statuses cstr_def)
  moreover have "strncmp (poke (poke response 0 (take j ?m)) 0 (drop j ?m)) PROTO_NAME_ERR (length PROTO_NAME_ERR + 1) \<noteq> 0"
    unfolding strncmp_0_iff p3 by (simp add: statuses cstr_def)
  ultimately show "client_check sock_read response (Data (take j ?m) # Data (drop j ?m) # q, s) = (Returned (), (q, s))"
    by (simp add: client_check_def r1 r2 Let_def)
qed

text \<open>What the greeting assumes of the kernel.  A stream does not keep messages together: when the first
  bytes of a right header arrive alone, the server compares bytes it never received, refuses the client and
  exits with 0; and when the answer about the version arrives in two parts, the client takes the second part
  for the answer about the protocol, goes on as if it had been accepted, whatever the server has decided, and
  the real answer is what it reads next.\<close>
theorem greeting_trusts_the_boundaries:
  assumes "0 < k" "k \<le> 4" "header_fits h" "22 \<le> j" "j < 128" "length response = 128"
  shows "(\<exists>c. greeting_child fuel sock_read sock_write (replicate 20 NUL)
         ([Data (take k (header_bytes h)), Data (drop k (header_bytes h))], \<lparr>written = [], grants = []\<rparr>) = (Exited EXIT_SUCCESS, c) \<and>
       written (snd c) = status_message VERSION_ERROR @ status_message PROTO_NAME_ERR) \<and>
     client_check sock_read response
       ([Data (take j (status_message NO_VERSION_ERROR)), Data (drop j (status_message NO_VERSION_ERROR)),
         Data (status_message PROTO_NAME_ERR)], s) = (Returned (), ([Data (status_message PROTO_NAME_ERR)], s))"
  using server_refuses_a_split_header [OF assms(1-3), of fuel]
    client_misreads_a_split_status [OF assms(4-6), of "[Data (status_message PROTO_NAME_ERR)]" s] by blast

theorem greeting_trusts_the_boundaries_witness:
  "\<exists>c. greeting_child 9 sock_read sock_write (replicate 20 NUL)
         ([Data (take 4 (header_bytes unp_header)), Data (drop 4 (header_bytes unp_header))], \<lparr>written = [], grants = []\<rparr>) = (Exited EXIT_SUCCESS, c) \<and>
       written (snd c) = status_message VERSION_ERROR @ status_message PROTO_NAME_ERR"
  using greeting_trusts_the_boundaries [of 4 unp_header 22 "replicate 128 NUL" 9]
  by (simp add: header_fits_def unp_header_def)

end
