(* ===== verification/Fifo_Server.thy ===== *)
theory Fifo_Server
  imports Pipe_Server
begin

text \<open>
  \<open>5_fifo/main.c\<close>: the client and the server of \<open>3_pipes_client_server\<close> over two FIFOs.  The pipes have
  names and are opened by the processes themselves: \<open>open\<close> waits until the other end has been opened, so
  the order of the four calls decides whether the program starts at all.  From there on the processes do what
  those of the theory \<open>Pipe_Server\<close> do, and the client removes the names.
\<close>

section \<open>State\<close>

datatype fifo_client = F_open1 | F_wait1 | F_open2 | F_wait2 | F_run | F_unlink1 | F_unlink2 | F_exit int

datatype fifo_server = G_open1 | G_wait1 | G_open2 | G_wait2 | G_run | G_exit int

text \<open>\<open>core\<close> holds the contents and the ends of the FIFOs and the two processes once they run; the last four
  fields say which calls of \<open>open\<close> have been made, by the client and by the server for the first and the second FIFO.\<close>

record fifos =
  core :: pipes
  fpc :: fifo_client
  gpc :: fifo_server
  fifo1 :: bool
  fifo2 :: bool
  cli1 :: bool
  cli2 :: bool
  srv1 :: bool
  srv2 :: bool

definition open_rd :: "bool \<Rightarrow> byte_pipe \<Rightarrow> byte_pipe" where
  "open_rd who p = p\<lparr>rd_open := (rd_open p)(who := True)\<rparr>"

definition open_wr :: "bool \<Rightarrow> byte_pipe \<Rightarrow> byte_pipe" where
  "open_wr who p = p\<lparr>wr_open := (wr_open p)(who := True)\<rparr>"

section \<open>The program\<close>

text \<open>\<open>main\<close> before \<open>fork\<close>: the results of the two \<open>mknod\<close> calls, and which names there are afterwards.\<close>

definition fifo_main :: "errno option \<Rightarrow> errno option \<Rightarrow> bool \<Rightarrow> bool \<Rightarrow> bool \<Rightarrow> unit outcome \<times> bool \<times> bool" where
  "fifo_main made1 made2 forked there1 there2 =
     (if made1 \<noteq> None \<and> made1 \<noteq> Some EEXIST then (Exited EXIT_FAILURE, there1, there2)
      else if made2 \<noteq> None \<and> made2 \<noteq> Some EEXIST then (Exited EXIT_FAILURE, False, there2)
      else if \<not> forked then (Exited EXIT_FAILURE, True, True)
      else (Returned (), True, True))"

text \<open>The parent.  In \<open>F_run\<close> it calls \<open>client\<close>, waits for the child and closes its two descriptors, which is what
  \<open>parent_step\<close> does from \<open>P_gets\<close> on; its \<open>P_exit 0\<close> is the end of that.\<close>

definition fifo_parent :: "fifos \<Rightarrow> fifos" where
  "fifo_parent \<sigma> =
     (case fpc \<sigma> of
        F_open1 \<Rightarrow>
          if fifo1 \<sigma>
          then \<sigma>\<lparr>core := (core \<sigma>)\<lparr>pipe1 := open_wr True (pipe1 (core \<sigma>))\<rparr>, fpc := F_wait1, cli1 := True\<rparr>
          else \<sigma>\<lparr>core := drop_ends True (core \<sigma>), fpc := F_exit EXIT_FAILURE\<rparr>
      | F_wait1 \<Rightarrow> if srv1 \<sigma> then \<sigma>\<lparr>fpc := F_open2\<rparr> else \<sigma>
      | F_open2 \<Rightarrow>
          if fifo2 \<sigma>
          then \<sigma>\<lparr>core := (core \<sigma>)\<lparr>pipe2 := open_rd True (pipe2 (core \<sigma>))\<rparr>, fpc := F_wait2, cli2 := True\<rparr>
          else \<sigma>\<lparr>core := drop_ends True (core \<sigma>), fpc := F_exit EXIT_FAILURE\<rparr>
      | F_wait2 \<Rightarrow> if srv2 \<sigma> then \<sigma>\<lparr>fpc := F_run\<rparr> else \<sigma>
      | F_run \<Rightarrow>
          (case ppc (core \<sigma>) of
             P_exit s \<Rightarrow> if s = 0 then \<sigma>\<lparr>fpc := F_unlink1\<rparr> else \<sigma>\<lparr>fpc := F_exit s\<rparr>
           | _ \<Rightarrow> \<sigma>\<lparr>core := parent_step (core \<sigma>)\<rparr>)
      | F_unlink1 \<Rightarrow> if fifo1 \<sigma> then \<sigma>\<lparr>fpc := F_unlink2, fifo1 := False\<rparr> else \<sigma>\<lparr>fpc := F_exit EXIT_FAILURE\<rparr>
      | F_unlink2 \<Rightarrow> if fifo2 \<sigma> then \<sigma>\<lparr>fpc := F_exit EXIT_SUCCESS, fifo2 := False\<rparr> else \<sigma>\<lparr>fpc := F_exit EXIT_FAILURE\<rparr>
      | F_exit s \<Rightarrow> \<sigma>)"

text \<open>The child; in \<open>G_run\<close> it is \<open>child_step\<close> from \<open>Q_read\<close> on.\<close>

definition fifo_child :: "(byte list \<Rightarrow> errno + source) \<Rightarrow> (errno \<Rightarrow> byte list) \<Rightarrow> fifos \<Rightarrow> fifos" where
  "fifo_child opens sys_errlist \<sigma> =
     (case gpc \<sigma> of
        G_open1 \<Rightarrow>
          if fifo1 \<sigma>
          then \<sigma>\<lparr>core := (core \<sigma>)\<lparr>pipe1 := open_rd False (pipe1 (core \<sigma>))\<rparr>, gpc := G_wait1, srv1 := True\<rparr>
          else \<sigma>\<lparr>core := server_ends (Q_exit EXIT_FAILURE) (core \<sigma>), gpc := G_exit EXIT_FAILURE\<rparr>
      | G_wait1 \<Rightarrow> if cli1 \<sigma> then \<sigma>\<lparr>gpc := G_open2\<rparr> else \<sigma>
      | G_open2 \<Rightarrow>
          if fifo2 \<sigma>
          then \<sigma>\<lparr>core := (core \<sigma>)\<lparr>pipe2 := open_wr False (pipe2 (core \<sigma>))\<rparr>, gpc := G_wait2, srv2 := True\<rparr>
          else \<sigma>\<lparr>core := server_ends (Q_exit EXIT_FAILURE) (core \<sigma>), gpc := G_exit EXIT_FAILURE\<rparr>
      | G_wait2 \<Rightarrow> if cli2 \<sigma> then \<sigma>\<lparr>gpc := G_run\<rparr> else \<sigma>
      | G_run \<Rightarrow>
          (case qpc (core \<sigma>) of
             Q_exit s \<Rightarrow> \<sigma>\<lparr>gpc := G_exit s\<rparr>
           | _ \<Rightarrow> \<sigma>\<lparr>core := child_step opens sys_errlist (core \<sigma>)\<rparr>)
      | G_exit s \<Rightarrow> \<sigma>)"

definition fifo_step :: "(byte list \<Rightarrow> errno + source) \<Rightarrow> (errno \<Rightarrow> byte list) \<Rightarrow> bool \<Rightarrow> fifos \<Rightarrow> fifos" where
  "fifo_step opens sys_errlist who \<sigma> = (if who then fifo_parent \<sigma> else fifo_child opens sys_errlist \<sigma>)"

definition closed_pipe :: byte_pipe where
  "closed_pipe = \<lparr>pdata = [], rd_open = (\<lambda>_. False), wr_open = (\<lambda>_. False)\<rparr>"

definition fifo_start :: "stream_in \<Rightarrow> sink \<Rightarrow> fifos" where
  "fifo_start fp k =
     \<lparr>core = \<lparr>pipe1 = closed_pipe, pipe2 = closed_pipe, ppc = P_gets, qpc = Q_read, pbuf = [], qbuf = [], pin = fp, pout = k, qfile = []\<rparr>,
       fpc = F_open1, gpc = G_open1, fifo1 = True, fifo2 = True, cli1 = False, cli2 = False, srv1 = False, srv2 = False\<rparr>"

section \<open>Nobody waits for ever\<close>

text \<open>The state of the pipes as if all ends that will be opened were open already.\<close>

definition opened :: "fifos \<Rightarrow> pipes" where
  "opened \<sigma> =
     (core \<sigma>)\<lparr>pipe1 := (if srv1 \<sigma> then id else open_rd False) ((if cli1 \<sigma> then id else open_wr True) (pipe1 (core \<sigma>))),
       pipe2 := (if srv2 \<sigma> then id else open_wr False) ((if cli2 \<sigma> then id else open_rd True) (pipe2 (core \<sigma>)))\<rparr>"

text \<open>Which calls of \<open>open\<close> have been made, and who has returned from all of its own.\<close>

fun client_opened1 :: "fifo_client \<Rightarrow> bool" where
  "client_opened1 F_open1 = False" | "client_opened1 _ = True"

fun client_opened2 :: "fifo_client \<Rightarrow> bool" where
  "client_opened2 F_open1 = False" | "client_opened2 F_wait1 = False" | "client_opened2 F_open2 = False" | "client_opened2 _ = True"

fun server_opened1 :: "fifo_server \<Rightarrow> bool" where
  "server_opened1 G_open1 = False" | "server_opened1 _ = True"

fun server_opened2 :: "fifo_server \<Rightarrow> bool" where
  "server_opened2 G_open1 = False" | "server_opened2 G_wait1 = False" | "server_opened2 G_open2 = False" | "server_opened2 _ = True"

definition client_started :: "fifo_client \<Rightarrow> bool" where
  "client_started pc \<longleftrightarrow> client_opened2 pc \<and> pc \<noteq> F_wait2"

definition server_started :: "fifo_server \<Rightarrow> bool" where
  "server_started pc \<longleftrightarrow> server_opened2 pc \<and> pc \<noteq> G_wait2"

definition places :: "fifos \<Rightarrow> bool" where
  "places \<sigma> \<longleftrightarrow>
     cli1 \<sigma> = client_opened1 (fpc \<sigma>) \<and> cli2 \<sigma> = client_opened2 (fpc \<sigma>) \<and>
     srv1 \<sigma> = server_opened1 (gpc \<sigma>) \<and> srv2 \<sigma> = server_opened2 (gpc \<sigma>) \<and>
     (client_started (fpc \<sigma>) \<longrightarrow> server_opened2 (gpc \<sigma>)) \<and> (server_started (gpc \<sigma>) \<longrightarrow> client_opened2 (fpc \<sigma>)) \<and>
     (client_started (fpc \<sigma>) \<or> ppc (core \<sigma>) = P_gets) \<and> (server_started (gpc \<sigma>) \<or> qpc (core \<sigma>) = Q_read) \<and>
     fifo1 \<sigma> = (fpc \<sigma> \<noteq> F_unlink2 \<and> fpc \<sigma> \<noteq> F_exit 0) \<and> fifo2 \<sigma> = (fpc \<sigma> \<noteq> F_exit 0) \<and>
     (case fpc \<sigma> of F_unlink1 \<Rightarrow> ppc (core \<sigma>) = P_exit 0 | F_unlink2 \<Rightarrow> ppc (core \<sigma>) = P_exit 0
        | F_exit s \<Rightarrow> s = 0 \<and> ppc (core \<sigma>) = P_exit 0 | _ \<Rightarrow> True) \<and>
     (case gpc \<sigma> of G_exit s \<Rightarrow> s = 0 \<and> qpc (core \<sigma>) = Q_exit 0 | _ \<Rightarrow> True)"

lemmas place_defs = places_def client_started_def server_started_def

definition fifo_inv :: "byte list \<Rightarrow> byte list \<Rightarrow> byte list \<Rightarrow> fifos \<Rightarrow> bool" where
  "fifo_inv name reply given \<sigma> \<longleftrightarrow> places \<sigma> \<and> pipes_inv name reply given (opened \<sigma>)"

lemma opened_simps [simp]:
  "ppc (opened \<sigma>) = ppc (core \<sigma>)" "qpc (opened \<sigma>) = qpc (core \<sigma>)" "pout (opened \<sigma>) = pout (core \<sigma>)"
  by (simp_all add: opened_def)

lemma opened_core:
  assumes "cli1 \<sigma>" "srv1 \<sigma>" "cli2 \<sigma>" "srv2 \<sigma>"
  shows "opened \<sigma> = core \<sigma>"
  using assms by (simp add: opened_def)

text \<open>A process that runs has seen all four ends.\<close>

lemma running_all_open:
  assumes "places \<sigma>" "fpc \<sigma> = F_run \<or> gpc \<sigma> = G_run"
  shows "opened \<sigma> = core \<sigma>"
  using assms(2)
proof
  assume "fpc \<sigma> = F_run"
  then show ?thesis using assms(1) by (intro opened_core) (cases "gpc \<sigma>"; simp add: place_defs)+
next
  assume "gpc \<sigma> = G_run"
  then show ?thesis using assms(1) by (intro opened_core) (cases "fpc \<sigma>"; simp add: place_defs)+
qed

text \<open>What a step does to the pipes: nothing, or the step of the program over pipes.\<close>

lemma parent_places:
  assumes "places \<sigma>" "\<forall>s. ppc (core \<sigma>) = P_exit s \<longrightarrow> s = 0" "qpc (parent_step (core \<sigma>)) = qpc (core \<sigma>)"
  shows "places (fifo_parent \<sigma>)"
  using assms
  by (cases "fpc \<sigma>"; cases "gpc \<sigma>"; cases "ppc (core \<sigma>)") (simp_all add: place_defs fifo_parent_def)

lemma open_ends:
  "open_wr True (open_rd False p) = open_rd False (open_wr True p)" "open_rd True (open_wr False p) = open_wr False (open_rd True p)"
  by (simp_all add: open_wr_def open_rd_def)

lemma opened_places [simp]:
  "opened (\<sigma>\<lparr>fpc := f\<rparr>) = opened \<sigma>" "opened (\<sigma>\<lparr>gpc := g\<rparr>) = opened \<sigma>"
  "opened (\<sigma>\<lparr>fifo1 := b\<rparr>) = opened \<sigma>" "opened (\<sigma>\<lparr>fifo2 := b\<rparr>) = opened \<sigma>"
  by (simp_all add: opened_def)

lemma opened_core_put:
  assumes "places \<sigma>" "fpc \<sigma> = F_run \<or> gpc \<sigma> = G_run"
  shows "opened (\<sigma>\<lparr>core := c\<rparr>) = c"
proof -
  have "cli1 \<sigma> \<and> srv1 \<sigma> \<and> cli2 \<sigma> \<and> srv2 \<sigma>"
    using assms by (cases "fpc \<sigma>"; cases "gpc \<sigma>"; simp add: place_defs)
  then show ?thesis by (simp add: opened_def)
qed

lemma parent_simulates:
  assumes "places \<sigma>"
  shows "opened (fifo_parent \<sigma>) =
     (if fpc \<sigma> = F_run \<and> (\<forall>s. ppc (core \<sigma>) \<noteq> P_exit s) then parent_step (opened \<sigma>) else opened \<sigma>)"
proof (cases "fpc \<sigma>")
  case F_run
  then have f: "opened \<sigma> = core \<sigma>" "opened (\<sigma>\<lparr>core := c\<rparr>) = c" for c
    using running_all_open opened_core_put assms by simp_all
  show ?thesis
    using F_run f(1) by (cases "ppc (core \<sigma>)") (simp_all add: fifo_parent_def f)
next
  case F_unlink1
  then show ?thesis using assms by (simp add: place_defs fifo_parent_def opened_def)
next
  case F_unlink2
  then show ?thesis using assms by (simp add: place_defs fifo_parent_def opened_def)
qed (use assms in \<open>simp_all add: place_defs fifo_parent_def opened_def open_ends\<close>)

lemma child_places:
  assumes "places \<sigma>" "\<forall>s. qpc (core \<sigma>) = Q_exit s \<longrightarrow> s = 0" "ppc (child_step opens sys_errlist (core \<sigma>)) = ppc (core \<sigma>)"
  shows "places (fifo_child opens sys_errlist \<sigma>)"
  using assms
  by (cases "gpc \<sigma>"; cases "fpc \<sigma>"; cases "qpc (core \<sigma>)") (simp_all add: place_defs fifo_child_def)

lemma child_simulates:
  assumes "places \<sigma>"
  shows "opened (fifo_child opens sys_errlist \<sigma>) =
     (if gpc \<sigma> = G_run \<and> (\<forall>s. qpc (core \<sigma>) \<noteq> Q_exit s) then child_step opens sys_errlist (opened \<sigma>) else opened \<sigma>)"
proof (cases "gpc \<sigma>")
  case G_run
  then have f: "opened \<sigma> = core \<sigma>" "opened (\<sigma>\<lparr>core := c\<rparr>) = c" for c
    using running_all_open opened_core_put assms by simp_all
  show ?thesis
    using G_run f(1) by (cases "qpc (core \<sigma>)") (simp_all add: fifo_child_def f)
qed (use assms in \<open>cases "fpc \<sigma>"; simp add: place_defs fifo_child_def opened_def open_ends\<close>)+

lemma step_keeps_other [simp]:
  "qpc (parent_step c) = qpc c" "ppc (child_step opens sys_errlist c) = ppc c"
  by (simp_all add: parent_step_def pipe_client_def client_ends_def drop_ends_def
    child_step_def pipe_server_def server_ends_def Let_def
    split: ppc_client.split ppc_server.split option.split sum.split sem_verdict.split prod.split)

lemma fifo_parent_inv:
  assumes "fifo_inv name reply given \<sigma>" "can_answer opens sys_errlist name reply"
  shows "fifo_inv name reply given (fifo_parent \<sigma>)"
proof -
  have p: "places \<sigma>" "pipes_inv name reply given (opened \<sigma>)" using assms(1) by (simp_all add: fifo_inv_def)
  then show ?thesis
    using parent_places [OF p(1)] parent_simulates [OF p(1)] parent_inv [OF p(2) assms(2)] inv_output(4) [OF p(2)]
    by (simp add: fifo_inv_def)
qed

lemma fifo_child_inv:
  assumes "fifo_inv name reply given \<sigma>" "can_answer opens sys_errlist name reply"
  shows "fifo_inv name reply given (fifo_child opens sys_errlist \<sigma>)"
proof -
  have p: "places \<sigma>" "pipes_inv name reply given (opened \<sigma>)" using assms(1) by (simp_all add: fifo_inv_def)
  then show ?thesis
    using child_places [OF p(1)] child_simulates [OF p(1)] child_inv [OF p(2) assms(2)] inv_output(5) [OF p(2)]
    by (simp add: fifo_inv_def)
qed

section \<open>Progress\<close>

fun fifo_client_rank :: "fifo_client \<Rightarrow> nat" where
  "fifo_client_rank F_open1 = 7" | "fifo_client_rank F_wait1 = 6" | "fifo_client_rank F_open2 = 5"
| "fifo_client_rank F_wait2 = 4" | "fifo_client_rank F_run = 3" | "fifo_client_rank F_unlink1 = 2"
| "fifo_client_rank F_unlink2 = 1" | "fifo_client_rank (F_exit _) = 0"

fun fifo_server_rank :: "fifo_server \<Rightarrow> nat" where
  "fifo_server_rank G_open1 = 5" | "fifo_server_rank G_wait1 = 4" | "fifo_server_rank G_open2 = 3"
| "fifo_server_rank G_wait2 = 2" | "fifo_server_rank G_run = 1" | "fifo_server_rank (G_exit _) = 0"

definition fifo_work :: "byte list \<Rightarrow> fifos \<Rightarrow> nat" where
  "fifo_work reply \<sigma> = pipes_work reply (opened \<sigma>) + fifo_client_rank (fpc \<sigma>) + fifo_server_rank (gpc \<sigma>)"

definition fifo_final :: "fifos \<Rightarrow> bool" where
  "fifo_final \<sigma> \<longleftrightarrow> fpc \<sigma> = F_exit 0 \<and> gpc \<sigma> = G_exit 0"

lemma fifo_parent_starts:
  assumes "fifo_parent \<sigma> \<noteq> \<sigma>" "\<not> (fpc \<sigma> = F_run \<and> (\<forall>s. ppc (core \<sigma>) \<noteq> P_exit s))"
  shows "fifo_client_rank (fpc (fifo_parent \<sigma>)) < fifo_client_rank (fpc \<sigma>) \<and> gpc (fifo_parent \<sigma>) = gpc \<sigma>"
proof (cases "fpc \<sigma>")
  case F_run
  then obtain s where "ppc (core \<sigma>) = P_exit s" using assms(2) by blast
  then show ?thesis by (simp add: fifo_parent_def F_run)
qed (use assms(1) in \<open>simp_all add: fifo_parent_def split: if_splits\<close>)

lemma fifo_parent_closer:
  assumes "fifo_inv name reply given \<sigma>" "fifo_parent \<sigma> \<noteq> \<sigma>"
  shows "fifo_work reply (fifo_parent \<sigma>) < fifo_work reply \<sigma>"
proof -
  have p: "places \<sigma>" "pipes_inv name reply given (opened \<sigma>)" using assms(1) by (simp_all add: fifo_inv_def)
  show ?thesis
  proof (cases "fpc \<sigma> = F_run \<and> (\<forall>s. ppc (core \<sigma>) \<noteq> P_exit s)")
    case True
    then have s: "fifo_parent \<sigma> = \<sigma>\<lparr>core := parent_step (core \<sigma>)\<rparr>"
      by (cases "ppc (core \<sigma>)") (simp_all add: fifo_parent_def)
    have "opened \<sigma> = core \<sigma>" using True p(1) by (simp add: running_all_open)
    then have "parent_step (opened \<sigma>) \<noteq> opened \<sigma>" using assms(2) unfolding s by auto
    moreover have "opened (fifo_parent \<sigma>) = parent_step (opened \<sigma>)"
      unfolding parent_simulates [OF p(1)] by (rule if_P [OF True])
    moreover have "fpc (fifo_parent \<sigma>) = fpc \<sigma>" "gpc (fifo_parent \<sigma>) = gpc \<sigma>" by (simp_all add: s)
    ultimately show ?thesis
      using parent_closer [OF p(2)] by (simp add: fifo_work_def)
  next
    case False
    have "opened (fifo_parent \<sigma>) = opened \<sigma>"
      unfolding parent_simulates [OF p(1)] by (rule if_not_P [OF False])
    moreover have "fifo_client_rank (fpc (fifo_parent \<sigma>)) < fifo_client_rank (fpc \<sigma>)" "gpc (fifo_parent \<sigma>) = gpc \<sigma>"
      using fifo_parent_starts [OF assms(2)] False by blast+
    ultimately show ?thesis by (simp add: fifo_work_def)
  qed
qed

lemma fifo_child_starts:
  assumes "fifo_child opens sys_errlist \<sigma> \<noteq> \<sigma>" "\<not> (gpc \<sigma> = G_run \<and> (\<forall>s. qpc (core \<sigma>) \<noteq> Q_exit s))"
  shows "fifo_server_rank (gpc (fifo_child opens sys_errlist \<sigma>)) < fifo_server_rank (gpc \<sigma>)
     \<and> fpc (fifo_child opens sys_errlist \<sigma>) = fpc \<sigma>"
proof (cases "gpc \<sigma>")
  case G_run
  then obtain s where "qpc (core \<sigma>) = Q_exit s" using assms(2) by blast
  then show ?thesis by (simp add: fifo_child_def G_run)
qed (use assms(1) in \<open>simp_all add: fifo_child_def split: if_splits\<close>)

lemma fifo_child_closer:
  assumes "fifo_inv name reply given \<sigma>" "can_answer opens sys_errlist name reply" "fifo_child opens sys_errlist \<sigma> \<noteq> \<sigma>"
  shows "fifo_work reply (fifo_child opens sys_errlist \<sigma>) < fifo_work reply \<sigma>"
proof -
  have p: "places \<sigma>" "pipes_inv name reply given (opened \<sigma>)" using assms(1) by (simp_all add: fifo_inv_def)
  show ?thesis
  proof (cases "gpc \<sigma> = G_run \<and> (\<forall>s. qpc (core \<sigma>) \<noteq> Q_exit s)")
    case True
    then have s: "fifo_child opens sys_errlist \<sigma> = \<sigma>\<lparr>core := child_step opens sys_errlist (core \<sigma>)\<rparr>"
      by (cases "qpc (core \<sigma>)") (simp_all add: fifo_child_def)
    have "opened \<sigma> = core \<sigma>" using True p(1) by (simp add: running_all_open)
    then have "child_step opens sys_errlist (opened \<sigma>) \<noteq> opened \<sigma>" using assms(3) unfolding s by auto
    moreover have "opened (fifo_child opens sys_errlist \<sigma>) = child_step opens sys_errlist (opened \<sigma>)"
      unfolding child_simulates [OF p(1)] by (rule if_P [OF True])
    moreover have "fpc (fifo_child opens sys_errlist \<sigma>) = fpc \<sigma>" "gpc (fifo_child opens sys_errlist \<sigma>) = gpc \<sigma>" by (simp_all add: s)
    ultimately show ?thesis
      using child_closer [OF p(2) assms(2)] by (simp add: fifo_work_def)
  next
    case False
    have "opened (fifo_child opens sys_errlist \<sigma>) = opened \<sigma>"
      unfolding child_simulates [OF p(1)] by (rule if_not_P [OF False])
    moreover have "fifo_server_rank (gpc (fifo_child opens sys_errlist \<sigma>)) < fifo_server_rank (gpc \<sigma>)"
      "fpc (fifo_child opens sys_errlist \<sigma>) = fpc \<sigma>"
      using fifo_child_starts [OF assms(3)] False by blast+
    ultimately show ?thesis by (simp add: fifo_work_def)
  qed
qed

text \<open>Somebody can go on: while one of them is still at its \<open>open\<close> calls the order of the four calls is what
  matters, and once both run the two pipes.\<close>

lemma fifo_starters:
  assumes "places \<sigma>" "fpc \<sigma> \<noteq> F_run \<or> gpc \<sigma> \<noteq> G_run" "\<not> fifo_final \<sigma>" "pipes_inv name reply given (opened \<sigma>)"
    and "fpc \<sigma> = F_run \<and> (\<exists>s. gpc \<sigma> = G_exit s) \<longrightarrow> parent_step (core \<sigma>) \<noteq> core \<sigma>"
  shows "fifo_parent \<sigma> \<noteq> \<sigma> \<or> fifo_child opens sys_errlist \<sigma> \<noteq> \<sigma>"
proof (rule ccontr)
  assume "\<not> ?thesis"
  then have pc: "fpc (fifo_parent \<sigma>) = fpc \<sigma>" "gpc (fifo_child opens sys_errlist \<sigma>) = gpc \<sigma>" "fifo_parent \<sigma> = \<sigma>" by simp_all
  have ended: "qpc (core \<sigma>) = Q_exit 0" if "ppc (core \<sigma>) = P_exit 0"
    using assms(4) that by (simp add: pipes_inv_def places_ok_def)
  show False
  proof (cases "fpc \<sigma> = F_run")
    case True
    then have "\<exists>s. gpc \<sigma> = G_exit s"
      using pc assms(1,2) by (cases "gpc \<sigma>") (simp_all add: place_defs fifo_child_def)
    then have "parent_step (core \<sigma>) \<noteq> core \<sigma>" using assms(5) True by blast
    moreover have "core (fifo_parent \<sigma>) = core \<sigma>" using pc(3) by simp
    ultimately show False using True pc(1)
      by (cases "ppc (core \<sigma>)") (simp_all add: fifo_parent_def split: if_splits)
  next
    case False
    then show False
      using pc(1,2) assms(1,3) ended
      by (cases "fpc \<sigma>"; cases "gpc \<sigma>"; simp add: place_defs fifo_parent_def fifo_child_def fifo_final_def split: if_splits)
  qed
qed

lemma fifo_moves:
  assumes "fifo_inv name reply given \<sigma>" "can_answer opens sys_errlist name reply" "\<not> fifo_final \<sigma>"
  shows "fifo_parent \<sigma> \<noteq> \<sigma> \<or> fifo_child opens sys_errlist \<sigma> \<noteq> \<sigma>"
proof -
  have p: "places \<sigma>" "pipes_inv name reply given (opened \<sigma>)" using assms(1) by (simp_all add: fifo_inv_def)
  have m: "fpc \<sigma> = F_run \<or> gpc \<sigma> = G_run \<Longrightarrow> \<not> pipes_final (core \<sigma>) \<Longrightarrow>
      parent_step (core \<sigma>) \<noteq> core \<sigma> \<or> child_step opens sys_errlist (core \<sigma>) \<noteq> core \<sigma>"
    using pipes_moves [OF p(2) assms(2)] running_all_open [OF p(1)] by simp
  show ?thesis
  proof (cases "fpc \<sigma> = F_run \<and> gpc \<sigma> = G_run")
    case True
    then have r: "fpc \<sigma> = F_run" "gpc \<sigma> = G_run" by simp_all
    show ?thesis
    proof (rule ccontr)
      assume "\<not> ?thesis"
      then have "core (fifo_parent \<sigma>) = core \<sigma>" "core (fifo_child opens sys_errlist \<sigma>) = core \<sigma>"
        "fpc (fifo_parent \<sigma>) = F_run" "gpc (fifo_child opens sys_errlist \<sigma>) = G_run" using r by simp_all
      then have "parent_step (core \<sigma>) = core \<sigma>" "child_step opens sys_errlist (core \<sigma>) = core \<sigma>" "\<not> pipes_final (core \<sigma>)"
        using r by (cases "ppc (core \<sigma>)"; cases "qpc (core \<sigma>)"; simp add: fifo_parent_def fifo_child_def pipes_final_def split: if_splits)+
      then show False using m r by blast
    qed
  next
    case False
    have "parent_step (core \<sigma>) \<noteq> core \<sigma>" if r: "fpc \<sigma> = F_run" "gpc \<sigma> = G_exit s" "\<not> pipes_final (core \<sigma>)" for s
    proof -
      have "qpc (core \<sigma>) = Q_exit 0" using p(1) r by (simp add: places_def)
      then show ?thesis using m r by (auto simp: child_step_def)
    qed
    moreover have "fifo_parent \<sigma> \<noteq> \<sigma>" if "fpc \<sigma> = F_run" "pipes_final (core \<sigma>)"
    proof -
      have "fpc (fifo_parent \<sigma>) = F_unlink1" using that by (simp add: fifo_parent_def pipes_final_def)
      then show ?thesis using that(1) by auto
    qed
    ultimately show ?thesis using fifo_starters [OF p(1) _ assms(3) p(2)] False by blast
  qed
qed

interpretation fifos: rounds "fifo_step opens sys_errlist" UNIV
  "\<lambda>\<sigma>. fifo_inv name reply given \<sigma> \<and> can_answer opens sys_errlist name reply" "fifo_work reply" fifo_final
  for opens sys_errlist name reply given
proof unfold_locales
  fix \<sigma> :: fifos and p :: bool
  assume i: "fifo_inv name reply given \<sigma> \<and> can_answer opens sys_errlist name reply"
  note j = conjunct1 [OF i] conjunct2 [OF i]
  show "fifo_inv name reply given (fifo_step opens sys_errlist p \<sigma>) \<and> can_answer opens sys_errlist name reply"
    using fifo_parent_inv [OF j] fifo_child_inv [OF j] j(2) by (simp add: fifo_step_def)
  show "fifo_step opens sys_errlist p \<sigma> \<noteq> \<sigma> \<Longrightarrow> fifo_work reply (fifo_step opens sys_errlist p \<sigma>) < fifo_work reply \<sigma>"
    using fifo_parent_closer [OF j(1)] fifo_child_closer [OF j] by (simp add: fifo_step_def split: if_splits)
  show "\<not> fifo_final \<sigma> \<Longrightarrow> \<exists>p \<in> UNIV. fifo_step opens sys_errlist p \<sigma> \<noteq> \<sigma>"
    using fifo_moves [OF j] by (metis UNIV_I fifo_step_def)
next
  fix \<sigma> :: fifos and p :: bool
  show "fifo_final \<sigma> \<Longrightarrow> fifo_step opens sys_errlist p \<sigma> = \<sigma>"
    by (simp add: fifo_final_def fifo_step_def fifo_parent_def fifo_child_def)
qed

lemma fifo_start_inv:
  assumes "rest fp \<noteq> []" "asked (take_line (MAXBUFF - 1) (rest fp)) = name" "grants k = []"
  shows "fifo_inv name reply (written k) (fifo_start fp k)"
  using assms
  by (simp add: fifo_inv_def place_defs pipes_inv_def ends_ok_def request_ok_def places_ok_def under_way_def rest_of_def early_def listening_def
    opened_def open_rd_def open_wr_def fifo_start_def closed_pipe_def)

lemma fifo_output:
  assumes "fifo_inv name reply given \<sigma>"
  shows "\<exists>more. written (pout (core \<sigma>)) @ more = given @ reply"
    "fpc \<sigma> = F_exit s \<Longrightarrow> s = 0 \<and> written (pout (core \<sigma>)) = given @ reply \<and> \<not> fifo1 \<sigma> \<and> \<not> fifo2 \<sigma>"
    "gpc \<sigma> = G_exit s \<Longrightarrow> s = 0"
proof -
  have p: "places \<sigma>" "pipes_inv name reply given (opened \<sigma>)" using assms by (simp_all add: fifo_inv_def)
  show "\<exists>more. written (pout (core \<sigma>)) @ more = given @ reply" using inv_output(1) [OF p(2)] by simp
  show "gpc \<sigma> = G_exit s \<Longrightarrow> s = 0" using p(1) by (simp add: places_def)
  assume "fpc \<sigma> = F_exit s"
  then have "s = 0" "ppc (core \<sigma>) = P_exit 0" "\<not> fifo1 \<sigma>" "\<not> fifo2 \<sigma>" using p(1) by (simp_all add: places_def)
  then show "s = 0 \<and> written (pout (core \<sigma>)) = given @ reply \<and> \<not> fifo1 \<sigma> \<and> \<not> fifo2 \<sigma>" using inv_output(4) [OF p(2)] by simp
qed

section \<open>Properties\<close>

text \<open>C8: the file server over FIFOs.  Whatever the order of the two processes, what the client has printed is the
  beginning of the answer, nobody fails, and a client that exits has printed all of it and removed both names.
  The four calls of \<open>open\<close>, each of which waits for the other process, do not block each other, because both
  processes open the first FIFO first: after \<open>4 n + 23\<close> rounds both have exited, \<open>n\<close> being the length of the answer.\<close>
theorem fifos_deliver_the_file:
  fixes opens sys_errlist
  assumes "can_answer opens sys_errlist (asked (take_line (MAXBUFF - 1) (rest fp))) reply" "rest fp \<noteq> []" "grants k = []"
  shows "(\<exists>more. written (pout (core (fold (fifo_step opens sys_errlist) turns (fifo_start fp k)))) @ more = written k @ reply) \<and>
     (\<forall>s. fpc (fold (fifo_step opens sys_errlist) turns (fifo_start fp k)) = F_exit s \<longrightarrow> s = 0 \<and>
        written (pout (core (fold (fifo_step opens sys_errlist) turns (fifo_start fp k)))) = written k @ reply \<and>
        \<not> fifo1 (fold (fifo_step opens sys_errlist) turns (fifo_start fp k)) \<and>
        \<not> fifo2 (fold (fifo_step opens sys_errlist) turns (fifo_start fp k))) \<and>
     ((\<forall>r \<in> set rs. set r = UNIV) \<and> 4 * length reply + 23 \<le> length rs \<longrightarrow>
        fpc (fold (fifo_step opens sys_errlist) (concat rs) (fifo_start fp k)) = F_exit 0 \<and>
        gpc (fold (fifo_step opens sys_errlist) (concat rs) (fifo_start fp k)) = G_exit 0)"
proof -
  have i: "fifo_inv (asked (take_line (MAXBUFF - 1) (rest fp))) reply (written k) (fifo_start fp k)"
    by (rule fifo_start_inv [OF assms(2) refl assms(3)])
  have r: "fifo_inv (asked (take_line (MAXBUFF - 1) (rest fp))) reply (written k) (fold (fifo_step opens sys_errlist) ts (fifo_start fp k))" for ts
    using fifos.run_inv [OF conjI [OF i assms(1)]] by blast
  have w: "fifo_work reply (fifo_start fp k) = 4 * length reply + 23"
    by (simp add: fifo_work_def work_defs opened_def fifo_start_def closed_pipe_def open_rd_def open_wr_def)
  have "fifo_final (fold (fifo_step opens sys_errlist) (concat rs) (fifo_start fp k))"
    if "\<forall>r \<in> set rs. set r = UNIV" "4 * length reply + 23 \<le> length rs"
    using fifos.rounds_end [OF conjI [OF i assms(1)], of rs] that w by auto
  then show ?thesis using fifo_output [OF r] by (auto simp: fifo_final_def)
qed

theorem fifos_deliver_the_file_witness:
  "written (pout (core (fold (fifo_step (\<lambda>f. if f = ''f'' then Inr [Data ''ab''] else Inl ENOENT) (\<lambda>_. ''No such file''))
     (concat (replicate 31 [True, False])) (fifo_start \<lparr>rest = ''f'' @ [NL], read_error = False\<rparr> \<lparr>written = [], grants = []\<rparr>)))) = ''ab''"
proof -
  let ?o = "\<lambda>f. if f = ''f'' then Inr [Data ''ab''] else Inl ENOENT" and ?e = "\<lambda>_ :: errno. ''No such file''"
  let ?fp = "\<lparr>rest = ''f'' @ [NL], read_error = False\<rparr>" and ?k = "\<lparr>written = [], grants = []\<rparr>"
  have n: "asked (take_line (MAXBUFF - 1) (rest ?fp)) = ''f''"
    by (simp add: MAXBUFF_def asked_def strlen_def cstr_def)
  have "can_answer ?o ?e (asked (take_line (MAXBUFF - 1) (rest ?fp))) ''ab''"
    unfolding n by (simp add: can_answer_def MAXBUFF_def)
  moreover have "\<forall>r \<in> set (replicate 31 [True, False]). set r = UNIV" by auto
  ultimately show ?thesis
    using fifos_deliver_the_file [of ?o ?e ?fp "''ab''" ?k "concat (replicate 31 [True, False])" "replicate 31 [True, False]"] by simp
qed

end
