(* ===== verification/Err_Syslog.thy ===== *)
theory Err_Syslog
  imports Err_Routine
begin

text \<open>
  The error routines of \<open>7.passing_file_descriptor/err_routine.c\<close>.  Compiled for a client they print the message
  and the reason on standard error; compiled for a server they build both in the array \<open>emesgstr\<close> and hand it to
  \<open>syslog\<close>, which without \<open>BSD\<close> is a line on standard error.  The message after formatting is an argument;
  \<open>None\<close> is a store past the 255 bytes of the array.
\<close>

section \<open>The client\<close>

definition client_message :: "byte list \<Rightarrow> err_state \<Rightarrow> err_state" where
  "client_message msg \<sigma> = \<sigma>\<lparr>stderr_out := stderr_out \<sigma> @ err_prefix (pname \<sigma>) @ msg\<rparr>"

definition client_perror :: "(int \<Rightarrow> byte list option) \<Rightarrow> int \<Rightarrow> err_state \<Rightarrow> err_state" where
  "client_perror errlist errno \<sigma> = \<sigma>\<lparr>stderr_out := stderr_out \<sigma> @ '' '' @ sys_err_str errlist errno @ [NL]\<rparr>"

definition client_err_quit :: "byte list \<Rightarrow> err_state \<Rightarrow> unit outcome \<times> err_state" where
  "client_err_quit msg \<sigma> = (Exited 1, (client_message msg \<sigma>)\<lparr>stderr_out := stderr_out (client_message msg \<sigma>) @ [NL]\<rparr>)"

definition client_err_sys :: "(int \<Rightarrow> byte list option) \<Rightarrow> int \<Rightarrow> byte list \<Rightarrow> err_state \<Rightarrow> unit outcome \<times> err_state" where
  "client_err_sys errlist errno msg \<sigma> = (Exited 1, client_perror errlist errno (client_message msg \<sigma>))"

definition client_err_ret :: "(int \<Rightarrow> byte list option) \<Rightarrow> int \<Rightarrow> byte list \<Rightarrow> err_state \<Rightarrow> unit outcome \<times> err_state" where
  "client_err_ret errlist errno msg \<sigma> = (Returned (), client_perror errlist errno (client_message msg \<sigma>))"

definition client_err_dump :: "(int \<Rightarrow> byte list option) \<Rightarrow> int \<Rightarrow> byte list \<Rightarrow> err_state \<Rightarrow> unit outcome \<times> err_state" where
  "client_err_dump errlist errno msg \<sigma> = (Aborted, client_perror errlist errno (client_message msg \<sigma>))"

section \<open>The server\<close>

text \<open>\<open>vsprintf(emesgstr, \<dots>)\<close>, \<open>sprintf(emesgstr + len, \<dots>)\<close> and \<open>syslog(LOG_ERR, emesgstr)\<close>.\<close>

definition server_message :: "byte list \<Rightarrow> err_state \<Rightarrow> err_state option" where
  "server_message msg \<sigma> =
     (if length msg < length (emesgstr \<sigma>) then Some (\<sigma>\<lparr>emesgstr := poke (emesgstr \<sigma>) 0 (msg @ [NUL])\<rparr>) else None)"

definition server_perror :: "(int \<Rightarrow> byte list option) \<Rightarrow> int \<Rightarrow> err_state \<Rightarrow> err_state option" where
  "server_perror errlist errno \<sigma> =
     (let len = strlen (emesgstr \<sigma>); s = '' '' @ sys_err_str errlist errno
      in if len + length s < length (emesgstr \<sigma>)
         then Some (\<sigma>\<lparr>emesgstr := poke (emesgstr \<sigma>) len (s @ [NUL])\<rparr>) else None)"

definition syslog :: "err_state \<Rightarrow> err_state" where
  "syslog \<sigma> = \<sigma>\<lparr>stderr_out := stderr_out \<sigma> @ cstr (emesgstr \<sigma>) @ [NL]\<rparr>"

definition err_init :: "byte list \<Rightarrow> err_state \<Rightarrow> err_state" where
  "err_init ident \<sigma> = \<sigma>\<lparr>stderr_out := stderr_out \<sigma> @ ident @ [NL]\<rparr>"

definition server_err_quit :: "byte list \<Rightarrow> err_state \<Rightarrow> (unit outcome \<times> err_state) option" where
  "server_err_quit msg \<sigma> = map_option (\<lambda>\<tau>. (Exited 1, syslog \<tau>)) (server_message msg \<sigma>)"

definition server_err_sys :: "(int \<Rightarrow> byte list option) \<Rightarrow> int \<Rightarrow> byte list \<Rightarrow> err_state \<Rightarrow> (unit outcome \<times> err_state) option" where
  "server_err_sys errlist errno msg \<sigma> =
     map_option (\<lambda>\<tau>. (Exited 1, syslog \<tau>)) (Option.bind (server_message msg \<sigma>) (server_perror errlist errno))"

definition server_err_ret :: "(int \<Rightarrow> byte list option) \<Rightarrow> int \<Rightarrow> byte list \<Rightarrow> err_state \<Rightarrow> (unit outcome \<times> err_state) option" where
  "server_err_ret errlist errno msg \<sigma> =
     map_option (\<lambda>\<tau>. (Returned (), syslog \<tau>)) (Option.bind (server_message msg \<sigma>) (server_perror errlist errno))"

definition server_err_dump :: "(int \<Rightarrow> byte list option) \<Rightarrow> int \<Rightarrow> byte list \<Rightarrow> err_state \<Rightarrow> (unit outcome \<times> err_state) option" where
  "server_err_dump errlist errno msg \<sigma> =
     map_option (\<lambda>\<tau>. (Aborted, syslog \<tau>)) (Option.bind (server_message msg \<sigma>) (server_perror errlist errno))"

section \<open>A program that reports and ends\<close>

text \<open>Calls of \<open>err_ret\<close> while the program goes on, each with the \<open>errno\<close> of its moment, then one call of another routine.\<close>

datatype last_call = Quit | Sys int | Dump int

fun client_last :: "(int \<Rightarrow> byte list option) \<Rightarrow> last_call \<Rightarrow> byte list \<Rightarrow> err_state \<Rightarrow> unit outcome \<times> err_state" where
  "client_last errlist Quit msg \<sigma> = client_err_quit msg \<sigma>"
| "client_last errlist (Sys e) msg \<sigma> = client_err_sys errlist e msg \<sigma>"
| "client_last errlist (Dump e) msg \<sigma> = client_err_dump errlist e msg \<sigma>"

fun server_last :: "(int \<Rightarrow> byte list option) \<Rightarrow> last_call \<Rightarrow> byte list \<Rightarrow> err_state \<Rightarrow> (unit outcome \<times> err_state) option" where
  "server_last errlist Quit msg \<sigma> = server_err_quit msg \<sigma>"
| "server_last errlist (Sys e) msg \<sigma> = server_err_sys errlist e msg \<sigma>"
| "server_last errlist (Dump e) msg \<sigma> = server_err_dump errlist e msg \<sigma>"

fun client_reports :: "(int \<Rightarrow> byte list option) \<Rightarrow> (int \<times> byte list) list \<Rightarrow> last_call \<Rightarrow> byte list \<Rightarrow> err_state \<Rightarrow> unit outcome \<times> err_state" where
  "client_reports errlist [] l final \<sigma> = client_last errlist l final \<sigma>"
| "client_reports errlist ((e, msg) # es) l final \<sigma> = client_reports errlist es l final (snd (client_err_ret errlist e msg \<sigma>))"

fun server_reports :: "(int \<Rightarrow> byte list option) \<Rightarrow> (int \<times> byte list) list \<Rightarrow> last_call \<Rightarrow> byte list \<Rightarrow> err_state \<Rightarrow> (unit outcome \<times> err_state) option" where
  "server_reports errlist [] l final \<sigma> = server_last errlist l final \<sigma>"
| "server_reports errlist ((e, msg) # es) l final \<sigma> =
     (case server_err_ret errlist e msg \<sigma> of None \<Rightarrow> None | Some (_, \<tau>) \<Rightarrow> server_reports errlist es l final \<tau>)"

text \<open>\<open>emesgstr\<close> has the type of the code, an array of 255 characters, and holds a string.\<close>

definition emesg_ok :: "err_state \<Rightarrow> bool" where
  "emesg_ok \<sigma> \<longleftrightarrow> length (emesgstr \<sigma>) = 255 \<and> NUL \<in> set (emesgstr \<sigma>)"

definition reason_of :: "(int \<Rightarrow> byte list option) \<Rightarrow> last_call \<Rightarrow> byte list" where
  "reason_of errlist l = (case l of Quit \<Rightarrow> [] | Sys e \<Rightarrow> '' '' @ sys_err_str errlist e | Dump e \<Rightarrow> '' '' @ sys_err_str errlist e)"

definition last_outcome :: "last_call \<Rightarrow> unit outcome" where
  "last_outcome l = (case l of Dump _ \<Rightarrow> Aborted | _ \<Rightarrow> Exited 1)"

definition fits_emesg :: "byte list \<Rightarrow> byte list \<Rightarrow> bool" where
  "fits_emesg msg reason \<longleftrightarrow> length msg + length reason < 255"

text \<open>Both stores together: message and reason end up in the array, or do not fit.\<close>

lemma server_builds:
  assumes "emesg_ok \<sigma>" "NUL \<notin> set msg" "\<forall>i s. errlist i = Some s \<longrightarrow> NUL \<notin> set s"
  shows "Option.bind (server_message msg \<sigma>) (server_perror errlist e) =
     (if fits_emesg msg ('' '' @ sys_err_str errlist e)
      then Some (\<sigma>\<lparr>emesgstr := (msg @ '' '' @ sys_err_str errlist e) @ NUL # drop (length (msg @ '' '' @ sys_err_str errlist e) + 1) (emesgstr \<sigma>)\<rparr>)
      else None)"
proof (cases "length msg < 255")
  case True
  define s where "s = '' '' @ sys_err_str errlist e"
  have l: "length (emesgstr \<sigma>) = 255" using assms(1) by (simp add: emesg_ok_def)
  have p: "poke (emesgstr \<sigma>) 0 (msg @ [NUL]) = msg @ NUL # drop (Suc (length msg)) (emesgstr \<sigma>)"
    using True l by (simp add: poke_eq)
  have n: "strlen (msg @ NUL # drop (Suc (length msg)) (emesgstr \<sigma>)) = length msg" using assms(2) by simp
  have q: "poke (msg @ NUL # drop (Suc (length msg)) (emesgstr \<sigma>)) (length msg) (s @ [NUL]) =
      (msg @ s) @ NUL # drop (length (msg @ s) + 1) (emesgstr \<sigma>)" if "length msg + length s < 255"
    using that True l by (simp add: poke_eq s_def add.commute)
  show ?thesis
    using True l q unfolding s_def by (simp add: server_message_def server_perror_def Let_def p n fits_emesg_def)
next
  case False
  then show ?thesis using assms(1) by (simp add: server_message_def emesg_ok_def fits_emesg_def)
qed

lemma server_logs:
  assumes "emesg_ok \<sigma>" "NUL \<notin> set msg" "\<forall>i s. errlist i = Some s \<longrightarrow> NUL \<notin> set s"
  shows "case map_option syslog (Option.bind (server_message msg \<sigma>) (server_perror errlist e)) of
       None \<Rightarrow> \<not> fits_emesg msg ('' '' @ sys_err_str errlist e)
     | Some \<tau> \<Rightarrow> fits_emesg msg ('' '' @ sys_err_str errlist e) \<and> emesg_ok \<tau> \<and> pname \<tau> = pname \<sigma> \<and>
         stderr_out \<tau> = stderr_out \<sigma> @ msg @ '' '' @ sys_err_str errlist e @ [NL]"
proof -
  have n: "NUL \<notin> set ('' '' @ sys_err_str errlist e)" using sys_err_str_no_NUL [OF assms(3)] by simp
  then have c: "cstr ((msg @ '' '' @ sys_err_str errlist e) @ NUL # r) = msg @ '' '' @ sys_err_str errlist e" for r
    using assms(2) by (intro cstr_append_NUL) simp
  show ?thesis
    unfolding server_builds [OF assms] using assms(1) c by (simp add: syslog_def emesg_ok_def fits_emesg_def)
qed

lemma server_last_logs:
  assumes "emesg_ok \<sigma>" "NUL \<notin> set msg" "\<forall>i s. errlist i = Some s \<longrightarrow> NUL \<notin> set s"
  shows "case server_last errlist l msg \<sigma> of
       None \<Rightarrow> \<not> fits_emesg msg (reason_of errlist l)
     | Some (r, \<tau>) \<Rightarrow> fits_emesg msg (reason_of errlist l) \<and> r = last_outcome l \<and> emesg_ok \<tau> \<and>
         stderr_out \<tau> = stderr_out \<sigma> @ msg @ reason_of errlist l @ [NL]"
proof (cases l)
  case Quit
  have "poke (emesgstr \<sigma>) 0 (msg @ [NUL]) = msg @ NUL # drop (Suc (length msg)) (emesgstr \<sigma>)" if "length msg < 255"
    using that assms(1) by (simp add: poke_eq emesg_ok_def)
  then show ?thesis
    using Quit assms(1,2)
    by (simp add: server_err_quit_def server_message_def syslog_def emesg_ok_def fits_emesg_def reason_of_def last_outcome_def)
next
  case (Sys e)
  then show ?thesis
    using server_logs [OF assms, of e]
    by (cases "Option.bind (server_message msg \<sigma>) (server_perror errlist e)")
      (simp_all add: server_err_sys_def reason_of_def last_outcome_def)
next
  case (Dump e)
  then show ?thesis
    using server_logs [OF assms, of e]
    by (cases "Option.bind (server_message msg \<sigma>) (server_perror errlist e)")
      (simp_all add: server_err_dump_def reason_of_def last_outcome_def)
qed

lemma client_reports_text:
  "client_reports errlist es l final \<sigma> = (r, \<tau>) \<Longrightarrow>
     r = last_outcome l \<and> stderr_out \<tau> = stderr_out \<sigma> @
       concat (map (\<lambda>(e, msg). err_prefix (pname \<sigma>) @ msg @ '' '' @ sys_err_str errlist e @ [NL]) es) @
       err_prefix (pname \<sigma>) @ final @ reason_of errlist l @ [NL]"
proof (induction es arbitrary: \<sigma>)
  case Nil
  then show ?case
    by (cases l) (auto simp: client_err_quit_def client_err_sys_def client_err_dump_def client_message_def client_perror_def
        reason_of_def last_outcome_def)
next
  case (Cons em es)
  then show ?case
    by (cases em) (auto simp: client_err_ret_def client_message_def client_perror_def)
qed

lemma server_reports_text:
  assumes "\<forall>i s. errlist i = Some s \<longrightarrow> NUL \<notin> set s" "emesg_ok \<sigma>" "\<forall>(e, msg) \<in> set es. NUL \<notin> set msg" "NUL \<notin> set final"
  shows "case server_reports errlist es l final \<sigma> of
       None \<Rightarrow> \<not> ((\<forall>(e, msg) \<in> set es. fits_emesg msg ('' '' @ sys_err_str errlist e)) \<and> fits_emesg final (reason_of errlist l))
     | Some (r, \<tau>) \<Rightarrow> (\<forall>(e, msg) \<in> set es. fits_emesg msg ('' '' @ sys_err_str errlist e)) \<and> fits_emesg final (reason_of errlist l) \<and>
         r = last_outcome l \<and> emesg_ok \<tau> \<and> stderr_out \<tau> = stderr_out \<sigma> @
         concat (map (\<lambda>(e, msg). msg @ '' '' @ sys_err_str errlist e @ [NL]) es) @ final @ reason_of errlist l @ [NL]"
  using assms(2,3)
proof (induction es arbitrary: \<sigma>)
  case Nil
  then show ?case using server_last_logs [OF Nil.prems(1) assms(4,1), of l] by (simp split: option.splits prod.splits)
next
  case (Cons em es)
  obtain e msg where em: "em = (e, msg)" by (cases em)
  have n: "NUL \<notin> set msg" using Cons.prems(2) em by auto
  show ?case
  proof (cases "server_err_ret errlist e msg \<sigma>")
    case None
    then have "\<not> fits_emesg msg ('' '' @ sys_err_str errlist e)"
      using server_logs [OF Cons.prems(1) n assms(1), of e] by (simp add: server_err_ret_def)
    then show ?thesis using None by (simp add: em)
  next
    case (Some q)
    then obtain \<tau> where t: "server_err_ret errlist e msg \<sigma> = Some (Returned (), \<tau>)" "fits_emesg msg ('' '' @ sys_err_str errlist e)"
      "emesg_ok \<tau>" "stderr_out \<tau> = stderr_out \<sigma> @ msg @ '' '' @ sys_err_str errlist e @ [NL]"
      using server_logs [OF Cons.prems(1) n assms(1), of e] by (auto simp: server_err_ret_def)
    have "\<forall>(e, msg) \<in> set es. NUL \<notin> set msg" using Cons.prems(2) by simp
    from Cons.IH [OF t(3) this] t show ?thesis by (simp add: em split: option.splits prod.splits)
  qed
qed

section \<open>Properties\<close>

text \<open>C29: the array \<open>emesgstr\<close> keeps its type.  A server that calls \<open>err_ret\<close> any number of times and then one of the
  routines that end it never stores past the 255 bytes exactly when every message with its reason takes fewer than
  255 bytes, whatever was in the array before; then the array holds a string again after every call.\<close>
theorem server_messages_stay_strings:
  assumes "\<forall>i s. errlist i = Some s \<longrightarrow> NUL \<notin> set s" "\<forall>(e, msg) \<in> set es. NUL \<notin> set msg" "NUL \<notin> set final"
    and "length (emesgstr \<sigma>) = 255" "NUL \<in> set (emesgstr \<sigma>)"
  shows "(server_reports errlist es l final \<sigma> = None \<longleftrightarrow>
       (\<exists>(e, msg) \<in> set es. 255 \<le> length msg + length (sys_err_str errlist e) + 1) \<or> 255 \<le> length final + length (reason_of errlist l)) \<and>
     (\<forall>r \<tau>. server_reports errlist es l final \<sigma> = Some (r, \<tau>) \<longrightarrow> length (emesgstr \<tau>) = 255 \<and> NUL \<in> set (emesgstr \<tau>))"
proof -
  have ok: "emesg_ok \<sigma>" using assms(4,5) by (simp add: emesg_ok_def)
  have fits: "(\<forall>(e, msg) \<in> set es. fits_emesg msg ('' '' @ sys_err_str errlist e)) \<longleftrightarrow>
      \<not> (\<exists>(e, msg) \<in> set es. 255 \<le> length msg + length (sys_err_str errlist e) + 1)"
    by (auto simp: fits_emesg_def)
  have final: "fits_emesg final (reason_of errlist l) \<longleftrightarrow> \<not> 255 \<le> length final + length (reason_of errlist l)"
    by (simp add: fits_emesg_def not_le)
  show ?thesis
    using server_reports_text [OF assms(1) ok assms(2,3), of l] unfolding fits final
    by (cases "server_reports errlist es l final \<sigma>") (auto simp: emesg_ok_def)
qed

theorem server_messages_stay_strings_witness:
  "server_reports (\<lambda>_. None) [(5, replicate 250 (CHR ''a''))] Quit ''bye'' \<lparr>pname = None, stderr_out = [], emesgstr = replicate 255 NUL\<rparr> = None"
proof -
  have "length (sys_err_str (\<lambda>_. None) 5) = 11" by (simp add: sys_err_str_def show_int_def show_nat.simps [of 5])
  then show ?thesis
    using server_messages_stay_strings [of "\<lambda>_. None" "[(5, replicate 250 (CHR ''a''))]" "''bye''"
        "\<lparr>pname = None, stderr_out = [], emesgstr = replicate 255 NUL\<rparr>" Quit]
    by simp
qed

text \<open>C33: client and server report the same.  Where the messages fit, a server prints the lines that a client
  without a program name prints and ends the same way: each call reports its own message with its own reason, and
  nothing of an earlier one.\<close>
theorem server_reports_like_a_client:
  assumes "\<forall>i s. errlist i = Some s \<longrightarrow> NUL \<notin> set s" "\<forall>(e, msg) \<in> set es. NUL \<notin> set msg" "NUL \<notin> set final"
    and "length (emesgstr \<sigma>) = 255" "NUL \<in> set (emesgstr \<sigma>)"
    and "server_reports errlist es l final \<sigma> = Some (r, \<tau>)"
  shows "fst (client_reports errlist es l final (\<sigma>\<lparr>pname := None\<rparr>)) = r \<and>
     stderr_out (snd (client_reports errlist es l final (\<sigma>\<lparr>pname := None\<rparr>))) = stderr_out \<tau>"
proof -
  have ok: "emesg_ok \<sigma>" using assms(4,5) by (simp add: emesg_ok_def)
  obtain r' \<tau>' where c: "client_reports errlist es l final (\<sigma>\<lparr>pname := None\<rparr>) = (r', \<tau>')" by (cases "client_reports errlist es l final (\<sigma>\<lparr>pname := None\<rparr>)")
  show ?thesis
    using server_reports_text [OF assms(1) ok assms(2,3), of l] client_reports_text [OF c] assms(6)
    by (simp add: c err_prefix_def)
qed

theorem server_reports_like_a_client_witness:
  "stderr_out (snd (client_reports (\<lambda>_. None) [(0, ''a'')] Quit ''b'' \<lparr>pname = None, stderr_out = [], emesgstr = replicate 255 NUL\<rparr>)) =
     ''a '' @ [NL] @ ''b'' @ [NL]"
proof -
  let ?s = "\<lparr>pname = None, stderr_out = [], emesgstr = replicate 255 NUL\<rparr>"
  have h: "\<forall>i s. (\<lambda>_ :: int. None :: byte list option) i = Some s \<longrightarrow> NUL \<notin> set s"
    "\<forall>(e, msg) \<in> set [(0 :: int, ''a'')]. NUL \<notin> set msg" "NUL \<notin> set ''b''"
    "length (emesgstr ?s) = 255" "NUL \<in> set (emesgstr ?s)" by simp_all
  have "emesg_ok ?s" by (simp add: emesg_ok_def)
  from server_reports_text [OF h(1) this h(2,3), of Quit]
  obtain r \<tau> where s: "server_reports (\<lambda>_. None) [(0, ''a'')] Quit ''b'' ?s = Some (r, \<tau>)" "stderr_out \<tau> = ''a '' @ [NL] @ ''b'' @ [NL]"
    by (cases "server_reports (\<lambda>_. None) [(0, ''a'')] Quit ''b'' ?s") (auto simp: fits_emesg_def sys_err_str_def reason_of_def)
  show ?thesis using server_reports_like_a_client [OF h s(1)] s(2) by simp
qed

end
