(* ===== verification/Signals.thy ===== *)
theory Signals
  imports Main
begin

text \<open>
  The signal programs \<open>13_signal/signal.c\<close> and \<open>signal2.c\<close>: loops that block signals, test a flag and sleep in
  \<open>sigpause\<close>, which lets one signal in.  Signals come between any two steps.  \<open>sigpause(s)\<close> is that of X/Open, which
  the comments of the code describe: it takes \<open>s\<close> out of the mask while it waits and puts the mask back.
\<close>

section \<open>A process and its signals\<close>

datatype signal = SIGINT | SIGHUP | SIGQUIT | SIGALRM

datatype sig_pc = S_block | S_nap | S_loop | S_test | S_hup | S_write | S_sleep | S_pause | S_paused | S_after | S_restore | S_return | S_killed

text \<open>\<open>flag2\<close> is \<open>sighup_flag\<close> of \<open>signal.c\<close> and \<open>master_flag\<close> of \<open>signal2.c\<close>.\<close>

record sigproc =
  place :: sig_pc
  mask :: "signal set"
  waiting :: "signal set"       \<comment> \<open>sent but blocked\<close>
  oldmask :: "signal set"
  sigint_flag :: bool
  flag2 :: bool
  alarms :: nat                 \<comment> \<open>calls of the handler of \<open>SIGALRM\<close>\<close>

definition gone :: "sigproc \<Rightarrow> bool" where
  "gone \<sigma> \<longleftrightarrow> place \<sigma> = S_return \<or> place \<sigma> = S_killed"

text \<open>A signal that is blocked waits; otherwise \<open>act\<close> happens, and a process in \<open>sigpause(p)\<close> goes on if it still exists.\<close>

definition send :: "(signal \<Rightarrow> sigproc \<Rightarrow> sigproc) \<Rightarrow> signal \<Rightarrow> signal \<Rightarrow> sigproc \<Rightarrow> sigproc" where
  "send act p s \<sigma> =
     (if gone \<sigma> then \<sigma>
      else if s \<in> mask \<sigma> then \<sigma>\<lparr>waiting := insert s (waiting \<sigma>)\<rparr>
      else if place (act s \<sigma>) = S_paused then (act s \<sigma>)\<lparr>place := S_test, mask := insert p (mask \<sigma>)\<rparr>
      else act s \<sigma>)"

definition sigpause :: "(signal \<Rightarrow> sigproc \<Rightarrow> sigproc) \<Rightarrow> signal \<Rightarrow> sigproc \<Rightarrow> sigproc" where
  "sigpause act p \<sigma> =
     (if p \<in> waiting \<sigma> then act p (\<sigma>\<lparr>place := S_test, waiting := waiting \<sigma> - {p}\<rparr>)
      else \<sigma>\<lparr>place := S_paused, mask := mask \<sigma> - {p}\<rparr>)"

text \<open>\<open>sigsetmask\<close>: what waits and is no longer blocked is delivered.\<close>

definition sigsetmask :: "(signal \<Rightarrow> sigproc \<Rightarrow> sigproc) \<Rightarrow> signal set \<Rightarrow> sigproc \<Rightarrow> sigproc" where
  "sigsetmask act m \<sigma> =
     fold (\<lambda>s \<tau>. if s \<in> waiting \<sigma> \<and> s \<notin> m then act s (\<tau>\<lparr>waiting := waiting \<tau> - {s}\<rparr>) else \<tau>)
       [SIGINT, SIGHUP, SIGALRM, SIGQUIT] (\<sigma>\<lparr>mask := m\<rparr>)"

datatype sig_event = Turn | Signal signal

definition sig_event :: "(signal \<Rightarrow> sigproc \<Rightarrow> sigproc) \<Rightarrow> signal \<Rightarrow> (sigproc \<Rightarrow> sigproc) \<Rightarrow> sig_event \<Rightarrow> sigproc \<Rightarrow> sigproc" where
  "sig_event act p main ev \<sigma> = (case ev of Turn \<Rightarrow> main \<sigma> | Signal s \<Rightarrow> send act p s \<sigma>)"

section \<open>The programs\<close>

definition signal_act :: "signal \<Rightarrow> sigproc \<Rightarrow> sigproc" where
  "signal_act s \<sigma> =
     (case s of
        SIGINT \<Rightarrow> \<sigma>\<lparr>sigint_flag := True\<rparr>
      | SIGHUP \<Rightarrow> \<sigma>\<lparr>flag2 := True\<rparr>
      | SIGALRM \<Rightarrow> \<sigma>\<lparr>alarms := alarms \<sigma> + 1\<rparr>
      | SIGQUIT \<Rightarrow> \<sigma>\<lparr>place := S_killed\<rparr>)"

text \<open>\<open>signal.c\<close> from the installed handlers on; the alarm is a signal that comes.\<close>

definition signal_main :: "sigproc \<Rightarrow> sigproc" where
  "signal_main \<sigma> =
     (case place \<sigma> of
        S_block \<Rightarrow> \<sigma>\<lparr>place := S_nap, mask := mask \<sigma> \<union> {SIGQUIT, SIGALRM}, oldmask := mask \<sigma>\<rparr>
      | S_nap \<Rightarrow> \<sigma>\<lparr>place := S_loop\<rparr>
      | S_loop \<Rightarrow> \<sigma>\<lparr>place := S_test, mask := mask \<sigma> \<union> {SIGINT}\<rparr>
      | S_test \<Rightarrow> if \<not> sigint_flag \<sigma> then \<sigma>\<lparr>place := S_hup\<rparr> else \<sigma>\<lparr>place := S_after\<rparr>
      | S_hup \<Rightarrow> if flag2 \<sigma> then \<sigma>\<lparr>place := S_after\<rparr> else \<sigma>\<lparr>place := S_write\<rparr>
      | S_write \<Rightarrow> \<sigma>\<lparr>place := S_sleep\<rparr>
      | S_sleep \<Rightarrow> \<sigma>\<lparr>place := S_pause\<rparr>
      | S_pause \<Rightarrow> sigpause signal_act SIGINT \<sigma>
      | S_paused \<Rightarrow> \<sigma>
      | S_after \<Rightarrow> \<sigma>\<lparr>place := S_restore\<rparr>
      | S_restore \<Rightarrow> sigsetmask signal_act (oldmask \<sigma>) (\<sigma>\<lparr>place := S_return\<rparr>)
      | _ \<Rightarrow> \<sigma>)"

definition sig_start :: "sig_pc \<Rightarrow> sigproc" where
  "sig_start pc = \<lparr>place = pc, mask = {}, waiting = {}, oldmask = {}, sigint_flag = False, flag2 = False, alarms = 0\<rparr>"

definition signal_run :: "sig_event list \<Rightarrow> sigproc" where
  "signal_run evs = fold (sig_event signal_act SIGINT signal_main) evs (sig_start S_block)"

text \<open>\<open>signal2.c\<close>: both handlers set \<open>master_flag\<close>; \<open>SIGHUP\<close> and \<open>SIGQUIT\<close> have their default action.\<close>

definition signal2_act :: "signal \<Rightarrow> sigproc \<Rightarrow> sigproc" where
  "signal2_act s \<sigma> =
     (case s of
        SIGINT \<Rightarrow> \<sigma>\<lparr>flag2 := True\<rparr>
      | SIGALRM \<Rightarrow> \<sigma>\<lparr>flag2 := True, alarms := alarms \<sigma> + 1\<rparr>
      | _ \<Rightarrow> \<sigma>\<lparr>place := S_killed\<rparr>)"

definition signal2_main :: "sigproc \<Rightarrow> sigproc" where
  "signal2_main \<sigma> =
     (case place \<sigma> of
        S_nap \<Rightarrow> \<sigma>\<lparr>place := S_block\<rparr>
      | S_block \<Rightarrow> \<sigma>\<lparr>place := S_test, mask := mask \<sigma> \<union> {SIGINT, SIGALRM}, oldmask := mask \<sigma>\<rparr>
      | S_test \<Rightarrow> if \<not> sigint_flag \<sigma> \<and> \<not> flag2 \<sigma> then \<sigma>\<lparr>place := S_sleep\<rparr> else \<sigma>\<lparr>place := S_after\<rparr>
      | S_sleep \<Rightarrow> \<sigma>\<lparr>place := S_pause\<rparr>
      | S_pause \<Rightarrow> sigpause signal2_act SIGALRM \<sigma>
      | S_paused \<Rightarrow> \<sigma>
      | S_after \<Rightarrow> \<sigma>\<lparr>place := S_restore\<rparr>
      | S_restore \<Rightarrow> sigsetmask signal2_act (oldmask \<sigma>) (\<sigma>\<lparr>place := S_return\<rparr>)
      | _ \<Rightarrow> \<sigma>)"

definition signal2_run :: "sig_event list \<Rightarrow> sigproc" where
  "signal2_run evs = fold (sig_event signal2_act SIGALRM signal2_main) evs (sig_start S_nap)"

section \<open>A signal that will be seen\<close>

lemma count_list_replicate_same [simp]: "count_list (replicate n x) x = n"
  by (induction n) simp_all

text \<open>Once the signal is noted, every turn brings the process nearer to its end and no signal takes it back.\<close>

locale signalled =
  fixes ev :: "sig_event \<Rightarrow> 's \<Rightarrow> 's" and noted :: "'s \<Rightarrow> bool" and rank :: "'s \<Rightarrow> nat"
  assumes stays_noted: "noted \<sigma> \<Longrightarrow> noted (ev e \<sigma>)"
    and turn_nearer: "noted \<sigma> \<Longrightarrow> rank (ev Turn \<sigma>) \<le> rank \<sigma> - 1"
    and signal_not_farther: "noted \<sigma> \<Longrightarrow> rank (ev (Signal s) \<sigma>) \<le> rank \<sigma>"
begin

lemma ends: "noted \<sigma> \<Longrightarrow> rank \<sigma> \<le> count_list evs Turn \<Longrightarrow> noted (fold ev evs \<sigma>) \<and> rank (fold ev evs \<sigma>) = 0"
proof (induction evs arbitrary: \<sigma>)
  case (Cons e evs)
  have "rank (ev e \<sigma>) \<le> count_list evs Turn"
    using Cons.prems turn_nearer [of \<sigma>] signal_not_farther [of \<sigma>] by (cases e) (auto split: if_splits intro: le_trans)
  then show ?case using Cons.IH stays_noted [OF Cons.prems(1)] by simp
qed simp

end

text \<open>The mask follows from the place, and nothing waits that is not blocked.\<close>

fun signal_mask :: "sig_pc \<Rightarrow> signal set" where
  "signal_mask S_block = {}" | "signal_mask S_return = {}" | "signal_mask S_nap = {SIGQUIT, SIGALRM}"
| "signal_mask S_loop = {SIGQUIT, SIGALRM}" | "signal_mask S_paused = {SIGQUIT, SIGALRM}"
| "signal_mask _ = {SIGINT, SIGQUIT, SIGALRM}"

definition in_loop :: "sig_pc \<Rightarrow> bool" where
  "in_loop pc \<longleftrightarrow> pc \<in> {S_hup, S_write, S_sleep, S_pause, S_paused}"

definition signal_inv :: "sigproc \<Rightarrow> bool" where
  "signal_inv \<sigma> \<longleftrightarrow> place \<sigma> = S_killed \<or>
     mask \<sigma> = signal_mask (place \<sigma>) \<and> waiting \<sigma> \<subseteq> mask \<sigma> \<and> oldmask \<sigma> = {} \<and> (sigint_flag \<sigma> \<longrightarrow> \<not> in_loop (place \<sigma>))"

lemmas signal_defs = signal_inv_def in_loop_def sig_event_def send_def gone_def sigpause_def sigsetmask_def

lemma signal_inv_event:
  assumes "signal_inv \<sigma>"
  shows "signal_inv (sig_event signal_act SIGINT signal_main ev \<sigma>)"
proof (cases ev)
  case Turn
  then show ?thesis
    using assms by (cases "place \<sigma>") (auto simp: signal_defs signal_main_def signal_act_def)
next
  case (Signal s)
  then show ?thesis
    using assms by (cases "place \<sigma>"; cases s) (auto simp: signal_defs signal_act_def)
qed

definition int_noted :: "sigproc \<Rightarrow> bool" where
  "int_noted \<sigma> \<longleftrightarrow> signal_inv \<sigma> \<and> (gone \<sigma> \<or> sigint_flag \<sigma> \<or> SIGINT \<in> waiting \<sigma>)"

fun flag_rank :: "sig_pc \<Rightarrow> nat" where
  "flag_rank S_block = 6" | "flag_rank S_nap = 5" | "flag_rank S_loop = 4" | "flag_rank S_test = 3"
| "flag_rank S_after = 2" | "flag_rank S_restore = 1" | "flag_rank _ = 0"

fun waiting_rank :: "sig_pc \<Rightarrow> nat" where
  "waiting_rank S_test = 8" | "waiting_rank S_hup = 7" | "waiting_rank S_write = 6" | "waiting_rank S_sleep = 5"
| "waiting_rank S_pause = 4" | "waiting_rank S_after = 2" | "waiting_rank S_restore = 1" | "waiting_rank _ = 0"

definition int_rank :: "sigproc \<Rightarrow> nat" where
  "int_rank \<sigma> = (if sigint_flag \<sigma> then flag_rank (place \<sigma>) else waiting_rank (place \<sigma>))"

interpretation sigint: signalled "sig_event signal_act SIGINT signal_main" int_noted int_rank
proof unfold_locales
  fix \<sigma> e s
  assume n: "int_noted \<sigma>"
  then have i: "signal_inv (sig_event signal_act SIGINT signal_main e \<sigma>)" by (simp add: int_noted_def signal_inv_event)
  show "int_noted (sig_event signal_act SIGINT signal_main e \<sigma>)"
  proof (cases e)
    case Turn
    then show ?thesis
      using n i by (cases "place \<sigma>") (auto simp: int_noted_def signal_defs signal_main_def signal_act_def)
  next
    case (Signal s)
    then show ?thesis
      using n i by (cases "place \<sigma>"; cases s) (auto simp: int_noted_def signal_defs signal_act_def)
  qed
  show "int_rank (sig_event signal_act SIGINT signal_main Turn \<sigma>) \<le> int_rank \<sigma> - 1"
    using n by (cases "place \<sigma>") (auto simp: int_rank_def int_noted_def signal_defs signal_main_def signal_act_def)
  show "int_rank (sig_event signal_act SIGINT signal_main (Signal s) \<sigma>) \<le> int_rank \<sigma>"
    using n by (cases "place \<sigma>"; cases s) (auto simp: int_rank_def int_noted_def signal_defs signal_act_def)
qed

lemma signal_run_snoc:
  "signal_run (evs @ [ev]) = sig_event signal_act SIGINT signal_main ev (signal_run evs)"
  "signal_run (evs @ ys) = fold (sig_event signal_act SIGINT signal_main) ys (signal_run evs)"
  by (simp_all add: signal_run_def)

lemma signal_run_inv: "signal_inv (signal_run evs)"
proof (induction evs rule: rev_induct)
  case Nil
  then show ?case by (simp add: signal_run_def sig_start_def signal_defs)
next
  case (snoc ev evs)
  then show ?case unfolding signal_run_snoc(1) by (rule signal_inv_event)
qed

text \<open>What a process has seen or holds back was sent; one that returns has seen a signal of its loop.\<close>

lemma signal_run_sent:
  "(place (signal_run evs) = S_killed \<or> SIGQUIT \<in> waiting (signal_run evs) \<longrightarrow> Signal SIGQUIT \<in> set evs) \<and>
   (sigint_flag (signal_run evs) \<or> SIGINT \<in> waiting (signal_run evs) \<longrightarrow> Signal SIGINT \<in> set evs) \<and>
   (flag2 (signal_run evs) \<or> SIGHUP \<in> waiting (signal_run evs) \<longrightarrow> Signal SIGHUP \<in> set evs) \<and>
   (place (signal_run evs) \<in> {S_after, S_restore, S_return} \<longrightarrow> sigint_flag (signal_run evs) \<or> flag2 (signal_run evs))"
proof (induction evs rule: rev_induct)
  case Nil
  then show ?case by (simp add: signal_run_def sig_start_def)
next
  case (snoc ev evs)
  show ?case
  proof (cases ev)
    case Turn
    then show ?thesis
      using snoc unfolding signal_run_snoc(1)
      by (cases "place (signal_run evs)") (auto simp: sig_event_def signal_main_def signal_act_def sigpause_def sigsetmask_def)
  next
    case (Signal s)
    then show ?thesis
      using snoc unfolding signal_run_snoc(1)
      by (cases "place (signal_run evs)"; cases s) (auto simp: sig_event_def send_def gone_def signal_act_def)
  qed
qed

lemma int_sent_noted:
  assumes "Signal SIGINT \<in> set evs"
  shows "int_noted (signal_run evs)"
proof -
  obtain xs ys where e: "evs = xs @ Signal SIGINT # ys" using assms by (meson split_list)
  have "signal_inv (signal_run (xs @ [Signal SIGINT]))" by (rule signal_run_inv)
  moreover have "gone (signal_run (xs @ [Signal SIGINT])) \<or> sigint_flag (signal_run (xs @ [Signal SIGINT])) \<or>
      SIGINT \<in> waiting (signal_run (xs @ [Signal SIGINT]))"
    unfolding signal_run_snoc(1) by (auto simp: sig_event_def send_def signal_act_def gone_def)
  ultimately have n: "int_noted (signal_run (xs @ [Signal SIGINT]))" by (simp add: int_noted_def)
  have "int_noted (fold (sig_event signal_act SIGINT signal_main) ys \<tau>)" if "int_noted \<tau>" for \<tau>
    using that by (induction ys arbitrary: \<tau>) (simp_all add: sigint.stays_noted)
  from this [OF n] show ?thesis using signal_run_snoc(2) [of "xs @ [Signal SIGINT]" ys] by (simp add: e)
qed

lemma int_rank_bound: "int_rank \<sigma> \<le> 8"
  by (cases "place \<sigma>") (simp_all add: int_rank_def)

lemma int_rank_0: "int_noted \<sigma> \<Longrightarrow> int_rank \<sigma> = 0 \<Longrightarrow> gone \<sigma>"
  by (cases "place \<sigma>") (auto simp: int_noted_def int_rank_def signal_defs split: if_splits)

section \<open>The second program\<close>

fun signal2_mask :: "sig_pc \<Rightarrow> signal set" where
  "signal2_mask S_nap = {}" | "signal2_mask S_block = {}" | "signal2_mask S_return = {}" | "signal2_mask S_paused = {SIGINT}"
| "signal2_mask _ = {SIGINT, SIGALRM}"

definition signal2_inv :: "sigproc \<Rightarrow> bool" where
  "signal2_inv \<sigma> \<longleftrightarrow> place \<sigma> = S_killed \<or>
     mask \<sigma> = signal2_mask (place \<sigma>) \<and> waiting \<sigma> \<subseteq> mask \<sigma> \<and> oldmask \<sigma> = {} \<and> \<not> sigint_flag \<sigma> \<and> (flag2 \<sigma> \<longrightarrow> \<not> in_loop (place \<sigma>)) \<and>
     place \<sigma> \<noteq> S_loop \<and> place \<sigma> \<noteq> S_hup \<and> place \<sigma> \<noteq> S_write"

lemma signal2_inv_event:
  assumes "signal2_inv \<sigma>"
  shows "signal2_inv (sig_event signal2_act SIGALRM signal2_main ev \<sigma>)"
proof (cases ev)
  case Turn
  then show ?thesis
    using assms by (cases "place \<sigma>") (auto simp: signal2_inv_def signal_defs signal2_main_def signal2_act_def)
next
  case (Signal s)
  then show ?thesis
    using assms by (cases "place \<sigma>"; cases s) (auto simp: signal2_inv_def signal_defs signal2_act_def)
qed

definition alarm_noted :: "sigproc \<Rightarrow> bool" where
  "alarm_noted \<sigma> \<longleftrightarrow> signal2_inv \<sigma> \<and> (gone \<sigma> \<or> flag2 \<sigma> \<or> SIGALRM \<in> waiting \<sigma>)"

fun flag2_rank :: "sig_pc \<Rightarrow> nat" where
  "flag2_rank S_nap = 5" | "flag2_rank S_block = 4" | "flag2_rank S_test = 3" | "flag2_rank S_after = 2"
| "flag2_rank S_restore = 1" | "flag2_rank _ = 0"

fun waiting2_rank :: "sig_pc \<Rightarrow> nat" where
  "waiting2_rank S_test = 6" | "waiting2_rank S_sleep = 5" | "waiting2_rank S_pause = 4" | "waiting2_rank S_after = 2"
| "waiting2_rank S_restore = 1" | "waiting2_rank _ = 0"

definition alarm_rank :: "sigproc \<Rightarrow> nat" where
  "alarm_rank \<sigma> = (if flag2 \<sigma> then flag2_rank (place \<sigma>) else waiting2_rank (place \<sigma>))"

interpretation sigalrm: signalled "sig_event signal2_act SIGALRM signal2_main" alarm_noted alarm_rank
proof unfold_locales
  fix \<sigma> e s
  assume n: "alarm_noted \<sigma>"
  then have i: "signal2_inv (sig_event signal2_act SIGALRM signal2_main e \<sigma>)" by (simp add: alarm_noted_def signal2_inv_event)
  show "alarm_noted (sig_event signal2_act SIGALRM signal2_main e \<sigma>)"
  proof (cases e)
    case Turn
    then show ?thesis
      using n i by (cases "place \<sigma>") (auto simp: alarm_noted_def signal2_inv_def signal_defs signal2_main_def signal2_act_def)
  next
    case (Signal s)
    then show ?thesis
      using n i by (cases "place \<sigma>"; cases s) (auto simp: alarm_noted_def signal2_inv_def signal_defs signal2_act_def)
  qed
  show "alarm_rank (sig_event signal2_act SIGALRM signal2_main Turn \<sigma>) \<le> alarm_rank \<sigma> - 1"
    using n by (cases "place \<sigma>") (auto simp: alarm_rank_def alarm_noted_def signal2_inv_def signal_defs signal2_main_def signal2_act_def)
  show "alarm_rank (sig_event signal2_act SIGALRM signal2_main (Signal s) \<sigma>) \<le> alarm_rank \<sigma>"
    using n by (cases "place \<sigma>"; cases s) (auto simp: alarm_rank_def alarm_noted_def signal2_inv_def signal_defs signal2_act_def)
qed

lemma signal2_run_snoc:
  "signal2_run (evs @ [ev]) = sig_event signal2_act SIGALRM signal2_main ev (signal2_run evs)"
  "signal2_run (evs @ ys) = fold (sig_event signal2_act SIGALRM signal2_main) ys (signal2_run evs)"
  by (simp_all add: signal2_run_def)

lemma signal2_run_inv: "signal2_inv (signal2_run evs)"
proof (induction evs rule: rev_induct)
  case Nil
  then show ?case by (simp add: signal2_run_def sig_start_def signal2_inv_def signal_defs)
next
  case (snoc ev evs)
  then show ?case unfolding signal2_run_snoc(1) by (rule signal2_inv_event)
qed

lemma signal2_run_sent:
  "place (signal2_run evs) = S_killed \<longrightarrow> Signal SIGQUIT \<in> set evs \<or> Signal SIGHUP \<in> set evs"
proof (induction evs rule: rev_induct)
  case Nil
  then show ?case by (simp add: signal2_run_def sig_start_def)
next
  case (snoc ev evs)
  have i: "signal2_inv (signal2_run evs)" by (rule signal2_run_inv)
  show ?case
  proof (cases ev)
    case Turn
    then show ?thesis
      using snoc i unfolding signal2_run_snoc(1)
      by (cases "place (signal2_run evs)") (auto simp: sig_event_def signal2_main_def signal2_act_def sigpause_def sigsetmask_def signal2_inv_def)
  next
    case (Signal s)
    then show ?thesis
      using snoc unfolding signal2_run_snoc(1)
      by (cases "place (signal2_run evs)"; cases s) (auto simp: sig_event_def send_def gone_def signal2_act_def)
  qed
qed

lemma alarm_sent_noted:
  assumes "Signal SIGALRM \<in> set evs"
  shows "alarm_noted (signal2_run evs)"
proof -
  obtain xs ys where e: "evs = xs @ Signal SIGALRM # ys" using assms by (meson split_list)
  have "signal2_inv (signal2_run (xs @ [Signal SIGALRM]))" by (rule signal2_run_inv)
  moreover have "gone (signal2_run (xs @ [Signal SIGALRM])) \<or> flag2 (signal2_run (xs @ [Signal SIGALRM])) \<or>
      SIGALRM \<in> waiting (signal2_run (xs @ [Signal SIGALRM]))"
    unfolding signal2_run_snoc(1) by (auto simp: sig_event_def send_def signal2_act_def gone_def)
  ultimately have n: "alarm_noted (signal2_run (xs @ [Signal SIGALRM]))" by (simp add: alarm_noted_def)
  have "alarm_noted (fold (sig_event signal2_act SIGALRM signal2_main) ys \<tau>)" if "alarm_noted \<tau>" for \<tau>
    using that by (induction ys arbitrary: \<tau>) (simp_all add: sigalrm.stays_noted)
  from this [OF n] show ?thesis using signal2_run_snoc(2) [of "xs @ [Signal SIGALRM]" ys] by (simp add: e)
qed

lemma alarm_rank_bound: "alarm_rank \<sigma> \<le> 6"
  by (cases "place \<sigma>") (simp_all add: alarm_rank_def)

lemma alarm_rank_0: "alarm_noted \<sigma> \<Longrightarrow> alarm_rank \<sigma> = 0 \<Longrightarrow> gone \<sigma>"
  by (cases "place \<sigma>") (auto simp: alarm_noted_def alarm_rank_def signal2_inv_def signal_defs split: if_splits)

text \<open>Inside the loop, \<open>SIGINT\<close> is only held back.\<close>

definition idle2 :: "sigproc \<Rightarrow> bool" where
  "idle2 \<sigma> \<longleftrightarrow> place \<sigma> \<in> {S_test, S_sleep, S_pause, S_paused} \<and> SIGINT \<in> mask \<sigma> \<and> SIGALRM \<notin> waiting \<sigma> \<and> \<not> flag2 \<sigma> \<and> \<not> sigint_flag \<sigma>"

lemma idle2_event:
  "idle2 \<sigma> \<Longrightarrow> ev = Turn \<or> ev = Signal SIGINT \<Longrightarrow> idle2 (sig_event signal2_act SIGALRM signal2_main ev \<sigma>)"
  by (cases "place \<sigma>") (auto simp: idle2_def sig_event_def send_def gone_def signal2_main_def sigpause_def)

section \<open>Properties\<close>

text \<open>C22: \<open>signal.c\<close> never loses a \<open>SIGINT\<close>.  Wherever it comes, before the loop, while it is blocked between the test of
  the flag and \<open>sigpause\<close>, or in \<open>sigpause\<close>, eight more turns of the program and it has returned, unless a \<open>SIGQUIT\<close>
  kills it when the old mask is restored.  And it returns only after a \<open>SIGINT\<close> or a \<open>SIGHUP\<close>.\<close>
theorem sigint_ends_the_loop:
  assumes "Signal SIGINT \<in> set before" "8 \<le> count_list after Turn"
  shows "(Signal SIGQUIT \<notin> set (before @ after) \<longrightarrow> place (signal_run (before @ after)) = S_return) \<and>
     place (signal_run (before @ after)) \<in> {S_return, S_killed} \<and>
     (place (signal_run evs) = S_return \<longrightarrow> Signal SIGINT \<in> set evs \<or> Signal SIGHUP \<in> set evs)"
proof -
  have "int_noted (signal_run before)" by (rule int_sent_noted [OF assms(1)])
  moreover have "int_rank (signal_run before) \<le> count_list after Turn" using assms(2) int_rank_bound le_trans by blast
  ultimately have g: "place (signal_run (before @ after)) = S_return \<or> place (signal_run (before @ after)) = S_killed"
    unfolding signal_run_snoc(2) using sigint.ends int_rank_0 unfolding gone_def by blast
  have "place (signal_run (before @ after)) = S_killed \<longrightarrow> Signal SIGQUIT \<in> set (before @ after)"
    using signal_run_sent by blast
  moreover have "place (signal_run evs) = S_return \<longrightarrow> Signal SIGINT \<in> set evs \<or> Signal SIGHUP \<in> set evs"
    using signal_run_sent by blast
  ultimately show ?thesis using g by blast
qed

theorem sigint_ends_the_loop_witness:
  "place (signal_run ((replicate 5 Turn @ [Signal SIGINT]) @ replicate 8 Turn)) = S_return"
proof -
  have "Signal SIGINT \<in> set (replicate 5 Turn @ [Signal SIGINT])" "8 \<le> count_list (replicate 8 Turn) Turn"
    "Signal SIGQUIT \<notin> set ((replicate 5 Turn @ [Signal SIGINT]) @ replicate 8 Turn)" by simp_all
  then show ?thesis using sigint_ends_the_loop by blast
qed

text \<open>C39: a \<open>SIGHUP\<close> can be lost.  It is not blocked, so when it comes after the test of its flag and before \<open>sigpause\<close>,
  its handler sets the flag and the program then sleeps in \<open>sigpause\<close> for good, however many turns it gets.\<close>
theorem sighup_before_the_pause_is_lost:
  assumes "place (signal_run evs) \<in> {S_write, S_sleep, S_pause}" "Signal SIGINT \<notin> set evs"
  shows "flag2 (signal_run (evs @ Signal SIGHUP # replicate n Turn)) \<and> \<not> gone (signal_run (evs @ Signal SIGHUP # replicate n Turn))"
proof -
  let ?stuck = "\<lambda>\<sigma>. flag2 \<sigma> \<and> SIGINT \<notin> waiting \<sigma> \<and> place \<sigma> \<in> {S_write, S_sleep, S_pause, S_paused}"
  have "SIGINT \<notin> waiting (signal_run evs)" using signal_run_sent [of evs] assms(2) by blast
  then have "?stuck (signal_run (evs @ [Signal SIGHUP]))"
    using assms(1) signal_run_inv [of evs] unfolding signal_run_snoc(1)
    by (auto simp: sig_event_def send_def gone_def signal_act_def signal_inv_def)
  moreover have t: "?stuck (sig_event signal_act SIGINT signal_main Turn \<tau>)" if "?stuck \<tau>" for \<tau>
    using that by (cases "place \<tau>") (simp_all add: sig_event_def signal_main_def sigpause_def)
  have "?stuck (fold (sig_event signal_act SIGINT signal_main) (replicate n Turn) \<tau>)" if "?stuck \<tau>" for \<tau>
    using that
  proof (induction n arbitrary: \<tau>)
    case (Suc n)
    show ?case using Suc.IH [OF t [OF Suc.prems]] by simp
  qed simp
  ultimately have "?stuck (signal_run ((evs @ [Signal SIGHUP]) @ replicate n Turn))" unfolding signal_run_snoc(2) by blast
  then show ?thesis by (auto simp: gone_def)
qed

theorem sighup_before_the_pause_is_lost_witness:
  "\<not> gone (signal_run (replicate 6 Turn @ Signal SIGHUP # replicate 100 Turn))"
proof -
  have "place (signal_run (replicate 6 Turn)) = S_sleep"
    unfolding signal_run_def sig_start_def by (simp add: sig_event_def signal_main_def numeral_eq_Suc)
  then show ?thesis using sighup_before_the_pause_is_lost [of "replicate 6 Turn" 100] by simp
qed

text \<open>\<open>signal2.c\<close> ends on its alarm: wherever \<open>SIGALRM\<close> comes, six more turns and the program has returned, unless
  \<open>SIGHUP\<close> or \<open>SIGQUIT\<close> kills it.  A \<open>SIGINT\<close> in the loop does not end it.\<close>
theorem signal2_waits_for_its_alarm:
  assumes "Signal SIGALRM \<in> set before" "6 \<le> count_list after Turn"
  shows "(Signal SIGQUIT \<notin> set (before @ after) \<and> Signal SIGHUP \<notin> set (before @ after) \<longrightarrow>
        place (signal2_run (before @ after)) = S_return) \<and>
     place (signal2_run (before @ after)) \<in> {S_return, S_killed} \<and>
     (set evs \<subseteq> {Turn, Signal SIGINT} \<longrightarrow> \<not> gone (signal2_run (Turn # Turn # evs)))"
proof -
  have "alarm_noted (signal2_run before)" by (rule alarm_sent_noted [OF assms(1)])
  moreover have "alarm_rank (signal2_run before) \<le> count_list after Turn" using assms(2) alarm_rank_bound le_trans by blast
  ultimately have g: "gone (signal2_run (before @ after))"
    unfolding signal2_run_snoc(2) using sigalrm.ends alarm_rank_0 by blast
  have "idle2 (fold (sig_event signal2_act SIGALRM signal2_main) evs \<tau>)" if "idle2 \<tau>" "set evs \<subseteq> {Turn, Signal SIGINT}" for \<tau>
    using that by (induction evs arbitrary: \<tau>) (auto simp: idle2_event)
  moreover have "idle2 (signal2_run [Turn, Turn])"
    by (simp add: signal2_run_def sig_start_def sig_event_def signal2_main_def idle2_def)
  ultimately have "idle2 (signal2_run (Turn # Turn # evs))" if "set evs \<subseteq> {Turn, Signal SIGINT}"
    using that signal2_run_snoc(2) [of "[Turn, Turn]" evs] by simp
  then have "set evs \<subseteq> {Turn, Signal SIGINT} \<longrightarrow> \<not> gone (signal2_run (Turn # Turn # evs))" by (auto simp: idle2_def gone_def)
  then show ?thesis using g signal2_run_sent [of "before @ after"] by (auto simp: gone_def)
qed

theorem signal2_waits_for_its_alarm_witness:
  "place (signal2_run ((replicate 3 Turn @ [Signal SIGALRM]) @ replicate 6 Turn)) = S_return"
proof -
  have "Signal SIGALRM \<in> set (replicate 3 Turn @ [Signal SIGALRM])" "6 \<le> count_list (replicate 6 Turn) Turn"
    "Signal SIGQUIT \<notin> set ((replicate 3 Turn @ [Signal SIGALRM]) @ replicate 6 Turn)"
    "Signal SIGHUP \<notin> set ((replicate 3 Turn @ [Signal SIGALRM]) @ replicate 6 Turn)" by simp_all
  then show ?thesis using signal2_waits_for_its_alarm by blast
qed

end
