(* ===== verification/Copy_File.thy ===== *)
theory Copy_File
  imports Kernel_IO
begin

text \<open>
  \<open>12_open_file/open_file.c\<close>: a copy of the program's own source in blocks of 128 bytes, whose loop looks at
  nothing but a read of no bytes.  \<open>None\<close> stands for a descriptor of -1, on which every write fails; a write of
  \<open>(size_t) -1\<close> bytes, which follows a failed read, is refused by the kernel as well.
\<close>

section \<open>The program\<close>

definition clone_write :: "sink option \<Rightarrow> byte list \<Rightarrow> sink option" where
  "clone_write clone xs = map_option (\<lambda>k. snd (sys_write k xs)) clone"

fun copy_blocks :: "nat \<Rightarrow> source \<Rightarrow> sink option \<Rightarrow> int \<Rightarrow> int outcome \<times> int \<times> sink option" where
  "copy_blocks 0 src clone total_bytes_stored = (Running, total_bytes_stored, clone)"
| "copy_blocks (Suc fuel) src clone total_bytes_stored =
     (case sys_read src 128 of
        (Inl e, src) \<Rightarrow> copy_blocks fuel src clone (total_bytes_stored - 1)
      | (Inr read_buf, src) \<Rightarrow>
          (let clone = clone_write clone read_buf; n = length read_buf; total = total_bytes_stored + int n
           in if n = 0 then (Returned 0, total, clone) else copy_blocks fuel src clone total))"

text \<open>\<open>main\<close>: the source may not open, the clone may not be created; the \<open>int\<close> is the number in the last line printed.\<close>

definition open_file_main :: "nat \<Rightarrow> source option \<Rightarrow> sink option \<Rightarrow> int outcome \<times> int \<times> sink option" where
  "open_file_main fuel src clone = (case src of None \<Rightarrow> (Returned 0, 0, None) | Some s \<Rightarrow> copy_blocks fuel s clone 0)"

section \<open>The loop\<close>

lemma copy_blocks_returns:
  assumes "src_broken src = None" "length (src_pending src) < fuel"
  shows "\<exists>clone'. copy_blocks fuel src clone t = (Returned 0, t + int (length (src_pending src)), clone') \<and>
     (clone = None \<longrightarrow> clone' = None) \<and>
     (\<forall>k. clone = Some k \<and> grants k = [] \<longrightarrow> clone' = Some (k\<lparr>written := written k @ src_pending src\<rparr>))"
  using assms
proof (induction fuel arbitrary: src clone t)
  case (Suc fuel)
  show ?case
  proof (cases "src_pending src = []")
    case True
    then obtain src' where "sys_read src 128 = (Inr [], src')"
      using file_reader.rd_eof [OF True Suc.prems(1), of 128] by auto
    then show ?thesis using True by (auto simp: Let_def clone_write_def sys_write_def)
  next
    case False
    then obtain xs src' where r: "sys_read src 128 = (Inr xs, src')" "xs \<noteq> []" "src_pending src = xs @ src_pending src'"
      "src_broken src' = None"
      using file_reader.rd_some [OF False, of 128] Suc.prems(1) by auto
    have "length (src_pending src') < fuel" using Suc.prems(2) r(2,3) by (cases xs) auto
    note IH = Suc.IH [OF r(4) this, of "clone_write clone xs" "t + int (length xs)"]
    have s: "copy_blocks (Suc fuel) src clone t = copy_blocks fuel src' (clone_write clone xs) (t + int (length xs))"
      using r(1,2) by (simp add: Let_def)
    have l: "t + int (length xs) + int (length (src_pending src')) = t + int (length (src_pending src))" using r(3) by simp
    show ?thesis
    proof (cases clone)
      case None
      then show ?thesis using IH unfolding s l by (simp add: clone_write_def)
    next
      case (Some k)
      then show ?thesis
        using IH unfolding s l by (cases "grants k = []") (auto simp: clone_write_def sys_write_def r(3))
    qed
  qed
qed simp

section \<open>Properties\<close>

text \<open>The copy.  If no read fails, the program returns 0 after at most one block per byte and the end, and the number it
  prints is the length of the source, however the kernel cuts the source into reads.  If every write is complete, the
  clone holds the source.\<close>
theorem open_file_clones:
  assumes "src_broken src = None" "length (src_pending src) < fuel" "grants k = []"
  shows "open_file_main fuel (Some src) (Some k) = (Returned 0, int (length (src_pending src)), Some (k\<lparr>written := written k @ src_pending src\<rparr>))"
  using copy_blocks_returns [OF assms(1,2), of "Some k" 0] assms(3) by (auto simp: open_file_main_def)

theorem open_file_clones_witness:
  "open_file_main 9 (Some [Data ''ab'', Data ''c'']) (Some \<lparr>written = [], grants = []\<rparr>) = (Returned 0, 3, Some \<lparr>written = ''abc'', grants = []\<rparr>)"
  using open_file_clones [of "[Data ''ab'', Data ''c'']" 9 "\<lparr>written = [], grants = []\<rparr>"] by simp

text \<open>Failures are not seen.  When the clone cannot be created, the program returns 0 and reports all bytes as written;
  when reads fail, it goes on for as long as they do and takes 1 from the number it reports for each.\<close>
theorem open_file_sees_no_failure:
  assumes "src_broken src = None" "length (src_pending src) < fuel"
  shows "open_file_main fuel (Some src) None = (Returned 0, int (length (src_pending src)), None) \<and>
     open_file_main m (Some (replicate m (Fault e) @ src)) clone = (Running, - int m, clone)"
proof -
  have "copy_blocks m (replicate m (Fault e) @ src) clone t = (Running, t - int m, clone)" for m t
    by (induction m arbitrary: t) simp_all
  then show ?thesis
    using copy_blocks_returns [OF assms, of None 0] by (auto simp: open_file_main_def)
qed

theorem open_file_sees_no_failure_witness:
  "open_file_main 5 (Some [Data ''ab'']) None = (Returned 0, 2, None)"
  using open_file_sees_no_failure [of "[Data ''ab'']" 5] by simp
end
