(* ===== verification/One_Message.thy ===== *)
theory One_Message
  imports Kernel_IO
begin

unbundle bit_operations_syntax

text \<open>
  The small socket programs of chapter 6 that send one message: \<open>send_recv\<close> with and without connections, the pair
  \<open>bind.c\<close> and \<open>sockaddr.c\<close>, and \<open>accept.c\<close>.  The results of \<open>socket\<close>, \<open>bind\<close>, \<open>connect\<close> and so on are arguments; a
  store or a read past an array is \<open>None\<close>.  Arrays that the programs do not initialise start with any contents.
\<close>

section \<open>send_recv with connections\<close>

definition SERVER_PORT :: "16 word" where "SERVER_PORT = 6969"

text \<open>\<open>htons\<close> and \<open>ntohs\<close>: the machine is little-endian.\<close>

definition htons :: "16 word \<Rightarrow> 16 word" where
  "htons p = push_bit 8 p OR drop_bit 8 p"

definition MESSAGE_LEN :: nat where "MESSAGE_LEN = 256"

definition recv_log :: "nat \<Rightarrow> byte list \<Rightarrow> byte list" where
  "recv_log n s = ''[LOG MSG_SIZE = '' @ show_nat n @ ''] Message Received: '' @ s @ [NL]"

text \<open>The child of the server, from \<open>recv\<close> on; \<open>message\<close> has \<open>MESSAGE_LEN + 1\<close> bytes.\<close>

definition recv_child :: "source \<Rightarrow> byte list \<Rightarrow> int outcome \<times> byte list" where
  "recv_child src message =
     (case fst (sys_read src MESSAGE_LEN) of
        Inl e \<Rightarrow> (Exited EXIT_FAILURE, [])
      | Inr xs \<Rightarrow>
          (let n = length xs; m = poke message 0 xs; m = (if m ! n \<noteq> NUL then m[n := NUL] else m)
           in (Exited EXIT_SUCCESS, recv_log n (cstr m))))"

text \<open>The loop of the server: what \<open>accept\<close> gives, and whether \<open>fork\<close> succeeds; the logs of the children are in the
  order of their connections.\<close>

fun recv_server_loop :: "(source \<times> bool) option list \<Rightarrow> byte list \<Rightarrow> int outcome \<times> byte list list" where
  "recv_server_loop [] message = (Running, [])"
| "recv_server_loop (None # evs) message = (Exited EXIT_FAILURE, [])"
| "recv_server_loop (Some (src, forked) # evs) message =
     (let (r, logs) = recv_server_loop evs message
      in (r, if forked then snd (recv_child src message) # logs else logs))"

definition recv_server_main :: "bool \<Rightarrow> (16 word \<Rightarrow> bool) \<Rightarrow> bool \<Rightarrow> (source \<times> bool) option list \<Rightarrow> byte list \<Rightarrow> int outcome \<times> byte list list" where
  "recv_server_main socket_ok bind_ok listen_ok evs message =
     (if \<not> socket_ok \<or> \<not> bind_ok SERVER_PORT \<or> \<not> listen_ok then (Exited EXIT_FAILURE, []) else recv_server_loop evs message)"

definition send_client_main :: "bool \<Rightarrow> (16 word \<Rightarrow> bool) \<Rightarrow> sink \<Rightarrow> int outcome \<times> sink" where
  "send_client_main socket_ok connect_ok k =
     (if \<not> socket_ok \<or> \<not> connect_ok SERVER_PORT then (Exited EXIT_FAILURE, k)
      else case sys_write k ''Hello, TCP Server!'' of
             (Inl e, k) \<Rightarrow> (Exited EXIT_FAILURE, k)
           | (Inr send_bytes, k) \<Rightarrow> (Returned 0, k))"

section \<open>send_recv without connections\<close>

text \<open>A datagram, or a call of \<open>recvfrom\<close> that fails.\<close>

datatype dgram = Dgram "byte list" | Recv_fails errno

definition AF_INET :: "16 word" where "AF_INET = 2"

text \<open>The arrays and \<open>client_sock_addr_size\<close> are not initialised: what they start with is any value.\<close>

record udp_server =
  message_buffer :: "byte list"       \<comment> \<open>256 bytes\<close>
  sa_family :: "16 word"              \<comment> \<open>of \<open>client_details\<close>\<close>
  addr_size :: "32 word"              \<comment> \<open>\<open>client_sock_addr_size\<close>\<close>
  shown :: "byte list"
  message_id :: nat

text \<open>The first \<open>n\<close> bytes of an internet address are stored: what that does to its family.\<close>

definition store_family :: "nat \<Rightarrow> 16 word \<Rightarrow> 16 word" where
  "store_family n f = (if n = 0 then f else if n = 1 then (f AND NOT (mask 8)) OR AF_INET else AF_INET)"

text \<open>\<open>recvfrom\<close> cuts a datagram off at the size of the buffer.  It reads the size of the address as an \<open>int\<close>: a negative
  one makes the call fail with the datagram taken all the same; otherwise as many bytes as fit are stored, and 16, the
  length of the address.  The result is whether the call succeeds.\<close>

definition udp_store :: "byte list \<Rightarrow> udp_server \<Rightarrow> bool \<times> udp_server" where
  "udp_store xs \<sigma> =
     (let \<sigma> = \<sigma>\<lparr>message_buffer := poke (message_buffer \<sigma>) 0 (take 256 xs)\<rparr>
      in if sint (addr_size \<sigma>) < 0 then (False, \<sigma>)
         else (True, \<sigma>\<lparr>sa_family := store_family (unat (addr_size \<sigma>)) (sa_family \<sigma>), addr_size := 16\<rparr>))"

text \<open>One turn of the loop.  The length is unsigned, so a failure is a length of \<open>2 ^ 64 - 1\<close>, with which the newline is
  stored before the array.\<close>

definition udp_turn :: "dgram \<Rightarrow> udp_server \<Rightarrow> udp_server option" where
  "udp_turn ev \<sigma> =
     (let (message_len, \<sigma>) =
        (case ev of
           Recv_fails e \<Rightarrow> (2 ^ 64 - 1, \<sigma>)
         | Dgram xs \<Rightarrow> (case udp_store xs \<sigma> of (ok, \<sigma>) \<Rightarrow> (if ok then min 256 (length xs) else 2 ^ 64 - 1, \<sigma>)))
      in if sa_family \<sigma> = AF_INET
         then if 0 < message_len
              then if 256 \<le> message_len + 1 then None
                   else (let b = (message_buffer \<sigma>)[message_len := NL, message_len + 1 := NUL]
                         in Some (\<sigma>\<lparr>message_buffer := b, shown := shown \<sigma> @ cstr b, message_id := message_id \<sigma> + 1\<rparr>))
              else Some \<sigma>
         else Some \<sigma>)"

fun udp_turns :: "dgram list \<Rightarrow> udp_server \<Rightarrow> udp_server option" where
  "udp_turns [] \<sigma> = Some \<sigma>"
| "udp_turns (ev # evs) \<sigma> = (case udp_turn ev \<sigma> of None \<Rightarrow> None | Some \<sigma> \<Rightarrow> udp_turns evs \<sigma>)"

text \<open>\<open>main\<close> after \<open>bind\<close>: the first datagram is looked at with \<open>MSG_PEEK\<close> and stays; an error is taken away.\<close>

definition udp_recv_server :: "dgram list \<Rightarrow> udp_server \<Rightarrow> udp_server option" where
  "udp_recv_server evs \<sigma> =
     (case evs of
        [] \<Rightarrow> Some \<sigma>
      | Dgram xs # _ \<Rightarrow> udp_turns evs (snd (udp_store xs \<sigma>))
      | Recv_fails e # evs' \<Rightarrow> udp_turns evs' \<sigma>)"

text \<open>The client: a failing \<open>bind\<close> is reported only.\<close>

definition udp_send_client :: "bool \<Rightarrow> (byte list \<Rightarrow> errno + nat) \<Rightarrow> int outcome" where
  "udp_send_client socket_ok sendto =
     (if \<not> socket_ok then Exited EXIT_FAILURE
      else case sendto ''Hello, UDP Server!'' of
             Inl e \<Rightarrow> Exited EXIT_FAILURE
           | Inr n \<Rightarrow> if n = 0 then Exited EXIT_FAILURE else Exited EXIT_SUCCESS)"

section \<open>bind.c and sockaddr.c\<close>

text \<open>\<open>bind.c\<close> without \<open>_CHECK_TCP\<close>: read until something comes, then write up to a NUL, which nothing puts there.\<close>

fun bind_udp :: "(errno + byte list) list \<Rightarrow> byte list \<Rightarrow> byte list option outcome" where
  "bind_udp [] message = Running"
| "bind_udp (Inl e # reads) message = bind_udp reads message"
| "bind_udp (Inr xs # reads) message =
     (if xs = [] then bind_udp reads message
      else (let m = poke message 0 (take 256 xs) in Returned (if NUL \<in> set m then Some (cstr m) else None)))"

text \<open>With \<open>_CHECK_TCP\<close>: one read from the first client.\<close>

definition bind_tcp :: "source option \<Rightarrow> byte list" where
  "bind_tcp client =
     (case client of None \<Rightarrow> [] | Some src \<Rightarrow> (case fst (sys_read src 256) of Inl e \<Rightarrow> [] | Inr xs \<Rightarrow> xs))"

text \<open>\<open>sockaddr.c\<close>: what it writes to its peer, and how it ends.\<close>

definition sockaddr_main :: "bool \<Rightarrow> bool \<Rightarrow> bool \<Rightarrow> sink \<Rightarrow> int outcome \<times> sink" where
  "sockaddr_main check_tcp connect_ok socketpair_ok k =
     (let k = (if \<not> connect_ok then k
               else snd (sys_write k (if check_tcp then ''Hello, TCP!'' @ replicate 245 NUL else ''Hello, UDP!'')))
      in (if socketpair_ok then Returned 0 else Exited EXIT_FAILURE, k))"

section \<open>accept.c\<close>

text \<open>The client; the set holds the open descriptors, \<open>socket\<close> is the one that is created.\<close>

definition tcp_connect :: "nat option \<Rightarrow> bool \<Rightarrow> bool \<Rightarrow> nat set \<Rightarrow> int \<times> nat set" where
  "tcp_connect socket malloc_ok connect_ok F =
     (case socket of
        None \<Rightarrow> (- 1, F)
      | Some fd \<Rightarrow>
          if \<not> malloc_ok then (- 1, insert fd F)
          else if \<not> connect_ok then (- 1, insert fd F - {fd})
          else (int fd, insert fd F))"

definition accept_client_main :: "nat option \<Rightarrow> bool \<Rightarrow> bool \<Rightarrow> int outcome" where
  "accept_client_main socket malloc_ok connect_ok =
     (if fst (tcp_connect socket malloc_ok connect_ok {}) < 0 then Exited EXIT_FAILURE else Exited EXIT_SUCCESS)"

text \<open>The server: without a socket it goes on with descriptor -1, on which \<open>bind\<close> fails.\<close>

definition tcp_open :: "nat option \<Rightarrow> bool \<Rightarrow> bool \<Rightarrow> bool \<Rightarrow> nat \<Rightarrow> nat set \<Rightarrow> int \<times> nat set" where
  "tcp_open socket malloc_ok bind_ok listen_ok max_client F =
     (let F' = (case socket of None \<Rightarrow> F | Some fd \<Rightarrow> insert fd F); closed = (case socket of None \<Rightarrow> F' | Some fd \<Rightarrow> F' - {fd})
      in if \<not> malloc_ok then (- 1, F')
         else if socket = None \<or> \<not> bind_ok then (- 1, closed)
         else if max_client > 5 \<or> \<not> listen_ok then (- 1, closed)
         else (int (the socket), F'))"

text \<open>\<open>tcp_accept\<close> hands \<open>accept\<close> the address of a pointer as the address of a length, so the kernel takes the low half of
  the pointer for the size of the buffer, refuses a negative one, and stores 16 there.\<close>

definition tcp_accept :: "64 word \<Rightarrow> (nat \<times> 64 word) option" where
  "tcp_accept addrlen =
     (let len = (ucast addrlen :: 32 word)
      in if sint len < 0 then None else Some (unat len, (addrlen AND NOT (mask 32)) OR 16))"

text \<open>The loop: the addresses of the clients (16 bytes) and whether \<open>fork\<close> succeeds; the result lists the structures
  that the children print.\<close>

fun accept_loop :: "(byte list \<times> bool) option list \<Rightarrow> byte list \<Rightarrow> 64 word \<Rightarrow> int outcome \<times> byte list list" where
  "accept_loop [] assoc addrlen = (Running, [])"
| "accept_loop (None # evs) assoc addrlen = (Exited EXIT_FAILURE, [])"
| "accept_loop (Some (peer, forked) # evs) assoc addrlen =
     (case tcp_accept addrlen of
        None \<Rightarrow> (Exited EXIT_FAILURE, [])
      | Some (len, addrlen) \<Rightarrow>
          (let assoc = poke assoc 0 (take len peer); (r, logs) = accept_loop evs assoc addrlen
           in (r, if forked then assoc # logs else logs)))"

text \<open>The handler of \<open>SIGINT\<close>: \<open>getchar\<close> on standard input.  At the end of the input the loop never ends.\<close>

fun clear_standard_output :: "byte list \<Rightarrow> byte list option" where
  "clear_standard_output [] = None"
| "clear_standard_output (c # cs) = (if c = NL then Some cs else clear_standard_output cs)"

definition server_sigint :: "byte list \<Rightarrow> unit outcome \<times> byte list" where
  "server_sigint stdin =
     (case clear_standard_output (tl stdin) of
        None \<Rightarrow> (Running, [])
      | Some left \<Rightarrow> (if hd stdin = CHR ''y'' \<or> hd stdin = CHR ''Y'' then Exited EXIT_SUCCESS else Returned (), left))"

section \<open>Lemmas\<close>

lemma cstr_NL_NUL: "cstr (d @ NL # NUL # r) = cstr (d @ [NL])"
  by (induction d) (simp_all add: cstr_def)

lemma store_whole_family [simp]: "store_family 16 f = AF_INET"
  by (simp add: store_family_def)

lemma udp_store_16:
  "addr_size \<sigma> = 16 \<Longrightarrow>
     udp_store xs \<sigma> = (True, \<sigma>\<lparr>message_buffer := poke (message_buffer \<sigma>) 0 (take 256 xs), sa_family := AF_INET\<rparr>)"
  by (simp add: udp_store_def Let_def)

definition udp_ready :: "udp_server \<Rightarrow> bool" where
  "udp_ready \<sigma> \<longleftrightarrow> length (message_buffer \<sigma>) = 256 \<and> addr_size \<sigma> = 16"

lemma udp_turn_dgram:
  assumes "udp_ready \<sigma>" "length d < 255" "d \<noteq> []"
  shows "\<exists>b. udp_turn (Dgram d) \<sigma> = Some (\<sigma>\<lparr>message_buffer := b, sa_family := AF_INET, shown := shown \<sigma> @ cstr (d @ [NL]), message_id := message_id \<sigma> + 1\<rparr>) \<and>
     length b = 256"
proof -
  define r where "r = drop (length d + 2) (message_buffer \<sigma>)"
  define x where "x = message_buffer \<sigma> ! length d"
  define y where "y = message_buffer \<sigma> ! Suc (length d)"
  have i: "length (message_buffer \<sigma>) = 256" "addr_size \<sigma> = 16" using assms(1) by (simp_all add: udp_ready_def)
  have m: "drop (length d) (message_buffer \<sigma>) = x # y # r"
    using Cons_nth_drop_Suc [of "length d" "message_buffer \<sigma>"] Cons_nth_drop_Suc [of "Suc (length d)" "message_buffer \<sigma>"] i(1) assms(2)
    by (simp add: r_def x_def y_def)
  have l: "length r = 254 - length d" using i(1) by (simp add: r_def)
  have "poke (message_buffer \<sigma>) 0 d = d @ x # y # r" using i(1) assms(2) m by (simp add: poke_eq)
  then have b: "(poke (message_buffer \<sigma>) 0 d)[length d := NL, Suc (length d) := NUL] = d @ NL # NUL # r"
    by (simp add: list_update_append)
  show ?thesis
    using assms l by (intro exI [of _ "d @ NL # NUL # r"]) (simp add: udp_turn_def udp_store_16 [OF i(2)] Let_def b cstr_NL_NUL)
qed

text \<open>The three kinds of datagrams.\<close>

lemma udp_turn_cases:
  assumes "udp_ready \<sigma>"
  obtains "255 \<le> length d" "udp_turn (Dgram d) \<sigma> = None"
  | \<tau> where "length d < 255" "udp_turn (Dgram d) \<sigma> = Some \<tau>" "udp_ready \<tau>" "sa_family \<tau> = AF_INET"
      "shown \<tau> = shown \<sigma> @ (if d = [] then [] else cstr (d @ [NL]))"
      "message_id \<tau> = message_id \<sigma> + (if d = [] then 0 else 1)"
proof -
  have i: "addr_size \<sigma> = 16" using assms by (simp add: udp_ready_def)
  consider "255 \<le> length d" | "d = []" | "length d < 255" "d \<noteq> []" by linarith
  then show thesis
  proof cases
    case 1
    then have "udp_turn (Dgram d) \<sigma> = None" by (cases "d = []") (simp_all add: udp_turn_def udp_store_16 [OF i] Let_def)
    then show thesis using 1 that(1) by simp
  next
    case 2
    then have "udp_turn (Dgram d) \<sigma> = Some (\<sigma>\<lparr>sa_family := AF_INET\<rparr>)"
      by (simp add: udp_turn_def udp_store_16 [OF i] Let_def)
    then show thesis using 2 assms that(2) [of "\<sigma>\<lparr>sa_family := AF_INET\<rparr>"] by (simp add: udp_ready_def)
  next
    case 3
    then obtain b where "udp_turn (Dgram d) \<sigma> = Some (\<sigma>\<lparr>message_buffer := b, sa_family := AF_INET, shown := shown \<sigma> @ cstr (d @ [NL]), message_id := message_id \<sigma> + 1\<rparr>)"
      "length b = 256" using udp_turn_dgram [OF assms] by blast
    then show thesis
      using 3 i that(2) [of "\<sigma>\<lparr>message_buffer := b, sa_family := AF_INET, shown := shown \<sigma> @ cstr (d @ [NL]), message_id := message_id \<sigma> + 1\<rparr>"]
      by (simp add: udp_ready_def)
  qed
qed

lemma udp_turns_dgrams:
  assumes "udp_ready \<sigma>"
  shows "case udp_turns (map Dgram ds) \<sigma> of
       None \<Rightarrow> \<exists>d \<in> set ds. 255 \<le> length d
     | Some \<tau> \<Rightarrow> (\<forall>d \<in> set ds. length d < 255) \<and>
         shown \<tau> = shown \<sigma> @ concat (map (\<lambda>d. if d = [] then [] else cstr (d @ [NL])) ds) \<and>
         message_id \<tau> = message_id \<sigma> + length (filter (\<lambda>d. d \<noteq> []) ds)"
  using assms
proof (induction ds arbitrary: \<sigma>)
  case (Cons d ds)
  show ?case
  proof (cases rule: udp_turn_cases [OF Cons.prems, of d])
    case (2 \<tau>)
    then show ?thesis using Cons.IH [OF 2(3)] by (auto split: option.splits)
  qed simp
qed simp

lemma udp_turns_failure:
  assumes "udp_ready \<sigma>" "sa_family \<sigma> = AF_INET \<or> ds \<noteq> []"
  shows "udp_turns (map Dgram ds @ Recv_fails e # evs) \<sigma> = None"
  using assms
proof (induction ds arbitrary: \<sigma>)
  case (Cons d ds)
  show ?case
  proof (cases rule: udp_turn_cases [OF Cons.prems(1), of d])
    case (2 \<tau>)
    then show ?thesis using Cons.IH [OF 2(3)] by simp
  qed simp
qed (simp add: udp_turn_def Let_def)

lemma udp_store_ready:
  "length (message_buffer \<sigma>) = 256 \<Longrightarrow> 0 \<le> sint (addr_size \<sigma>) \<Longrightarrow>
     udp_ready (snd (udp_store xs \<sigma>)) \<and> shown (snd (udp_store xs \<sigma>)) = shown \<sigma> \<and> message_id (snd (udp_store xs \<sigma>)) = message_id \<sigma>"
  by (simp add: udp_store_def udp_ready_def Let_def)

text \<open>With a negative size no call of \<open>recvfrom\<close> ever succeeds.\<close>

lemma udp_store_negative:
  "sint (addr_size \<sigma>) < 0 \<Longrightarrow> udp_store xs \<sigma> = (False, \<sigma>\<lparr>message_buffer := poke (message_buffer \<sigma>) 0 (take 256 xs)\<rparr>)"
  by (simp add: udp_store_def Let_def)

lemma udp_turn_negative:
  assumes "sint (addr_size \<sigma>) < 0"
  shows "if sa_family \<sigma> = AF_INET then udp_turn ev \<sigma> = None
     else (\<exists>b. udp_turn ev \<sigma> = Some (\<sigma>\<lparr>message_buffer := b\<rparr>))"
proof (cases ev)
  case (Dgram xs)
  then show ?thesis by (simp add: udp_turn_def udp_store_negative [OF assms] Let_def) blast
next
  case (Recv_fails e)
  have "udp_server.more \<sigma> = ()" "\<sigma> = \<sigma>\<lparr>message_buffer := message_buffer \<sigma>\<rparr>" by simp_all
  then show ?thesis using Recv_fails by (auto simp: udp_turn_def Let_def intro: exI [of _ "message_buffer \<sigma>"])
qed

lemma udp_turns_negative:
  assumes "sint (addr_size \<sigma>) < 0" "sa_family \<sigma> \<noteq> AF_INET"
  shows "\<exists>b. udp_turns evs \<sigma> = Some (\<sigma>\<lparr>message_buffer := b\<rparr>)"
  using assms
proof (induction evs arbitrary: \<sigma>)
  case Nil
  have "\<sigma> = \<sigma>\<lparr>message_buffer := message_buffer \<sigma>\<rparr>" by simp
  then show ?case by (metis udp_turns.simps(1))
next
  case (Cons ev evs)
  obtain b where "udp_turn ev \<sigma> = Some (\<sigma>\<lparr>message_buffer := b\<rparr>)" using udp_turn_negative [OF Cons.prems(1), of ev] Cons.prems(2) by auto
  then show ?case using Cons.IH [of "\<sigma>\<lparr>message_buffer := b\<rparr>"] Cons.prems by simp
qed

lemma low_half:
  fixes p :: "64 word"
  shows "(ucast ((p AND NOT (mask 32)) OR 16) :: 32 word) = 16"
  by (rule bit_word_eqI) (auto simp: bit_simps)

lemma tcp_accept_again:
  "tcp_accept ((p AND NOT (mask 32)) OR 16) = Some (16, (p AND NOT (mask 32)) OR 16)"
proof -
  have "(((p AND NOT (mask 32)) OR 16) AND NOT (mask 32)) OR 16 = (p AND NOT (mask 32)) OR 16"
    by (rule bit_word_eqI) (auto simp: bit_simps)
  then show ?thesis by (simp add: tcp_accept_def low_half Let_def)
qed

lemma accept_loop_16:
  assumes "\<forall>(peer, forked) \<in> set cs. length peer = 16" "length assoc = 16"
  shows "accept_loop (map Some cs) assoc ((p AND NOT (mask 32)) OR 16) = (Running, map fst (filter snd cs))"
  using assms
proof (induction cs arbitrary: assoc)
  case (Cons c cs)
  obtain peer forked where c: "c = (peer, forked)" by (cases c)
  then have l: "length peer = 16" using Cons.prems(1) by auto
  then have k: "poke assoc 0 (take 16 peer) = peer" using Cons.prems(2) by (simp add: poke_eq)
  have "accept_loop (map Some cs) peer ((p AND NOT (mask 32)) OR 16) = (Running, map fst (filter snd cs))"
    by (rule Cons.IH [OF _ l]) (use Cons.prems(1) in auto)
  then show ?case by (simp add: c tcp_accept_again k Let_def)
qed simp

section \<open>Properties\<close>

text \<open>C32: the datagram server shows every message, once and in order, when it starts with a size of the address that
  is not negative: the datagram it peeks at is shown like the others, each up to its first NUL or with a newline behind it, and
  empty datagrams are passed over.  This holds while no message has more than 254 bytes: with a longer one the newline or
  the NUL after it is stored past the array (\<open>None\<close>).  A \<open>recvfrom\<close> that fails after some datagram makes the program
  store before the array.  The size of the address is not initialised: with a negative one every \<open>recvfrom\<close>
  fails, and then either the family of the address, not initialised either, is by chance that of the internet, and the first
  datagram makes the program store before the array; or nothing is ever shown, and all datagrams are lost.\<close>
theorem udp_server_prints_datagrams:
  assumes "length (message_buffer \<sigma>) = 256"
  shows "(0 \<le> sint (addr_size \<sigma>) \<longrightarrow>
       (case udp_recv_server (map Dgram ds) \<sigma> of
          None \<Rightarrow> \<exists>d \<in> set ds. 255 \<le> length d
        | Some \<tau> \<Rightarrow> (\<forall>d \<in> set ds. length d < 255) \<and>
            shown \<tau> = shown \<sigma> @ concat (map (\<lambda>d. if d = [] then [] else cstr (d @ [NL])) ds) \<and>
            message_id \<tau> = message_id \<sigma> + length (filter (\<lambda>d. d \<noteq> []) ds)) \<and>
       (ds \<noteq> [] \<longrightarrow> udp_recv_server (map Dgram ds @ Recv_fails e # evs) \<sigma> = None)) \<and>
     (sint (addr_size \<sigma>) < 0 \<longrightarrow>
       (case udp_recv_server (Dgram d # evs) \<sigma> of
          None \<Rightarrow> sa_family \<sigma> = AF_INET
        | Some \<tau> \<Rightarrow> sa_family \<sigma> \<noteq> AF_INET \<and> shown \<tau> = shown \<sigma>))"
proof (intro conjI impI)
  assume n: "0 \<le> sint (addr_size \<sigma>)"
  note r = udp_store_ready [OF assms n]
  show "case udp_recv_server (map Dgram ds) \<sigma> of
          None \<Rightarrow> \<exists>d \<in> set ds. 255 \<le> length d
        | Some \<tau> \<Rightarrow> (\<forall>d \<in> set ds. length d < 255) \<and>
            shown \<tau> = shown \<sigma> @ concat (map (\<lambda>d. if d = [] then [] else cstr (d @ [NL])) ds) \<and>
            message_id \<tau> = message_id \<sigma> + length (filter (\<lambda>d. d \<noteq> []) ds)"
  proof (cases ds)
    case (Cons d' ds')
    then have e: "udp_recv_server (map Dgram ds) \<sigma> = udp_turns (map Dgram ds) (snd (udp_store d' \<sigma>))"
      by (simp add: udp_recv_server_def)
    have s: "shown (snd (udp_store d' \<sigma>)) = shown \<sigma>" "message_id (snd (udp_store d' \<sigma>)) = message_id \<sigma>" "udp_ready (snd (udp_store d' \<sigma>))"
      using r by simp_all
    from udp_turns_dgrams [OF s(3), of ds] show ?thesis unfolding e s(1,2) .
  qed (simp add: udp_recv_server_def)
  show "udp_recv_server (map Dgram ds @ Recv_fails e # evs) \<sigma> = None" if "ds \<noteq> []"
  proof (cases ds)
    case (Cons d' ds')
    then have e: "udp_recv_server (map Dgram ds @ Recv_fails e # evs) \<sigma> =
        udp_turns (map Dgram ds @ Recv_fails e # evs) (snd (udp_store d' \<sigma>))"
      by (simp add: udp_recv_server_def)
    show ?thesis unfolding e using udp_turns_failure r [of d'] that by blast
  qed (use that in simp)
next
  assume n: "sint (addr_size \<sigma>) < 0"
  let ?s = "\<sigma>\<lparr>message_buffer := poke (message_buffer \<sigma>) 0 (take 256 d)\<rparr>"
  have r: "udp_recv_server (Dgram d # evs) \<sigma> = udp_turns (Dgram d # evs) ?s"
    by (simp add: udp_recv_server_def udp_store_negative [OF n])
  show "case udp_recv_server (Dgram d # evs) \<sigma> of
          None \<Rightarrow> sa_family \<sigma> = AF_INET
        | Some \<tau> \<Rightarrow> sa_family \<sigma> \<noteq> AF_INET \<and> shown \<tau> = shown \<sigma>"
  proof (cases "sa_family \<sigma> = AF_INET")
    case True
    then show ?thesis using udp_turn_negative [of ?s "Dgram d"] n by (simp add: r)
  next
    case False
    obtain b where b: "udp_turns (Dgram d # evs) ?s = Some (?s\<lparr>message_buffer := b\<rparr>)"
      using udp_turns_negative [of ?s "Dgram d # evs"] n False by auto
    show ?thesis unfolding r b using False by simp
  qed
qed

text \<open>The three cases: two messages and a failure, an empty one and one that is too long, a negative size.\<close>

theorem udp_server_prints_datagrams_witness:
  "udp_recv_server [Dgram ''hi'', Recv_fails EINTR] \<lparr>message_buffer = replicate 256 NUL, sa_family = 0, addr_size = 0, shown = [], message_id = 0\<rparr> = None \<and>
   udp_recv_server (map Dgram [[], replicate 255 (CHR ''a'')]) \<lparr>message_buffer = replicate 256 NUL, sa_family = 0, addr_size = 0, shown = [], message_id = 0\<rparr> = None \<and>
   (\<exists>\<tau>. udp_recv_server [Dgram ''hi''] \<lparr>message_buffer = replicate 256 NUL, sa_family = 7, addr_size = - 1, shown = [], message_id = 0\<rparr> = Some \<tau> \<and> shown \<tau> = [])"
proof -
  let ?s = "\<lambda>f n. \<lparr>message_buffer = replicate 256 NUL, sa_family = f, addr_size = n, shown = [], message_id = 0\<rparr>"
  have "udp_recv_server [Dgram ''hi'', Recv_fails EINTR] (?s 0 0) = None"
    using udp_server_prints_datagrams [of "?s 0 0" "[''hi'']" EINTR "[]" "[]"] by simp
  moreover have "udp_recv_server (map Dgram [[], replicate 255 (CHR ''a'')]) (?s 0 0) = None"
    using udp_server_prints_datagrams [of "?s 0 0" "[[], replicate 255 (CHR ''a'')]" EINTR "[]" "[]"] by (simp split: option.splits)
  moreover have "case udp_recv_server [Dgram ''hi''] (?s 7 (- 1)) of None \<Rightarrow> sa_family (?s 7 (- 1)) = AF_INET
      | Some \<tau> \<Rightarrow> sa_family (?s 7 (- 1)) \<noteq> AF_INET \<and> shown \<tau> = shown (?s 7 (- 1))"
    using udp_server_prints_datagrams [of "?s 7 (- 1)" "[]" EINTR "[]" "''hi''"] by simp
  then have "\<exists>\<tau>. udp_recv_server [Dgram ''hi''] (?s 7 (- 1)) = Some \<tau> \<and> shown \<tau> = []"
    by (simp add: AF_INET_def split: option.splits)
  ultimately show ?thesis by blast
qed

text \<open>The stream pair of \<open>send_recv\<close>.  The client and the server agree on a port, which is 14619 and not 6969 because
  neither converts it; the child logs the first piece of what its client sent, up to a NUL, and its length, whatever its
  array held; a piece fills at most the 256 bytes before the last.\<close>
theorem recv_child_logs_a_piece:
  assumes "src_pending src \<noteq> []" "length message = MESSAGE_LEN + 1"
  shows "(\<exists>xs ys. src_pending src = xs @ ys \<and> xs \<noteq> [] \<and> length xs \<le> MESSAGE_LEN \<and>
        recv_child src message = (Exited EXIT_SUCCESS, recv_log (length xs) (cstr xs))) \<and>
     htons SERVER_PORT = 14619"
proof -
  obtain xs src' where r: "sys_read src MESSAGE_LEN = (Inr xs, src')" "xs \<noteq> []" "length xs \<le> MESSAGE_LEN" "src_pending src = xs @ src_pending src'"
    using file_reader.rd_some [OF assms(1), of MESSAGE_LEN] by (auto simp: MESSAGE_LEN_def)
  obtain y ys where m: "drop (length xs) message = y # ys"
    using r(3) assms(2) by (cases "drop (length xs) message") auto
  have "poke message 0 xs = xs @ y # ys" using r(3) assms(2) m by (simp add: poke_eq)
  moreover have "cstr (if y \<noteq> NUL then (xs @ y # ys)[length xs := NUL] else xs @ y # ys) = cstr xs"
  proof -
    have "cstr (xs @ NUL # ys) = cstr xs" by (induction xs) (simp_all add: cstr_def)
    then show ?thesis by (simp add: list_update_append)
  qed
  ultimately have "recv_child src message = (Exited EXIT_SUCCESS, recv_log (length xs) (cstr xs))"
    using r(1) by (simp add: recv_child_def Let_def)
  moreover have "htons SERVER_PORT = 14619" by (simp add: htons_def SERVER_PORT_def)
  ultimately show ?thesis using r by blast
qed

theorem recv_child_logs_a_piece_witness:
  "\<exists>n. recv_child [Data ''Hello''] (replicate 257 (CHR ''?'')) = (Exited EXIT_SUCCESS, n)"
  using recv_child_logs_a_piece [of "[Data ''Hello'']" "replicate 257 (CHR ''?'')"] by (auto simp: MESSAGE_LEN_def)

text \<open>\<open>sockaddr.c\<close> talks to \<open>bind.c\<close>.  Over TCP the server prints a beginning of the message, and with it the NULs of
  the client's array.  Over UDP it prints the message and then what its own array held behind it up to a NUL, and reads
  past the array if there is none, after any number of failing reads.\<close>
theorem bind_shows_the_message:
  assumes "src_broken src = None" "src_pending src = written (snd (sockaddr_main True True sp \<lparr>written = [], grants = []\<rparr>))"
    and "length junk = 256"
  shows "(\<exists>n > 0. bind_tcp (Some src) = take n (''Hello, TCP!'' @ replicate 245 NUL)) \<and>
     bind_udp (map Inl es @ [Inr (written (snd (sockaddr_main False True sp \<lparr>written = [], grants = []\<rparr>)))]) junk =
       Returned (if NUL \<in> set (drop 11 junk) then Some (''Hello, UDP!'' @ cstr (drop 11 junk)) else None)"
proof -
  have m: "src_pending src = ''Hello, TCP!'' @ replicate 245 NUL"
    using assms(2) by (simp add: sockaddr_main_def Let_def sys_write_def)
  have "src_pending src \<noteq> []" using m by simp
  then obtain xs src' where r: "sys_read src 256 = (Inr xs, src')" "xs \<noteq> []" "src_pending src = xs @ src_pending src'"
    using file_reader.rd_some [of src 256] by auto
  have "bind_tcp (Some src) = take (length xs) (''Hello, TCP!'' @ replicate 245 NUL)"
    using r(1) arg_cong [OF r(3), of "take (length xs)"] unfolding m by (simp add: bind_tcp_def)
  then have t: "\<exists>n > 0. bind_tcp (Some src) = take n (''Hello, TCP!'' @ replicate 245 NUL)" using r(2) by blast
  have f: "bind_udp (map Inl es @ reads) junk = bind_udp reads junk" for reads by (induction es) simp_all
  have "poke junk 0 ''Hello, UDP!'' = ''Hello, UDP!'' @ drop 11 junk" using assms(3) by (subst poke_0_append) (simp_all add: eval_nat_numeral)
  moreover have "cstr (''Hello, UDP!'' @ z) = ''Hello, UDP!'' @ cstr z" for z by (simp add: cstr_def)
  ultimately show ?thesis using t by (simp add: f sockaddr_main_def sys_write_def Let_def)
qed

theorem bind_shows_the_message_witness:
  "bind_udp [Inl EINTR, Inr ''Hello, UDP!''] (replicate 256 (CHR ''x'')) = Returned None"
proof -
  have "src_pending [Data (''Hello, TCP!'' @ replicate 245 NUL)] = written (snd (sockaddr_main True True True \<lparr>written = [], grants = []\<rparr>))"
    by (simp add: sockaddr_main_def sys_write_def Let_def)
  then show ?thesis
    using bind_shows_the_message [of "[Data (''Hello, TCP!'' @ replicate 245 NUL)]" True "replicate 256 (CHR ''x'')" "[EINTR]"]
    by (simp add: sockaddr_main_def sys_write_def Let_def)
qed

text \<open>The server of \<open>accept.c\<close> depends on an address of its heap.  If the low half of the pointer \<open>client_association_size\<close>
  is negative as an \<open>int\<close>, the first \<open>accept\<close> fails and the server ends.  If it is at least 16, every client is logged
  with its own address.  If it is smaller, the first is logged with the last bytes of memory nothing was stored in; the
  clients after it are logged rightly, because \<open>accept\<close> has put 16 into the pointer.\<close>
theorem accept_server_depends_on_the_heap:
  fixes addrlen :: "64 word"
  assumes "\<forall>(peer, forked) \<in> set ((peer, True) # cs). length peer = 16" "length assoc = 16"
  shows "(sint (ucast addrlen :: 32 word) < 0 \<longrightarrow> accept_loop (map Some ((peer, True) # cs)) assoc addrlen = (Exited EXIT_FAILURE, [])) \<and>
     (0 \<le> sint (ucast addrlen :: 32 word) \<longrightarrow> accept_loop (map Some ((peer, True) # cs)) assoc addrlen =
        (Running, (take (unat (ucast addrlen :: 32 word)) peer @ drop (unat (ucast addrlen :: 32 word)) assoc) # map fst (filter snd cs)))"
proof -
  let ?n = "unat (ucast addrlen :: 32 word)"
  have l: "length peer = 16" "\<forall>(peer, forked) \<in> set cs. length peer = 16" using assms(1) by auto
  have k: "poke assoc 0 (take ?n peer) = take ?n peer @ drop ?n assoc"
    using l(1) assms(2) by (cases "?n \<le> 16") (simp_all add: poke_eq)
  have "length (take ?n peer @ drop ?n assoc) = 16" using l(1) assms(2) by simp
  from accept_loop_16 [OF l(2) this, of addrlen] show ?thesis
    by (simp add: tcp_accept_def Let_def k)
qed

theorem accept_server_depends_on_the_heap_witness:
  "accept_loop [Some (replicate 16 NUL, True)] (replicate 16 NUL) 0x5555D5D592C0 = (Exited EXIT_FAILURE, [])"
  using accept_server_depends_on_the_heap [of "replicate 16 NUL" "[]" "replicate 16 NUL" "0x5555D5D592C0"] by simp

text \<open>The descriptors of \<open>tcp_open\<close> and \<open>tcp_connect\<close>.  A new descriptor is returned and open, or the call fails and
  leaves nothing open, except when there is no memory for the address: then the socket stays open and nobody has its
  number.  A queue of more than five clients is always refused.\<close>
theorem tcp_open_closes_on_failure:
  assumes "fd \<notin> F"
  shows "tcp_open (Some fd) True b l n F = (if b \<and> l \<and> n \<le> 5 then (int fd, insert fd F) else (- 1, F)) \<and>
     tcp_connect (Some fd) True c F = (if c then (int fd, insert fd F) else (- 1, F)) \<and>
     tcp_open (Some fd) False b l n F = (- 1, insert fd F) \<and> tcp_connect (Some fd) False c F = (- 1, insert fd F) \<and>
     tcp_open None True b l n F = (- 1, F)"
  using assms by (auto simp: tcp_open_def tcp_connect_def Let_def)

theorem tcp_open_closes_on_failure_witness:
  "tcp_open (Some 3) True True True 6 {0, 1, 2} = (- 1, {0, 1, 2})"
  using tcp_open_closes_on_failure [of 3 "{0, 1, 2}" True True 6 True] by simp

text \<open>The question of \<open>server_sigint\<close>.  A line that begins with y or Y ends the server and any other line but an empty
  one lets it go on, the line being used up; an empty line uses up the next line as well, whatever it says; and without a
  newline in the input after its first character the handler never returns.\<close>
theorem server_sigint_takes_a_line:
  assumes "NL \<notin> set l" "c \<noteq> NL"
  shows "server_sigint (c # l @ NL # left) = (if c = CHR ''y'' \<or> c = CHR ''Y'' then Exited EXIT_SUCCESS else Returned (), left) \<and>
     server_sigint (NL # l @ NL # left) = (Returned (), left) \<and>
     server_sigint (c' # l) = (Running, []) \<and> server_sigint [] = (Running, [])"
proof -
  have "clear_standard_output (l @ NL # left) = Some left" "clear_standard_output l = None"
    using assms(1) by (induction l) auto
  then show ?thesis by (simp add: server_sigint_def)
qed

theorem server_sigint_takes_a_line_witness:
  "server_sigint (NL # ''yes'' @ NL # ''n'') = (Returned (), ''n'')"
  using server_sigint_takes_a_line [of "''yes''" "CHR ''a''" "''n''"] by simp

end
