(* ===== verification/Popen.thy ===== *)
theory Popen
  imports Kernel_IO
begin

text \<open>
  \<open>4_pipe_stdio_lib/popenclose.c\<close>: a file name from standard input is given to \<open>cat\<close> in a shell, whose output is
  copied line by line; then the output of \<open>/bin/pwd\<close> is printed.  \<open>popen\<close> is an argument: from a command to the
  stream of its output, or nothing.
\<close>

section \<open>The program\<close>

definition MAXLINE :: nat where "MAXLINE = 1024"

text \<open>The lines go out through \<open>write\<close>, as far as \<open>strlen\<close> sees them.\<close>

function cat_lines :: "stream_in \<Rightarrow> sink \<Rightarrow> unit outcome \<times> stream_in \<times> sink" where
  "cat_lines fp k =
     (case fgets MAXLINE fp of
        (None, fp) \<Rightarrow> (Returned (), fp, k)
      | (Some line, fp) \<Rightarrow>
          (case sys_write k (cstr line) of
             (Inl e, k) \<Rightarrow> (Exited EXIT_FAILURE, fp, k)
           | (Inr n, k) \<Rightarrow> if n \<noteq> strlen line then (Exited EXIT_FAILURE, fp, k) else cat_lines fp k))"
  by pat_completeness auto

termination
  by (relation "measure (\<lambda>(fp, k). length (rest fp))") (auto simp: MAXLINE_def dest: fgets_shrinks [OF sym])

declare cat_lines.simps [simp del]

definition popen_command :: "byte list \<Rightarrow> byte list" where
  "popen_command line = ''cat '' @ cstr line"

definition popen_main :: "(byte list \<Rightarrow> stream_in option) \<Rightarrow> stream_in \<Rightarrow> sink \<Rightarrow> int outcome \<times> byte list" where
  "popen_main popen stdin k =
     (case fgets MAXLINE stdin of
        (None, _) \<Rightarrow> (Exited EXIT_FAILURE, written k)
      | (Some line, _) \<Rightarrow>
          (case popen (popen_command line) of
             None \<Rightarrow> (Exited EXIT_FAILURE, written k)
           | Some fp \<Rightarrow>
               (case cat_lines fp k of
                  (Returned _, fp, k) \<Rightarrow>
                    if ferror fp then (Exited EXIT_FAILURE, written k)
                    else (case popen ''/bin/pwd'' of
                            None \<Rightarrow> (Exited EXIT_FAILURE, written k)
                          | Some fp \<Rightarrow>
                              (case fgets MAXLINE fp of
                                 (None, _) \<Rightarrow> (Exited EXIT_FAILURE, written k)
                               | (Some line, _) \<Rightarrow> (Returned 0, written k @ ''Current Directory: '' @ cstr line)))
                | (_, fp, k) \<Rightarrow> (Exited EXIT_FAILURE, written k))))"

section \<open>Lemmas\<close>

text \<open>Cutting the output into lines and long lines into pieces loses nothing but what follows a NUL.\<close>

lemma cat_lines_copies:
  assumes "NUL \<notin> set (rest fp)" "grants k = []"
  shows "cat_lines fp k = (Returned (), fp\<lparr>rest := []\<rparr>, k\<lparr>written := written k @ rest fp\<rparr>)"
  using assms
proof (induction fp k rule: cat_lines.induct)
  case (1 fp k)
  show ?case
  proof (cases "rest fp")
    case Nil
    then have "fp\<lparr>rest := []\<rparr> = fp" by (cases fp) simp
    then show ?thesis using Nil by (simp add: cat_lines.simps [of fp] fgets_def)
  next
    case (Cons x xs)
    define l where "l = take_line (MAXLINE - 1) (rest fp)"
    have f: "fgets MAXLINE fp = (Some l, fp\<lparr>rest := drop (length l) (rest fp)\<rparr>)"
      using Cons by (simp add: fgets_def l_def Let_def)
    have s: "l @ drop (length l) (rest fp) = rest fp" unfolding l_def by (rule take_line_append_drop)
    then have n: "NUL \<notin> set l" "NUL \<notin> set (drop (length l) (rest fp))"
      using "1.prems"(1) by (metis Un_iff set_append)+
    have w: "sys_write k (cstr l) = (Inr (length l), k\<lparr>written := written k @ l\<rparr>)"
      using n(1) "1.prems"(2) by (simp add: sys_write_def cstr_no_NUL)
    have c: "strlen l = length l" using n(1) by (simp add: strlen_def cstr_no_NUL)
    have i: "cat_lines (fp\<lparr>rest := drop (length l) (rest fp)\<rparr>) (k\<lparr>written := written k @ l\<rparr>) =
        (Returned (), fp\<lparr>rest := []\<rparr>, k\<lparr>written := written k @ rest fp\<rparr>)"
      using "1.IH" [OF f [symmetric] refl w [symmetric] refl] n(2) "1.prems"(2) c s by simp
    show ?thesis unfolding cat_lines.simps [of fp k] f using w c i by simp
  qed
qed

section \<open>Properties\<close>

text \<open>The program prints the whole output of the command for its line, however long its lines are, and then the first
  line of the output of \<open>pwd\<close>, if there is no NUL in them; and the command fits in its array of \<open>MAXLINE + 10\<close> bytes,
  whatever the line is.\<close>
theorem popen_prints_the_output:
  assumes "rest stdin \<noteq> []" "popen (popen_command (take_line (MAXLINE - 1) (rest stdin))) = Some fp"
    and "NUL \<notin> set (rest fp)" "\<not> read_error fp" "popen ''/bin/pwd'' = Some pwd" "rest pwd = d @ NL # more_output" "NL \<notin> set d" "NUL \<notin> set d"
    and "length d < MAXLINE - 1" "grants k = []"
  shows "popen_main popen stdin k = (Returned 0, written k @ rest fp @ ''Current Directory: '' @ d @ [NL]) \<and>
     length (popen_command (take_line (MAXLINE - 1) line)) < MAXLINE + 10"
proof -
  have t: "take_line m (d @ NL # more_output) = d @ [NL]" if "length d < m" for m
    using that assms(7)
  proof (induction d arbitrary: m)
    case Nil
    then show ?case by (cases m) simp_all
  next
    case (Cons x d)
    then show ?case by (cases m) auto
  qed
  have f: "fgets MAXLINE pwd = (Some (d @ [NL]), pwd\<lparr>rest := more_output\<rparr>)"
    using t [OF assms(9)] assms(6) by (simp add: fgets_def Let_def)
  have c: "cstr (d @ [NL]) = d @ [NL]" using assms(8) by (intro cstr_no_NUL) simp
  have g: "fgets MAXLINE stdin = (Some (take_line (MAXLINE - 1) (rest stdin)),
      stdin\<lparr>rest := drop (length (take_line (MAXLINE - 1) (rest stdin))) (rest stdin)\<rparr>)"
    using assms(1) by (simp add: fgets_def Let_def)
  have "length (cstr (take_line (MAXLINE - 1) line)) \<le> length (take_line (MAXLINE - 1) line)"
    by (simp add: cstr_def length_takeWhile_le)
  then have "length (popen_command (take_line (MAXLINE - 1) line)) < MAXLINE + 10"
    using length_take_line [of "MAXLINE - 1" line] by (simp add: popen_command_def MAXLINE_def)
  then show ?thesis
    unfolding popen_main_def g prod.case option.case assms(2,5) cat_lines_copies [OF assms(3,10)] f c
    using assms(4) by (simp add: ferror_def)
qed

theorem popen_prints_the_output_witness:
  "popen_main (\<lambda>c. if c = ''cat f'' @ [NL] then Some \<lparr>rest = ''x'', read_error = False\<rparr> else Some \<lparr>rest = ''/'' @ [NL], read_error = False\<rparr>)
     \<lparr>rest = ''f'' @ [NL], read_error = False\<rparr> \<lparr>written = [], grants = []\<rparr> = (Returned 0, ''xCurrent Directory: /'' @ [NL])"
proof -
  let ?p = "\<lambda>c. if c = ''cat f'' @ [NL] then Some \<lparr>rest = ''x'', read_error = False\<rparr> else Some \<lparr>rest = ''/'' @ [NL], read_error = False\<rparr>"
  let ?in = "\<lparr>rest = ''f'' @ [NL], read_error = False\<rparr>"
  have "popen_command (take_line (MAXLINE - 1) (rest ?in)) = ''cat f'' @ [NL]"
    by (simp add: MAXLINE_def popen_command_def cstr_def)
  then have "?p (popen_command (take_line (MAXLINE - 1) (rest ?in))) = Some \<lparr>rest = ''x'', read_error = False\<rparr>" by simp
  from popen_prints_the_output [where popen = ?p and stdin = ?in and pwd = "\<lparr>rest = ''/'' @ [NL], read_error = False\<rparr>" and d = "''/''" and
      k = "\<lparr>written = [], grants = []\<rparr>" and more_output = "[]" and line = "[]", OF _ this]
  show ?thesis by (simp add: MAXLINE_def)
qed

end
