(* ===== verification/System_Info.thy ===== *)
theory System_Info
  imports C_Library
begin

unbundle bit_operations_syntax

text \<open>
  The programs that ask the system and print: the types of files, the arguments and the environment, a group, the
  options of a socket; and the ones that make and remove one object: \<open>msg.c\<close> and \<open>ns_pipe\<close>.  The answers of the system
  are arguments.
\<close>

section \<open>Chapter 2\<close>

definition S_IFMT :: "16 word" where "S_IFMT = 0xF000"
definition S_IFDIR :: "16 word" where "S_IFDIR = 0x4000"
definition S_IFCHR :: "16 word" where "S_IFCHR = 0x2000"
definition S_IFBLK :: "16 word" where "S_IFBLK = 0x6000"
definition S_IFREG :: "16 word" where "S_IFREG = 0x8000"
definition S_IFLNK :: "16 word" where "S_IFLNK = 0xA000"
definition S_IFSOCK :: "16 word" where "S_IFSOCK = 0xC000"
definition S_IFIFO :: "16 word" where "S_IFIFO = 0x1000"

lemmas file_types = S_IFMT_def S_IFDIR_def S_IFCHR_def S_IFBLK_def S_IFREG_def S_IFLNK_def S_IFSOCK_def S_IFIFO_def

definition type_of :: "16 word \<Rightarrow> byte list" where
  "type_of st_mode =
     (let t = st_mode AND S_IFMT
      in if t = S_IFDIR then ''directory''
         else if t = S_IFCHR then ''character special''
         else if t = S_IFBLK then ''block special''
         else if t = S_IFREG then ''regular''
         else if t = S_IFLNK then ''symbolic link''
         else if t = S_IFSOCK then ''socket''
         else if t = S_IFIFO then ''fifo''
         else ''** unknown mode **'')"

text \<open>\<open>9_file/typeof_file.c\<close>; \<open>stat\<close> gives the mode of the file a name stands for.\<close>

fun typeof_file :: "(byte list \<Rightarrow> 16 word option) \<Rightarrow> byte list list \<Rightarrow> int outcome \<times> byte list" where
  "typeof_file stat [] = (Returned 0, [])"
| "typeof_file stat (f # fs) =
     (case stat f of
        None \<Rightarrow> (Exited EXIT_FAILURE, f @ '': '' @ ''fstat error'' @ [NL])
      | Some m \<Rightarrow> (let (r, out) = typeof_file stat fs in (r, f @ '': '' @ type_of m @ [NL] @ out)))"

text \<open>\<open>3_environment_list/environ.c\<close>: arguments are numbered from 1, variables from 0.\<close>

fun numbered :: "nat \<Rightarrow> byte list list \<Rightarrow> byte list" where
  "numbered n [] = []"
| "numbered n (s # ss) = show_nat n @ ''. '' @ s @ [NL] @ numbered (Suc n) ss"

definition environ_main :: "byte list list \<Rightarrow> byte list list \<Rightarrow> byte list" where
  "environ_main argv envp =
     (if length argv = 1 then ''[LOG] No additional arguments provided to the main process.'' @ [NL]
      else ''[LOG] The provided arguments are:'' @ [NL] @ numbered 1 argv) @
     ''[LOG] The environment variables are: '' @ [NL] @ numbered 0 envp"

text \<open>\<open>4_check_env_var/check_env.c\<close> without the addresses it prints.\<close>

definition CHECK_ENV :: "(byte list \<Rightarrow> byte list option) \<Rightarrow> byte list \<Rightarrow> byte list" where
  "CHECK_ENV getenv env_str =
     (case getenv env_str of None \<Rightarrow> env_str @ '' is not defined'' @ [NL] | Some v \<Rightarrow> env_str @ '' = '' @ v @ [NL])"

definition check_env_main :: "(byte list \<Rightarrow> byte list option) \<Rightarrow> byte list" where
  "check_env_main getenv = CHECK_ENV getenv ''HOME'' @ CHECK_ENV getenv ''TERM'' @ CHECK_ENV getenv ''SHELL''"

text \<open>\<open>8_group/group.c\<close>; \<open>None\<close> is a use of a null pointer.\<close>

record group =
  gr_name :: "byte list"
  gr_passwd :: "byte list"
  gr_gid :: int
  gr_mem :: "byte list list"

fun group_members :: "nat \<Rightarrow> byte list list \<Rightarrow> byte list" where
  "group_members n [] = []"
| "group_members n (s # ss) = ''[MEM LOG] '' @ show_nat (n + 1) @ ''. '' @ s @ [NL] @ group_members (Suc n) ss"

definition print_group :: "group \<Rightarrow> byte list" where
  "print_group grp = ''[LOG] Group Name: '' @ gr_name grp @ [NL] @ ''[LOG] Group Password: '' @ gr_passwd grp @ [NL] @
     ''[LOG] Group ID: '' @ show_int (gr_gid grp) @ [NL] @ ''[LOG] Group members: '' @ [NL] @ group_members 0 (gr_mem grp)"

definition group_main :: "group option \<Rightarrow> group option \<Rightarrow> byte list option" where
  "group_main by_id by_name =
     (let first = (case by_id of
                     None \<Rightarrow> ''[ERROR] Invalid Effective Group ID.'' @ [NL]
                   | Some grp \<Rightarrow> ''[LOG] The information regarding the getgrgid for real group ID is: '' @ [NL] @ print_group grp)
      in case by_name of
           None \<Rightarrow> Some (first @ ''[ERROR] Invalid Group Name.'' @ [NL])
         | Some _ \<Rightarrow>
             (case by_id of
                None \<Rightarrow> None
              | Some grp \<Rightarrow> Some (first @ ''[LOG] The information regarding the getgrnam for group name staff is: '' @ [NL] @ print_group grp)))"

section \<open>Chapter 3: msg.c\<close>

text \<open>The queues there are, by key; \<open>may\<close> says whether this process may use the queue of a key that exists, and
  \<open>free\<close> whether the system has room for one more.\<close>

definition msgget_creat :: "(int \<Rightarrow> bool) \<Rightarrow> bool \<Rightarrow> int \<Rightarrow> int set \<Rightarrow> int set option" where
  "msgget_creat may free key queues =
     (if key \<in> queues then (if may key then Some queues else None) else if free then Some (insert key queues) else None)"

definition KEY :: int where "KEY = 98765"

text \<open>\<open>owns\<close>: the process may remove the queue.\<close>

fun msg_loop :: "nat \<Rightarrow> (int \<Rightarrow> bool) \<Rightarrow> (int \<Rightarrow> bool) \<Rightarrow> bool \<Rightarrow> int set \<Rightarrow> int outcome \<times> int set" where
  "msg_loop 0 may owns free queues = (Returned 0, queues)"
| "msg_loop (Suc i) may owns free queues =
     (case msgget_creat may free KEY queues of
        None \<Rightarrow> (Exited EXIT_FAILURE, queues)
      | Some qs \<Rightarrow> if KEY \<in> queues \<and> \<not> owns KEY then (Exited EXIT_FAILURE, qs) else msg_loop i may owns free (qs - {KEY}))"

definition msg_main :: "(int \<Rightarrow> bool) \<Rightarrow> (int \<Rightarrow> bool) \<Rightarrow> bool \<Rightarrow> int set \<Rightarrow> int outcome \<times> int set" where
  "msg_main may owns free queues = msg_loop 10 may owns free queues"

section \<open>Chapter 6\<close>

text \<open>\<open>ns_pipe\<close>: a stream pipe with a name; \<open>room\<close> is the size of \<open>sun_path\<close>.  The state is the open descriptors and the names
  in use; \<open>None\<close> is a store past the address.\<close>

definition ns_pipe :: "nat \<Rightarrow> (nat \<times> nat) option \<Rightarrow> (byte list \<Rightarrow> bool) \<Rightarrow> byte list \<Rightarrow> nat set \<times> byte list set \<Rightarrow> (int \<times> nat set \<times> byte list set) option" where
  "ns_pipe room socketpair may_create pname \<sigma> =
     (case socketpair of
        None \<Rightarrow> Some (- 1, \<sigma>)
      | Some (a, b) \<Rightarrow>
          (let F = fst \<sigma> \<union> {a, b}; names = snd \<sigma> - {pname}
           in if room \<le> length pname then None
              else if may_create pname then Some (0, F, insert pname names) else Some (- 1, F, names)))"

text \<open>\<open>8.socket_options/get_set_sockopt.c\<close>: calls in a row, each with the text that goes before the reason when it fails and
  what is printed when it succeeds.\<close>

fun run_calls :: "(byte list \<times> int option \<times> (int \<Rightarrow> byte list)) list \<Rightarrow> int outcome \<times> byte list \<times> byte list option" where
  "run_calls [] = (Returned 0, [], None)"
| "run_calls ((text, None, pr) # cs) = (Returned (- 1), [], Some text)"
| "run_calls ((text, Some v, pr) # cs) = (let (r, out, err) = run_calls cs in (r, pr v @ out, err))"

definition say :: "byte list \<Rightarrow> int \<Rightarrow> byte list" where
  "say label v = label @ '' = '' @ show_int v @ [NL]"

definition say_type :: "int \<Rightarrow> byte list" where
  "say_type v = say ''SO_TYPE'' v @
     (if v = 1 then ''SO_TYPE = '' @ show_int v @ '' (stream socket)'' @ [NL]
      else if v = 2 then ''SO_TYPE = '' @ show_int v @ '' (datagram socket)'' @ [NL]
      else if v = 3 then ''SO_TYPE = '' @ show_int v @ '' (raw socket)'' @ [NL] else [])"

datatype sockopt = TCP_MAXSEG | SO_SNDBUF | SO_RCVBUF | SO_DEBUG | TCP_NODELAY | IP_OPTIONS | SO_TYPE | SO_RCVLOWAT | SO_SNDLOWAT

text \<open>\<open>get0\<close> is \<open>getsockopt\<close> before the buffer size is set and \<open>get\<close> after; the length is what \<open>IP_OPTIONS\<close> gives;
  \<open>linger\<close> are the two members of \<open>SO_LINGER\<close>.\<close>

definition sockopt_calls :: "bool \<Rightarrow> (sockopt \<Rightarrow> int option) \<Rightarrow> bool \<Rightarrow> (sockopt \<Rightarrow> int option) \<Rightarrow> bool \<Rightarrow> (int \<times> int) option \<Rightarrow>
    (byte list \<times> int option \<times> (int \<Rightarrow> byte list)) list" where
  "sockopt_calls socket_ok get0 set_ok get bind_ok linger =
     [(''socket error: can't open socket'', if socket_ok then Some 0 else None, \<lambda>_. []),
      (''getsockopt error: TCP_MAXSEG value not fetched'', get0 TCP_MAXSEG, say ''TCP_MAXSEG''),
      (''setsockopt error: SO_SNDBUF value not set'', if set_ok then Some 0 else None, \<lambda>_. []),
      (''getsockopt error: SO_SNDBUF value not fetched'', get SO_SNDBUF, say ''SO_SNDBUF''),
      (''getsockopt error: SO_RCVBUF value not fetched'', get SO_RCVBUF, say ''SO_RCVBUF''),
      (''getsockopt error: SO_RCVBUF value not fetched'', get SO_DEBUG, say ''SO_DEBUG''),
      (''getsockopt error: SO_RCVBUF value not fetched'', get TCP_NODELAY, say ''TCP_NODELAY''),
      (''bind error: unable to bind an address to the socket'', if bind_ok then Some 0 else None, \<lambda>_. []),
      (''getsockopt error: SO_RCVBUF value not fetched'', get IP_OPTIONS, say ''get_ip_opts_len''),
      (''getsockopt error: SO_RCVBUF value not fetched'', get SO_TYPE, say_type),
      (''getsockopt error: SO_RCVBUF value not fetched'', get SO_RCVLOWAT, say ''SO_RCVLOWAT''),
      (''getsockopt error: SO_RCVBUF value not fetched'', get SO_SNDLOWAT, say ''SO_SNDLOWAT''),
      (''getsockopt error: SO_RCVBUF value not fetched'', map_option fst linger,
         \<lambda>on. ''SO_LINGER: member l_onoff = '' @ show_int on @ '' and member l_linger = '' @ show_int (snd (the linger)) @ [NL])]"

definition sockopt_main :: "bool \<Rightarrow> (sockopt \<Rightarrow> int option) \<Rightarrow> bool \<Rightarrow> (sockopt \<Rightarrow> int option) \<Rightarrow> bool \<Rightarrow> (int \<times> int) option \<Rightarrow>
    int outcome \<times> byte list \<times> byte list option" where
  "sockopt_main socket_ok get0 set_ok get bind_ok linger = run_calls (sockopt_calls socket_ok get0 set_ok get bind_ok linger)"

text \<open>\<open>sock_ioctl.c\<close> on the state of a socket; \<open>address\<close> is the one of the interface \<open>en0\<close>.\<close>

record sock_state =
  nonblocking :: bool
  asynchronous :: bool
  owner :: int

definition ioctl_main :: "(nat \<Rightarrow> bool) \<Rightarrow> int \<Rightarrow> byte list option \<Rightarrow> sock_state \<Rightarrow> int outcome \<times> byte list \<times> sock_state" where
  "ioctl_main call_ok pgrp address s =
     (if \<not> call_ok 0 \<or> \<not> call_ok 1 then (Returned (- 1), [], s)
      else let s = s\<lparr>nonblocking := True\<rparr>
      in if \<not> call_ok 2 then (Returned (- 1), [], s)
      else let s = s\<lparr>asynchronous := True\<rparr>
      in if \<not> call_ok 3 then (Returned (- 1), [], s)
      else let out = (if nonblocking s then ''log: The given socket descriptor is set as non-blocking.'' @ [NL] else []) @
                     (if asynchronous s then ''log: The given socket descriptor is set for asynchronous i/o.'' @ [NL] else [])
      in if \<not> call_ok 4 then (Returned (- 1), out, s)
      else let s = s\<lparr>owner := pgrp\<rparr>
      in if \<not> call_ok 5 then (Returned (- 1), out, s)
      else let out = out @ ''log: The process group ID associated with sockfd is: '' @ show_int (owner s) @ [NL]
      in case address of
           None \<Rightarrow> (Returned (- 1), out, s)
         | Some a \<Rightarrow> (Returned 0, out @ ''log: en0 IP address name: '' @ a @ [NL] @ ''log: the size of `struct ifreq` is: 32'' @ [NL], s))"

text \<open>\<open>sock_fcntl.c\<close>; \<open>flags\<close> is the answer to \<open>F_GETFL\<close>.\<close>

definition fcntl_main :: "bool \<Rightarrow> bool \<Rightarrow> int \<Rightarrow> (int \<Rightarrow> int option) \<Rightarrow> 32 word option \<Rightarrow> int outcome \<times> byte list" where
  "fcntl_main socket_ok setown_ok pid getown flags =
     (if \<not> socket_ok \<or> \<not> setown_ok then (Returned (- 1), [])
      else case getown pid of
             None \<Rightarrow> (Returned (- 1), [])
           | Some o' \<Rightarrow>
               if o' = - 1 then (Returned (- 1), [])
               else (let out = ''F_GETOWN for socket `sockfd` = '' @ show_int o' @ [NL]
                     in case flags of
                          None \<Rightarrow> (Returned (- 1), out)
                        | Some f \<Rightarrow> (Returned 0, out @ ''The flags variable is: '' @ show_int (sint f))))"

text \<open>\<open>10.select/select.c\<close>: a sleep; \<open>atol\<close> and the result of \<open>select\<close> without descriptors are arguments.\<close>

definition select_main :: "(byte list \<Rightarrow> int) \<Rightarrow> (int \<times> int \<Rightarrow> errno option) \<Rightarrow> byte list list \<Rightarrow> int outcome" where
  "select_main atol select argv =
     (if length argv \<noteq> 3 then Returned (- 1)
      else case select (atol (argv ! 1), atol (argv ! 2)) of Some e \<Rightarrow> Returned (- 1) | None \<Rightarrow> Returned 0)"

section \<open>Properties\<close>

lemma mode_bits:
  fixes t p :: "16 word"
  assumes "t AND 0xF000 = t" "p AND 0xF000 = 0"
  shows "(t OR p) AND 0xF000 = t"
  using assms by (metis bit.conj_disj_distrib2 bit.disj_zero_right)

text \<open>\<open>typeof_file\<close>.  The name depends on the type bits of the mode alone, the permissions do not matter, and different
  types have different names.  If every \<open>stat\<close> succeeds there is a line for each argument and the program returns 0;
  otherwise it prints the lines before the first failure and that one's, and exits with 1.\<close>
theorem typeof_file_names_types:
  assumes "\<forall>f \<in> set fs. stat f \<noteq> None" "stat g = None" "p AND S_IFMT = 0"
  shows "typeof_file stat fs = (Returned 0, concat (map (\<lambda>f. f @ '': '' @ type_of (the (stat f)) @ [NL]) fs)) \<and>
     typeof_file stat (fs @ g # hs) =
       (Exited EXIT_FAILURE, concat (map (\<lambda>f. f @ '': '' @ type_of (the (stat f)) @ [NL]) fs) @ g @ '': '' @ ''fstat error'' @ [NL]) \<and>
     map (\<lambda>t. type_of (t OR p)) [S_IFDIR, S_IFCHR, S_IFBLK, S_IFREG, S_IFLNK, S_IFSOCK, S_IFIFO] =
       [''directory'', ''character special'', ''block special'', ''regular'', ''symbolic link'', ''socket'', ''fifo'']"
proof -
  have "typeof_file stat fs = (Returned 0, concat (map (\<lambda>f. f @ '': '' @ type_of (the (stat f)) @ [NL]) fs))"
    using assms(1) by (induction fs) auto
  moreover have "typeof_file stat (fs @ g # hs) =
      (Exited EXIT_FAILURE, concat (map (\<lambda>f. f @ '': '' @ type_of (the (stat f)) @ [NL]) fs) @ g @ '': '' @ ''fstat error'' @ [NL])"
    using assms(1,2) by (induction fs) auto
  moreover have "(t OR p) AND S_IFMT = t" if "t AND 0xF000 = t" for t
    using mode_bits [OF that] assms(3) by (simp add: S_IFMT_def)
  then have "map (\<lambda>t. (t OR p) AND S_IFMT) [S_IFDIR, S_IFCHR, S_IFBLK, S_IFREG, S_IFLNK, S_IFSOCK, S_IFIFO] =
      [S_IFDIR, S_IFCHR, S_IFBLK, S_IFREG, S_IFLNK, S_IFSOCK, S_IFIFO]" by (simp add: file_types)
  then have "map (\<lambda>t. type_of (t OR p)) [S_IFDIR, S_IFCHR, S_IFBLK, S_IFREG, S_IFLNK, S_IFSOCK, S_IFIFO] =
      [''directory'', ''character special'', ''block special'', ''regular'', ''symbolic link'', ''socket'', ''fifo'']"
    by (simp add: type_of_def Let_def) (simp add: file_types)
  ultimately show ?thesis by blast
qed

theorem typeof_file_names_types_witness:
  "typeof_file (\<lambda>f. if f = ''a'' then Some 0x81A4 else None) [''a'', ''b''] = (Exited EXIT_FAILURE, ''a: regular'' @ [NL] @ ''b: fstat error'' @ [NL])"
  using typeof_file_names_types [of "[''a'']" "\<lambda>f. if f = ''a'' then Some 0x81A4 else None" "''b''" 0 "[]"]
  by (simp add: type_of_def file_types Let_def)

text \<open>\<open>group.c\<close> prints the group of the user under the name of \<open>staff\<close>: what the second lookup finds is never printed, and
  when the first has found nothing and the second something, the program uses a null pointer.\<close>
theorem group_prints_the_wrong_group:
  "group_main (Some g) (Some staff) = group_main (Some g) (Some staff') \<and> group_main None (Some staff) = None \<and>
   group_main (Some g) (Some staff) =
     Some (''[LOG] The information regarding the getgrgid for real group ID is: '' @ [NL] @ print_group g @
       ''[LOG] The information regarding the getgrnam for group name staff is: '' @ [NL] @ print_group g)"
  by (simp add: group_main_def Let_def)

text \<open>\<open>msg.c\<close> ends without a queue of its key: its ten rounds of making and removing succeed when there is room, and a
  queue of that key which was there before, made by another program, is gone too, unless the process may not use or not
  remove it, in which case it exits with 1.\<close>
theorem msg_main_removes_the_queue:
  assumes "free"
  shows "msg_main may owns free queues =
     (if KEY \<in> queues \<and> \<not> (may KEY \<and> owns KEY) then (Exited EXIT_FAILURE, queues) else (Returned 0, queues - {KEY}))"
proof -
  have l: "msg_loop i may owns free qs = (Returned 0, qs)" if "KEY \<notin> qs" for i qs
    using that assms by (induction i) (simp_all add: msgget_creat_def)
  have e: "msg_main may owns free queues = msg_loop (Suc 9) may owns free queues" unfolding msg_main_def by simp
  show ?thesis unfolding e msg_loop.simps(2) using assms l by (simp add: msgget_creat_def)
qed

theorem msg_main_removes_the_queue_witness:
  "msg_main (\<lambda>_. True) (\<lambda>_. True) True {KEY} = (Returned 0, {})"
  using msg_main_removes_the_queue [of True "\<lambda>_. True" "\<lambda>_. True" "{KEY}"] by simp

text \<open>The options of a socket.  When all calls succeed the program returns 0 and prints every value; when one fails it
  returns -1, has printed the values of the calls before it, and says which, except that every failure from \<open>SO_DEBUG\<close>
  on is reported as one of \<open>SO_RCVBUF\<close>.\<close>
theorem sockopt_main_reports:
  assumes "run_calls (sockopt_calls socket_ok get0 set_ok get bind_ok linger) = (r, out, err)"
  shows "(r = Returned 0 \<longleftrightarrow> err = None) \<and> (r = Returned 0 \<or> r = Returned (- 1)) \<and>
     (r = Returned 0 \<longleftrightarrow> socket_ok \<and> set_ok \<and> bind_ok \<and> get0 TCP_MAXSEG \<noteq> None \<and> linger \<noteq> None \<and> (\<forall>x. x \<noteq> TCP_MAXSEG \<longrightarrow> get x \<noteq> None)) \<and>
     (socket_ok \<and> set_ok \<and> bind_ok \<and> get0 TCP_MAXSEG \<noteq> None \<and> get SO_SNDBUF \<noteq> None \<and> r = Returned (- 1) \<longrightarrow>
        err = Some ''getsockopt error: SO_RCVBUF value not fetched'')"
proof -
  have all: "(\<forall>x. x \<noteq> TCP_MAXSEG \<longrightarrow> get x \<noteq> None) \<longleftrightarrow> get SO_SNDBUF \<noteq> None \<and> get SO_RCVBUF \<noteq> None \<and> get SO_DEBUG \<noteq> None \<and>
      get TCP_NODELAY \<noteq> None \<and> get IP_OPTIONS \<noteq> None \<and> get SO_TYPE \<noteq> None \<and> get SO_RCVLOWAT \<noteq> None \<and> get SO_SNDLOWAT \<noteq> None"
    by (metis sockopt.exhaust sockopt.distinct(1,3,5,7,9,11,13,15))
  have run: "case run_calls cs of (r, out, err) \<Rightarrow>
      (r = Returned 0 \<longleftrightarrow> (\<forall>c \<in> set cs. fst (snd c) \<noteq> None)) \<and> (r = Returned 0 \<longleftrightarrow> err = None) \<and> (r = Returned 0 \<or> r = Returned (- 1)) \<and>
      (r = Returned (- 1) \<longrightarrow> (\<exists>c \<in> set cs. fst (snd c) = None \<and> err = Some (fst c)))" for cs
    by (induction cs rule: run_calls.induct) (auto split: prod.splits)
  note R = run [of "sockopt_calls socket_ok get0 set_ok get bind_ok linger", unfolded assms prod.case]
  have c: "(\<forall>c \<in> set (sockopt_calls socket_ok get0 set_ok get bind_ok linger). fst (snd c) \<noteq> None) \<longleftrightarrow>
      socket_ok \<and> set_ok \<and> bind_ok \<and> get0 TCP_MAXSEG \<noteq> None \<and> linger \<noteq> None \<and> (\<forall>x. x \<noteq> TCP_MAXSEG \<longrightarrow> get x \<noteq> None)"
    unfolding all by (simp add: sockopt_calls_def) blast
  have d: "fst c = ''getsockopt error: SO_RCVBUF value not fetched''"
    if "c \<in> set (sockopt_calls socket_ok get0 set_ok get bind_ok linger)" "fst (snd c) = None"
      "socket_ok" "set_ok" "bind_ok" "get0 TCP_MAXSEG \<noteq> None" "get SO_SNDBUF \<noteq> None" for c
    using that by (simp add: sockopt_calls_def) (elim disjE; simp)
  have "err = Some ''getsockopt error: SO_RCVBUF value not fetched''"
    if "socket_ok \<and> set_ok \<and> bind_ok \<and> get0 TCP_MAXSEG \<noteq> None \<and> get SO_SNDBUF \<noteq> None \<and> r = Returned (- 1)"
    using R d that by metis
  then show ?thesis using R unfolding c by blast
qed

theorem sockopt_main_reports_witness:
  "snd (snd (sockopt_main True (\<lambda>_. Some 512) True (\<lambda>x. if x = SO_TYPE then None else Some 1) True (Some (0, 0)))) =
     Some ''getsockopt error: SO_RCVBUF value not fetched''"
proof -
  obtain r out err where "run_calls (sockopt_calls True (\<lambda>_. Some 512) True (\<lambda>x. if x = SO_TYPE then None else Some 1) True (Some (0, 0))) = (r, out, err)"
    by (metis prod_cases3)
  from sockopt_main_reports [OF this] this show ?thesis by (auto simp: sockopt_main_def)
qed

text \<open>The state of a socket in \<open>sock_ioctl.c\<close>: when no call fails, the program says that the socket is non-blocking and
  asynchronous and that it belongs to the process group, and so it is; a failing call leaves what the earlier ones did.\<close>
theorem ioctl_main_sets_the_socket:
  "ioctl_main (\<lambda>_. True) pgrp (Some a) s =
     (Returned 0, ''log: The given socket descriptor is set as non-blocking.'' @ [NL] @ ''log: The given socket descriptor is set for asynchronous i/o.'' @ [NL] @
        ''log: The process group ID associated with sockfd is: '' @ show_int pgrp @ [NL] @ ''log: en0 IP address name: '' @ a @ [NL] @
        ''log: the size of `struct ifreq` is: 32'' @ [NL], s\<lparr>nonblocking := True, asynchronous := True, owner := pgrp\<rparr>) \<and>
   ioctl_main (\<lambda>i. i \<noteq> 2) pgrp (Some a) s = (Returned (- 1), [], s\<lparr>nonblocking := True\<rparr>)"
  by (simp add: ioctl_main_def Let_def)

text \<open>\<open>ns_pipe\<close>.  When the name fits, the two ends are open and the name is the new pipe's whatever it was before; a name
  that cannot be bound leaves both ends open without telling the caller, and the old name removed; a name as long as the
  address is stored past it.\<close>
theorem ns_pipe_names_the_pipe:
  assumes "length pname < room"
  shows "ns_pipe room (Some (a, b)) may pname (F, names) =
     Some (if may pname then (0, F \<union> {a, b}, insert pname names) else (- 1, F \<union> {a, b}, names - {pname})) \<and>
     ns_pipe (length pname) (Some (a, b)) may pname (F, names) = None"
  using assms by (auto simp: ns_pipe_def Let_def)

theorem ns_pipe_names_the_pipe_witness:
  "ns_pipe 108 (Some (3, 4)) (\<lambda>_. False) ''x'' ({0, 1, 2}, {''x''}) = Some (- 1, {0, 1, 2} \<union> {3, 4}, {})"
  using ns_pipe_names_the_pipe [of "''x''" 108 3 4 "\<lambda>_. False" "{0, 1, 2}" "{''x''}"] by simp

end
