(* ===== verification/Spec2Isabelle.thy ===== *)
theory Spec2Isabelle
  imports Datagram Echo Stream_IO Strtol Ip_To_Hex Iovec Rresvport Semaphore Locking MultiBuffer Mux_Messages Stream_Messages Inetd_Loop Pass_Fd Select_Copy Pipe_Server Async_IO Tcp_Daemon Stream_Mains Handshake Fifo_Server Err_Syslog Signals Copy_File One_Message Popen System_Info
begin

text \<open>
  A verification development for the programs of the repository: the C code written along Stevens' \<open>Unix Network
  Programming\<close> (chapters 2, 3, 5 and 6).  The programs are small, but each of them rests on a contract with the
  kernel and with another process, and that contract is what the development states and proves.

  \<^bold>\<open>How programs are modelled.\<close>  A function that computes is a HOL function on the same data; a string in an
  array is a list of bytes up to its NUL, a buffer is the whole array, updated in place (\<open>poke\<close>); an \<open>int\<close> whose
  range matters is kept as such.  A function that calls the kernel takes the call as an argument or acts on a
  record that holds the kernel's part; its result is an \<open>outcome\<close> (\<open>Returned\<close>, \<open>Exited\<close> with the status,
  \<open>Aborted\<close>, \<open>Running\<close>), so every error path is a branch.  A program whose behaviour depends on the order of
  events is a machine: one function per process, one system call or one change of shared data per step, run over
  an arbitrary list that says whose turn it is or which signal comes.  Sizes and byte orders are those of a
  64-bit little-endian machine.  What the kernel decides freely (how a stream is split, when a write is short,
  which call fails) is a script, and the theorems hold for every script that the hypotheses name.

  \<^bold>\<open>Shared theories.\<close>  \<open>Prelude\<close>: bytes, \<open>errno\<close>, \<open>outcome\<close>, arrays, lines, the lowest free descriptor.
  \<open>C_Library\<close>: \<open>strlen\<close>, \<open>strncmp\<close>, \<open>fgets\<close>, decimal and binary integers with their round trips.  \<open>Kernel_IO\<close>: the
  locales \<open>byte_reader\<close>, \<open>byte_writer\<close> and \<open>duplex\<close>, which say what a program may rely on from \<open>read\<close> and \<open>write\<close>,
  with the scripted descriptors as their interpretation.  \<open>SysV_Sem\<close> and \<open>Byte_Pipe\<close>: the semaphores and the pipes of
  the kernel.  \<open>Rounds\<close>: the locale of processes that take turns, whose theorem turns a measure and the absence of
  deadlock into termination under every fair schedule; \<open>Pipe_Server\<close> and \<open>Fifo_Server\<close> interpret it.

  \<^bold>\<open>Chapter 2.\<close>  \<open>Tcp_Daemon\<close> holds the way into the background of \<open>16_daemon/daemon.c\<close>; \<open>Copy_File\<close> the copy of
  \<open>12_open_file\<close>; \<open>Signals\<close> the programs of \<open>13_signal\<close>, with signals between any two steps: which of them can be lost
  and which cannot.  \<open>System_Info\<close> has the programs that ask the system and print (types of files, groups, environment).

  \<^bold>\<open>Chapter 3.\<close>  \<open>Semaphore\<close> is \<open>9_semaphores/semaphore.c\<close>, the library of counting semaphores with three System V
  semaphores each: an invariant over all interleavings gives that the process count is right, that the creator's
  lock excludes and that the set is removed with its last user.  \<open>Record_Lock\<close> and \<open>Locking\<close> are \<open>lock.c\<close>, the
  lock files and the semaphore locks with their pitfalls, and the programs that count in a file: no update is lost.
  \<open>SharedMem\<close> and \<open>MultiBuffer\<close> are the client and server over shared memory, with one buffer and with a ring.
  \<open>Conversation\<close> is the abstract contract of a file server that answers in messages.  \<open>Messages\<close> has the client and the
  server over any transport (the locale \<open>msg_channel\<close>, a sublocale of the conversation), which is interpreted by message
  queues (\<open>Message_Queue\<close>) and by messages over pipes and FIFOs (\<open>Stream_Messages\<close>); \<open>Mux_Messages\<close>, one queue for all
  clients, interprets the conversation itself.
  \<open>Pipe_Server\<close> is the pair over two pipes, where closing the right ends is what makes it end, and \<open>Fifo_Server\<close>
  the same pair over FIFOs, where the order of the \<open>open\<close> calls decides whether it starts.
  \<open>Popen\<close> is the copy of the output of a command, \<open>Err_Routine\<close> the error routines the programs share.

  \<^bold>\<open>Chapter 5.\<close>  \<open>Ip_To_Hex\<close> is the address converter.

  \<^bold>\<open>Chapter 6.\<close>  \<open>Stream_IO\<close> is \<open>readn\<close>, \<open>writen\<close> and \<open>readline\<close>, proved inside the locales and so for every
  descriptor; \<open>Echo\<close> the echo over streams with its client, \<open>Datagram\<close> the one over datagrams; \<open>Stream_Mains\<close> the main
  programs around them, \<open>Handshake\<close> the greeting of \<open>6.syscalls\<close>, \<open>One_Message\<close> the programs that send one message
  (\<open>send_recv\<close>, \<open>bind.c\<close>, \<open>sockaddr.c\<close>, \<open>accept.c\<close>).
  \<open>Inetd\<close> and \<open>Inetd_Loop\<close> are the super server with its signal handler between any two steps; \<open>Tcp_Daemon\<close> the echo
  daemon; \<open>Pass_Fd\<close> the passing of descriptors and \<open>mycat\<close>, \<open>Err_Syslog\<close> its error routines for
  clients and servers; the options of sockets are in \<open>System_Info\<close>; \<open>Select_Copy\<close> and \<open>Async_IO\<close> the copies with \<open>select\<close> and
  with \<open>SIGIO\<close>.  The emulations of library functions are \<open>Strtol\<close>, \<open>Rresvport\<close> and \<open>Iovec\<close>.

  \<^bold>\<open>Interfaces.\<close>  \<open>duplex\<close> is interpreted by the scripted socket (\<open>sock\<close>) and by the server's end of a connection
  (\<open>srv\<close>), \<open>byte_reader\<close> by the client's end, behind which the real server runs (\<open>cli\<close>); \<open>datagram_sender\<close> by the
  scripted network; \<open>msg_channel\<close> by the queues and the pipes; \<open>rounds\<close> by the pipes and the FIFOs;
  \<open>signalled\<close> (a signal that is noted ends the loop) by both signal programs; \<open>lock_scheme\<close> by every pair of lock and
  unlock routines; \<open>conversation\<close> by all that interprets \<open>msg_channel\<close> and by the multiplexed queue.

  \<^bold>\<open>What the environment may do.\<close>  A datagram may be lost on either way, and the client of \<open>Datagram\<close> then waits for ever; a
  terminal gives its reader one line at a time, and signals do not queue (\<open>Async_IO\<close>); a child that ended keeps its entry in the
  table of processes until it is waited for (\<open>Stream_Mains\<close>); the kernel gives process identifiers a second time once they are used
  up (\<open>Recycle\<close> in \<open>Inetd_Loop\<close>); a process that exits has its semaphore operations undone, the server of \<open>SharedMem\<close> at
  any time after its function has returned; a variable that the program does not initialise starts with any value
  (\<open>One_Message\<close>); a block from \<open>malloc\<close> has the size that was asked for (\<open>Iovec\<close>).  A store past an array ends the process or
  is \<open>None\<close>, and the theorems say for which inputs it cannot happen.

  \<^bold>\<open>Bounds and fuel.\<close>  A loop that runs until its peer stops takes fuel, one unit a turn.  Where a theorem says that
  it returns, its hypothesis bounds the fuel from below by what the turns consume (one more than the bytes or lines
  to come), so more never changes the result.  The machines have no fuel: theorems of safety speak of every list of
  turns, theorems of termination of every list of rounds of the length that the measure gives.

  \<^bold>\<open>Not modelled.\<close>  The text of diagnostics (\<open>perror\<close>, log lines) except where the program's result depends on it;
  interrupted system calls outside the programs that are about signals; the branches for System V and the XNS
  addresses, which are not compiled on the systems the code was written for.  Programs that only print one answer
  of the system (process and user numbers, time of day, \<open>passwd.c\<close>, \<open>file.c\<close>), \<open>fork.c\<close> and \<open>exec.c\<close> have no behaviour of
  their own.  The copies of a function in several directories are modelled once.
\<close>

end
